(* ===== verification/Prelude.thy ===== *)
theory Prelude
  imports Main "HOL-Library.Word"
begin

text \<open>
  Shared ground of the development: the machine types of the C sources, the result type of
  operations that may call \<^verbatim>\<open>panic()\<close>, the theorem collections the component
  proofs draw on, and the facts on words and lists that several components use.

  \<^item> \<open>u32\<close> is \<^verbatim>\<open>uint\<close> (types.h) and, read through signed comparison,
    C's \<^verbatim>\<open>int\<close>; arithmetic wraps at 32 bits. \<open>u8\<close> is \<^verbatim>\<open>uchar\<close>,
    \<open>u16\<close> is \<^verbatim>\<open>ushort\<close>.
  \<^item> \<open>'a res\<close> is the outcome of kernel code: \<open>Ret v\<close> when it returns \<open>v\<close>,
    \<open>Panic msg\<close> when it stops the machine through \<^verbatim>\<open>panic(msg)\<close>,
    \<open>Fault\<close> when it reads or writes through a null pointer or past the end of an array,
    \<open>Diverge\<close> when a loop over addresses steps past the top of the 32-bit address space and
    starts over, and \<open>Block\<close> when it has to wait for another process or CPU.
\<close>

unbundle bit_operations_syntax

section \<open>Types\<close>

type_synonym u8 = "8 word"
type_synonym u16 = "16 word"
type_synonym u32 = "32 word"

datatype 'a res = Ret 'a | Panic string | Fault | Diverge | Block

fun bind_res :: "'a res \<Rightarrow> ('a \<Rightarrow> 'b res) \<Rightarrow> 'b res" where
  "bind_res (Ret v) f = f v"
| "bind_res (Panic msg) f = Panic msg"
| "bind_res Fault f = Fault"
| "bind_res Diverge f = Diverge"
| "bind_res Block f = Block"

section \<open>Theorem collections\<close>

text \<open>
  \<open>page_simps\<close>: page arithmetic of mmu.h. \<open>mem_simps\<close>: reads after writes of the
  byte memory. \<open>frame_simps\<close>: fields an operation leaves alone.
\<close>

named_theorems page_simps
named_theorems mem_simps
named_theorems frame_simps

section \<open>Results\<close>

lemma bind_res_eq_Ret [simp]:
  "bind_res r f = Ret v \<longleftrightarrow> (\<exists>u. r = Ret u \<and> f u = Ret v)"
  by (cases r) auto

lemma bind_res_eq_Panic:
  "bind_res r f = Panic msg \<longleftrightarrow> r = Panic msg \<or> (\<exists>u. r = Ret u \<and> f u = Panic msg)"
  by (cases r) auto

lemma bind_res_cong [fundef_cong]:
  "r = r' \<Longrightarrow> (\<And>v. r' = Ret v \<Longrightarrow> f v = g v) \<Longrightarrow> bind_res r f = bind_res r' g"
  by (cases r') auto

lemma bind_res_assoc: "bind_res (bind_res r f) g = bind_res r (\<lambda>v. bind_res (f v) g)"
  by (cases r) auto

lemma bind_res_Ret [simp]: "bind_res r Ret = r"
  by (cases r) auto

lemma case_res_Ret:
  "(case r of Ret v \<Rightarrow> P v | Panic _ \<Rightarrow> False | Fault \<Rightarrow> False | Diverge \<Rightarrow> False | Block \<Rightarrow> False)
     \<longleftrightarrow> (\<exists>v. r = Ret v \<and> P v)"
  by (cases r) auto

section \<open>Words\<close>

lemma word_and_not_mask:
  fixes a :: "'a::len word"
  shows "a AND NOT (mask n) = push_bit n (drop_bit n a)"
  by (rule bit_word_eqI) (auto simp: bit_simps)

lemma unat_push_drop_bit:
  fixes a :: "'a::len word"
  shows "unat (push_bit n (drop_bit n a)) = unat a div 2 ^ n * 2 ^ n"
proof -
  have "unat (push_bit n (drop_bit n a)) = take_bit LENGTH('a) (unat a div 2 ^ n * 2 ^ n)"
    unfolding unsigned_push_bit_eq unat_drop_bit_eq
    by (simp only: push_bit_eq_mult drop_bit_eq_div)
  also have "\<dots> = unat a div 2 ^ n * 2 ^ n"
  proof -
    have "unat a div 2 ^ n * 2 ^ n \<le> unat a"
      by (rule div_times_less_eq_dividend)
    also have "unat a < 2 ^ LENGTH('a)"
      by (rule unsigned_less)
    finally show ?thesis by (simp add: take_bit_eq_mod)
  qed
  finally show ?thesis .
qed

lemma unat_add_no_wrap:
  fixes a b :: "'a::len word"
  shows "unat a + unat b < 2 ^ LENGTH('a) \<Longrightarrow> unat (a + b) = unat a + unat b"
  by (simp add: unat_word_ariths)

lemma unat_add32: "unat a + unat b < 4294967296 \<Longrightarrow> unat (a + b :: u32) = unat a + unat b"
  using unat_add_no_wrap [of a b] by simp

lemma unat_sub32: "b \<le> a \<Longrightarrow> unat (a - b :: u32) = unat a - unat b"
  by (rule unat_sub)

lemma sint_of_nat: "n < 2 ^ 31 \<Longrightarrow> sint (of_nat n :: u32) = int n"
  using signed_take_bit_int_eq_self [of 31 "int n"] by (simp add: signed_of_nat)

lemma small_sint: "unat (x :: u32) < 2 ^ 31 \<Longrightarrow> sint x = int (unat x)"
  using sint_of_nat [of "unat x"] by simp

lemma unat_lt32: "unat (a :: u32) < 4294967296"
  using unsigned_less [of a, where ?'a = nat] by simp

lemma word32_eqI: "unat (a :: u32) = unat b \<Longrightarrow> a = b"
  by (rule word_unat_eq_iff [THEN iffD2])

lemma unat_minus_1_32 [simp]: "unat (- 1 :: u32) = 4294967295"
  by (simp add: unsigned_minus_1_eq_mask mask_eq_exp_minus_1)

lemma unat_ucast_u8 [simp]: "unat (ucast (c :: u8) :: u32) = unat c"
proof -
  have "unat c < 2 ^ 8" using unsigned_less [of c, where ?'a = nat] by simp
  then show ?thesis by (simp add: unsigned_ucast_eq take_bit_eq_mod)
qed

lemma ucast_u8_inj [simp]: "(ucast (a :: u8) :: u32) = ucast b \<longleftrightarrow> a = b"
  by (metis unat_ucast_u8 word_unat_eq_iff)

lemma ucast_u8_eq_0 [simp]: "(ucast (a :: u8) :: u32) = 0 \<longleftrightarrow> a = 0"
  using ucast_u8_inj [of a 0] by simp

section \<open>Ring indices\<close>

lemma mod_add_inj_le:
  fixes i j x m :: nat
  assumes "i \<le> j" "j < m" "(x + i) mod m = (x + j) mod m"
  shows "i = j"
proof -
  have "m dvd (x + j) - (x + i)" using assms(1,3) by (metis add_le_cancel_left mod_eq_dvd_iff_nat)
  then have "m dvd j - i" by simp
  then show ?thesis using assms(1,2) by (auto dest: dvd_imp_le)
qed

lemma mod_add_inj: "i < m \<Longrightarrow> j < m \<Longrightarrow> (x + i) mod m = (x + j) mod m \<Longrightarrow> i = (j :: nat)"
  using mod_add_inj_le [of i j m x] mod_add_inj_le [of j i m x] by (cases "i \<le> j") auto

end
