(* ===== verification/Mmu.thy ===== *)
theory Mmu
  imports Prelude
begin

text \<open>
  The memory layout of the kernel: the constants and address macros of mmu.h, memlayout.h,
  param.h, wmap.h, fcntl.h and traps.h that several components use, and the arithmetic of pages they rest on. Constants are
  abbreviations, as a \<^verbatim>\<open>#define\<close> is; the address macros are definitions with
  their unsigned-number meaning proved once here and collected in \<open>page_simps\<close>.
\<close>

section \<open>Constants\<close>

abbreviation (input) PGSIZE :: u32 where "PGSIZE \<equiv> 4096"
abbreviation (input) NPDENTRIES :: nat where "NPDENTRIES \<equiv> 1024"
abbreviation (input) NPTENTRIES :: nat where "NPTENTRIES \<equiv> 1024"
abbreviation (input) PTXSHIFT :: nat where "PTXSHIFT \<equiv> 12"
abbreviation (input) PDXSHIFT :: nat where "PDXSHIFT \<equiv> 22"

abbreviation (input) PTE_P :: u32 where "PTE_P \<equiv> 1"
abbreviation (input) PTE_W :: u32 where "PTE_W \<equiv> 2"
abbreviation (input) PTE_U :: u32 where "PTE_U \<equiv> 4"

abbreviation (input) EXTMEM :: u32 where "EXTMEM \<equiv> 0x100000"
abbreviation (input) PHYSTOP :: u32 where "PHYSTOP \<equiv> 0xE000000"
abbreviation (input) DEVSPACE :: u32 where "DEVSPACE \<equiv> 0xFE000000"
abbreviation (input) KERNBASE :: u32 where "KERNBASE \<equiv> 0x80000000"
abbreviation (input) KERNLINK :: u32 where "KERNLINK \<equiv> KERNBASE + EXTMEM"

abbreviation (input) MAP_PRIVATE :: u32 where "MAP_PRIVATE \<equiv> 1"
abbreviation (input) MAP_SHARED :: u32 where "MAP_SHARED \<equiv> 2"
abbreviation (input) MAP_ANONYMOUS :: u32 where "MAP_ANONYMOUS \<equiv> 4"
abbreviation (input) MAP_FIXED :: u32 where "MAP_FIXED \<equiv> 8"
abbreviation (input) FAILED :: u32 where "FAILED \<equiv> - 1"
abbreviation (input) SUCCESS :: u32 where "SUCCESS \<equiv> 0"
abbreviation (input) MIN_ADDR :: u32 where "MIN_ADDR \<equiv> 0x60000000"
abbreviation (input) MAX_ADDR :: u32 where "MAX_ADDR \<equiv> 0x80000000"
abbreviation (input) MAX_UPAGE_INFO :: nat where "MAX_UPAGE_INFO \<equiv> 32"
abbreviation (input) MAX_WMMAP_INFO :: nat where "MAX_WMMAP_INFO \<equiv> 16"

abbreviation (input) O_RDONLY :: u32 where "O_RDONLY \<equiv> 0"
abbreviation (input) O_WRONLY :: u32 where "O_WRONLY \<equiv> 1"
abbreviation (input) O_RDWR :: u32 where "O_RDWR \<equiv> 2"
abbreviation (input) O_CREATE :: u32 where "O_CREATE \<equiv> 0x200"
abbreviation (input) T_IRQ0 :: u32 where "T_IRQ0 \<equiv> 32"

section \<open>Address macros\<close>

definition V2P :: "u32 \<Rightarrow> u32" where
  "V2P a = a - KERNBASE"

definition P2V :: "u32 \<Rightarrow> u32" where
  "P2V a = a + KERNBASE"

definition PDX :: "u32 \<Rightarrow> u32" where
  "PDX va = drop_bit PDXSHIFT va AND 0x3FF"

definition PTX :: "u32 \<Rightarrow> u32" where
  "PTX va = drop_bit PTXSHIFT va AND 0x3FF"

definition PGADDR :: "u32 \<Rightarrow> u32 \<Rightarrow> u32 \<Rightarrow> u32" where
  "PGADDR d t off = push_bit PDXSHIFT d OR push_bit PTXSHIFT t OR off"

definition PGROUNDUP :: "u32 \<Rightarrow> u32" where
  "PGROUNDUP sz = (sz + PGSIZE - 1) AND NOT (PGSIZE - 1)"

definition PGROUNDDOWN :: "u32 \<Rightarrow> u32" where
  "PGROUNDDOWN a = a AND NOT (PGSIZE - 1)"

definition PTE_ADDR :: "u32 \<Rightarrow> u32" where
  "PTE_ADDR pte = pte AND NOT 0xFFF"

definition PTE_FLAGS :: "u32 \<Rightarrow> u32" where
  "PTE_FLAGS pte = pte AND 0xFFF"

section \<open>Page arithmetic\<close>

abbreviation (input) pg_aligned :: "u32 \<Rightarrow> bool" where
  "pg_aligned a \<equiv> unat a mod 4096 = 0"

lemma mask12: "(4095 :: u32) = mask 12"
  by (simp add: mask_eq_exp_minus_1)

lemma mask10: "(1023 :: u32) = mask 10"
  by (simp add: mask_eq_exp_minus_1)

lemma V2P_P2V [simp]: "V2P (P2V a) = a"
  by (simp add: V2P_def P2V_def)

lemma P2V_V2P [simp]: "P2V (V2P a) = a"
  by (simp add: V2P_def P2V_def)

lemma P2V_inj [simp]: "P2V a = P2V b \<longleftrightarrow> a = b"
  by (simp add: P2V_def)

lemma V2P_inj [simp]: "V2P a = V2P b \<longleftrightarrow> a = b"
  by (simp add: V2P_def)

lemma unat_PGROUNDDOWN [page_simps]: "unat (PGROUNDDOWN a) = unat a div 4096 * 4096"
  using unat_push_drop_bit [of 12 a] by (simp add: PGROUNDDOWN_def mask12 word_and_not_mask)

lemma unat_PTE_ADDR [page_simps]: "unat (PTE_ADDR a) = unat a div 4096 * 4096"
  using unat_push_drop_bit [of 12 a] by (simp add: PTE_ADDR_def mask12 word_and_not_mask)

lemma unat_PTE_FLAGS [page_simps]: "unat (PTE_FLAGS a) = unat a mod 4096"
  by (simp add: PTE_FLAGS_def mask12 flip: take_bit_eq_mask)
     (simp add: take_bit_eq_mod unat_mod_distrib)

lemma unat_PGROUNDUP [page_simps]:
  "unat a \<le> 0xFFFFF000 \<Longrightarrow> unat (PGROUNDUP a) = (unat a + 4095) div 4096 * 4096"
proof -
  assume "unat a \<le> 0xFFFFF000"
  then have "unat (a + 4095) = unat a + 4095"
    by (subst unat_add32) auto
  moreover have "PGROUNDUP a = PGROUNDDOWN (a + 4095)"
    by (simp add: PGROUNDUP_def PGROUNDDOWN_def add.commute)
  ultimately show ?thesis by (simp add: unat_PGROUNDDOWN)
qed

lemma unat_PDX [page_simps]: "unat (PDX a) = unat a div 4194304"
proof -
  have "unat a div 4194304 < 1024"
    using unat_lt32 [of a] by simp
  then show ?thesis
    by (simp add: PDX_def mask10 flip: take_bit_eq_mask)
       (simp add: take_bit_eq_mod drop_bit_eq_div unat_mod_distrib unat_div_distrib)
qed

lemma unat_PTX [page_simps]: "unat (PTX a) = unat a div 4096 mod 1024"
  by (simp add: PTX_def mask10 flip: take_bit_eq_mask)
     (simp add: take_bit_eq_mod drop_bit_eq_div unat_mod_distrib unat_div_distrib)

lemma PGADDR_split: "PGADDR (PDX a) (PTX a) (PTE_FLAGS a) = a"
proof (rule bit_word_eqI)
  fix n
  assume "n < LENGTH(32)"
  then show "bit (PGADDR (PDX a) (PTX a) (PTE_FLAGS a)) n = bit a n"
    by (cases "22 \<le> n"; cases "12 \<le> n")
       (auto simp: PGADDR_def PDX_def PTX_def PTE_FLAGS_def mask10 mask12 bit_simps)
qed

lemma mod_PGSIZE_iff [simp]: "(v mod PGSIZE = 0) = pg_aligned v" for v :: u32
  by (simp add: word_unat_eq_iff unat_mod_distrib)

lemma PGROUNDDOWN_aligned [simp]: "pg_aligned (PGROUNDDOWN a)"
  by (simp add: unat_PGROUNDDOWN)

lemma PTE_ADDR_eq_PGROUNDDOWN: "PTE_ADDR a = PGROUNDDOWN a"
  by (rule word32_eqI) (simp add: unat_PTE_ADDR unat_PGROUNDDOWN)

lemma PGROUNDDOWN_id: "PGROUNDDOWN a = a \<longleftrightarrow> pg_aligned a"
  by (auto simp: word_unat_eq_iff unat_PGROUNDDOWN) (metis mod_mult_self2_is_0)

lemma PGROUNDDOWN_idem [simp]: "PGROUNDDOWN (PGROUNDDOWN a) = PGROUNDDOWN a"
  by (simp add: PGROUNDDOWN_id)

lemma pg_aligned_mod4:
  assumes "pg_aligned p"
  shows "unat p mod 4 = 0"
proof -
  have "unat p mod 4096 mod 4 = unat p mod 4" by (rule mod_mod_cancel) simp
  then show ?thesis using assms by simp
qed

lemma pg_aligned_room: "pg_aligned p \<Longrightarrow> unat p + 4096 \<le> 4294967296"
  using unat_lt32 [of p] by auto

text \<open>An address is in page \<open>p\<close> when it is less than a page above it.\<close>

lemma in_page_iff:
  assumes "pg_aligned p"
  shows "unat (x - p) < 4096 \<longleftrightarrow> PGROUNDDOWN x = p"
proof
  assume lt: "unat (x - p) < 4096"
  have "unat (p + (x - p)) = unat p + unat (x - p)"
    using pg_aligned_room [OF assms] lt by (intro unat_add32) linarith
  then have "unat x = unat p + unat (x - p)" by simp
  then have "unat x div 4096 * 4096 = unat p"
    using assms lt by (auto simp: mod_eq_0_iff_dvd)
  then show "PGROUNDDOWN x = p"
    by (intro word32_eqI) (simp add: unat_PGROUNDDOWN)
next
  assume "PGROUNDDOWN x = p"
  then have p: "unat p = unat x div 4096 * 4096" by (auto simp: unat_PGROUNDDOWN)
  then have "p \<le> x" by (simp add: word_le_nat_alt)
  then have "unat (x - p) = unat x - unat p" by (rule unat_sub32)
  with p show "unat (x - p) < 4096" by (simp add: minus_div_mult_eq_mod)
qed

lemma PGROUNDDOWN_add:
  assumes "pg_aligned p" "unat k < 4096"
  shows "PGROUNDDOWN (p + k) = p"
  using in_page_iff [OF assms(1), of "p + k"] assms(2) by simp

end
