(* ===== verification/Mem.thy ===== *)
theory Mem
  imports Mmu
begin

text \<open>
  Byte-addressed memory and the kernel's string routines (string.c). Memory is a function
  from 32-bit addresses to bytes; \<open>load32\<close> and \<open>store32\<close> are the little-endian
  word accesses of the machine. The loops of string.c are recursions on the number of bytes
  left; each is shown equal to a closed form, which the components above use.
\<close>

type_synonym memory = "u32 \<Rightarrow> u8"

section \<open>Word access\<close>

definition load32 :: "memory \<Rightarrow> u32 \<Rightarrow> u32" where
  "load32 m a = ucast (m a) OR push_bit 8 (ucast (m (a + 1)))
     OR push_bit 16 (ucast (m (a + 2))) OR push_bit 24 (ucast (m (a + 3)))"

definition store32 :: "memory \<Rightarrow> u32 \<Rightarrow> u32 \<Rightarrow> memory" where
  "store32 m a v = m(a := ucast v, a + 1 := ucast (drop_bit 8 v),
     a + 2 := ucast (drop_bit 16 v), a + 3 := ucast (drop_bit 24 v))"

section \<open>string.c\<close>

text \<open>\<^verbatim>\<open>stosb\<close> and \<^verbatim>\<open>stosl\<close> are the string-store instructions of x86.h.\<close>

fun stosb :: "memory \<Rightarrow> u32 \<Rightarrow> u8 \<Rightarrow> nat \<Rightarrow> memory" where
  "stosb m a c 0 = m"
| "stosb m a c (Suc n) = stosb (m(a := c)) (a + 1) c n"

fun stosl :: "memory \<Rightarrow> u32 \<Rightarrow> u32 \<Rightarrow> nat \<Rightarrow> memory" where
  "stosl m a w 0 = m"
| "stosl m a w (Suc n) = stosl (store32 m a w) (a + 4) w n"

definition memset :: "memory \<Rightarrow> u32 \<Rightarrow> u32 \<Rightarrow> u32 \<Rightarrow> memory" where
  "memset m dst c n =
     (if dst mod 4 = 0 \<and> n mod 4 = 0
      then (let c = c AND 0xFF in
            stosl m dst (push_bit 24 c OR push_bit 16 c OR push_bit 8 c OR c) (unat (n div 4)))
      else stosb m dst (ucast c) (unat n))"

fun memcmp_loop :: "memory \<Rightarrow> u32 \<Rightarrow> u32 \<Rightarrow> nat \<Rightarrow> u32" where
  "memcmp_loop m s1 s2 0 = 0"
| "memcmp_loop m s1 s2 (Suc n) =
     (if m s1 \<noteq> m s2 then ucast (m s1) - ucast (m s2)
      else memcmp_loop m (s1 + 1) (s2 + 1) n)"

definition memcmp :: "memory \<Rightarrow> u32 \<Rightarrow> u32 \<Rightarrow> u32 \<Rightarrow> u32" where
  "memcmp m v1 v2 n = memcmp_loop m v1 v2 (unat n)"

fun copy_up :: "memory \<Rightarrow> u32 \<Rightarrow> u32 \<Rightarrow> nat \<Rightarrow> memory" where
  "copy_up m d s 0 = m"
| "copy_up m d s (Suc n) = copy_up (m(d := m s)) (d + 1) (s + 1) n"

fun copy_down :: "memory \<Rightarrow> u32 \<Rightarrow> u32 \<Rightarrow> nat \<Rightarrow> memory" where
  "copy_down m d s 0 = m"
| "copy_down m d s (Suc n) = copy_down (m(d - 1 := m (s - 1))) (d - 1) (s - 1) n"

definition memmove :: "memory \<Rightarrow> u32 \<Rightarrow> u32 \<Rightarrow> u32 \<Rightarrow> memory" where
  "memmove m dst src n =
     (if src < dst \<and> src + n > dst
      then copy_down m (dst + n) (src + n) (unat n)
      else copy_up m dst src (unat n))"

definition memcpy :: "memory \<Rightarrow> u32 \<Rightarrow> u32 \<Rightarrow> u32 \<Rightarrow> memory" where
  "memcpy m dst src n = memmove m dst src n"

fun strncmp_loop :: "memory \<Rightarrow> u32 \<Rightarrow> u32 \<Rightarrow> nat \<Rightarrow> u32" where
  "strncmp_loop m p q 0 = 0"
| "strncmp_loop m p q (Suc n) =
     (if m p \<noteq> 0 \<and> m p = m q then strncmp_loop m (p + 1) (q + 1) n
      else ucast (m p) - ucast (m q))"

definition strncmp :: "memory \<Rightarrow> u32 \<Rightarrow> u32 \<Rightarrow> u32 \<Rightarrow> u32" where
  "strncmp m p q n = strncmp_loop m p q (unat n)"

fun strncpy_loop :: "memory \<Rightarrow> u32 \<Rightarrow> u32 \<Rightarrow> nat \<Rightarrow> memory" where
  "strncpy_loop m s t 0 = m"
| "strncpy_loop m s t (Suc n) =
     (if m t \<noteq> 0 then strncpy_loop (m(s := m t)) (s + 1) (t + 1) n
      else stosb (m(s := m t)) (s + 1) 0 n)"

definition strncpy :: "memory \<Rightarrow> u32 \<Rightarrow> u32 \<Rightarrow> u32 \<Rightarrow> memory" where
  "strncpy m s t n = strncpy_loop m s t (nat (sint n))"

text \<open>
  \<open>safestrcpy_loop\<close> takes the number of bytes that may still be copied, one less than
  the \<^verbatim>\<open>n\<close> of the loop test \<^verbatim>\<open>--n > 0\<close>, and ends with the store of the
  terminator where the destination pointer has arrived, also after a copied terminator.
\<close>

fun safestrcpy_loop :: "memory \<Rightarrow> u32 \<Rightarrow> u32 \<Rightarrow> nat \<Rightarrow> memory" where
  "safestrcpy_loop m s t 0 = m(s := 0)"
| "safestrcpy_loop m s t (Suc n) =
     (if m t \<noteq> 0 then safestrcpy_loop (m(s := m t)) (s + 1) (t + 1) n
      else (m(s := m t))(s + 1 := 0))"

definition safestrcpy :: "memory \<Rightarrow> u32 \<Rightarrow> u32 \<Rightarrow> u32 \<Rightarrow> memory" where
  "safestrcpy m s t n = (if n <=s 0 then m else safestrcpy_loop m s t (unat n - 1))"

partial_function (option) strlen_loop :: "memory \<Rightarrow> u32 \<Rightarrow> u32 \<Rightarrow> u32 option" where
  "strlen_loop m s n = (if m (s + n) \<noteq> 0 then strlen_loop m s (n + 1) else Some n)"

definition strlen :: "memory \<Rightarrow> u32 \<Rightarrow> u32 option" where
  "strlen m s = strlen_loop m s 0"


section \<open>Reads after writes\<close>

lemma offset_Suc:
  fixes x a :: u32
  assumes "n < 2 ^ 32"
  shows "unat (x - a) < Suc n \<longleftrightarrow> x = a \<or> unat (x - (a + 1)) < n"
proof (cases "x = a")
  case True
  then show ?thesis by simp
next
  case False
  then have nz: "x - a \<noteq> 0" by simp
  have "unat (x - (a + 1)) = unat ((x - a) - 1)" by (simp add: diff_diff_eq)
  also have "\<dots> = unat (x - a) - 1" using nz by (rule unat_minus_one)
  finally have "unat (x - (a + 1)) = unat (x - a) - 1" .
  moreover have "0 < unat (x - a)" using nz by (simp add: unat_gt_0)
  ultimately show ?thesis using False by linarith
qed

lemma stosb_apply:
  "n \<le> 2 ^ 32 \<Longrightarrow> stosb m a c n x = (if unat (x - a) < n then c else m x)"
proof (induction n arbitrary: m a)
  case 0
  then show ?case by simp
next
  case (Suc n)
  then show ?case using offset_Suc [of n x a] by auto
qed

lemma stosl_stosb:
  assumes "ucast w = c" "ucast (drop_bit 8 w) = c" "ucast (drop_bit 16 w) = c"
    "ucast (drop_bit 24 w) = c"
  shows "stosl m a w n = stosb m a c (4 * n)"
proof (induction n arbitrary: m a)
  case 0
  then show ?case by simp
next
  case (Suc n)
  have s: "a + 1 + 1 = a + 2" "a + 2 + 1 = a + 3" "a + 3 + 1 = a + 4" by simp_all
  have "4 * Suc n = Suc (Suc (Suc (Suc (4 * n))))" by simp
  then have "stosb m a c (4 * Suc n) = stosb m a c (Suc (Suc (Suc (Suc (4 * n)))))"
    by (rule arg_cong)
  also have "\<dots> = stosb (store32 m a w) (a + 4) c (4 * n)"
    by (simp only: stosb.simps store32_def assms s)
  finally show ?case using Suc.IH by simp
qed

lemma replicate_byte:
  fixes c :: u32
  defines "b \<equiv> c AND 0xFF"
  defines "w \<equiv> push_bit 24 b OR push_bit 16 b OR push_bit 8 b OR b"
  shows "(ucast w :: u8) = ucast c" "(ucast (drop_bit 8 w) :: u8) = ucast c"
    "(ucast (drop_bit 16 w) :: u8) = ucast c" "(ucast (drop_bit 24 w) :: u8) = ucast c"
proof -
  have m: "(255 :: u32) = mask 8" by (simp add: mask_eq_exp_minus_1)
  show "(ucast w :: u8) = ucast c" "(ucast (drop_bit 8 w) :: u8) = ucast c"
    "(ucast (drop_bit 16 w) :: u8) = ucast c" "(ucast (drop_bit 24 w) :: u8) = ucast c"
    by (rule bit_word_eqI, auto simp: w_def b_def m bit_simps)+
qed

lemma memset_apply [mem_simps]:
  "memset m dst c n x = (if unat (x - dst) < unat n then ucast c else m x)"
proof (cases "dst mod 4 = 0 \<and> n mod 4 = 0")
  case True
  then have "unat n mod 4 = 0"
    by (auto simp: word_unat_eq_iff unat_mod_distrib)
  then have "4 * unat (n div 4) = unat n"
    using mult_div_mod_eq [of 4 "unat n"] by (simp add: unat_div_distrib)
  moreover have "memset m dst c n = stosb m dst (ucast c) (4 * unat (n div 4))"
    unfolding memset_def Let_def using True
    by (simp only: if_True simp_thms stosl_stosb [OF replicate_byte])
  ultimately show ?thesis using stosb_apply [of "unat n" m dst "ucast c" x] unat_lt32 [of n]
    by simp
next
  case False
  then have "memset m dst c n = stosb m dst (ucast c) (unat n)"
    by (simp only: memset_def if_False)
  then show ?thesis using stosb_apply [of "unat n" m dst "ucast c" x] unat_lt32 [of n]
    by simp
qed

lemma load32_cong:
  "m a = m' a \<Longrightarrow> m (a + 1) = m' (a + 1) \<Longrightarrow> m (a + 2) = m' (a + 2) \<Longrightarrow> m (a + 3) = m' (a + 3)
   \<Longrightarrow> load32 m a = load32 m' a"
  by (simp add: load32_def)

lemma load32_store32_same [simp]: "load32 (store32 m a v) a = v"
proof -
  let ?w = "ucast (ucast v :: u8) OR push_bit 8 (ucast (ucast (drop_bit 8 v) :: u8))
      OR push_bit 16 (ucast (ucast (drop_bit 16 v) :: u8))
      OR push_bit 24 (ucast (ucast (drop_bit 24 v) :: u8)) :: u32"
  have "load32 (store32 m a v) a = ?w"
    by (simp add: load32_def store32_def)
  also have "\<dots> = v"
  proof (rule bit_word_eqI)
    fix n assume "n < LENGTH(32)"
    then consider "n < 8" | "8 \<le> n" "n < 16" | "16 \<le> n" "n < 24" | "24 \<le> n" "n < 32"
      by fastforce
    then show "bit ?w n = bit v n"
      by cases (auto simp: bit_simps)
  qed
  finally show ?thesis .
qed

lemma store32_other: "4 \<le> unat (x - a) \<Longrightarrow> store32 m a v x = m x"
  by (auto simp: store32_def)


lemma load32_store32_other:
  assumes "4 \<le> unat (b - a)" "4 \<le> unat (a - b)"
  shows "load32 (store32 m a v) b = load32 m b"
proof -
  have *: "store32 m a v (b + k) = m (b + k)" if "unat k < 4" for k
  proof -
    have "b + k - a = (b - a) + k" by simp
    also have "unat ((b - a) + k) = unat (b - a) + unat k"
    proof (rule unat_add32)
      have "unat (b - a) + unat (a - b) \<le> 4294967296"
        using unat_lt32 [of a] unat_lt32 [of b]
        by (auto simp: unat_sub_if_size word_size)
      then show "unat (b - a) + unat k < 4294967296" using assms(2) that by linarith
    qed
    finally show ?thesis using assms(1) by (intro store32_other) linarith
  qed
  show ?thesis
    by (rule load32_cong) (use *[of 0] *[of 1] *[of 2] *[of 3] in simp_all)
qed

lemma aligned4_apart:
  fixes a b :: u32
  assumes "unat a mod 4 = 0" "unat b mod 4 = 0" "a \<noteq> b"
  shows "4 \<le> unat (b - a)"
proof -
  have "unat (b - a) mod 4 = 0"
    using assms(1,2) unat_lt32 [of a] unat_lt32 [of b]
    by (simp add: unat_sub_if_size word_size) presburger
  moreover have "unat (b - a) \<noteq> 0" using assms(3) by (simp add: unat_0_iff)
  ultimately show ?thesis by presburger
qed

lemma load32_store32_aligned [mem_simps]:
  "unat a mod 4 = 0 \<Longrightarrow> unat b mod 4 = 0 \<Longrightarrow> a \<noteq> b \<Longrightarrow> load32 (store32 m a v) b = load32 m b"
  by (rule load32_store32_other) (auto intro: aligned4_apart)

lemma load32_zero [simp]: "load32 (\<lambda>_. 0) a = 0"
  by (simp add: load32_def)


text \<open>Loading from a page that a \<open>memset\<close> has just filled with zeroes.\<close>

lemma load32_memset_in:
  assumes "unat (a - dst) + 3 < unat n"
  shows "load32 (memset m dst 0 n) a = 0"
proof -
  have "unat (a + k - dst) < unat n" if "unat k < 4" for k
  proof -
    have "a + k - dst = (a - dst) + k" by simp
    also have "unat \<dots> = unat (a - dst) + unat k"
      using assms that unat_lt32 [of n] by (intro unat_add32) linarith
    finally show ?thesis using assms that by linarith
  qed
  from this [of 0] this [of 1] this [of 2] this [of 3] show ?thesis
    by (simp add: load32_def memset_apply)
qed

subsection \<open>Pages\<close>

text \<open>Two memories agree on page \<open>q\<close>; a word read inside a page depends on that page only.\<close>

definition page_eq :: "memory \<Rightarrow> memory \<Rightarrow> u32 \<Rightarrow> bool" where
  "page_eq m m' q \<longleftrightarrow> (\<forall>x. PGROUNDDOWN x = q \<longrightarrow> m' x = m x)"

lemma page_eq_refl [simp, intro]: "page_eq m m q"
  by (simp add: page_eq_def)

lemma page_eq_trans: "page_eq m m' q \<Longrightarrow> page_eq m' m'' q \<Longrightarrow> page_eq m m'' q"
  by (simp add: page_eq_def)

lemma page_eq_sym: "page_eq m m' q \<Longrightarrow> page_eq m' m q"
  by (simp add: page_eq_def)

lemma PGROUNDDOWN_word:
  assumes "unat a mod 4 = 0" "unat k < 4"
  shows "PGROUNDDOWN (a + k) = PGROUNDDOWN a"
proof -
  obtain b where b: "unat a = 4 * b" using assms(1) by auto
  have "b < 1073741824" using unat_lt32 [of a] b by simp
  then have "unat (a + k) = unat a + unat k"
    using assms(2) b by (intro unat_add32) linarith
  moreover have "(unat a + unat k) div 4096 = unat a div 4096"
  proof -
    have "(4 * b + unat k) div (4 * 1024) = (4 * b + unat k) div 4 div 1024"
      by (rule div_mult2_eq)
    also have "(4 * b + unat k) div 4 = b" using assms(2) by simp
    finally show ?thesis using b by simp
  qed
  ultimately show ?thesis by (intro word32_eqI) (simp add: unat_PGROUNDDOWN)
qed

lemma load32_page_eq:
  assumes "page_eq m m' (PGROUNDDOWN a)" "unat a mod 4 = 0"
  shows "load32 m' a = load32 m a"
proof -
  have "m' (a + k) = m (a + k)" if "unat k < 4" for k
    using assms PGROUNDDOWN_word [OF assms(2) that] by (simp add: page_eq_def)
  from this [of 0] this [of 1] this [of 2] this [of 3] show ?thesis
    by (simp add: load32_def)
qed

lemma page_eq_store32:
  assumes "unat a mod 4 = 0" "PGROUNDDOWN a \<noteq> q"
  shows "page_eq m (store32 m a v) q"
  unfolding page_eq_def
proof (intro allI impI)
  fix x assume x: "PGROUNDDOWN x = q"
  have "x \<noteq> a + k" if "unat k < 4" for k
    using assms x PGROUNDDOWN_word [OF assms(1) that] by auto
  from this [of 0] this [of 1] this [of 2] this [of 3] show "store32 m a v x = m x"
    by (simp add: store32_def)
qed

lemma page_eq_memset:
  assumes "pg_aligned p" "p \<noteq> q"
  shows "page_eq m (memset m p c PGSIZE) q"
  using assms in_page_iff [OF assms(1)] by (auto simp: page_eq_def memset_apply)

lemma load32_memset_page:
  assumes "pg_aligned p" "unat a mod 4 = 0" "PGROUNDDOWN a = p"
  shows "load32 (memset m p 0 PGSIZE) a = 0"
proof -
  have "unat (a - p) < 4096" using in_page_iff [OF assms(1)] assms(3) by simp
  moreover have "unat (a - p) mod 4 = 0"
  proof -
    have "p \<le> a" using assms(3) by (auto simp: word_le_nat_alt unat_PGROUNDDOWN)
    then have "unat (a - p) = unat a - unat p" by (rule unat_sub32)
    moreover have "4 dvd unat a" "4 dvd unat p"
      using assms(2) pg_aligned_mod4 [OF assms(1)] by auto
    ultimately show ?thesis by (simp add: mod_eq_0_iff_dvd)
  qed
  then obtain k where "unat (a - p) = 4 * k" by auto
  ultimately have "unat (a - p) + 3 < 4096" by simp
  then show ?thesis by (intro load32_memset_in) simp
qed

subsection \<open>memmove\<close>

lemma unat_offset:
  fixes a k :: u32
  assumes "unat k < n" "unat a + n \<le> 2 ^ 32"
  shows "unat (a + k) = unat a + unat k"
  using assms by (intro unat_add32) auto

lemma copy_up_apply:
  assumes "unat s + n \<le> 2 ^ 32" "unat d + n \<le> 2 ^ 32" "d \<le> s \<or> unat s + n \<le> unat d"
  shows "copy_up m d s n x = (if unat (x - d) < n then m (s + (x - d)) else m x)"
  using assms
proof (induction n arbitrary: m d s)
  case 0
  then show ?case by simp
next
  case (Suc n)
  show ?case
  proof (cases "n = 0")
    case True
    then show ?thesis by (auto simp: unat_0_iff)
  next
    case False
    then have d1: "unat (d + 1) = unat d + 1" and s1: "unat (s + 1) = unat s + 1"
      using Suc.prems by (auto intro!: unat_add32 [where b = 1, simplified])
    have IH: "copy_up (m(d := m s)) (d + 1) (s + 1) n x =
      (if unat (x - (d + 1)) < n then (m(d := m s)) (s + (x - d)) else (m(d := m s)) x)"
    proof -
      have pre: "unat (s + 1) + n \<le> 2 ^ 32" "unat (d + 1) + n \<le> 2 ^ 32"
        "d + 1 \<le> s + 1 \<or> unat (s + 1) + n \<le> unat (d + 1)"
        using Suc.prems by (auto simp: d1 s1 word_le_nat_alt)
      have eq: "s + 1 + (x - (d + 1)) = s + (x - d)" by simp
      show ?thesis using Suc.IH [OF pre, of "m(d := m s)"] by (simp only: eq)
    qed
    have n32: "n < 2 ^ 32" using Suc.prems by simp
    have off: "unat (x - d) < Suc n \<longleftrightarrow> x = d \<or> unat (x - (d + 1)) < n"
      using n32 by (rule offset_Suc)
    have apart: "s + (x - d) \<noteq> d" if "x \<noteq> d" "unat (x - d) < Suc n"
    proof -
      have "unat (s + (x - d)) = unat s + unat (x - d)"
        using that(2) Suc.prems(1) by (rule unat_offset)
      moreover have "0 < unat (x - d)" using that(1) by (simp add: unat_gt_0)
      ultimately have "unat (s + (x - d)) \<noteq> unat d"
        using Suc.prems(3) that(2) by (auto simp: word_le_nat_alt)
      then show ?thesis by (rule contrapos_nn) (erule arg_cong)
    qed
    have "\<not> unat (d - (d + 1)) < n" using n32 by simp
    then show ?thesis using IH off apart by (cases "x = d") auto
  qed
qed

lemma copy_down_apply:
  assumes "unat s + n \<le> 2 ^ 32" "unat d + n \<le> 2 ^ 32" "s \<le> d"
  shows "copy_down m (d + of_nat n) (s + of_nat n) n x =
    (if unat (x - d) < n then m (s + (x - d)) else m x)"
  using assms
proof (induction n arbitrary: m)
  case 0
  then show ?case by simp
next
  case (Suc n)
  let ?dn = "d + of_nat n" and ?sn = "s + of_nat n"
  have n32: "unat (of_nat n :: u32) = n" using Suc.prems by (simp add: unat_of_nat)
  have IH: "copy_down (m(?dn := m ?sn)) ?dn ?sn n x =
    (if unat (x - d) < n then (m(?dn := m ?sn)) (s + (x - d)) else (m(?dn := m ?sn)) x)"
    using Suc.prems by (intro Suc.IH) auto
  have last: "unat (x - d) = n \<longleftrightarrow> x = ?dn"
  proof
    assume "unat (x - d) = n"
    then have "x - d = of_nat n" using n32 by (simp add: word_unat_eq_iff)
    then show "x = ?dn" by (simp add: algebra_simps)
  next
    assume "x = ?dn"
    then show "unat (x - d) = n" using n32 by simp
  qed
  have apart: "s + (x - d) \<noteq> ?dn" if "unat (x - d) < n"
  proof -
    have "unat (s + (x - d)) = unat s + unat (x - d)"
      using that Suc.prems(1) by (intro unat_offset [where n = n]) auto
    moreover have "unat ?dn = unat d + n"
      using Suc.prems(2) n32 by (subst unat_add32) auto
    ultimately have "unat (s + (x - d)) \<noteq> unat ?dn"
      using that Suc.prems(3) by (simp add: word_le_nat_alt)
    then show ?thesis by (rule contrapos_nn) (erule arg_cong)
  qed
  have "copy_down m (d + of_nat (Suc n)) (s + of_nat (Suc n)) (Suc n) x =
      copy_down (m(?dn := m ?sn)) ?dn ?sn n x"
    by (simp add: algebra_simps)
  then show ?case using IH last apart by (auto simp: less_Suc_eq)
qed

lemma memmove_apply:
  assumes "unat src + unat n < 2 ^ 32" "unat dst + unat n \<le> 2 ^ 32"
  shows "memmove m dst src n x = (if unat (x - dst) < unat n then m (src + (x - dst)) else m x)"
proof (cases "src < dst \<and> src + n > dst")
  case True
  have "copy_down m (dst + n) (src + n) (unat n) x =
      (if unat (x - dst) < unat n then m (src + (x - dst)) else m x)"
    using copy_down_apply [of src "unat n" dst m x] assms True by (simp add: order.strict_implies_order)
  then show ?thesis using True by (simp add: memmove_def)
next
  case False
  have "unat (src + n) = unat src + unat n"
    using assms(1) by (intro unat_add32) simp
  with False have "dst \<le> src \<or> unat src + unat n \<le> unat dst"
    by (auto simp: word_le_nat_alt word_less_nat_alt)
  then have "copy_up m dst src (unat n) x =
      (if unat (x - dst) < unat n then m (src + (x - dst)) else m x)"
    using assms by (intro copy_up_apply) auto
  then show ?thesis unfolding memmove_def using False by (simp only: if_False)
qed


subsection \<open>Strings\<close>

text \<open>The bytes from \<open>a\<close> on, and the C string that starts there.\<close>

definition bytes_at :: "memory \<Rightarrow> u32 \<Rightarrow> nat \<Rightarrow> u8 list" where
  "bytes_at m a n = map (\<lambda>i. m (a + of_nat i)) [0..<n]"

lemma length_bytes_at [simp]: "length (bytes_at m a n) = n"
  by (simp add: bytes_at_def)

lemma bytes_at_Suc: "bytes_at m a (Suc n) = m a # bytes_at m (a + 1) n"
proof -
  have "bytes_at m a (Suc n) = m a # map (\<lambda>i. m (a + of_nat i)) (map Suc [0..<n])"
    by (simp add: bytes_at_def upt_conv_Cons map_Suc_upt del: upt_Suc)
  also have "map (\<lambda>i. m (a + of_nat i)) (map Suc [0..<n]) = bytes_at m (a + 1) n"
    by (simp add: bytes_at_def algebra_simps)
  finally show ?thesis .
qed

lemma bytes_at_0 [simp]: "bytes_at m a 0 = []"
  by (simp add: bytes_at_def)

fun cstr :: "u8 list \<Rightarrow> u8 list" where
  "cstr [] = []"
| "cstr (c # cs) = (if c = 0 then [] else c # cstr cs)"

lemma strncmp_loop_eq_0:
  "strncmp_loop m p q n = 0 \<longleftrightarrow> cstr (bytes_at m p n) = cstr (bytes_at m q n)"
proof (induction n arbitrary: p q)
  case 0
  then show ?case by simp
next
  case (Suc n)
  then show ?case by (auto simp: bytes_at_Suc)
qed

lemma memcmp_loop_eq_0:
  "memcmp_loop m p q n = 0 \<longleftrightarrow> bytes_at m p n = bytes_at m q n"
proof (induction n arbitrary: p q)
  case 0
  then show ?case by simp
next
  case (Suc n)
  then show ?case by (auto simp: bytes_at_Suc)
qed


lemma stosb_other: "n \<le> 2 ^ 32 \<Longrightarrow> n \<le> unat (x - a) \<Longrightarrow> stosb m a c n x = m x"
  by (simp add: stosb_apply)

text \<open>
  \<open>safestrcpy\<close> keeps inside the \<open>n\<close> bytes it was given and leaves a terminated string there;
  the text is the source string cut at \<open>n - 1\<close> bytes.
\<close>

lemma safestrcpy_loop_frame:
  "n < 2 ^ 32 - 1 \<Longrightarrow> n < unat (x - s) \<Longrightarrow> safestrcpy_loop m s t n x = m x"
proof (induction n arbitrary: m s t)
  case 0
  then show ?case by auto
next
  case (Suc n)
  then have x: "x \<noteq> s" and nz: "x - s \<noteq> 0" by auto
  have "unat (x - (s + 1)) = unat (x - s) - 1"
    using unat_minus_one [OF nz] by (simp add: diff_diff_eq)
  then have "n < unat (x - (s + 1))" using Suc.prems by simp
  moreover from this have "x \<noteq> s + 1" by auto
  ultimately show ?case using Suc x by auto
qed

lemma safestrcpy_loop_cstr:
  assumes "n < 2 ^ 31" "unat s + n < 2 ^ 32" "unat t + n < 2 ^ 32"
    "unat s + n < unat t \<or> unat t + n < unat s"
  shows "cstr (bytes_at (safestrcpy_loop m s t n) s (Suc n)) = cstr (bytes_at m t n)"
  using assms
proof (induction n arbitrary: m s t)
  case 0
  then show ?case by (simp add: bytes_at_Suc)
next
  case (Suc n)
  have s1: "unat (s + 1) = unat s + 1" and t1: "unat (t + 1) = unat t + 1"
    using Suc.prems by (auto intro!: unat_add32 [where b = 1, simplified])
  have keep: "safestrcpy_loop m' (s + 1) t' n s = m' s" for m' t'
    using Suc.prems by (intro safestrcpy_loop_frame) auto
  show ?case
  proof (cases "m t = 0")
    case True
    then show ?thesis by (simp add: bytes_at_Suc [of _ s] bytes_at_Suc [of _ t])
  next
    case False
    have IH: "cstr (bytes_at (safestrcpy_loop (m(s := m t)) (s + 1) (t + 1) n) (s + 1) (Suc n)) =
        cstr (bytes_at (m(s := m t)) (t + 1) n)"
      using Suc.prems by (intro Suc.IH) (auto simp: s1 t1)
    have "bytes_at (m(s := m t)) (t + 1) n = bytes_at m (t + 1) n"
    proof -
      have "t + 1 + of_nat i \<noteq> s" if "i < n" for i
      proof -
        have "unat (of_nat i :: u32) = i" using that Suc.prems by (simp add: unat_of_nat)
        moreover from this have "unat (t + 1 + of_nat i) = unat t + 1 + i"
          using that Suc.prems t1 by (subst unat_add32) auto
        ultimately have "unat (t + 1 + of_nat i) \<noteq> unat s" using Suc.prems(4) that by linarith
        then show ?thesis by (rule contrapos_nn) (erule arg_cong)
      qed
      then show ?thesis by (auto simp: bytes_at_def)
    qed
    with IH False keep show ?thesis
      by (simp add: bytes_at_Suc [of _ s] bytes_at_Suc [of _ t])
  qed
qed

lemma strlen_loop_Some:
  assumes "\<forall>i < k. m (s + n + of_nat i) \<noteq> 0" "m (s + n + of_nat k) = 0"
  shows "strlen_loop m s n = Some (n + of_nat k)"
  using assms
proof (induction k arbitrary: n)
  case 0
  then show ?case by (simp add: strlen_loop.simps [of m s n])
next
  case (Suc k)
  have "m (s + n) \<noteq> 0" using Suc.prems(1) by (auto dest: spec [where x = 0])
  moreover have "\<forall>i < k. m (s + (n + 1) + of_nat i) \<noteq> 0"
  proof (intro allI impI)
    fix i assume "i < k"
    then have "m (s + n + of_nat (Suc i)) \<noteq> 0" using Suc.prems(1) by blast
    then show "m (s + (n + 1) + of_nat i) \<noteq> 0" by (simp add: algebra_simps)
  qed
  moreover have "m (s + (n + 1) + of_nat k) = 0"
    using Suc.prems(2) by (simp add: algebra_simps)
  ultimately show ?case
    using Suc.IH [of "n + 1"] by (simp add: strlen_loop.simps [of m s n] algebra_simps)
qed

end
