(* ===== verification/Kalloc.thy ===== *)
theory Kalloc
  imports Mem
begin

text \<open>
  The physical page allocator (kalloc.c). Its free list is a linked list threaded through
  the free pages: the first word of a free page holds the address of the next one
  (\<^verbatim>\<open>struct run\<close>). The model keeps that list in the byte memory, as the code does, and
  \<open>flist\<close> relates it to the list of page addresses it stands for. \<open>kend\<close> is the linker
  symbol \<^verbatim>\<open>end\<close>, the first address after the kernel image.

  The state is an extensible record; the operations are polymorphic in its extension, so
  that the virtual memory and process layers call them on their own, larger states.
\<close>

section \<open>State and operations\<close>

record kmem_st =
  mem :: memory
  kend :: u32
  use_lock :: bool
  freelist :: u32

definition kfree :: "'a kmem_st_scheme \<Rightarrow> u32 \<Rightarrow> 'a kmem_st_scheme res" where
  "kfree s v =
     (if v mod PGSIZE \<noteq> 0 \<or> v < kend s \<or> V2P v \<ge> PHYSTOP then Panic ''kfree''
      else let m = memset (mem s) v 1 PGSIZE;
               m = store32 m v (freelist s)
           in Ret (s\<lparr>mem := m, freelist := v\<rparr>))"

definition kalloc :: "'a kmem_st_scheme \<Rightarrow> u32 \<times> 'a kmem_st_scheme" where
  "kalloc s =
     (let r = freelist s
      in (r, if r \<noteq> 0 then s\<lparr>freelist := load32 (mem s) r\<rparr> else s))"

lemma kfree_Ret_range:
  "kfree s v = Ret s' \<Longrightarrow> KERNBASE \<le> v \<and> v < KERNBASE + PHYSTOP"
  by (auto simp: kfree_def V2P_def not_le split: if_splits)
     (simp_all add: word_le_nat_alt word_less_nat_alt unat_sub_if_size word_size split: if_splits)

text \<open>
  The loop of \<^verbatim>\<open>freerange\<close> ends because every page it frees lies below
  \<^verbatim>\<open>KERNBASE + PHYSTOP\<close>: past it, \<open>kfree\<close> panics before the counter could wrap.
\<close>

function freerange_loop :: "'a kmem_st_scheme \<Rightarrow> u32 \<Rightarrow> u32 \<Rightarrow> 'a kmem_st_scheme res" where
  "freerange_loop s p vend =
     (if p + PGSIZE \<le> vend
      then bind_res (kfree s p) (\<lambda>s'. freerange_loop s' (p + PGSIZE) vend)
      else Ret s)"
  by pat_completeness auto
termination
proof (relation "measure (\<lambda>(s, p, vend). 2 ^ 32 - unat p)", goal_cases)
  case 1
  then show ?case by simp
next
  case (2 s p vend s')
  have "unat p < 2415919104"
    using kfree_Ret_range [OF 2(2)] by (simp add: word_less_nat_alt)
  then have "unat (p + PGSIZE) = unat p + 4096"
    by (subst unat_add32) auto
  with \<open>unat p < 2415919104\<close> show ?case by simp
qed

declare freerange_loop.simps [simp del]

definition freerange :: "'a kmem_st_scheme \<Rightarrow> u32 \<Rightarrow> u32 \<Rightarrow> 'a kmem_st_scheme res" where
  "freerange s vstart vend = freerange_loop s (PGROUNDUP vstart) vend"

definition kinit1 :: "'a kmem_st_scheme \<Rightarrow> u32 \<Rightarrow> u32 \<Rightarrow> 'a kmem_st_scheme res" where
  "kinit1 s vstart vend = freerange (s\<lparr>use_lock := False\<rparr>) vstart vend"

definition kinit2 :: "'a kmem_st_scheme \<Rightarrow> u32 \<Rightarrow> u32 \<Rightarrow> 'a kmem_st_scheme res" where
  "kinit2 s vstart vend =
     bind_res (freerange s vstart vend) (\<lambda>s'. Ret (s'\<lparr>use_lock := True\<rparr>))"

section \<open>The free list in memory\<close>

fun flist :: "memory \<Rightarrow> u32 \<Rightarrow> u32 list \<Rightarrow> bool" where
  "flist m p [] \<longleftrightarrow> p = 0"
| "flist m p (q # qs) \<longleftrightarrow> p = q \<and> p \<noteq> 0 \<and> flist m (load32 m p) qs"

text \<open>A page \<open>kfree\<close> accepts, and the allocator's invariant with the free pages as a list.\<close>

definition kpage :: "u32 \<Rightarrow> u32 \<Rightarrow> bool" where
  "kpage e v \<longleftrightarrow> pg_aligned v \<and> e \<le> v \<and> V2P v < PHYSTOP"

definition free_pages :: "'a kmem_st_scheme \<Rightarrow> u32 list \<Rightarrow> bool" where
  "free_pages s ps \<longleftrightarrow> flist (mem s) (freelist s) ps \<and> distinct ps \<and> (\<forall>p \<in> set ps. kpage (kend s) p)"

lemma flist_cong: "(\<forall>q \<in> set ps. load32 m' q = load32 m q) \<Longrightarrow> flist m' p ps = flist m p ps"
  by (induction ps arbitrary: p) auto

lemma flist_unique: "flist m p ps \<Longrightarrow> flist m p qs \<Longrightarrow> ps = qs"
proof (induction ps arbitrary: p qs)
  case Nil
  then show ?case by (cases qs) auto
next
  case (Cons a ps)
  then show ?case by (cases qs) auto
qed

lemma kpage_nonzero: "kpage e v \<Longrightarrow> v \<noteq> 0"
  by (auto simp: kpage_def V2P_def)

lemma kpage_aligned [simp]: "kpage e v \<Longrightarrow> pg_aligned v"
  by (simp add: kpage_def)

lemma kpage_range: "kpage e v \<Longrightarrow> KERNBASE \<le> v \<and> v < KERNBASE + PHYSTOP"
  by (auto simp: kpage_def V2P_def)
     (simp_all add: word_le_nat_alt word_less_nat_alt unat_sub_if_size word_size split: if_splits)

lemma kfree_eq:
  "kfree s v = (if kpage (kend s) v
     then Ret (s\<lparr>mem := store32 (memset (mem s) v 1 PGSIZE) v (freelist s), freelist := v\<rparr>)
     else Panic ''kfree'')"
  by (auto simp: kfree_def kpage_def Let_def not_le not_less)

lemma kfree_page_eq:
  assumes "kfree s v = Ret s'" "q \<noteq> v"
  shows "page_eq (mem s) (mem s') q"
proof -
  have v: "kpage (kend s) v" and s': "s' = s\<lparr>mem := store32 (memset (mem s) v 1 PGSIZE) v (freelist s), freelist := v\<rparr>"
    using assms(1) by (auto simp: kfree_eq split: if_splits)
  have "page_eq (mem s) (memset (mem s) v 1 PGSIZE) q"
    using v assms(2) by (intro page_eq_memset) auto
  moreover have "page_eq (memset (mem s) v 1 PGSIZE) (store32 (memset (mem s) v 1 PGSIZE) v (freelist s)) q"
    using v assms(2) by (intro page_eq_store32) (auto simp: PGROUNDDOWN_id pg_aligned_mod4)
  ultimately show ?thesis using s' by (auto intro: page_eq_trans)
qed

lemma kfree_frame [frame_simps]:
  "kfree s v = Ret s' \<Longrightarrow> kend s' = kend s \<and> use_lock s' = use_lock s \<and> kmem_st.more s' = kmem_st.more s"
  by (auto simp: kfree_eq split: if_splits)

lemma free_pages_kfree:
  assumes "free_pages s ps" "kpage (kend s) v" "v \<notin> set ps"
  shows "\<exists>s'. kfree s v = Ret s' \<and> free_pages s' (v # ps)"
proof -
  let ?s' = "s\<lparr>mem := store32 (memset (mem s) v 1 PGSIZE) v (freelist s), freelist := v\<rparr>"
  have ret: "kfree s v = Ret ?s'" using assms(2) by (simp add: kfree_eq)
  have "load32 (mem ?s') q = load32 (mem s) q" if "q \<in> set ps" for q
  proof -
    have "pg_aligned q" using assms(1) that by (auto simp: free_pages_def)
    moreover have "q \<noteq> v" using that assms(3) by blast
    ultimately show ?thesis
      using kfree_page_eq [OF ret] by (intro load32_page_eq) (auto simp: PGROUNDDOWN_id [THEN iffD2] pg_aligned_mod4)
  qed
  then have "flist (mem ?s') (freelist s) ps"
    using assms(1) flist_cong [of ps "mem ?s'" "mem s"] by (auto simp: free_pages_def)
  then have "free_pages ?s' (v # ps)"
    using assms by (auto simp: free_pages_def kpage_nonzero)
  with ret show ?thesis by blast
qed

lemma kalloc_empty: "free_pages s [] \<Longrightarrow> kalloc s = (0, s)"
  by (simp add: free_pages_def kalloc_def)

lemma kalloc_cons:
  assumes "free_pages s (p # ps)"
  shows "kalloc s = (p, s\<lparr>freelist := load32 (mem s) p\<rparr>)"
    and "free_pages (s\<lparr>freelist := load32 (mem s) p\<rparr>) ps"
  using assms by (auto simp: free_pages_def kalloc_def Let_def)

lemma kalloc_frame [frame_simps]:
  "kalloc s = (r, s') \<Longrightarrow> mem s' = mem s \<and> kend s' = kend s \<and> use_lock s' = use_lock s
     \<and> kmem_st.more s' = kmem_st.more s"
  by (auto simp: kalloc_def Let_def split: if_splits)

lemma kalloc_zero_iff: "free_pages s ps \<Longrightarrow> fst (kalloc s) = 0 \<longleftrightarrow> ps = []"
  by (cases ps) (auto simp: free_pages_def kalloc_def Let_def)

section \<open>The allocator as an interface\<close>

text \<open>
  What the rest of the kernel relies on: the free pages form a set of distinct usable pages;
  taking a page removes exactly it and changes no memory; giving a page back adds exactly it.
\<close>

locale page_allocator =
  fixes alloc :: "'s \<Rightarrow> u32 \<times> 's"
    and free :: "'s \<Rightarrow> u32 \<Rightarrow> 's res"
    and pages :: "'s \<Rightarrow> u32 list \<Rightarrow> bool"
    and usable :: "'s \<Rightarrow> u32 \<Rightarrow> bool"
  assumes pages_distinct: "pages s ps \<Longrightarrow> distinct ps"
    and pages_usable: "pages s ps \<Longrightarrow> p \<in> set ps \<Longrightarrow> usable s p \<and> p \<noteq> 0"
    and alloc_nil: "pages s [] \<Longrightarrow> alloc s = (0, s)"
    and alloc_cons: "pages s (p # ps) \<Longrightarrow> \<exists>s'. alloc s = (p, s') \<and> pages s' ps \<and> usable s' = usable s"
    and free_cons: "pages s ps \<Longrightarrow> usable s p \<Longrightarrow> p \<notin> set ps \<Longrightarrow>
      \<exists>s'. free s p = Ret s' \<and> pages s' (p # ps) \<and> usable s' = usable s"
    and free_refused: "\<not> usable s p \<Longrightarrow> \<exists>msg. free s p = Panic msg"
begin

fun alloc_n :: "nat \<Rightarrow> 's \<Rightarrow> u32 list \<times> 's" where
  "alloc_n 0 s = ([], s)"
| "alloc_n (Suc n) s =
     (let (p, s1) = alloc s; (ps, s2) = alloc_n n s1 in (p # ps, s2))"

fun free_all :: "u32 list \<Rightarrow> 's \<Rightarrow> 's res" where
  "free_all [] s = Ret s"
| "free_all (p # ps) s = bind_res (free s p) (free_all ps)"

lemma alloc_n_take:
  "pages s ps \<Longrightarrow> n \<le> length ps \<Longrightarrow>
   \<exists>s'. alloc_n n s = (take n ps, s') \<and> pages s' (drop n ps) \<and> usable s' = usable s"
proof (induction n arbitrary: s ps)
  case 0
  then show ?case by simp
next
  case (Suc n)
  then obtain p qs where ps: "ps = p # qs" by (cases ps) auto
  then obtain s1 where s1: "alloc s = (p, s1)" "pages s1 qs" "usable s1 = usable s"
    using alloc_cons Suc.prems by blast
  then obtain s2 where "alloc_n n s1 = (take n qs, s2)" "pages s2 (drop n qs)" "usable s2 = usable s1"
    using Suc.IH [of s1 qs] Suc.prems ps by auto
  then show ?case using s1 ps by auto
qed

lemma alloc_n_distinct:
  assumes "pages s ps" "n \<le> length ps" "alloc_n n s = (qs, s')"
  shows "distinct qs \<and> (\<forall>q \<in> set qs. usable s q \<and> q \<noteq> 0)"
proof -
  have "qs = take n ps" using alloc_n_take [OF assms(1,2)] assms(3) by auto
  then show ?thesis
    using pages_distinct [OF assms(1)] pages_usable [OF assms(1)]
    by (auto simp: distinct_take dest: in_set_takeD)
qed

lemma free_all_pages:
  "pages s ps \<Longrightarrow> distinct qs \<Longrightarrow> set qs \<inter> set ps = {} \<Longrightarrow> \<forall>q \<in> set qs. usable s q \<Longrightarrow>
   \<exists>s'. free_all qs s = Ret s' \<and> pages s' (rev qs @ ps) \<and> usable s' = usable s"
proof (induction qs arbitrary: s ps)
  case Nil
  then show ?case by simp
next
  case (Cons q qs)
  then have "usable s q" "q \<notin> set ps" by auto
  then obtain s1 where s1: "free s q = Ret s1" "pages s1 (q # ps)" "usable s1 = usable s"
    using free_cons [OF Cons.prems(1)] by blast
  then obtain s2 where "free_all qs s1 = Ret s2" "pages s2 (rev qs @ q # ps)" "usable s2 = usable s1"
    using Cons.IH [of s1 "q # ps"] Cons.prems by auto
  then show ?case using s1 by auto
qed

end

interpretation km: page_allocator kalloc kfree free_pages "\<lambda>s. kpage (kend s)"
proof (unfold_locales, goal_cases)
  case (1 s ps)
  then show ?case by (simp add: free_pages_def)
next
  case (2 s ps p)
  then show ?case using kpage_nonzero by (auto simp: free_pages_def)
next
  case (3 s)
  then show ?case by (rule kalloc_empty)
next
  case (4 s p ps)
  from kalloc_cons [OF this] show ?case by simp
next
  case (5 s ps p)
  then obtain s' where s': "kfree s p = Ret s'" "free_pages s' (p # ps)"
    using free_pages_kfree by blast
  moreover have "kend s' = kend s" using kfree_frame [OF s'(1)] by simp
  ultimately show ?case by simp
next
  case (6 s p)
  then show ?case by (simp add: kfree_eq)
qed

section \<open>Properties\<close>

definition page_run :: "u32 \<Rightarrow> nat \<Rightarrow> u32 list" where
  "page_run p n = map (\<lambda>i. p + of_nat i * PGSIZE) [0..<n]"

lemma page_run_Suc: "page_run p (Suc n) = p # page_run (p + PGSIZE) n"
proof -
  have "page_run p (Suc n) = p # map (\<lambda>i. p + of_nat i * PGSIZE) (map Suc [0..<n])"
    by (simp add: page_run_def upt_conv_Cons map_Suc_upt del: upt_Suc)
  then show ?thesis by (simp add: page_run_def algebra_simps)
qed

lemma page_run_0 [simp]: "page_run p 0 = []"
  by (simp add: page_run_def)

lemma unat_page_run:
  assumes "i < n" "unat p + n * 4096 \<le> 4294967296"
  shows "unat (p + of_nat i * PGSIZE) = unat p + i * 4096"
proof -
  have "unat (of_nat i * PGSIZE :: u32) = i * 4096"
  proof -
    have "unat (of_nat (i * 4096) :: u32) = (i * 4096) mod 2 ^ 32"
      by (simp only: unat_of_nat) simp
    also have "\<dots> = i * 4096" using assms by simp
    finally show ?thesis by simp
  qed
  then show ?thesis using assms by (subst unat_add32) auto
qed

lemma set_page_run_ge:
  assumes "q \<in> set (page_run p n)" "unat p + n * 4096 \<le> 4294967296"
  shows "unat p \<le> unat q \<and> unat q + 4096 \<le> unat p + n * 4096"
proof -
  obtain i where i: "i < n" "q = p + of_nat i * PGSIZE"
    using assms(1) by (auto simp: page_run_def)
  have "(i + 1) * 4096 \<le> n * 4096" using i(1) by (intro mult_le_mono1) simp
  then show ?thesis using unat_page_run [OF i(1) assms(2)] i(2) by simp
qed

lemma freerange_loop_pages:
  assumes "free_pages s ps" "pg_aligned p" "kend s \<le> p" "KERNBASE \<le> p"
    "unat p \<le> 2382364672" "unat vend \<le> 2382364672"
    "n = (unat vend - unat p) div 4096" "set (page_run p n) \<inter> set ps = {}"
  shows "\<exists>s'. freerange_loop s p vend = Ret s' \<and> free_pages s' (rev (page_run p n) @ ps)"
  using assms
proof (induction n arbitrary: s p ps)
  case 0
  have "unat (p + PGSIZE) = unat p + 4096"
    using "0.prems"(5) by (subst unat_add32) auto
  then have "\<not> p + PGSIZE \<le> vend"
    using "0.prems"(7) by (auto simp: word_le_nat_alt)
  then show ?case using "0.prems"(1) by (simp add: freerange_loop.simps [of s p])
next
  case (Suc n)
  have p4: "unat (p + PGSIZE) = unat p + 4096"
    using Suc.prems(5) by (subst unat_add32) auto
  have "4096 \<le> unat vend - unat p"
    using Suc.prems(7) by (cases "unat vend - unat p < 4096") auto
  then have room: "unat p + 4096 \<le> unat vend" by simp
  have n: "n = (unat vend - unat (p + PGSIZE)) div 4096"
  proof -
    have "(unat vend - unat p) div 4096 = Suc ((unat vend - unat p - 4096) div 4096)"
      using room by (subst le_div_geq) auto
    then show ?thesis using Suc.prems(7) p4 by simp
  qed
  have notin: "p \<notin> set ps" using Suc.prems(8) by (simp add: page_run_Suc)
  have kp: "kpage (kend s) p"
  proof -
    have "unat (V2P p) < 234881024"
      using Suc.prems(4) room Suc.prems(6) by (simp add: V2P_def unat_sub32 word_le_nat_alt)
    then show ?thesis using Suc.prems(2,3) by (simp add: kpage_def word_less_nat_alt)
  qed
  obtain s1 where s1: "kfree s p = Ret s1" "free_pages s1 (p # ps)"
    using free_pages_kfree [OF Suc.prems(1) kp notin] by blast
  have ke: "kend s1 = kend s" using kfree_frame [OF s1(1)] by simp
  have fresh: "p \<notin> set (page_run (p + PGSIZE) n)"
  proof
    assume "p \<in> set (page_run (p + PGSIZE) n)"
    moreover have "unat (p + PGSIZE) + n * 4096 \<le> 4294967296"
      using n p4 room Suc.prems(6) by simp
    ultimately show False using set_page_run_ge [of p "p + PGSIZE" n] p4 by simp
  qed
  have "\<exists>s'. freerange_loop s1 (p + PGSIZE) vend = Ret s'
      \<and> free_pages s' (rev (page_run (p + PGSIZE) n) @ p # ps)"
  proof (rule Suc.IH [OF s1(2)])
    show "pg_aligned (p + PGSIZE)" using Suc.prems(2) p4 by simp
    show "kend s1 \<le> p + PGSIZE" using Suc.prems(3) p4 ke by (simp add: word_le_nat_alt)
    show "KERNBASE \<le> p + PGSIZE" using Suc.prems(4) p4 by (simp add: word_le_nat_alt)
    show "unat (p + PGSIZE) \<le> 2382364672" using p4 room Suc.prems(6) by simp
    show "set (page_run (p + PGSIZE) n) \<inter> set (p # ps) = {}"
      using Suc.prems(8) fresh by (auto simp: page_run_Suc)
  qed (use Suc.prems(6) n in auto)
  moreover have "p + PGSIZE \<le> vend" using room p4 by (simp add: word_le_nat_alt)
  ultimately show ?case
    using s1 by (auto simp: freerange_loop.simps [of s p] page_run_Suc)
qed

text \<open>
  A page given to \<^verbatim>\<open>kfree\<close> is the next one \<^verbatim>\<open>kalloc\<close> hands out; the two
  calls together leave the free list as it was and touch no byte outside that page.
\<close>

lemma kfree_then_kalloc:
  assumes "free_pages s ps" "kpage (kend s) v" "v \<notin> set ps"
  shows "\<exists>s' s''. kfree s v = Ret s' \<and> free_pages s' (v # ps) \<and> kalloc s' = (v, s'')
    \<and> free_pages s'' ps \<and> (\<forall>x. PGROUNDDOWN x \<noteq> v \<longrightarrow> mem s'' x = mem s x)"
proof -
  obtain s' where s': "kfree s v = Ret s'" "free_pages s' (v # ps)"
    using free_pages_kfree [OF assms] by blast
  have "mem s' x = mem s x" if "PGROUNDDOWN x \<noteq> v" for x
    using kfree_page_eq [OF s'(1) that] by (simp add: page_eq_def)
  then show ?thesis using s' kalloc_cons [OF s'(2)] by auto
qed

definition kmem_empty :: kmem_st where
  "kmem_empty = \<lparr>mem = (\<lambda>_. 0), kend = 0x80110000, use_lock = False, freelist = 0\<rparr>"

lemma free_pages_empty: "free_pages kmem_empty []"
  by (simp add: free_pages_def kmem_empty_def)

text \<open>
  The first initialisation phase puts every whole page between its bounds on the free
  list, each exactly once, the last page first, and nothing else.
\<close>

lemma kinit1_free_list:
  assumes "freelist s = 0" "kend s \<le> vstart" "KERNBASE \<le> vstart" "vstart \<le> P2V PHYSTOP"
    and "vend \<le> P2V PHYSTOP"
  shows "\<exists>s'. kinit1 s vstart vend = Ret s'
    \<and> free_pages s' (rev (page_run (PGROUNDUP vstart) ((unat vend - unat (PGROUNDUP vstart)) div 4096)))"
proof -
  have top: "unat vstart \<le> 2382364672"
    using assms(4) by (simp add: P2V_def word_le_nat_alt)
  then have up: "unat (PGROUNDUP vstart) = (unat vstart + 4095) div 4096 * 4096"
    by (intro unat_PGROUNDUP) simp
  have ge: "unat vstart \<le> unat (PGROUNDUP vstart)"
    unfolding up using div_mult_mod_eq [of "unat vstart + 4095" 4096] by linarith
  have "unat (PGROUNDUP vstart) \<le> 2382364672"
  proof -
    have "(unat vstart + 4095) div 4096 \<le> (2382364672 + 4095) div 4096"
      using top by (intro div_le_mono) simp
    then show ?thesis unfolding up by simp
  qed
  then have "\<exists>s'. freerange_loop (s\<lparr>use_lock := False\<rparr>) (PGROUNDUP vstart) vend = Ret s' \<and>
     free_pages s' (rev (page_run (PGROUNDUP vstart) ((unat vend - unat (PGROUNDUP vstart)) div 4096)) @ [])"
    using assms(1,2,3,5) ge up
    by (intro freerange_loop_pages) (auto simp: free_pages_def word_le_nat_alt P2V_def)
  then show ?thesis by (simp add: kinit1_def freerange_def)
qed

lemma kinit1_free_list_witness:
  "\<exists>s'. kinit1 kmem_empty 0x80110004 0x80113000 = Ret s'
     \<and> free_pages s' [0x80112000, 0x80111000]"
proof -
  have "PGROUNDUP 0x80110004 = 0x80111000" by (simp add: PGROUNDUP_def)
  then show ?thesis
    using kinit1_free_list [of kmem_empty "0x80110004" "0x80113000"]
    by (simp add: kmem_empty_def P2V_def page_run_def upt_rec)
qed

text \<open>
  \<^verbatim>\<open>kfree\<close> panics exactly on an address that is not page aligned, lies below the
  end of the kernel image or maps at or above \<^verbatim>\<open>PHYSTOP\<close>; otherwise it returns with the
  page at the head of the free list, filled with the junk byte behind the link word.
\<close>

lemma kfree_outcome:
  "if v mod PGSIZE = 0 \<and> kend s \<le> v \<and> V2P v < PHYSTOP
   then \<exists>s'. kfree s v = Ret s' \<and> freelist s' = v \<and> load32 (mem s') v = freelist s
      \<and> bytes_at (mem s') (v + 4) 4092 = replicate 4092 1
   else kfree s v = Panic ''kfree''"
proof (cases "kpage (kend s) v")
  case True
  let ?m = "store32 (memset (mem s) v 1 PGSIZE) v (freelist s)"
  have "?m (v + 4 + of_nat i) = 1" if "i < 4092" for i
  proof -
    have "unat (4 + of_nat i :: u32) = 4 + i"
      using that by (subst unat_add32) (simp_all add: unat_of_nat)
    then show ?thesis using that by (simp add: store32_other memset_apply add.assoc)
  qed
  then have "bytes_at ?m (v + 4) 4092 = replicate 4092 1"
    by (intro nth_equalityI) (auto simp: bytes_at_def)
  with True show ?thesis by (simp add: kfree_eq kpage_def not_le not_less)
next
  case False
  then show ?thesis by (auto simp: kfree_eq kpage_def not_le not_less)
qed

end
