(* ===== verification/Vm.thy ===== *)
theory Vm
  imports Kalloc
begin

text \<open>
  Page tables (vm.c). A page directory is a page of memory: its 1024 words point to page
  tables, whose words point to the mapped pages, exactly as the hardware reads them; the
  model keeps them in the byte memory of the machine and every operation reads and writes
  that memory. Pointers are kernel virtual addresses, null is 0.
\<close>

section \<open>State\<close>

text \<open>\<open>kdata\<close> is the linker symbol \<^verbatim>\<open>data\<close>, \<open>cr3\<close> the page table register.\<close>

record vm_st = kmem_st +
  kdata :: u32
  kpgdir :: u32
  cr3 :: u32

section \<open>Walking and mapping\<close>

definition walkpgdir ::
  "'a kmem_st_scheme \<Rightarrow> u32 \<Rightarrow> u32 \<Rightarrow> bool \<Rightarrow> u32 \<times> 'a kmem_st_scheme" where
  "walkpgdir s pgdir va alloc =
     (let pde = pgdir + 4 * PDX va in
      if load32 (mem s) pde AND PTE_P \<noteq> 0
      then (P2V (PTE_ADDR (load32 (mem s) pde)) + 4 * PTX va, s)
      else if \<not> alloc then (0, s)
      else let (pgtab, s1) = kalloc s in
        if pgtab = 0 then (0, s1)
        else let m = memset (mem s1) pgtab 0 PGSIZE;
                 m = store32 m pde (V2P pgtab OR PTE_P OR PTE_W OR PTE_U)
             in (pgtab + 4 * PTX va, s1\<lparr>mem := m\<rparr>))"

function mappages_loop ::
  "'a kmem_st_scheme \<Rightarrow> u32 \<Rightarrow> u32 \<Rightarrow> u32 \<Rightarrow> u32 \<Rightarrow> u32 \<Rightarrow> (u32 \<times> 'a kmem_st_scheme) res" where
  "mappages_loop s pgdir a lastp pa perm =
     (let (pte, s1) = walkpgdir s pgdir a True in
      if pte = 0 then Ret (- 1, s1)
      else if load32 (mem s1) pte AND PTE_P \<noteq> 0 then Panic ''remap''
      else let s2 = s1\<lparr>mem := store32 (mem s1) pte (pa OR perm OR PTE_P)\<rparr> in
        if a = lastp then Ret (0, s2)
        else if lastp - a < PGSIZE then Diverge
        else mappages_loop s2 pgdir (a + PGSIZE) lastp (pa + PGSIZE) perm)"
  by pat_completeness auto
termination
proof (relation "measure (\<lambda>(s, pgdir, a, lastp, pa, perm). unat (lastp - a))", goal_cases)
  case 1
  then show ?case by simp
next
  case (2 s pgdir a lastp pa perm x pte s1 s2)
  then have "PGSIZE \<le> lastp - a" by simp
  then have "unat (lastp - a - PGSIZE) = unat (lastp - a) - 4096" and "4096 \<le> unat (lastp - a)"
    by (simp_all add: unat_sub32 word_le_nat_alt)
  then show ?case by (simp add: diff_diff_eq)
qed

declare mappages_loop.simps [simp del]

definition mappages ::
  "'a kmem_st_scheme \<Rightarrow> u32 \<Rightarrow> u32 \<Rightarrow> u32 \<Rightarrow> u32 \<Rightarrow> u32 \<Rightarrow> (u32 \<times> 'a kmem_st_scheme) res" where
  "mappages s pgdir va sz pa perm =
     mappages_loop s pgdir (PGROUNDDOWN va) (PGROUNDDOWN (va + sz - 1)) pa perm"

section \<open>Growing, shrinking and freeing an address space\<close>

function deallocuvm_loop ::
  "'a kmem_st_scheme \<Rightarrow> u32 \<Rightarrow> u32 \<Rightarrow> u32 \<Rightarrow> 'a kmem_st_scheme res" where
  "deallocuvm_loop s pgdir oldsz a =
     (if a < oldsz
      then let (pte, s1) = walkpgdir s pgdir a False in
        if pte = 0
        then let a' = PGADDR (PDX a + 1) 0 0 - PGSIZE + PGSIZE in
          if a' \<le> a then Diverge else deallocuvm_loop s1 pgdir oldsz a'
        else let e = load32 (mem s1) pte; a' = a + PGSIZE in
          if e AND PTE_P \<noteq> 0
          then if PTE_ADDR e = 0 then Panic ''kfree''
            else bind_res (kfree s1 (P2V (PTE_ADDR e))) (\<lambda>s2.
              let s3 = s2\<lparr>mem := store32 (mem s2) pte 0\<rparr> in
              if a' \<le> a then Diverge else deallocuvm_loop s3 pgdir oldsz a')
          else if a' \<le> a then Diverge else deallocuvm_loop s1 pgdir oldsz a'
      else Ret s)"
  by pat_completeness auto
termination
  by (relation "measure (\<lambda>(s, pgdir, oldsz, a). 2 ^ 32 - unat a)")
     (auto simp: not_le word_less_nat_alt unat_lt32 diff_less_mono2)

declare deallocuvm_loop.simps [simp del]

definition deallocuvm ::
  "'a kmem_st_scheme \<Rightarrow> u32 \<Rightarrow> u32 \<Rightarrow> u32 \<Rightarrow> (u32 \<times> 'a kmem_st_scheme) res" where
  "deallocuvm s pgdir oldsz newsz =
     (if newsz \<ge> oldsz then Ret (oldsz, s)
      else bind_res (deallocuvm_loop s pgdir oldsz (PGROUNDUP newsz)) (\<lambda>s'. Ret (newsz, s')))"

function allocuvm_loop ::
  "'a kmem_st_scheme \<Rightarrow> u32 \<Rightarrow> u32 \<Rightarrow> u32 \<Rightarrow> u32 \<Rightarrow> (u32 \<times> 'a kmem_st_scheme) res" where
  "allocuvm_loop s pgdir oldsz newsz a =
     (if a < newsz
      then let (pg, s1) = kalloc s in
        if pg = 0
        then bind_res (deallocuvm s1 pgdir newsz oldsz) (\<lambda>(_, s2). Ret (0, s2))
        else bind_res (mappages (s1\<lparr>mem := memset (mem s1) pg 0 PGSIZE\<rparr>) pgdir a PGSIZE (V2P pg) (PTE_W OR PTE_U))
          (\<lambda>(r, s2).
            if r <s 0
            then bind_res (deallocuvm s2 pgdir newsz oldsz) (\<lambda>(_, s3).
              bind_res (kfree s3 pg) (\<lambda>s4. Ret (0, s4)))
            else if a + PGSIZE \<le> a then Diverge
            else allocuvm_loop s2 pgdir oldsz newsz (a + PGSIZE))
      else Ret (newsz, s))"
  by pat_completeness auto
termination
  by (relation "measure (\<lambda>(s, pgdir, oldsz, newsz, a). 2 ^ 32 - unat a)")
     (auto simp: not_le word_less_nat_alt unat_lt32 diff_less_mono2)

declare allocuvm_loop.simps [simp del]

definition allocuvm ::
  "'a kmem_st_scheme \<Rightarrow> u32 \<Rightarrow> u32 \<Rightarrow> u32 \<Rightarrow> (u32 \<times> 'a kmem_st_scheme) res" where
  "allocuvm s pgdir oldsz newsz =
     (if newsz \<ge> KERNBASE then Ret (0, s)
      else if newsz < oldsz then Ret (oldsz, s)
      else allocuvm_loop s pgdir oldsz newsz (PGROUNDUP oldsz))"

fun freevm_loop :: "'a kmem_st_scheme \<Rightarrow> u32 \<Rightarrow> nat \<Rightarrow> nat \<Rightarrow> 'a kmem_st_scheme res" where
  "freevm_loop s pgdir i 0 = Ret s"
| "freevm_loop s pgdir i (Suc n) =
     (let e = load32 (mem s) (pgdir + 4 * of_nat i) in
      if e AND PTE_P \<noteq> 0
      then bind_res (kfree s (P2V (PTE_ADDR e))) (\<lambda>s'. freevm_loop s' pgdir (Suc i) n)
      else freevm_loop s pgdir (Suc i) n)"

definition freevm :: "'a kmem_st_scheme \<Rightarrow> u32 \<Rightarrow> 'a kmem_st_scheme res" where
  "freevm s pgdir =
     (if pgdir = 0 then Panic ''freevm: no pgdir''
      else bind_res (deallocuvm s pgdir MIN_ADDR 0) (\<lambda>(_, s1).
        bind_res (freevm_loop s1 pgdir 0 NPDENTRIES) (\<lambda>s2. kfree s2 pgdir)))"

section \<open>Kernel part of a page table\<close>

definition kmap :: "'a vm_st_scheme \<Rightarrow> (u32 \<times> u32 \<times> u32 \<times> u32) list" where
  "kmap s =
     [(KERNBASE, 0, EXTMEM, PTE_W),
      (KERNLINK, V2P KERNLINK, V2P (kdata s), 0),
      (kdata s, V2P (kdata s), PHYSTOP, PTE_W),
      (DEVSPACE, DEVSPACE, 0, PTE_W)]"

fun setupkvm_loop ::
  "'a kmem_st_scheme \<Rightarrow> u32 \<Rightarrow> (u32 \<times> u32 \<times> u32 \<times> u32) list \<Rightarrow> (u32 \<times> 'a kmem_st_scheme) res" where
  "setupkvm_loop s pgdir [] = Ret (pgdir, s)"
| "setupkvm_loop s pgdir ((virt, phys_start, phys_end, perm) # ks) =
     bind_res (mappages s pgdir virt (phys_end - phys_start) phys_start perm) (\<lambda>(r, s1).
       if r <s 0 then bind_res (freevm s1 pgdir) (\<lambda>s2. Ret (0, s2))
       else setupkvm_loop s1 pgdir ks)"

definition setupkvm :: "'a vm_st_scheme \<Rightarrow> (u32 \<times> 'a vm_st_scheme) res" where
  "setupkvm s =
     (let (pgdir, s1) = kalloc s in
      if pgdir = 0 then Ret (0, s1)
      else let s2 = s1\<lparr>mem := memset (mem s1) pgdir 0 PGSIZE\<rparr> in
        if P2V PHYSTOP > DEVSPACE then Panic ''PHYSTOP too high''
        else setupkvm_loop s2 pgdir (kmap s2))"

definition switchkvm :: "'a vm_st_scheme \<Rightarrow> 'a vm_st_scheme" where
  "switchkvm s = s\<lparr>cr3 := V2P (kpgdir s)\<rparr>"

definition kvmalloc :: "'a vm_st_scheme \<Rightarrow> 'a vm_st_scheme res" where
  "kvmalloc s = bind_res (setupkvm s) (\<lambda>(pgdir, s1). Ret (switchkvm (s1\<lparr>kpgdir := pgdir\<rparr>)))"

section \<open>User pages\<close>

text \<open>\<^verbatim>\<open>inituvm\<close> does not test the result of \<^verbatim>\<open>kalloc\<close>: without a free page it writes through null.\<close>

definition inituvm :: "'a kmem_st_scheme \<Rightarrow> u32 \<Rightarrow> u32 \<Rightarrow> u32 \<Rightarrow> 'a kmem_st_scheme res" where
  "inituvm s pgdir init sz =
     (if sz \<ge> PGSIZE then Panic ''inituvm: more than a page''
      else let (pg, s1) = kalloc s in
        if pg = 0 then Fault
        else bind_res (mappages (s1\<lparr>mem := memset (mem s1) pg 0 PGSIZE\<rparr>) pgdir 0 PGSIZE (V2P pg) (PTE_W OR PTE_U))
          (\<lambda>(_, s2). Ret (s2\<lparr>mem := memmove (mem s2) pg init sz\<rparr>)))"

definition clearpteu :: "'a kmem_st_scheme \<Rightarrow> u32 \<Rightarrow> u32 \<Rightarrow> 'a kmem_st_scheme res" where
  "clearpteu s pgdir uva =
     (let (pte, s1) = walkpgdir s pgdir uva False in
      if pte = 0 then Panic ''clearpteu''
      else Ret (s1\<lparr>mem := store32 (mem s1) pte (load32 (mem s1) pte AND NOT PTE_U)\<rparr>))"

function copyuvm_loop ::
  "'a vm_st_scheme \<Rightarrow> u32 \<Rightarrow> u32 \<Rightarrow> u32 \<Rightarrow> u32 \<Rightarrow> (u32 \<times> 'a vm_st_scheme) res" where
  "copyuvm_loop s pgdir sz d i =
     (if i < sz
      then let (pte, s1) = walkpgdir s pgdir i False in
        if pte = 0 then Panic ''copyuvm: pte should exist''
        else let e = load32 (mem s1) pte in
          if e AND PTE_P = 0 then Panic ''copyuvm: page not present''
          else let pa = PTE_ADDR e; flags = PTE_FLAGS e; (pg, s2) = kalloc s1 in
            if pg = 0 then bind_res (freevm s2 d) (\<lambda>s3. Ret (0, s3))
            else bind_res (mappages (s2\<lparr>mem := memmove (mem s2) pg (P2V pa) PGSIZE\<rparr>) d i PGSIZE (V2P pg) flags)
              (\<lambda>(r, s3).
                if r <s 0
                then bind_res (kfree s3 pg) (\<lambda>s4. bind_res (freevm s4 d) (\<lambda>s5. Ret (0, s5)))
                else if i + PGSIZE \<le> i then Diverge
                else copyuvm_loop s3 pgdir sz d (i + PGSIZE))
      else Ret (d, s))"
  by pat_completeness auto
termination
  by (relation "measure (\<lambda>(s, pgdir, sz, d, i). 2 ^ 32 - unat i)")
     (auto simp: not_le word_less_nat_alt unat_lt32 diff_less_mono2)

declare copyuvm_loop.simps [simp del]

definition copyuvm :: "'a vm_st_scheme \<Rightarrow> u32 \<Rightarrow> u32 \<Rightarrow> (u32 \<times> 'a vm_st_scheme) res" where
  "copyuvm s pgdir sz =
     bind_res (setupkvm s) (\<lambda>(d, s1).
       if d = 0 then Ret (0, s1) else copyuvm_loop s1 pgdir sz d 0)"

text \<open>\<^verbatim>\<open>uva2ka\<close> reads the entry without testing for a missing page table.\<close>

definition uva2ka :: "'a kmem_st_scheme \<Rightarrow> u32 \<Rightarrow> u32 \<Rightarrow> u32 res" where
  "uva2ka s pgdir uva =
     (let (pte, s1) = walkpgdir s pgdir uva False in
      if pte = 0 then Fault
      else let e = load32 (mem s1) pte in
        if e AND PTE_P = 0 then Ret 0
        else if e AND PTE_U = 0 then Ret 0
        else Ret (P2V (PTE_ADDR e)))"

function copyout_loop ::
  "'a kmem_st_scheme \<Rightarrow> u32 \<Rightarrow> u32 \<Rightarrow> u32 \<Rightarrow> u32 \<Rightarrow> (u32 \<times> 'a kmem_st_scheme) res" where
  "copyout_loop s pgdir va buf len =
     (if len > 0
      then let va0 = PGROUNDDOWN va in
        bind_res (uva2ka s pgdir va0) (\<lambda>pa0.
          if pa0 = 0 then Ret (- 1, s)
          else let n = PGSIZE - (va - va0); n = (if n > len then len else n);
                   s1 = s\<lparr>mem := memmove (mem s) (pa0 + (va - va0)) buf n\<rparr>
               in copyout_loop s1 pgdir (va0 + PGSIZE) (buf + n) (len - n))
      else Ret (0, s))"
  by pat_completeness auto
termination
proof (relation "measure (\<lambda>(s, pgdir, va, buf, len). unat len)", goal_cases)
  case 1
  then show ?case by simp
next
  case (2 s pgdir va buf len va0 pa0 n n' s1)
  have "unat (va - va0) < 4096"
    using in_page_iff [of va0 va] 2(2) by simp
  then have "va - va0 < PGSIZE" by (simp add: word_less_nat_alt)
  then have "n \<noteq> 0" using 2(5) by auto
  then have n': "n' \<noteq> 0" "n' \<le> len" using 2(1,6) by (auto simp: not_less)
  then have "unat (len - n') = unat len - unat n'" by (intro unat_sub32)
  moreover have "0 < unat n'" "unat n' \<le> unat len"
    using n' by (auto simp: unat_gt_0 word_le_nat_alt)
  ultimately show ?case by simp
qed

declare copyout_loop.simps [simp del]

definition copyout ::
  "'a kmem_st_scheme \<Rightarrow> u32 \<Rightarrow> u32 \<Rightarrow> u32 \<Rightarrow> u32 \<Rightarrow> (u32 \<times> 'a kmem_st_scheme) res" where
  "copyout s pgdir va p len = copyout_loop s pgdir va p len"

end
