(* ===== verification/Pagetable.thy ===== *)
theory Pagetable
  imports Vm
begin

text \<open>
  What a page table in memory means. \<open>pgmap\<close> reads the two levels as the hardware does and
  gives the present entry of a virtual address; \<open>pgdir_ok\<close> is the well-formedness that
  every operation of vm.c keeps: the directory and its tables are distinct allocator pages,
  none of them free. The lemmas state each routine as an update of \<open>pgmap\<close>.
\<close>

section \<open>Abstraction\<close>

definition pgtab :: "memory \<Rightarrow> u32 \<Rightarrow> u32 \<Rightarrow> u32 option" where
  "pgtab m pgdir va =
     (let e = load32 m (pgdir + 4 * PDX va) in
      if e AND PTE_P \<noteq> 0 then Some (P2V (PTE_ADDR e)) else None)"

definition present :: "u32 \<Rightarrow> u32 option" where
  "present e = (if e AND PTE_P \<noteq> 0 then Some e else None)"

definition pgmap :: "memory \<Rightarrow> u32 \<Rightarrow> u32 \<Rightarrow> u32 option" where
  "pgmap m pgdir va =
     (case pgtab m pgdir va of None \<Rightarrow> None | Some t \<Rightarrow> present (load32 m (t + 4 * PTX va)))"

definition pt_pages :: "memory \<Rightarrow> u32 \<Rightarrow> u32 set" where
  "pt_pages m pgdir = insert pgdir {t. \<exists>va. pgtab m pgdir va = Some t}"

definition tabs_inj :: "memory \<Rightarrow> u32 \<Rightarrow> bool" where
  "tabs_inj m pgdir \<longleftrightarrow>
     (\<forall>va vb t. pgtab m pgdir va = Some t \<longrightarrow> pgtab m pgdir vb = Some t \<longrightarrow> PDX va = PDX vb)"

definition pgdir_ok :: "'a kmem_st_scheme \<Rightarrow> u32 \<Rightarrow> u32 list \<Rightarrow> bool" where
  "pgdir_ok s pgdir ps \<longleftrightarrow>
     free_pages s ps
     \<and> (\<forall>t \<in> pt_pages (mem s) pgdir. kpage (kend s) t \<and> t \<notin> set ps)
     \<and> (\<forall>va. pgtab (mem s) pgdir va \<noteq> Some pgdir)
     \<and> tabs_inj (mem s) pgdir"

definition upd_page :: "(u32 \<Rightarrow> 'b) \<Rightarrow> u32 \<Rightarrow> 'b \<Rightarrow> u32 \<Rightarrow> 'b" where
  "upd_page f va v = (\<lambda>vb. if PGROUNDDOWN vb = PGROUNDDOWN va then v else f vb)"

text \<open>
  One step of an operation on \<open>pgdir\<close>: it keeps the invariant, takes pages only from the free
  ones, and leaves every page alone that is neither free nor part of the page table.
\<close>

definition vm_step ::
  "'a kmem_st_scheme \<Rightarrow> u32 list \<Rightarrow> 'a kmem_st_scheme \<Rightarrow> u32 list \<Rightarrow> u32 \<Rightarrow> bool" where
  "vm_step s ps s' ps' pgdir \<longleftrightarrow>
     pgdir_ok s' pgdir ps'
     \<and> kend s' = kend s \<and> use_lock s' = use_lock s \<and> kmem_st.more s' = kmem_st.more s
     \<and> pt_pages (mem s) pgdir \<subseteq> pt_pages (mem s') pgdir
     \<and> pt_pages (mem s') pgdir \<union> set ps' = pt_pages (mem s) pgdir \<union> set ps
     \<and> (\<forall>q. q \<notin> pt_pages (mem s) pgdir \<union> set ps \<longrightarrow> page_eq (mem s) (mem s') q)"

lemma vm_step_refl: "pgdir_ok s pgdir ps \<Longrightarrow> vm_step s ps s ps pgdir"
  by (simp add: vm_step_def)

lemma vm_step_trans:
  "vm_step s ps s1 ps1 pgdir \<Longrightarrow> vm_step s1 ps1 s2 ps2 pgdir \<Longrightarrow> vm_step s ps s2 ps2 pgdir"
  unfolding vm_step_def by (auto intro: page_eq_trans)

section \<open>Slots of a table\<close>

lemma PDX_lt [simp]: "unat (PDX va) < 1024"
  using unat_lt32 [of va] by (simp add: unat_PDX)

lemma PTX_lt [simp]: "unat (PTX va) < 1024"
  by (simp add: unat_PTX)

lemma unat_slot_offset:
  fixes i :: u32
  assumes "unat i < 1024"
  shows "unat (4 * i) = 4 * unat i"
  using assms by (simp add: unat_word_ariths)

lemma slot_page [simp]:
  "pg_aligned p \<Longrightarrow> unat i < 1024 \<Longrightarrow> PGROUNDDOWN (p + 4 * i) = p"
  by (rule PGROUNDDOWN_add) (simp_all add: unat_slot_offset)

lemma unat_slot:
  assumes "pg_aligned p" "unat i < 1024"
  shows "unat (p + 4 * i) = unat p + 4 * unat i"
  using pg_aligned_room [OF assms(1)] assms(2)
  by (subst unat_add32) (simp_all add: unat_slot_offset)

lemma slot_mod4 [simp]:
  assumes "pg_aligned p" "unat i < 1024"
  shows "unat (p + 4 * i) mod 4 = 0"
proof -
  obtain k where "unat p = 4 * k" using pg_aligned_mod4 [OF assms(1)] by auto
  then show ?thesis by (simp add: unat_slot [OF assms])
qed

lemma slot_inj:
  assumes "pg_aligned p" "pg_aligned q" "unat i < 1024" "unat j < 1024"
  shows "p + 4 * i = q + 4 * j \<longleftrightarrow> p = q \<and> i = j"
proof
  assume eq: "p + 4 * i = q + 4 * j"
  then have "PGROUNDDOWN (p + 4 * i) = PGROUNDDOWN (q + 4 * j)" by simp
  then have "p = q" using assms by simp
  moreover from eq have "unat (p + 4 * i) = unat (q + 4 * j)" by simp
  ultimately show "p = q \<and> i = j"
    using assms by (simp add: unat_slot word_unat_eq_iff)
qed simp

lemma load32_store32_slot:
  assumes "pg_aligned p" "pg_aligned q" "unat i < 1024" "unat j < 1024"
  shows "load32 (store32 m (p + 4 * i) v) (q + 4 * j) =
    (if p = q \<and> i = j then v else load32 m (q + 4 * j))"
proof (cases "p = q \<and> i = j")
  case True
  then show ?thesis by simp
next
  case False
  then have "p + 4 * i \<noteq> q + 4 * j" using slot_inj [OF assms] by simp
  then have "load32 (store32 m (p + 4 * i) v) (q + 4 * j) = load32 m (q + 4 * j)"
    using assms by (intro load32_store32_aligned slot_mod4)
  then show ?thesis using False by auto
qed

lemma load32_slot_page_eq:
  "page_eq m m' p \<Longrightarrow> pg_aligned p \<Longrightarrow> unat i < 1024 \<Longrightarrow> load32 m' (p + 4 * i) = load32 m (p + 4 * i)"
  by (rule load32_page_eq) simp_all

lemma same_page_iff:
  "PGROUNDDOWN va = PGROUNDDOWN vb \<longleftrightarrow> PDX va = PDX vb \<and> PTX va = PTX vb"
proof -
  have "unat va div 4194304 = unat va div 4096 div 1024" for va :: u32
    by (simp add: div_mult2_eq [symmetric])
  then have "unat va div 4096 = unat vb div 4096 \<longleftrightarrow>
      unat va div 4194304 = unat vb div 4194304 \<and> unat va div 4096 mod 1024 = unat vb div 4096 mod 1024"
    by (metis div_mult_mod_eq)
  then show ?thesis
    by (simp add: word_unat_eq_iff unat_PGROUNDDOWN unat_PDX unat_PTX)
qed

lemma PDX_PTX_PGROUNDDOWN [simp]:
  "PDX (PGROUNDDOWN va) = PDX va" "PTX (PGROUNDDOWN va) = PTX va"
  using same_page_iff [of "PGROUNDDOWN va" va] by simp_all

lemma pgmap_PGROUNDDOWN [simp]: "pgmap m pgdir (PGROUNDDOWN va) = pgmap m pgdir va"
  by (simp add: pgmap_def pgtab_def split: option.split)

lemma pgmap_same_page: "PGROUNDDOWN va = PGROUNDDOWN vb \<Longrightarrow> pgmap m pgdir va = pgmap m pgdir vb"
  using pgmap_PGROUNDDOWN by metis

section \<open>Entries\<close>

lemma PTE_ADDR_or:
  assumes "pg_aligned pa" "unat f < 4096"
  shows "PTE_ADDR (pa OR f) = pa"
proof -
  have "PTE_ADDR (pa OR f) = PTE_ADDR pa OR PTE_ADDR f"
    by (simp add: PTE_ADDR_def bit.conj_disj_distrib2)
  moreover have "PTE_ADDR f = 0"
    using assms(2) by (simp add: word_unat_eq_iff unat_PTE_ADDR)
  moreover have "PTE_ADDR pa = pa"
    using assms(1) by (simp add: PTE_ADDR_eq_PGROUNDDOWN PGROUNDDOWN_id)
  ultimately show ?thesis by simp
qed

lemma present_or_P [simp]: "present (e OR PTE_P) = Some (e OR PTE_P)"
proof -
  have "bit ((e OR 1) AND 1) 0" by (simp add: bit_simps)
  then show ?thesis by (auto simp: present_def)
qed

lemma present_0 [simp]: "present 0 = None"
  by (simp add: present_def)

lemma V2P_aligned:
  assumes "pg_aligned p" "KERNBASE \<le> p"
  shows "pg_aligned (V2P p)"
proof -
  have "(4096::nat) dvd 2147483648" by simp
  moreover have "unat (V2P p) = unat p - 2147483648"
    using unat_sub32 [OF assms(2)] by (simp add: V2P_def)
  ultimately show ?thesis
    using assms(1) by (simp add: mod_eq_0_iff_dvd dvd_diff_nat)
qed

lemma PTE_ADDR_V2P_or:
  assumes "kpage e p" "unat f < 4096"
  shows "P2V (PTE_ADDR (V2P p OR f)) = p"
  using assms kpage_range [OF assms(1)] by (simp add: PTE_ADDR_or V2P_aligned)

section \<open>Frames\<close>

lemma pgdir_in_pt_pages [simp]: "pgdir \<in> pt_pages m pgdir"
  by (simp add: pt_pages_def)

lemma pgtab_in_pt_pages: "pgtab m pgdir va = Some t \<Longrightarrow> t \<in> pt_pages m pgdir"
  by (auto simp: pt_pages_def)

lemma pgtab_cong:
  "page_eq m m' pgdir \<Longrightarrow> pg_aligned pgdir \<Longrightarrow> pgtab m' pgdir = pgtab m pgdir"
  by (rule ext) (simp add: pgtab_def load32_slot_page_eq)

lemma pgmap_cong:
  assumes "\<forall>t \<in> pt_pages m pgdir. page_eq m m' t \<and> pg_aligned t"
  shows "pgmap m' pgdir = pgmap m pgdir"
proof
  fix va
  have tab: "pgtab m' pgdir = pgtab m pgdir" using assms by (intro pgtab_cong) simp_all
  show "pgmap m' pgdir va = pgmap m pgdir va"
  proof (cases "pgtab m pgdir va")
    case None
    then show ?thesis by (simp add: pgmap_def tab)
  next
    case (Some t)
    then have "load32 m' (t + 4 * PTX va) = load32 m (t + 4 * PTX va)"
      using assms pgtab_in_pt_pages by (intro load32_slot_page_eq) auto
    then show ?thesis by (simp add: pgmap_def tab Some)
  qed
qed

lemma pt_pages_cong:
  "page_eq m m' pgdir \<Longrightarrow> pg_aligned pgdir \<Longrightarrow> pt_pages m' pgdir = pt_pages m pgdir"
  by (simp add: pt_pages_def pgtab_cong)

lemma tabs_inj_cong: "pgtab m' pgdir = pgtab m pgdir \<Longrightarrow> tabs_inj m' pgdir = tabs_inj m pgdir"
  by (simp only: tabs_inj_def)

lemma pgdir_ok_pages:
  "pgdir_ok s pgdir ps \<Longrightarrow> t \<in> pt_pages (mem s) pgdir \<Longrightarrow> kpage (kend s) t \<and> t \<notin> set ps \<and> t \<noteq> 0 \<and> pg_aligned t"
  by (auto simp: pgdir_ok_def dest: kpage_nonzero)

lemma pgdir_ok_dir:
  "pgdir_ok s pgdir ps \<Longrightarrow> kpage (kend s) pgdir \<and> pgdir \<notin> set ps \<and> pg_aligned pgdir"
  using pgdir_ok_pages pgdir_in_pt_pages by blast

lemma pgdir_ok_free: "pgdir_ok s pgdir ps \<Longrightarrow> free_pages s ps"
  by (simp add: pgdir_ok_def)

lemma free_pages_page: "free_pages s ps \<Longrightarrow> p \<in> set ps \<Longrightarrow> kpage (kend s) p \<and> pg_aligned p \<and> p \<noteq> 0"
  by (auto simp: free_pages_def dest: kpage_nonzero)

text \<open>An operation that keeps the pages of a directory keeps the directory.\<close>

lemma pgdir_ok_frame:
  assumes "pgdir_ok s pgdir ps" "free_pages s' ps'" "kend s' = kend s"
    "\<forall>t \<in> pt_pages (mem s) pgdir. page_eq (mem s) (mem s') t"
    "set ps' \<inter> pt_pages (mem s) pgdir = {}"
  shows "pgdir_ok s' pgdir ps' \<and> pgmap (mem s') pgdir = pgmap (mem s) pgdir
    \<and> pt_pages (mem s') pgdir = pt_pages (mem s) pgdir"
proof -
  have dir: "pg_aligned pgdir" using pgdir_ok_dir [OF assms(1)] by simp
  have pe: "page_eq (mem s) (mem s') pgdir" using assms(4) by simp
  have "pgmap (mem s') pgdir = pgmap (mem s) pgdir"
    using assms(4) pgdir_ok_pages [OF assms(1)] by (intro pgmap_cong) auto
  moreover have "pt_pages (mem s') pgdir = pt_pages (mem s) pgdir"
    using pe dir by (rule pt_pages_cong)
  moreover have tab: "pgtab (mem s') pgdir = pgtab (mem s) pgdir"
    using pe dir by (rule pgtab_cong)
  moreover have "tabs_inj (mem s') pgdir = tabs_inj (mem s) pgdir"
    using tab by (rule tabs_inj_cong)
  moreover have "\<forall>t \<in> pt_pages (mem s) pgdir. t \<notin> set ps'"
    using assms(5) by blast
  ultimately show ?thesis using assms(1,2,3) by (simp add: pgdir_ok_def)
qed

lemma free_pages_frame:
  assumes "free_pages s ps" "kend s' = kend s" "freelist s' = freelist s"
    "\<forall>p \<in> set ps. page_eq (mem s) (mem s') p"
  shows "free_pages s' ps"
proof -
  have "load32 (mem s') p = load32 (mem s) p" if "p \<in> set ps" for p
  proof -
    have "pg_aligned p" using free_pages_page [OF assms(1) that] by simp
    then have "PGROUNDDOWN p = p" "unat p mod 4 = 0"
      by (simp_all add: PGROUNDDOWN_id pg_aligned_mod4)
    then show ?thesis using assms(4) that by (intro load32_page_eq) simp_all
  qed
  then have "flist (mem s') (freelist s) ps = flist (mem s) (freelist s) ps"
    by (intro flist_cong) simp
  then show ?thesis using assms(1-3) by (simp add: free_pages_def)
qed

section \<open>Writing an entry\<close>

lemma pgtab_PDX: "PDX va = PDX vb \<Longrightarrow> pgtab m pgdir va = pgtab m pgdir vb"
  by (simp add: pgtab_def)

lemma tabs_injD:
  "pgdir_ok s pgdir ps \<Longrightarrow> pgtab (mem s) pgdir va = Some t \<Longrightarrow> pgtab (mem s) pgdir vb = Some t \<Longrightarrow> PDX va = PDX vb"
  unfolding pgdir_ok_def tabs_inj_def by blast

lemma pgtab_not_dir: "pgdir_ok s pgdir ps \<Longrightarrow> pgtab (mem s) pgdir va = Some t \<Longrightarrow> t \<noteq> pgdir"
  by (auto simp: pgdir_ok_def)

lemma pgtab_page:
  "pgdir_ok s pgdir ps \<Longrightarrow> pgtab (mem s) pgdir va = Some t \<Longrightarrow>
   kpage (kend s) t \<and> t \<notin> set ps \<and> t \<noteq> 0 \<and> pg_aligned t"
  using pgdir_ok_pages pgtab_in_pt_pages by blast

lemma store_pte:
  fixes e :: u32
  assumes ok: "pgdir_ok s pgdir ps" and t: "pgtab (mem s) pgdir va = Some t"
  defines "s' \<equiv> s\<lparr>mem := store32 (mem s) (t + 4 * PTX va) e\<rparr>"
  shows store_pte_map: "pgmap (mem s') pgdir = upd_page (pgmap (mem s) pgdir) va (present e)"
    and store_pte_step: "vm_step s ps s' ps pgdir"
    and store_pte_tab: "pgtab (mem s') pgdir = pgtab (mem s) pgdir"
proof -
  have al: "pg_aligned t" "t \<notin> set ps" using pgtab_page [OF ok t] by simp_all
  have pe: "page_eq (mem s) (mem s') q" if "q \<noteq> t" for q
    unfolding s'_def using al that by (simp add: page_eq_store32)
  have dir: "pg_aligned pgdir" "t \<noteq> pgdir" using pgdir_ok_dir [OF ok] pgtab_not_dir [OF ok t] by simp_all
  have tab: "pgtab (mem s') pgdir = pgtab (mem s) pgdir" and
    pp: "pt_pages (mem s') pgdir = pt_pages (mem s) pgdir"
    using pe dir by (auto intro!: pgtab_cong pt_pages_cong)
  show "pgtab (mem s') pgdir = pgtab (mem s) pgdir" by (rule tab)
  show "pgmap (mem s') pgdir = upd_page (pgmap (mem s) pgdir) va (present e)"
  proof
    fix vb
    show "pgmap (mem s') pgdir vb = upd_page (pgmap (mem s) pgdir) va (present e) vb"
    proof (cases "pgtab (mem s) pgdir vb")
      case None
      then have "PDX vb \<noteq> PDX va" using t None pgtab_PDX [of vb va "mem s" pgdir] by auto
      then show ?thesis by (simp add: pgmap_def tab None upd_page_def same_page_iff)
    next
      case (Some u)
      have "u = t \<longleftrightarrow> PDX vb = PDX va"
        using tabs_injD [OF ok Some, of va] pgtab_PDX [of vb va "mem s" pgdir] t Some by auto
      moreover have "load32 (mem s') (u + 4 * PTX vb) =
          (if t = u \<and> PTX va = PTX vb then e else load32 (mem s) (u + 4 * PTX vb))"
        unfolding s'_def using al pgtab_page [OF ok Some] by (simp add: load32_store32_slot)
      ultimately show ?thesis
        by (auto simp: pgmap_def tab Some upd_page_def same_page_iff)
    qed
  qed
  have fr: "kend s' = kend s" "use_lock s' = use_lock s" "freelist s' = freelist s"
      "kmem_st.more s' = kmem_st.more s"
    by (simp_all add: s'_def)
  have "\<forall>q \<in> set ps. page_eq (mem s) (mem s') q"
    using pe al(2) by metis
  then have "free_pages s' ps"
    using fr by (intro free_pages_frame [OF pgdir_ok_free [OF ok]])
  moreover have "tabs_inj (mem s') pgdir = tabs_inj (mem s) pgdir"
    using tab by (rule tabs_inj_cong)
  ultimately have "pgdir_ok s' pgdir ps"
    using ok by (simp add: pgdir_ok_def pp tab fr)
  moreover have "t \<in> pt_pages (mem s) pgdir" using t by (rule pgtab_in_pt_pages)
  moreover have "page_eq (mem s) (mem s') q" if "q \<notin> pt_pages (mem s) pgdir" for q
    using that pgtab_in_pt_pages [OF t] by (intro pe) auto
  ultimately show "vm_step s ps s' ps pgdir"
    using pp fr unfolding vm_step_def by auto
qed

section \<open>Adding a table\<close>

lemma add_table:
  assumes ok: "pgdir_ok s pgdir (p # ps)" and none: "pgtab (mem s) pgdir va = None"
  defines "s' \<equiv> s\<lparr>freelist := load32 (mem s) p,
    mem := store32 (memset (mem s) p 0 PGSIZE) (pgdir + 4 * PDX va) (V2P p OR PTE_P OR PTE_W OR PTE_U)\<rparr>"
  shows add_table_tab: "pgtab (mem s') pgdir = (\<lambda>vb. if PDX vb = PDX va then Some p else pgtab (mem s) pgdir vb)"
    and add_table_map: "pgmap (mem s') pgdir = pgmap (mem s) pgdir"
    and add_table_step: "vm_step s (p # ps) s' ps pgdir"
proof -
  let ?e = "V2P p OR PTE_P OR PTE_W OR PTE_U :: u32"
  let ?m = "memset (mem s) p 0 PGSIZE"
  have fp: "free_pages s (p # ps)" using ok by (rule pgdir_ok_free)
  have p: "kpage (kend s) p" "pg_aligned p" "p \<noteq> 0" using free_pages_page [OF fp] by auto
  have dir: "pg_aligned pgdir" "pgdir \<noteq> p" "pgdir \<notin> set ps" using pgdir_ok_dir [OF ok] by auto
  have tabs: "t \<noteq> p \<and> t \<noteq> pgdir \<and> t \<notin> set ps \<and> pg_aligned t \<and> kpage (kend s) t" if "pgtab (mem s) pgdir vb = Some t" for vb t
    using pgtab_page [OF ok that] pgtab_not_dir [OF ok that] by auto
  have e: "P2V (PTE_ADDR ?e) = p" using PTE_ADDR_V2P_or [OF p(1), of 7] by simp
  have eP: "?e AND 1 \<noteq> 0"
  proof -
    have "bit (?e AND 1) 0" by (simp add: bit_simps)
    then show ?thesis by auto
  qed
  have pnot: "p \<notin> set ps" using fp by (simp add: free_pages_def)
  have fr: "kend s' = kend s" "use_lock s' = use_lock s" "kmem_st.more s' = kmem_st.more s"
    by (simp_all add: s'_def)
  have pe1: "page_eq (mem s) ?m q" if "q \<noteq> p" for q
    using p(2) that by (intro page_eq_memset) auto
  have pe: "page_eq (mem s) (mem s') q" if "q \<noteq> p" "q \<noteq> pgdir" for q
  proof -
    have "page_eq ?m (mem s') q"
      unfolding s'_def using dir that by (simp add: page_eq_store32)
    with pe1 [OF that(1)] show ?thesis by (rule page_eq_trans)
  qed
  show tab: "pgtab (mem s') pgdir = (\<lambda>vb. if PDX vb = PDX va then Some p else pgtab (mem s) pgdir vb)"
  proof
    fix vb
    have "load32 (mem s') (pgdir + 4 * PDX vb) = (if PDX vb = PDX va then ?e else load32 (mem s) (pgdir + 4 * PDX vb))"
      unfolding s'_def using dir load32_slot_page_eq [OF pe1 [OF dir(2)] dir(1), of "PDX vb"]
      by (auto simp: load32_store32_slot)
    then show "pgtab (mem s') pgdir vb = (if PDX vb = PDX va then Some p else pgtab (mem s) pgdir vb)"
      using e eP by (simp add: pgtab_def)
  qed
  have zero: "load32 (mem s') (p + 4 * PTX vb) = 0" for vb
    unfolding s'_def using dir p load32_memset_page [of p "p + 4 * PTX vb" "mem s"]
    by (simp add: load32_store32_slot)
  show "pgmap (mem s') pgdir = pgmap (mem s) pgdir"
  proof
    fix vb
    show "pgmap (mem s') pgdir vb = pgmap (mem s) pgdir vb"
    proof (cases "pgtab (mem s) pgdir vb")
      case None
      then show ?thesis by (simp add: pgmap_def tab zero)
    next
      case (Some t)
      then have "PDX vb \<noteq> PDX va" using none Some pgtab_PDX [of vb va "mem s" pgdir] by auto
      moreover have "load32 (mem s') (t + 4 * PTX vb) = load32 (mem s) (t + 4 * PTX vb)"
        using tabs [OF Some] pe by (intro load32_slot_page_eq) auto
      ultimately show ?thesis by (simp add: pgmap_def tab Some)
    qed
  qed
  have "tabs_inj (mem s') pgdir"
    unfolding tabs_inj_def tab
  proof (intro allI impI)
    fix v1 v2 t
    assume "(if PDX v1 = PDX va then Some p else pgtab (mem s) pgdir v1) = Some t"
      "(if PDX v2 = PDX va then Some p else pgtab (mem s) pgdir v2) = Some t"
    then show "PDX v1 = PDX v2"
      using tabs [of v1] tabs [of v2] tabs_injD [OF ok, of v1 t v2] by (auto split: if_splits)
  qed
  moreover have pp: "pt_pages (mem s') pgdir = insert p (pt_pages (mem s) pgdir)"
  proof -
    have "PDX vb \<noteq> PDX va" if "pgtab (mem s) pgdir vb = Some t" for vb t
      using none that pgtab_PDX [of vb va "mem s" pgdir] by auto
    then show ?thesis unfolding pt_pages_def tab by (auto split: if_splits)
  qed
  moreover have "free_pages s' ps"
  proof -
    have "q \<noteq> p \<and> q \<noteq> pgdir" if "q \<in> set ps" for q using that dir pnot by auto
    then have "\<forall>q \<in> set ps. page_eq (mem s) (mem s') q" using pe by blast
    then show ?thesis
      by (intro free_pages_frame [OF kalloc_cons(2) [OF fp]]) (simp_all add: s'_def)
  qed
  moreover have "\<forall>vb. pgtab (mem s') pgdir vb \<noteq> Some pgdir"
    using dir tabs by (auto simp: tab)
  ultimately have "pgdir_ok s' pgdir ps"
    using ok p pnot fr unfolding pgdir_ok_def by simp
  moreover have "page_eq (mem s) (mem s') q" if "q \<notin> pt_pages (mem s) pgdir \<union> set (p # ps)" for q
    using that by (intro pe) auto
  ultimately show "vm_step s (p # ps) s' ps pgdir"
    using pp fr unfolding vm_step_def by auto
qed

section \<open>\<^verbatim>\<open>walkpgdir\<close>\<close>

lemma walkpgdir_Some:
  "pgtab (mem s) pgdir va = Some t \<Longrightarrow> walkpgdir s pgdir va alloc = (t + 4 * PTX va, s)"
  by (auto simp: walkpgdir_def pgtab_def Let_def split: if_splits)

lemma walkpgdir_None:
  "pgtab (mem s) pgdir va = None \<Longrightarrow> walkpgdir s pgdir va False = (0, s)"
  by (auto simp: walkpgdir_def pgtab_def Let_def split: if_splits)

lemma walkpgdir_None_full:
  "pgtab (mem s) pgdir va = None \<Longrightarrow> free_pages s [] \<Longrightarrow> walkpgdir s pgdir va True = (0, s)"
  by (auto simp: walkpgdir_def pgtab_def Let_def kalloc_empty split: if_splits)

lemma walkpgdir_None_alloc:
  assumes "pgtab (mem s) pgdir va = None" "free_pages s (p # ps)"
  shows "walkpgdir s pgdir va True = (p + 4 * PTX va, s\<lparr>freelist := load32 (mem s) p,
    mem := store32 (memset (mem s) p 0 PGSIZE) (pgdir + 4 * PDX va) (V2P p OR PTE_P OR PTE_W OR PTE_U)\<rparr>)"
proof -
  have "p \<noteq> 0" using free_pages_page [OF assms(2)] by simp
  then show ?thesis using assms(1)
    by (auto simp: walkpgdir_def pgtab_def Let_def kalloc_cons(1) [OF assms(2)] split: if_splits)
qed

lemma slot_nonzero: "pg_aligned t \<Longrightarrow> t \<noteq> 0 \<Longrightarrow> t + 4 * PTX va \<noteq> 0"
proof -
  assume "pg_aligned t" "t \<noteq> 0"
  then have "PGROUNDDOWN (t + 4 * PTX va) = t" by simp
  moreover have "PGROUNDDOWN 0 = 0" by (simp add: PGROUNDDOWN_def)
  ultimately show ?thesis using \<open>t \<noteq> 0\<close> by auto
qed

text \<open>
  Looking up an entry with allocation: no map changes; either the table exists afterwards and
  the result is the entry's address, or memory has run out and nothing has changed.
\<close>

lemma walkpgdir_alloc:
  assumes ok: "pgdir_ok s pgdir ps"
  obtains t ps' s' where "walkpgdir s pgdir va True = (t + 4 * PTX va, s')" "t + 4 * PTX va \<noteq> 0"
      "pgtab (mem s') pgdir va = Some t" "pgmap (mem s') pgdir = pgmap (mem s) pgdir"
      "vm_step s ps s' ps' pgdir" "length ps \<le> Suc (length ps')"
  | "walkpgdir s pgdir va True = (0, s)" "ps = []" "pgtab (mem s) pgdir va = None"
proof (cases "pgtab (mem s) pgdir va")
  case (Some t)
  then show ?thesis
    using that(1) [of t s ps] walkpgdir_Some [OF Some] pgtab_page [OF ok Some] slot_nonzero
      vm_step_refl [OF ok] by auto
next
  case None
  show ?thesis
  proof (cases ps)
    case Nil
    then show ?thesis using that(2) None walkpgdir_None_full pgdir_ok_free [OF ok] by auto
  next
    case (Cons p ps')
    have ok': "pgdir_ok s pgdir (p # ps')" using ok Cons by simp
    have fp: "free_pages s (p # ps')" using ok' by (rule pgdir_ok_free)
    note add = add_table [OF ok' None]
    have "p + 4 * PTX va \<noteq> 0" using free_pages_page [OF fp] by (intro slot_nonzero) auto
    then show ?thesis
      using that(1) [OF walkpgdir_None_alloc [OF None fp]] add unfolding Cons by auto
  qed
qed

section \<open>\<^verbatim>\<open>mappages\<close>\<close>

text \<open>The map after \<open>n\<close> pages from \<open>a\<close> have been mapped to the pages from \<open>pa\<close>.\<close>

definition map_range ::
  "(u32 \<Rightarrow> u32 option) \<Rightarrow> u32 \<Rightarrow> nat \<Rightarrow> u32 \<Rightarrow> u32 \<Rightarrow> u32 \<Rightarrow> u32 option" where
  "map_range f a n pa perm = (\<lambda>vb. if unat (vb - a) < n * 4096
     then Some ((pa + (PGROUNDDOWN vb - a)) OR perm OR PTE_P) else f vb)"

lemma map_range_0 [simp]: "map_range f a 0 pa perm = f"
  by (simp add: map_range_def)

lemma page_offset_Suc:
  assumes "pg_aligned a" "unat a + Suc n * 4096 \<le> 4294967296"
  shows "unat (vb - (a + PGSIZE)) < n * 4096 \<longleftrightarrow> 4096 \<le> unat (vb - a) \<and> unat (vb - a) < Suc n * 4096"
proof -
  have eq: "vb - (a + PGSIZE) = (vb - a) - PGSIZE" by simp
  show ?thesis
    unfolding eq
  proof (cases "4096 \<le> unat (vb - a)")
    case True
    then have "PGSIZE \<le> vb - a" by (simp add: word_le_nat_alt)
    then have "unat (vb - a - PGSIZE) = unat (vb - a) - 4096"
      using unat_sub32 by fastforce
    with True show "unat (vb - a - PGSIZE) < n * 4096 \<longleftrightarrow> 4096 \<le> unat (vb - a) \<and> unat (vb - a) < Suc n * 4096"
      by auto
  next
    case False
    then have "unat (vb - a - PGSIZE) = unat (vb - a) + 4294967296 - 4096"
      by (simp add: unat_sub_if_size word_size)
    moreover have "n * 4096 \<le> 4294967296 - 4096" using assms(2) by simp
    ultimately show "unat (vb - a - PGSIZE) < n * 4096 \<longleftrightarrow> 4096 \<le> unat (vb - a) \<and> unat (vb - a) < Suc n * 4096"
      using False by simp
  qed
qed

lemma pgmap_entry:
  "pgtab m pgdir va = Some t \<Longrightarrow> pgmap m pgdir va = present (load32 m (t + 4 * PTX va))"
  by (simp add: pgmap_def)

lemma present_None: "present e = None \<longleftrightarrow> e AND PTE_P = 0"
  by (simp add: present_def)

lemma map_range_Suc:
  assumes "pg_aligned a" "unat a + Suc n * 4096 \<le> 4294967296"
  shows "map_range (upd_page f a (Some (pa OR perm OR PTE_P))) (a + PGSIZE) n (pa + PGSIZE) perm =
    map_range f a (Suc n) pa perm"
proof
  fix vb
  have pg: "PGROUNDDOWN vb = PGROUNDDOWN a \<longleftrightarrow> unat (vb - a) < 4096"
    using in_page_iff [OF assms(1), of vb] PGROUNDDOWN_id [of a] assms(1) by simp
  show "map_range (upd_page f a (Some (pa OR perm OR PTE_P))) (a + PGSIZE) n (pa + PGSIZE) perm vb =
    map_range f a (Suc n) pa perm vb"
  proof (cases "unat (vb - a) < 4096")
    case True
    then have "PGROUNDDOWN vb = a" using in_page_iff [OF assms(1)] by simp
    with True show ?thesis
      using page_offset_Suc [OF assms, of vb] pg by (simp add: map_range_def upd_page_def)
  next
    case False
    then show ?thesis
      using page_offset_Suc [OF assms, of vb] pg by (simp add: map_range_def upd_page_def)
  qed
qed

lemma pg_aligned_next:
  assumes "pg_aligned a" "unat a + Suc (Suc n) * 4096 \<le> 4294967296"
  shows "unat (a + PGSIZE) = unat a + 4096" "pg_aligned (a + PGSIZE)"
proof -
  show "unat (a + PGSIZE) = unat a + 4096" using assms(2) by (subst unat_add32) auto
  then show "pg_aligned (a + PGSIZE)" using assms(1) by simp
qed

lemma unat_page_offset:
  "n * 4096 < 4294967296 \<Longrightarrow> unat (of_nat n * PGSIZE :: u32) = n * 4096"
  using unat_of_nat [of "n * 4096", where ?'a = 32] by simp

lemma mappages_loop_first:
  assumes ok: "pgdir_ok s pgdir ps" and none: "pgmap (mem s) pgdir a = None"
  obtains s2 ps1 where "\<And>lastp. mappages_loop s pgdir a lastp pa perm =
        (if a = lastp then Ret (0, s2) else if lastp - a < PGSIZE then Diverge
         else mappages_loop s2 pgdir (a + PGSIZE) lastp (pa + PGSIZE) perm)"
      "pgmap (mem s2) pgdir = upd_page (pgmap (mem s) pgdir) a (Some (pa OR perm OR PTE_P))"
      "vm_step s ps s2 ps1 pgdir" "length ps \<le> Suc (length ps1)"
  | "\<And>lastp. mappages_loop s pgdir a lastp pa perm = Ret (- 1, s)" "ps = []"
proof (cases rule: walkpgdir_alloc [OF ok, of a])
  case (1 t ps1 s1)
  have ok1: "pgdir_ok s1 pgdir ps1" using 1(5) by (simp add: vm_step_def)
  have "present (load32 (mem s1) (t + 4 * PTX a)) = None"
    using none pgmap_entry [OF 1(3)] 1(4) by simp
  then have np: "load32 (mem s1) (t + 4 * PTX a) AND PTE_P = 0" by (simp add: present_None)
  let ?s2 = "s1\<lparr>mem := store32 (mem s1) (t + 4 * PTX a) (pa OR perm OR PTE_P)\<rparr>"
  show thesis
  proof (rule that(1) [of ?s2 ps1])
    fix lastp
    show "mappages_loop s pgdir a lastp pa perm =
        (if a = lastp then Ret (0, ?s2) else if lastp - a < PGSIZE then Diverge
         else mappages_loop ?s2 pgdir (a + PGSIZE) lastp (pa + PGSIZE) perm)"
      using 1(1,2) np by (subst mappages_loop.simps) (simp add: Let_def)
    show "pgmap (mem ?s2) pgdir = upd_page (pgmap (mem s) pgdir) a (Some (pa OR perm OR PTE_P))"
      using store_pte_map [OF ok1 1(3), of "pa OR perm OR PTE_P"] by (simp add: 1(4) flip: or.assoc)
    show "vm_step s ps ?s2 ps1 pgdir"
      using vm_step_trans [OF 1(5) store_pte_step [OF ok1 1(3)]] .
  qed (rule 1(6))
next
  case 2
  then show thesis using that(2) by (simp add: mappages_loop.simps [of s])
qed

lemma mappages_loop_spec:
  assumes "pgdir_ok s pgdir ps" "pg_aligned a" "unat a + Suc n * 4096 \<le> 4294967296"
    "\<forall>vb. unat (vb - a) < Suc n * 4096 \<longrightarrow> pgmap (mem s) pgdir vb = None"
  shows "(\<exists>s' ps'. mappages_loop s pgdir a (a + of_nat n * PGSIZE) pa perm = Ret (0, s')
        \<and> pgmap (mem s') pgdir = map_range (pgmap (mem s) pgdir) a (Suc n) pa perm
        \<and> vm_step s ps s' ps' pgdir)
    \<or> (\<exists>s' k. mappages_loop s pgdir a (a + of_nat n * PGSIZE) pa perm = Ret (- 1, s') \<and> k \<le> n
        \<and> pgmap (mem s') pgdir = map_range (pgmap (mem s) pgdir) a k pa perm
        \<and> vm_step s ps s' [] pgdir \<and> length ps \<le> k)"
  using assms
proof (induction n arbitrary: s ps a pa)
  case 0
  have none: "pgmap (mem s) pgdir a = None" using "0.prems"(4) by simp
  show ?case
  proof (cases rule: mappages_loop_first [OF "0.prems"(1) none, of pa perm])
    case (1 s2 ps1)
    then show ?thesis using map_range_Suc [of a 0 _ pa perm] "0.prems"(2,3) by auto
  next
    case 2
    then show ?thesis using vm_step_refl [OF "0.prems"(1)] by auto
  qed
next
  case (Suc n)
  note nxt = pg_aligned_next [OF Suc.prems(2,3)]
  have none: "pgmap (mem s) pgdir a = None" using Suc.prems(4) by simp
  show ?case
  proof (cases rule: mappages_loop_first [OF Suc.prems(1) none, of pa perm])
    case (1 s2 ps1)
    have ok2: "pgdir_ok s2 pgdir ps1" using 1(3) by (simp add: vm_step_def)
    have room: "unat (a + PGSIZE) + Suc n * 4096 \<le> 4294967296" using Suc.prems(3) nxt by simp
    have none2: "\<forall>vb. unat (vb - (a + PGSIZE)) < Suc n * 4096 \<longrightarrow> pgmap (mem s2) pgdir vb = None"
    proof (intro allI impI)
      fix vb assume "unat (vb - (a + PGSIZE)) < Suc n * 4096"
      then have "4096 \<le> unat (vb - a) \<and> unat (vb - a) < Suc (Suc n) * 4096"
        using page_offset_Suc [OF Suc.prems(2,3), of vb] by blast
      moreover from this have "PGROUNDDOWN vb \<noteq> PGROUNDDOWN a"
        using in_page_iff [OF Suc.prems(2), of vb] Suc.prems(2) PGROUNDDOWN_id [of a] by simp
      ultimately show "pgmap (mem s2) pgdir vb = None"
        using Suc.prems(4) by (simp add: 1(2) upd_page_def)
    qed
    have off: "unat (of_nat (Suc n) * PGSIZE :: u32) = Suc n * 4096"
      using Suc.prems(3) by (intro unat_page_offset) simp
    then have off': "\<not> of_nat (Suc n) * PGSIZE < (PGSIZE :: u32)" by (simp add: word_less_nat_alt)
    then have "a \<noteq> a + of_nat (Suc n) * PGSIZE" by auto
    then have step: "mappages_loop s pgdir a (a + of_nat (Suc n) * PGSIZE) pa perm =
        mappages_loop s2 pgdir (a + PGSIZE) (a + PGSIZE + of_nat n * PGSIZE) (pa + PGSIZE) perm"
      using off' by (simp add: 1(1) algebra_simps)
    have run: "map_range (pgmap (mem s2) pgdir) (a + PGSIZE) k (pa + PGSIZE) perm =
        map_range (pgmap (mem s) pgdir) a (Suc k) pa perm" if "k \<le> Suc n" for k
      unfolding 1(2) using that Suc.prems(2,3) by (intro map_range_Suc) auto
    note st = vm_step_trans [OF 1(3)]
    from Suc.IH [OF ok2 nxt(2) room none2, of "pa + PGSIZE"] show ?thesis
      unfolding step
    proof (elim disjE exE conjE, goal_cases)
      case (1 s' ps')
      then show ?case using run [of "Suc n"] st by auto
    next
      case (2 s' k)
      then show ?case using run [of k] st 1(4)
        by (intro disjI2 exI [of _ s'] exI [of _ "Suc k"]) auto
    qed
  next
    case 2
    then show ?thesis using vm_step_refl [OF Suc.prems(1)] by auto
  qed
qed

text \<open>Number of pages \<^verbatim>\<open>mappages\<close> visits for \<open>sz\<close> bytes at \<open>va\<close>.\<close>

definition span_pages :: "u32 \<Rightarrow> u32 \<Rightarrow> nat" where
  "span_pages va sz = Suc ((unat va + unat sz - 1) div 4096 - unat va div 4096)"

lemma span_last:
  assumes "0 < sz" "unat va + unat sz \<le> 4294967296"
  shows "PGROUNDDOWN (va + sz - 1) = PGROUNDDOWN va + of_nat (span_pages va sz - 1) * PGSIZE"
    and "unat (PGROUNDDOWN va) + span_pages va sz * 4096 \<le> 4294967296"
proof -
  have pos: "0 < unat sz" using assms(1) by (simp add: unat_gt_0 word_neq_0_conv)
  have "1 \<le> sz" using pos by (simp add: word_le_nat_alt)
  then have u1: "unat (sz - 1) = unat sz - 1" using unat_sub32 [of 1 sz] by simp
  have "unat (va + (sz - 1)) = unat va + (unat sz - 1)"
    using assms(2) pos u1 by (subst unat_add32) auto
  then have u: "unat (va + sz - 1) = unat va + unat sz - 1" using pos by (simp add: algebra_simps)
  have le: "unat va div 4096 \<le> (unat va + unat sz - 1) div 4096"
    using pos by (intro div_le_mono) simp
  have "(unat va + unat sz - 1) div 4096 < 1048576"
    using assms(2) pos by (simp add: less_mult_imp_div_less)
  then show room: "unat (PGROUNDDOWN va) + span_pages va sz * 4096 \<le> 4294967296"
    using le by (simp add: span_pages_def unat_PGROUNDDOWN algebra_simps)
  have "unat (of_nat (span_pages va sz - 1) * PGSIZE :: u32) = (span_pages va sz - 1) * 4096"
    using room by (intro unat_page_offset) (simp add: span_pages_def)
  then have "unat (PGROUNDDOWN va + of_nat (span_pages va sz - 1) * PGSIZE) =
      unat (PGROUNDDOWN va) + (span_pages va sz - 1) * 4096"
    using room by (subst unat_add32) (auto simp: span_pages_def)
  also have "\<dots> = unat (PGROUNDDOWN (va + sz - 1))"
    unfolding unat_PGROUNDDOWN u using le by (simp add: span_pages_def diff_mult_distrib)
  finally show "PGROUNDDOWN (va + sz - 1) = PGROUNDDOWN va + of_nat (span_pages va sz - 1) * PGSIZE"
    by (intro word32_eqI) (rule sym)
qed

lemma mappages_range:
  assumes "pgdir_ok s pgdir ps" "0 < sz" "unat va + unat sz \<le> 4294967296"
    "\<forall>vb. unat (vb - PGROUNDDOWN va) < span_pages va sz * 4096 \<longrightarrow> pgmap (mem s) pgdir vb = None"
  shows "\<exists>r s' ps' k. mappages s pgdir va sz pa perm = Ret (r, s')
    \<and> pgmap (mem s') pgdir = map_range (pgmap (mem s) pgdir) (PGROUNDDOWN va) k pa perm
    \<and> vm_step s ps s' ps' pgdir
    \<and> (r = 0 \<and> k = span_pages va sz \<or> r = - 1 \<and> k < span_pages va sz \<and> ps' = [] \<and> length ps \<le> k)"
proof -
  obtain n where n: "span_pages va sz = Suc n" by (simp add: span_pages_def)
  note sp = span_last [OF assms(2,3), unfolded n]
  have eq: "mappages s pgdir va sz pa perm =
      mappages_loop s pgdir (PGROUNDDOWN va) (PGROUNDDOWN va + of_nat n * PGSIZE) pa perm"
    unfolding mappages_def using sp(1) by simp
  from mappages_loop_spec [OF assms(1) PGROUNDDOWN_aligned sp(2) assms(4)[unfolded n], of pa perm]
  show ?thesis unfolding eq n
  proof (elim disjE exE conjE, goal_cases)
    case (1 s' ps')
    then show ?case by blast
  next
    case (2 s' k)
    then show ?case by (intro exI [of _ "- 1"] exI [of _ s'] exI [of _ "[]"] exI [of _ k]) simp
  qed
qed

lemma span_pages_page: "pg_aligned va \<Longrightarrow> span_pages va PGSIZE = 1"
  by (auto simp: span_pages_def mod_eq_0_iff_dvd elim!: dvdE)

lemma mappages_page:
  assumes "pgdir_ok s pgdir ps" "pg_aligned va" "pgmap (mem s) pgdir va = None"
  obtains s' ps' where "mappages s pgdir va PGSIZE pa perm = Ret (0, s')"
      "pgmap (mem s') pgdir = upd_page (pgmap (mem s) pgdir) va (Some (pa OR perm OR PTE_P))"
      "vm_step s ps s' ps' pgdir"
  | "mappages s pgdir va PGSIZE pa perm = Ret (- 1, s)" "ps = []"
proof -
  have rd: "PGROUNDDOWN va = va" using assms(2) by (simp add: PGROUNDDOWN_id)
  have room: "unat va + 4096 \<le> 4294967296" using assms(2) by (rule pg_aligned_room)
  have "PGROUNDDOWN (va + PGSIZE - 1) = va"
    using span_last(1) [of PGSIZE va] room by (simp add: span_pages_page [OF assms(2)] rd)
  then have eq: "mappages s pgdir va PGSIZE pa perm = mappages_loop s pgdir va va pa perm"
    unfolding mappages_def rd by simp
  show thesis
  proof (cases rule: mappages_loop_first [OF assms(1,3), of pa perm])
    case (1 s2 ps1)
    then show thesis using that(1) [of s2 ps1] eq by simp
  next
    case 2
    then show thesis using that(2) eq by simp
  qed
qed

lemma mappages_remap_panics:
  assumes "pgmap (mem s) pgdir va \<noteq> None" "pgdir_ok s pgdir ps"
  shows "mappages s pgdir va sz pa perm = Panic ''remap''"
proof -
  have "pgmap (mem s) pgdir (PGROUNDDOWN va) \<noteq> None" using assms(1) by simp
  then obtain t where t: "pgtab (mem s) pgdir (PGROUNDDOWN va) = Some t"
      "load32 (mem s) (t + 4 * PTX (PGROUNDDOWN va)) AND PTE_P \<noteq> 0"
    by (auto simp: pgmap_def present_def split: option.splits if_splits)
  then show ?thesis
    using pgtab_page [OF assms(2) t(1)] slot_nonzero [of t "PGROUNDDOWN va"]
    unfolding mappages_def by (subst mappages_loop.simps) (simp add: walkpgdir_Some [OF t(1)])
qed

section \<open>An empty directory\<close>

lemma empty_dir:
  assumes "\<forall>i. unat i < 1024 \<longrightarrow> load32 m (pgdir + 4 * i) = 0"
  shows "pgtab m pgdir va = None" "pgmap m pgdir va = None" "pt_pages m pgdir = {pgdir}"
proof -
  show tab: "pgtab m pgdir va = None" for va using assms by (simp add: pgtab_def)
  then show "pgmap m pgdir va = None" "pt_pages m pgdir = {pgdir}"
    by (simp_all add: pgmap_def pt_pages_def)
qed

lemma pgdir_ok_empty:
  assumes "free_pages s ps" "kpage (kend s) pgdir" "pgdir \<notin> set ps"
    "\<forall>i. unat i < 1024 \<longrightarrow> load32 (mem s) (pgdir + 4 * i) = 0"
  shows "pgdir_ok s pgdir ps"
  using assms(1-3) empty_dir [OF assms(4)] by (simp add: pgdir_ok_def tabs_inj_def)

text \<open>A concrete machine: two free pages and an empty directory.\<close>

definition vm_demo :: kmem_st where
  "vm_demo = \<lparr>mem = store32 (\<lambda>_. 0) 0x80400000 0x80401000, kend = 0x80200000, use_lock = False,
     freelist = 0x80400000\<rparr>"

lemma vm_demo_simps [simp]:
  "kend vm_demo = 0x80200000" "freelist vm_demo = 0x80400000" "use_lock vm_demo = False"
  by (simp_all add: vm_demo_def)

lemma vm_demo_free: "free_pages vm_demo [0x80400000, 0x80401000]"
  by (simp add: free_pages_def vm_demo_def kpage_def V2P_def mem_simps)

lemma vm_demo_dir: "unat i < 1024 \<Longrightarrow> load32 (mem vm_demo) (0x80300000 + 4 * i) = 0"
proof -
  assume i: "unat i < 1024"
  have "load32 (mem vm_demo) (0x80300000 + 4 * i) = load32 (\<lambda>_. 0) (0x80300000 + 4 * i)"
    using i load32_store32_slot [of "0x80400000" "0x80300000" 0 i "\<lambda>_. 0" "0x80401000"]
    by (simp add: vm_demo_def)
  then show ?thesis by simp
qed

lemma vm_demo_ok: "pgdir_ok vm_demo 0x80300000 [0x80400000, 0x80401000]"
  using vm_demo_dir by (intro pgdir_ok_empty vm_demo_free) (simp_all add: kpage_def V2P_def)

lemma vm_demo_map: "pgmap (mem vm_demo) 0x80300000 va = None"
  using vm_demo_dir by (intro empty_dir) simp

text \<open>A second one: no free page, and user page 0 mapped to the page at \<open>0x80401000\<close>.\<close>

definition vm_mapped :: kmem_st where
  "vm_mapped = \<lparr>mem = store32 (store32 (\<lambda>_. 0) 0x80300000 0x400007) 0x80400000 0x401007,
     kend = 0x80200000, use_lock = False, freelist = 0\<rparr>"

lemma vm_mapped_simps [simp]:
  "kend vm_mapped = 0x80200000" "freelist vm_mapped = 0" "use_lock vm_mapped = False"
  by (simp_all add: vm_mapped_def)

lemma vm_mapped_tab: "pgtab (mem vm_mapped) 0x80300000 va = (if PDX va = 0 then Some 0x80400000 else None)"
proof -
  have "load32 (mem vm_mapped) (0x80300000 + 4 * PDX va) = (if PDX va = 0 then 0x400007 else 0)"
    using load32_store32_slot [of "0x80400000" "0x80300000" 0 "PDX va"]
      load32_store32_slot [of "0x80300000" "0x80300000" 0 "PDX va"]
    by (auto simp: vm_mapped_def)
  then show ?thesis by (simp add: pgtab_def P2V_def PTE_ADDR_def)
qed

lemma vm_mapped_map: "pgmap (mem vm_mapped) 0x80300000 va = (if PGROUNDDOWN va = 0 then Some 0x401007 else None)"
proof -
  have "load32 (mem vm_mapped) (0x80400000 + 4 * PTX va) = (if PTX va = 0 then 0x401007 else 0)"
    using load32_store32_slot [of "0x80400000" "0x80400000" 0 "PTX va"]
      load32_store32_slot [of "0x80300000" "0x80400000" 0 "PTX va"]
    by (auto simp: vm_mapped_def)
  moreover have "PGROUNDDOWN va = 0 \<longleftrightarrow> PDX va = 0 \<and> PTX va = 0"
    using same_page_iff [of va 0] by (simp add: PDX_def PTX_def PGROUNDDOWN_def)
  ultimately show ?thesis
    by (cases "PTX va = 0") (simp_all add: pgmap_def vm_mapped_tab present_def)
qed

lemma vm_mapped_pages: "pt_pages (mem vm_mapped) 0x80300000 = {0x80300000, 0x80400000}"
proof -
  have "PDX 0 = 0" by (simp add: PDX_def)
  then show ?thesis by (auto simp: pt_pages_def vm_mapped_tab split: if_splits intro: exI [of _ 0])
qed

lemma vm_mapped_ok: "pgdir_ok vm_mapped 0x80300000 []"
  by (auto simp: pgdir_ok_def vm_mapped_pages vm_mapped_tab tabs_inj_def kpage_def V2P_def free_pages_def split: if_splits)

section \<open>Properties\<close>

text \<open>
  C5: \<^verbatim>\<open>mappages\<close> on unmapped pages. It returns 0 or -1. On 0 exactly the pages
  that the bytes \<open>[va, va + sz)\<close> touch are mapped, the \<open>i\<close>-th one to \<open>pa + i * PGSIZE\<close> with
  permissions \<open>perm\<close>, and every other address keeps its entry. On -1 the free list is empty and
  a proper prefix of the pages is mapped. Either way the page table stays well formed, page
  tables are only added, they come from the free list, and no other page of memory changes.
\<close>

theorem mappages_correct:
  assumes "pgdir_ok s pgdir ps" "0 < sz" "unat va + unat sz \<le> 4294967296"
    "\<forall>vb. unat (vb - PGROUNDDOWN va) < span_pages va sz * 4096 \<longrightarrow> pgmap (mem s) pgdir vb = None"
  shows "\<exists>r s' ps' k. mappages s pgdir va sz pa perm = Ret (r, s')
    \<and> pgmap (mem s') pgdir = map_range (pgmap (mem s) pgdir) (PGROUNDDOWN va) k pa perm
    \<and> vm_step s ps s' ps' pgdir
    \<and> (r = 0 \<and> k = span_pages va sz \<or> r = - 1 \<and> k < span_pages va sz \<and> ps' = [] \<and> length ps \<le> k)"
  using assms by (rule mappages_range)

theorem mappages_correct_witness:
  "\<exists>r s' ps' k. mappages vm_demo 0x80300000 0x1F00 0x200 0x5000 PTE_U = Ret (r, s')
    \<and> pgmap (mem s') 0x80300000 = map_range (pgmap (mem vm_demo) 0x80300000) (PGROUNDDOWN 0x1F00) k 0x5000 PTE_U
    \<and> vm_step vm_demo [0x80400000, 0x80401000] s' ps' 0x80300000
    \<and> (r = 0 \<and> k = span_pages 0x1F00 0x200 \<or>
       r = - 1 \<and> k < span_pages 0x1F00 0x200 \<and> ps' = [] \<and> length [0x80400000, 0x80401000 :: u32] \<le> k)"
  using vm_demo_map by (intro mappages_correct [OF vm_demo_ok]) simp_all

end
