(* ===== verification/Uvm.thy ===== *)
theory Uvm
  imports Pagetable
begin

text \<open>
  User address spaces (allocuvm, deallocuvm, freevm, copyout of vm.c) above the page table
  theory. \<open>uframe\<close> gives the page that backs a user address; \<open>uvm_ok\<close> says that these pages
  are allocator pages, not free, not page tables, and that no two user pages share one.
\<close>

section \<open>Invariant\<close>

definition uframe :: "memory \<Rightarrow> u32 \<Rightarrow> u32 \<Rightarrow> u32 option" where
  "uframe m pgdir va =
     (if va < KERNBASE then map_option (\<lambda>e. P2V (PTE_ADDR e)) (pgmap m pgdir va) else None)"

definition uframes_inj :: "memory \<Rightarrow> u32 \<Rightarrow> bool" where
  "uframes_inj m pgdir \<longleftrightarrow>
     (\<forall>va vb q. uframe m pgdir va = Some q \<longrightarrow> uframe m pgdir vb = Some q \<longrightarrow> PGROUNDDOWN va = PGROUNDDOWN vb)"

definition uvm_ok :: "'a kmem_st_scheme \<Rightarrow> u32 \<Rightarrow> u32 list \<Rightarrow> bool" where
  "uvm_ok s pgdir ps \<longleftrightarrow>
     pgdir_ok s pgdir ps \<and> KERNBASE < kend s
     \<and> (\<forall>va q. uframe (mem s) pgdir va = Some q \<longrightarrow>
          kpage (kend s) q \<and> q \<notin> set ps \<and> q \<notin> pt_pages (mem s) pgdir)
     \<and> uframes_inj (mem s) pgdir"

lemma uvm_ok_dir: "uvm_ok s pgdir ps \<Longrightarrow> pgdir_ok s pgdir ps"
  by (simp add: uvm_ok_def)

lemma uvm_ok_kernel: "uvm_ok s pgdir ps \<Longrightarrow> KERNBASE < kend s"
  by (simp add: uvm_ok_def)

lemma uvm_ok_frame:
  "uvm_ok s pgdir ps \<Longrightarrow> uframe (mem s) pgdir va = Some q \<Longrightarrow>
   kpage (kend s) q \<and> q \<notin> set ps \<and> q \<notin> pt_pages (mem s) pgdir"
  by (simp add: uvm_ok_def)

lemma uframes_injD:
  "uvm_ok s pgdir ps \<Longrightarrow> uframe (mem s) pgdir va = Some q \<Longrightarrow> uframe (mem s) pgdir vb = Some q \<Longrightarrow>
   PGROUNDDOWN va = PGROUNDDOWN vb"
  unfolding uvm_ok_def uframes_inj_def by blast

lemma uframe_cong: "pgmap m' pgdir = pgmap m pgdir \<Longrightarrow> uframe m' pgdir = uframe m pgdir"
  by (rule ext) (simp add: uframe_def)

lemma user_page_iff: "PGROUNDDOWN va < KERNBASE \<longleftrightarrow> va < KERNBASE"
proof -
  have "unat va div 4096 * 4096 < 2147483648 \<longleftrightarrow> unat va < 2147483648"
  proof
    assume "unat va div 4096 * 4096 < 2147483648"
    then have "unat va div 4096 < 524288" by simp
    then show "unat va < 2147483648" by (simp add: div_less_iff_less_mult)
  next
    assume "unat va < 2147483648"
    then show "unat va div 4096 * 4096 < 2147483648"
      using div_times_less_eq_dividend [of "unat va" 4096] by linarith
  qed
  then show ?thesis by (simp add: word_less_nat_alt unat_PGROUNDDOWN)
qed

lemma uframe_upd_page:
  assumes "pgmap m' pgdir = upd_page (pgmap m pgdir) a v" "a < KERNBASE"
  shows "uframe m' pgdir = upd_page (uframe m pgdir) a (map_option (\<lambda>e. P2V (PTE_ADDR e)) v)"
proof
  fix va
  show "uframe m' pgdir va = upd_page (uframe m pgdir) a (map_option (\<lambda>e. P2V (PTE_ADDR e)) v) va"
    using assms user_page_iff [of va] user_page_iff [of a] by (auto simp: uframe_def upd_page_def)
qed

section \<open>Releasing one page\<close>

lemma unmap_page:
  assumes ok: "uvm_ok s pgdir ps" and a: "a < KERNBASE"
    and t: "pgtab (mem s) pgdir a = Some t" and e: "load32 (mem s) (t + 4 * PTX a) = e" "e AND PTE_P \<noteq> 0"
  obtains s2 s3 where "kfree s (P2V (PTE_ADDR e)) = Ret s2" "s3 = s2\<lparr>mem := store32 (mem s2) (t + 4 * PTX a) 0\<rparr>"
    "uvm_ok s3 pgdir (P2V (PTE_ADDR e) # ps)" "pgmap (mem s3) pgdir = upd_page (pgmap (mem s) pgdir) a None"
    "pt_pages (mem s3) pgdir = pt_pages (mem s) pgdir" "uframe (mem s) pgdir a = Some (P2V (PTE_ADDR e))"
    "kend s3 = kend s" "use_lock s3 = use_lock s" "kmem_st.more s3 = kmem_st.more s"
    "\<forall>q. q \<notin> pt_pages (mem s) pgdir \<longrightarrow> q \<noteq> P2V (PTE_ADDR e) \<longrightarrow> page_eq (mem s) (mem s3) q"
proof -
  let ?q = "P2V (PTE_ADDR e)"
  have dir: "pgdir_ok s pgdir ps" using ok by (rule uvm_ok_dir)
  have fr: "uframe (mem s) pgdir a = Some ?q"
    using a e by (simp add: uframe_def pgmap_entry [OF t] present_def)
  note q = uvm_ok_frame [OF ok fr]
  obtain s2 where s2: "kfree s ?q = Ret s2" "free_pages s2 (?q # ps)"
    using free_pages_kfree [OF pgdir_ok_free [OF dir]] q by blast
  note fr2 = kfree_frame [OF s2(1)]
  have pe2: "page_eq (mem s) (mem s2) r" if "r \<noteq> ?q" for r
    using s2(1) that by (rule kfree_page_eq)
  have "\<forall>t \<in> pt_pages (mem s) pgdir. page_eq (mem s) (mem s2) t"
    using pe2 q by metis
  moreover have "set (?q # ps) \<inter> pt_pages (mem s) pgdir = {}"
    using q pgdir_ok_pages [OF dir] by auto
  ultimately have k2: "pgdir_ok s2 pgdir (?q # ps)" "pgmap (mem s2) pgdir = pgmap (mem s) pgdir"
      "pt_pages (mem s2) pgdir = pt_pages (mem s) pgdir"
    using pgdir_ok_frame [OF dir s2(2)] fr2 by auto
  have "pgdir \<noteq> ?q" using q pgdir_in_pt_pages by auto
  then have t2: "pgtab (mem s2) pgdir a = Some t"
    using t pgtab_cong [OF pe2, of pgdir] pgdir_ok_dir [OF dir] by simp
  define s3 where "s3 = s2\<lparr>mem := store32 (mem s2) (t + 4 * PTX a) 0\<rparr>"
  have map3: "pgmap (mem s3) pgdir = upd_page (pgmap (mem s) pgdir) a None"
    unfolding s3_def using store_pte_map [OF k2(1) t2, of 0] k2(2) by simp
  have st3: "vm_step s2 (?q # ps) s3 (?q # ps) pgdir"
    unfolding s3_def by (rule store_pte_step [OF k2(1) t2])
  have pp3: "pt_pages (mem s3) pgdir = pt_pages (mem s) pgdir"
    using st3 k2(3) store_pte_tab [OF k2(1) t2, of 0] by (simp add: pt_pages_def s3_def)
  have fr3: "uframe (mem s3) pgdir = upd_page (uframe (mem s) pgdir) a None"
    using uframe_upd_page [OF map3 a] by simp
  have other: "r \<noteq> ?q" if "uframe (mem s) pgdir va = Some r" "PGROUNDDOWN va \<noteq> PGROUNDDOWN a" for va r
    using uframes_injD [OF ok that(1), of a] fr that(2) by auto
  have ok3: "uvm_ok s3 pgdir (?q # ps)"
    unfolding uvm_ok_def
  proof (intro conjI allI impI)
    show "pgdir_ok s3 pgdir (?q # ps)" using st3 by (simp add: vm_step_def)
    show "KERNBASE < kend s3" using fr2 uvm_ok_kernel [OF ok] by (simp add: s3_def)
    have "kend s3 = kend s" using fr2 by (simp add: s3_def)
    moreover fix va r assume "uframe (mem s3) pgdir va = Some r"
    then have "uframe (mem s) pgdir va = Some r" "PGROUNDDOWN va \<noteq> PGROUNDDOWN a"
      by (auto simp: fr3 upd_page_def split: if_splits)
    ultimately show "kpage (kend s3) r" "r \<notin> set (?q # ps)" "r \<notin> pt_pages (mem s3) pgdir"
      using uvm_ok_frame [OF ok, of va r] other [of va r] by (simp_all add: pp3)
  next
    show "uframes_inj (mem s3) pgdir"
      unfolding uframes_inj_def fr3 upd_page_def using uframes_injD [OF ok]
      by (metis option.distinct(1))
  qed
  have "page_eq (mem s) (mem s3) r" if "r \<notin> pt_pages (mem s) pgdir" "r \<noteq> ?q" for r
  proof -
    have "t \<noteq> r" using that(1) pgtab_in_pt_pages [OF t] by auto
    moreover have "pg_aligned t" using pgtab_page [OF dir t] by simp
    ultimately have "page_eq (mem s2) (mem s3) r"
      unfolding s3_def by (simp add: page_eq_store32)
    with pe2 [OF that(2)] show ?thesis by (rule page_eq_trans)
  qed
  then show thesis
    using that [OF s2(1) s3_def ok3 map3 pp3 fr] fr2 by (simp add: s3_def)
qed

section \<open>\<^verbatim>\<open>deallocuvm\<close>\<close>

text \<open>The addresses whose page starts in \<open>[a, oldsz)\<close>, for a page boundary \<open>a\<close>.\<close>

definition drange :: "u32 \<Rightarrow> u32 \<Rightarrow> u32 \<Rightarrow> bool" where
  "drange a oldsz va \<longleftrightarrow> a \<le> va \<and> PGROUNDDOWN va < oldsz"

definition frames_in :: "memory \<Rightarrow> u32 \<Rightarrow> u32 \<Rightarrow> u32 \<Rightarrow> u32 set" where
  "frames_in m pgdir a oldsz = {q. \<exists>va. drange a oldsz va \<and> uframe m pgdir va = Some q}"

definition unmapped :: "(u32 \<Rightarrow> u32 option) \<Rightarrow> u32 \<Rightarrow> u32 \<Rightarrow> u32 \<Rightarrow> u32 option" where
  "unmapped f a oldsz = (\<lambda>va. if drange a oldsz va then None else f va)"

lemma PGROUNDDOWN_mono: "a \<le> b \<Longrightarrow> PGROUNDDOWN a \<le> PGROUNDDOWN b"
  by (simp add: word_le_nat_alt unat_PGROUNDDOWN div_le_mono)

lemma PGROUNDDOWN_le: "PGROUNDDOWN a \<le> a"
  by (simp add: word_le_nat_alt unat_PGROUNDDOWN)

lemma drange_empty: "pg_aligned a \<Longrightarrow> oldsz \<le> a \<Longrightarrow> \<not> drange a oldsz va"
  using PGROUNDDOWN_mono [of a va] PGROUNDDOWN_id [of a] by (auto simp: drange_def)

lemma drange_next:
  assumes "pg_aligned a" "a < oldsz" "oldsz \<le> KERNBASE"
  shows "drange a oldsz va \<longleftrightarrow> PGROUNDDOWN va = a \<or> drange (a + PGSIZE) oldsz va"
proof -
  have lt: "unat a < 2147483648" using assms(2,3) by (simp add: word_less_nat_alt word_le_nat_alt)
  then have u: "unat (a + PGSIZE) = unat a + 4096" by (subst unat_add32) auto
  have "unat a \<le> unat va \<longleftrightarrow> PGROUNDDOWN va = a \<or> unat a + 4096 \<le> unat va"
  proof -
    have "PGROUNDDOWN va = a \<longleftrightarrow> unat va div 4096 * 4096 = unat a"
      by (simp add: word_unat_eq_iff unat_PGROUNDDOWN)
    moreover obtain k where "unat a = k * 4096" using assms(1) by (auto simp: mod_eq_0_iff_dvd)
    ultimately show ?thesis
      using div_mult_mod_eq [of "unat va" 4096] by (auto simp: less_eq_div_iff_mult_less_eq) 
  qed
  moreover have "PGROUNDDOWN va = a \<Longrightarrow> PGROUNDDOWN va < oldsz" using assms(2) by simp
  ultimately show ?thesis by (auto simp: drange_def word_le_nat_alt u)
qed

lemma unmapped_next:
  assumes "pg_aligned a" "a < oldsz" "oldsz \<le> KERNBASE"
  shows "unmapped (upd_page f a None) (a + PGSIZE) oldsz = unmapped f a oldsz"
  using drange_next [OF assms] assms(1) PGROUNDDOWN_id [of a]
  by (auto simp: unmapped_def upd_page_def fun_eq_iff)

text \<open>The next page directory entry, where a missing table lets the loop jump.\<close>

lemma PGADDR_next:
  assumes "unat a < 2147483648"
  shows "unat (PGADDR (PDX a + 1) 0 0) = (unat a div 4194304 + 1) * 4194304"
    and "pg_aligned (PGADDR (PDX a + 1) 0 0)"
proof -
  have d: "unat a div 4194304 < 512" using assms by simp
  then have u: "unat (PDX a + 1) = unat a div 4194304 + 1"
    by (subst unat_add32) (simp_all add: unat_PDX)
  have "PGADDR (PDX a + 1) 0 0 = push_bit 22 (PDX a + 1)" by (simp only: PGADDR_def push_bit_of_0 or.right_neutral)
  then have "unat (PGADDR (PDX a + 1) 0 0) = (unat a div 4194304 + 1) * 2 ^ 22 mod 2 ^ LENGTH(32)"
    by (simp only: unsigned_push_bit_eq u take_bit_eq_mod) (simp only: push_bit_eq_mult)
  also have "\<dots> = (unat a div 4194304 + 1) * 4194304" using d by simp
  finally show *: "unat (PGADDR (PDX a + 1) 0 0) = (unat a div 4194304 + 1) * 4194304" .
  show "pg_aligned (PGADDR (PDX a + 1) 0 0)"
    unfolding * by (simp add: mod_eq_0_iff_dvd)
qed

lemma skip_table:
  assumes "pg_aligned a" "a < oldsz" "oldsz \<le> KERNBASE" "pgtab m pgdir a = None"
  defines "a' \<equiv> PGADDR (PDX a + 1) 0 0"
  shows "a < a'" "pg_aligned a'" "drange a oldsz va \<Longrightarrow> \<not> drange a' oldsz va \<Longrightarrow> pgmap m pgdir va = None"
proof -
  have lt: "unat a < 2147483648" using assms(2,3) by (simp add: word_less_nat_alt word_le_nat_alt)
  note n = PGADDR_next [OF lt]
  show "a < a'" "pg_aligned a'"
    using n div_mult_mod_eq [of "unat a" 4194304] mod_less_divisor [of 4194304 "unat a"]
    by (simp_all add: a'_def word_less_nat_alt)
  assume "drange a oldsz va" "\<not> drange a' oldsz va"
  then have "unat a \<le> unat va" "unat va < (unat a div 4194304 + 1) * 4194304"
    using n by (auto simp: drange_def a'_def word_le_nat_alt)
  then have "unat a div 4194304 = unat va div 4194304"
    using div_le_mono [of "unat a" "unat va" 4194304] less_mult_imp_div_less [of "unat va" "unat a div 4194304 + 1" 4194304]
    by linarith
  then have "PDX va = PDX a" by (simp add: word_unat_eq_iff unat_PDX)
  then show "pgmap m pgdir va = None" using assms(4) pgtab_PDX [of va a m pgdir] by (simp add: pgmap_def)
qed

text \<open>Result of releasing a range: exactly its pages move to the free list.\<close>

definition released ::
  "'a kmem_st_scheme \<Rightarrow> u32 list \<Rightarrow> 'a kmem_st_scheme \<Rightarrow> u32 list \<Rightarrow> u32 \<Rightarrow> u32 \<Rightarrow> u32 \<Rightarrow> bool" where
  "released s ps s' ps' pgdir a oldsz \<longleftrightarrow>
     uvm_ok s' pgdir ps'
     \<and> pgmap (mem s') pgdir = unmapped (pgmap (mem s) pgdir) a oldsz
     \<and> set ps' = set ps \<union> frames_in (mem s) pgdir a oldsz
     \<and> pt_pages (mem s') pgdir = pt_pages (mem s) pgdir
     \<and> kend s' = kend s \<and> use_lock s' = use_lock s \<and> kmem_st.more s' = kmem_st.more s
     \<and> (\<forall>q. q \<notin> pt_pages (mem s) pgdir \<longrightarrow> q \<notin> frames_in (mem s) pgdir a oldsz \<longrightarrow> page_eq (mem s) (mem s') q)"

lemma released_skip:
  assumes "released s ps s' ps' pgdir a' oldsz"
    "\<And>va. drange a' oldsz va \<Longrightarrow> drange a oldsz va"
    "\<And>va. drange a oldsz va \<Longrightarrow> \<not> drange a' oldsz va \<Longrightarrow> pgmap (mem s) pgdir va = None"
  shows "released s ps s' ps' pgdir a oldsz"
proof -
  have "unmapped (pgmap (mem s) pgdir) a' oldsz = unmapped (pgmap (mem s) pgdir) a oldsz"
    using assms(2,3) by (auto simp: unmapped_def fun_eq_iff)
  moreover have "frames_in (mem s) pgdir a' oldsz = frames_in (mem s) pgdir a oldsz"
  proof -
    have "drange a' oldsz va \<and> uframe (mem s) pgdir va = Some q \<longleftrightarrow>
        drange a oldsz va \<and> uframe (mem s) pgdir va = Some q" for va q
      using assms(2,3) [of va] by (cases "drange a' oldsz va") (auto simp: uframe_def)
    then show ?thesis by (simp add: frames_in_def)
  qed
  ultimately show ?thesis using assms(1) by (simp add: released_def)
qed

lemma released_page:
  assumes "released s3 (q # ps) s' ps' pgdir (a + PGSIZE) oldsz"
    "pgmap (mem s3) pgdir = upd_page (pgmap (mem s) pgdir) a None"
    "pt_pages (mem s3) pgdir = pt_pages (mem s) pgdir" "uframe (mem s) pgdir a = Some q"
    "kend s3 = kend s" "use_lock s3 = use_lock s" "kmem_st.more s3 = kmem_st.more s"
    "\<forall>r. r \<notin> pt_pages (mem s) pgdir \<longrightarrow> r \<noteq> q \<longrightarrow> page_eq (mem s) (mem s3) r"
    "pg_aligned a" "a < oldsz" "oldsz \<le> KERNBASE"
  shows "released s ps s' ps' pgdir a oldsz"
proof -
  have aK: "a < KERNBASE" using assms(10,11) by simp
  have aa: "PGROUNDDOWN a = a" using assms(9) by (simp add: PGROUNDDOWN_id)
  have map: "unmapped (pgmap (mem s3) pgdir) (a + PGSIZE) oldsz = unmapped (pgmap (mem s) pgdir) a oldsz"
    unfolding assms(2) using assms(9-11) by (rule unmapped_next)
  have fr3: "uframe (mem s3) pgdir = upd_page (uframe (mem s) pgdir) a None"
    using uframe_upd_page [OF assms(2) aK] by simp
  have same: "uframe (mem s) pgdir va = Some q" if "PGROUNDDOWN va = a" for va
    using that assms(4) aK user_page_iff [of va] pgmap_same_page [of va a] aa by (auto simp: uframe_def)
  have nxt: "PGROUNDDOWN va \<noteq> a" if "drange (a + PGSIZE) oldsz va" for va
  proof -
    have "unat a < 2147483648" using aK by (simp add: word_less_nat_alt)
    then have "unat (a + PGSIZE) = unat a + 4096" by (subst unat_add32) auto
    then have "4096 \<le> unat (va - a)"
      using that by (auto simp: drange_def word_le_nat_alt unat_sub_if_size word_size)
    then show ?thesis using in_page_iff [OF assms(9), of va] by auto
  qed
  have fset: "frames_in (mem s) pgdir a oldsz = insert q (frames_in (mem s3) pgdir (a + PGSIZE) oldsz)"
  proof (rule set_eqI)
    fix r
    have "r \<in> frames_in (mem s) pgdir a oldsz \<longleftrightarrow>
        (\<exists>va. PGROUNDDOWN va = a \<and> uframe (mem s) pgdir va = Some r)
        \<or> (\<exists>va. drange (a + PGSIZE) oldsz va \<and> uframe (mem s) pgdir va = Some r)"
      using drange_next [OF assms(9-11)] by (auto simp: frames_in_def)
    moreover have "(\<exists>va. PGROUNDDOWN va = a \<and> uframe (mem s) pgdir va = Some r) \<longleftrightarrow> r = q"
      using same aa assms(4) by auto
    moreover have "(\<exists>va. drange (a + PGSIZE) oldsz va \<and> uframe (mem s) pgdir va = Some r)
        \<longleftrightarrow> r \<in> frames_in (mem s3) pgdir (a + PGSIZE) oldsz"
      using nxt aa by (auto simp: frames_in_def fr3 upd_page_def)
    ultimately show "r \<in> frames_in (mem s) pgdir a oldsz \<longleftrightarrow> r \<in> insert q (frames_in (mem s3) pgdir (a + PGSIZE) oldsz)"
      by simp
  qed
  have "\<forall>r. r \<notin> pt_pages (mem s) pgdir \<longrightarrow> r \<notin> frames_in (mem s) pgdir a oldsz \<longrightarrow> page_eq (mem s) (mem s') r"
    using assms(1,3,8) unfolding fset released_def by (auto intro: page_eq_trans)
  then show ?thesis
    using assms(1,3,5-7) map fset by (auto simp: released_def)
qed

lemma deallocuvm_loop_spec:
  assumes "uvm_ok s pgdir ps" "pg_aligned a" "oldsz \<le> KERNBASE"
  shows "\<exists>s' ps'. deallocuvm_loop s pgdir oldsz a = Ret s' \<and> released s ps s' ps' pgdir a oldsz"
  using assms(1,2)
proof (induction "4294967296 - unat a" arbitrary: a s ps rule: less_induct)
  case less
  show ?case
  proof (cases "a < oldsz")
    case False
    then have "\<not> drange a oldsz va" for va using less.prems(2) by (intro drange_empty) auto
    then have "released s ps s ps pgdir a oldsz"
      using less.prems(1) by (simp add: released_def unmapped_def frames_in_def)
    then show ?thesis using False by (auto simp: deallocuvm_loop.simps [of s])
  next
    case True
    have aK: "a < KERNBASE" using True assms(3) by simp
    have u: "unat (a + PGSIZE) = unat a + 4096"
      using aK by (subst unat_add32) (auto simp: word_less_nat_alt)
    then have nxt: "a < a + PGSIZE" "pg_aligned (a + PGSIZE)"
      using less.prems(2) by (simp_all add: word_less_nat_alt)
    have dec: "4294967296 - unat b < 4294967296 - unat a" if "a < b" for b
      using that unat_lt32 [of a] by (simp add: word_less_nat_alt diff_less_mono2)
    show ?thesis
    proof (cases "pgtab (mem s) pgdir a")
      case None
      note sk = skip_table [OF less.prems(2) True assms(3) None]
      obtain s' ps' where s': "deallocuvm_loop s pgdir oldsz (PGADDR (PDX a + 1) 0 0) = Ret s'"
          "released s ps s' ps' pgdir (PGADDR (PDX a + 1) 0 0) oldsz"
        using less.hyps [OF dec [OF sk(1)] less.prems(1) sk(2)] by blast
      have "released s ps s' ps' pgdir a oldsz"
        using sk(1,3) by (intro released_skip [OF s'(2)]) (auto simp: drange_def)
      then show ?thesis
        using s'(1) True sk(1) by (subst deallocuvm_loop.simps) (auto simp: walkpgdir_None [OF None] Let_def not_le)
    next
      case (Some t)
      let ?e = "load32 (mem s) (t + 4 * PTX a)"
      have t: "t + 4 * PTX a \<noteq> 0"
        using pgtab_page [OF uvm_ok_dir [OF less.prems(1)] Some] by (intro slot_nonzero) auto
      show ?thesis
      proof (cases "?e AND PTE_P = 0")
        case True': True
        obtain s' ps' where s': "deallocuvm_loop s pgdir oldsz (a + PGSIZE) = Ret s'"
            "released s ps s' ps' pgdir (a + PGSIZE) oldsz"
          using less.hyps [OF dec [OF nxt(1)] less.prems(1) nxt(2)] by blast
        have none: "pgmap (mem s) pgdir va = None" if "PGROUNDDOWN va = a" for va
          using that True' pgmap_same_page [of va a] less.prems(2) PGROUNDDOWN_id [of a]
          by (simp add: pgmap_entry [OF Some] present_None)
        have "released s ps s' ps' pgdir a oldsz"
          using drange_next [OF less.prems(2) True assms(3)] none by (intro released_skip [OF s'(2)]) auto
        then show ?thesis
          using s'(1) True True' nxt(1) t
          by (subst deallocuvm_loop.simps) (auto simp: walkpgdir_Some [OF Some] Let_def not_le)
      next
        case False
        obtain s2 s3 where k: "kfree s (P2V (PTE_ADDR ?e)) = Ret s2"
            "s3 = s2\<lparr>mem := store32 (mem s2) (t + 4 * PTX a) 0\<rparr>"
            "uvm_ok s3 pgdir (P2V (PTE_ADDR ?e) # ps)"
          and k': "pgmap (mem s3) pgdir = upd_page (pgmap (mem s) pgdir) a None"
            "pt_pages (mem s3) pgdir = pt_pages (mem s) pgdir" "uframe (mem s) pgdir a = Some (P2V (PTE_ADDR ?e))"
            "kend s3 = kend s" "use_lock s3 = use_lock s" "kmem_st.more s3 = kmem_st.more s"
            "\<forall>q. q \<notin> pt_pages (mem s) pgdir \<longrightarrow> q \<noteq> P2V (PTE_ADDR ?e) \<longrightarrow> page_eq (mem s) (mem s3) q"
          by (rule unmap_page [OF less.prems(1) aK Some refl False])
        have "PTE_ADDR ?e \<noteq> 0"
          using uvm_ok_kernel [OF less.prems(1)] uvm_ok_frame [OF less.prems(1) k'(3)]
          by (auto simp: kpage_def P2V_def)
        obtain s' ps' where s': "deallocuvm_loop s3 pgdir oldsz (a + PGSIZE) = Ret s'"
            "released s3 (P2V (PTE_ADDR ?e) # ps) s' ps' pgdir (a + PGSIZE) oldsz"
          using less.hyps [OF dec [OF nxt(1)] k(3) nxt(2)] by blast
        have "released s ps s' ps' pgdir a oldsz"
          by (rule released_page [OF s'(2) k' less.prems(2) True assms(3)])
        then show ?thesis
          using s'(1) True False nxt(1) t k(1,2) \<open>PTE_ADDR ?e \<noteq> 0\<close>
          by (subst deallocuvm_loop.simps) (auto simp: walkpgdir_Some [OF Some] Let_def not_le)
      qed
    qed
  qed
qed

lemma deallocuvm_spec:
  assumes "uvm_ok s pgdir ps" "newsz < oldsz" "oldsz \<le> KERNBASE"
  shows "\<exists>s' ps'. deallocuvm s pgdir oldsz newsz = Ret (newsz, s')
    \<and> released s ps s' ps' pgdir (PGROUNDUP newsz) oldsz"
proof -
  have "unat newsz < 2147483648" using assms(2,3) by (simp add: word_less_nat_alt word_le_nat_alt)
  then have "pg_aligned (PGROUNDUP newsz)" by (simp add: unat_PGROUNDUP)
  then show ?thesis
    using deallocuvm_loop_spec [OF assms(1) _ assms(3)] assms(2) by (fastforce simp: deallocuvm_def not_le)
qed

section \<open>Adding one page\<close>

definition added ::
  "'a kmem_st_scheme \<Rightarrow> u32 \<Rightarrow> u32 list \<Rightarrow> 'a kmem_st_scheme \<Rightarrow> u32 list \<Rightarrow> u32 \<Rightarrow> u32 \<Rightarrow> bool" where
  "added s p ps s2 ps2 pgdir a \<longleftrightarrow>
     uvm_ok s2 pgdir ps2
     \<and> pgmap (mem s2) pgdir = upd_page (pgmap (mem s) pgdir) a (Some (V2P p OR PTE_P OR PTE_W OR PTE_U))
     \<and> (\<forall>x. PGROUNDDOWN x = p \<longrightarrow> mem s2 x = 0)
     \<and> pt_pages (mem s2) pgdir \<union> set ps2 = pt_pages (mem s) pgdir \<union> set ps
     \<and> pt_pages (mem s) pgdir \<subseteq> pt_pages (mem s2) pgdir
     \<and> kend s2 = kend s \<and> use_lock s2 = use_lock s \<and> kmem_st.more s2 = kmem_st.more s
     \<and> (\<forall>q. q \<notin> pt_pages (mem s) pgdir \<union> set (p # ps) \<longrightarrow> page_eq (mem s) (mem s2) q)"

lemma zeroed_page:
  assumes ok: "uvm_ok s pgdir (p # ps)"
  defines "s1 \<equiv> s\<lparr>freelist := load32 (mem s) p, mem := memset (mem s) p 0 PGSIZE\<rparr>"
  shows "uvm_ok s1 pgdir ps \<and> pgmap (mem s1) pgdir = pgmap (mem s) pgdir
    \<and> pt_pages (mem s1) pgdir = pt_pages (mem s) pgdir
    \<and> (\<forall>q. q \<noteq> p \<longrightarrow> page_eq (mem s) (mem s1) q) \<and> (\<forall>x. PGROUNDDOWN x = p \<longrightarrow> mem s1 x = 0)
    \<and> p \<notin> pt_pages (mem s) pgdir \<and> p \<notin> set ps \<and> kpage (kend s) p \<and> p \<noteq> 0"
proof -
  have dir: "pgdir_ok s pgdir (p # ps)" using ok by (rule uvm_ok_dir)
  have fp: "free_pages s (p # ps)" using dir by (rule pgdir_ok_free)
  have p: "kpage (kend s) p" "pg_aligned p" "p \<noteq> 0" "p \<notin> set ps"
    using free_pages_page [OF fp] fp by (auto simp: free_pages_def)
  have pt: "p \<notin> pt_pages (mem s) pgdir" using pgdir_ok_pages [OF dir] by auto
  have pe: "\<forall>q. q \<noteq> p \<longrightarrow> page_eq (mem s) (mem s1) q"
    using p(2) by (auto simp: s1_def intro!: page_eq_memset)
  have "\<forall>q \<in> set ps. page_eq (mem s) (mem s1) q" using pe p(4) by metis
  then have "free_pages s1 ps"
    by (intro free_pages_frame [OF kalloc_cons(2) [OF fp]]) (simp_all add: s1_def)
  moreover have "\<forall>t \<in> pt_pages (mem s) pgdir. page_eq (mem s) (mem s1) t" using pe pt by metis
  moreover have "set ps \<inter> pt_pages (mem s) pgdir = {}" using pgdir_ok_pages [OF dir] by auto
  ultimately have 1: "pgdir_ok s1 pgdir ps \<and> pgmap (mem s1) pgdir = pgmap (mem s) pgdir
      \<and> pt_pages (mem s1) pgdir = pt_pages (mem s) pgdir"
    by (intro pgdir_ok_frame [OF dir]) (simp_all add: s1_def)
  have fr: "uframe (mem s1) pgdir = uframe (mem s) pgdir" using 1 by (intro uframe_cong) simp
  have "uvm_ok s1 pgdir ps"
    unfolding uvm_ok_def
  proof (intro conjI allI impI)
    fix va q assume "uframe (mem s1) pgdir va = Some q"
    then show "kpage (kend s1) q" "q \<notin> set ps" "q \<notin> pt_pages (mem s1) pgdir"
      using uvm_ok_frame [OF ok, of va q] 1 by (simp_all add: fr) (simp add: s1_def)
  next
    show "uframes_inj (mem s1) pgdir" using ok unfolding uvm_ok_def uframes_inj_def fr by blast
    show "KERNBASE < kend s1" using uvm_ok_kernel [OF ok] by (simp add: s1_def)
  qed (simp add: 1)
  moreover have "mem s1 x = 0" if "PGROUNDDOWN x = p" for x
    using that in_page_iff [OF p(2), of x] by (simp add: s1_def memset_apply)
  ultimately show ?thesis using 1 pe pt p by simp
qed

lemma add_page:
  assumes ok: "uvm_ok s pgdir (p # ps)" and a: "pg_aligned a" "a < KERNBASE"
    and none: "pgmap (mem s) pgdir a = None"
  defines "s1 \<equiv> s\<lparr>freelist := load32 (mem s) p, mem := memset (mem s) p 0 PGSIZE\<rparr>"
  obtains s2 ps2 where "mappages s1 pgdir a PGSIZE (V2P p) (PTE_W OR PTE_U) = Ret (0, s2)"
      "added s p ps s2 ps2 pgdir a"
  | "mappages s1 pgdir a PGSIZE (V2P p) (PTE_W OR PTE_U) = Ret (- 1, s1)" "ps = []"
proof -
  note z = zeroed_page [OF ok, folded s1_def]
  have dir1: "pgdir_ok s1 pgdir ps" using z uvm_ok_dir by blast
  have none1: "pgmap (mem s1) pgdir a = None" using z none by simp
  show thesis
  proof (cases rule: mappages_page [OF dir1 a(1) none1, of "V2P p" "PTE_W OR PTE_U"])
    case (1 s2 ps2)
    have map2: "pgmap (mem s2) pgdir = upd_page (pgmap (mem s) pgdir) a (Some (V2P p OR PTE_P OR PTE_W OR PTE_U))"
      using 1(2) z by simp
    have ad: "P2V (PTE_ADDR (V2P p OR PTE_P OR PTE_W OR PTE_U)) = p"
      using z PTE_ADDR_V2P_or [of "kend s" p 7] by simp
    have fr2: "uframe (mem s2) pgdir = upd_page (uframe (mem s) pgdir) a (Some p)"
      using uframe_upd_page [OF map2 a(2)] ad by simp
    have kend: "kend s2 = kend s" using 1(3) by (simp add: vm_step_def s1_def)
    have pp: "pt_pages (mem s2) pgdir \<union> set ps2 = pt_pages (mem s) pgdir \<union> set ps"
      using 1(3) z by (simp add: vm_step_def)
    have ok2: "uvm_ok s2 pgdir ps2"
      unfolding uvm_ok_def
    proof (intro conjI allI impI)
      show "pgdir_ok s2 pgdir ps2" using 1(3) by (simp add: vm_step_def)
      show "KERNBASE < kend s2" using uvm_ok_kernel [OF ok] by (simp add: kend)
      fix va q assume "uframe (mem s2) pgdir va = Some q"
      then have "q = p \<or> uframe (mem s) pgdir va = Some q"
        by (auto simp: fr2 upd_page_def split: if_splits)
      then have q: "kpage (kend s) q \<and> q \<notin> pt_pages (mem s) pgdir \<union> set ps"
        using uvm_ok_frame [OF ok, of va q] z by auto
      then show "kpage (kend s2) q" by (simp add: kend)
      show "q \<notin> set ps2" "q \<notin> pt_pages (mem s2) pgdir"
        using q unfolding pp [symmetric] by simp_all
    next
      have "q \<noteq> p" if "uframe (mem s) pgdir va = Some q" for va q
        using uvm_ok_frame [OF ok that] by auto
      then show "uframes_inj (mem s2) pgdir"
        unfolding uframes_inj_def fr2 upd_page_def
        using uframes_injD [OF ok] by (metis option.inject)
    qed
    have "page_eq (mem s1) (mem s2) q" if "q \<notin> pt_pages (mem s) pgdir \<union> set ps" for q
      using 1(3) z that by (simp add: vm_step_def)
    then have "page_eq (mem s) (mem s2) q" if "q \<notin> pt_pages (mem s) pgdir \<union> set (p # ps)" for q
      using z that by (auto intro: page_eq_trans)
    moreover have "\<forall>x. PGROUNDDOWN x = p \<longrightarrow> mem s2 x = 0"
      using 1(3) z by (auto simp: vm_step_def page_eq_def)
    moreover have "use_lock s2 = use_lock s" "kmem_st.more s2 = kmem_st.more s"
        "pt_pages (mem s) pgdir \<subseteq> pt_pages (mem s2) pgdir"
      using 1(3) z unfolding vm_step_def by (simp_all add: s1_def)
    ultimately have "added s p ps s2 ps2 pgdir a"
      using ok2 map2 pp kend unfolding added_def by blast
    with 1(1) show thesis by (rule that(1))
  next
    case 2
    then show thesis by (rule that(2))
  qed
qed

section \<open>\<^verbatim>\<open>allocuvm\<close>\<close>

text \<open>
  After growing, every page of the range is backed by a page that was free, filled with
  zeroes; pages are neither lost nor invented.
\<close>

definition grown ::
  "'a kmem_st_scheme \<Rightarrow> u32 list \<Rightarrow> 'a kmem_st_scheme \<Rightarrow> u32 list \<Rightarrow> u32 \<Rightarrow> u32 \<Rightarrow> u32 \<Rightarrow> bool" where
  "grown s ps s' ps' pgdir a newsz \<longleftrightarrow>
     uvm_ok s' pgdir ps'
     \<and> (\<forall>va. \<not> drange a newsz va \<longrightarrow> pgmap (mem s') pgdir va = pgmap (mem s) pgdir va)
     \<and> (\<forall>va. drange a newsz va \<longrightarrow> (\<exists>p \<in> set ps. pgmap (mem s') pgdir va = Some (V2P p OR PTE_P OR PTE_W OR PTE_U)
          \<and> (\<forall>x. PGROUNDDOWN x = p \<longrightarrow> mem s' x = 0)))
     \<and> pt_pages (mem s') pgdir \<union> frames_in (mem s') pgdir a newsz \<union> set ps' = pt_pages (mem s) pgdir \<union> set ps
     \<and> kend s' = kend s \<and> use_lock s' = use_lock s \<and> kmem_st.more s' = kmem_st.more s
     \<and> (\<forall>q. q \<notin> pt_pages (mem s) pgdir \<union> set ps \<longrightarrow> page_eq (mem s) (mem s') q)"

text \<open>When memory runs out, the part already grown is given back.\<close>

definition rolled_back ::
  "'a kmem_st_scheme \<Rightarrow> u32 list \<Rightarrow> 'a kmem_st_scheme \<Rightarrow> u32 list \<Rightarrow> u32 \<Rightarrow> u32 \<Rightarrow> u32 \<Rightarrow> bool" where
  "rolled_back s ps s' ps' pgdir a newsz \<longleftrightarrow>
     uvm_ok s' pgdir ps'
     \<and> pgmap (mem s') pgdir = unmapped (pgmap (mem s) pgdir) a newsz
     \<and> pt_pages (mem s') pgdir \<union> set ps' = pt_pages (mem s) pgdir \<union> set ps \<union> frames_in (mem s) pgdir a newsz
     \<and> kend s' = kend s \<and> use_lock s' = use_lock s \<and> kmem_st.more s' = kmem_st.more s
     \<and> (\<forall>q. q \<notin> pt_pages (mem s) pgdir \<union> set ps \<union> frames_in (mem s) pgdir a newsz \<longrightarrow> page_eq (mem s) (mem s') q)"

lemma released_rolled_back:
  "released s ps s' ps' pgdir a newsz \<Longrightarrow> rolled_back s ps s' ps' pgdir a newsz"
  unfolding released_def rolled_back_def by auto

lemma added_frames_in:
  assumes "added s p ps s2 ps2 pgdir a" "a < KERNBASE" "drange a0 newsz a" "pg_aligned a0" "pg_aligned a"
    "pgmap (mem s) pgdir a = None" "kpage (kend s) p"
  shows "frames_in (mem s2) pgdir a0 newsz = insert p (frames_in (mem s) pgdir a0 newsz)"
proof -
  have ad: "P2V (PTE_ADDR (V2P p OR PTE_P OR PTE_W OR PTE_U)) = p"
    using PTE_ADDR_V2P_or [OF assms(7), of 7] by simp
  have fr2: "uframe (mem s2) pgdir = upd_page (uframe (mem s) pgdir) a (Some p)"
    using uframe_upd_page [of "mem s2" pgdir "mem s" a] assms(1,2) ad by (simp add: added_def)
  have none: "uframe (mem s) pgdir va = None" if "PGROUNDDOWN va = PGROUNDDOWN a" for va
    using that assms(6) pgmap_same_page [OF that, of "mem s" pgdir] by (simp add: uframe_def)
  have "r \<in> frames_in (mem s2) pgdir a0 newsz \<longleftrightarrow> r = p \<or> r \<in> frames_in (mem s) pgdir a0 newsz" for r
    using assms(3) none by (auto simp: frames_in_def fr2 upd_page_def)
  then show ?thesis by auto
qed

lemma rolled_back_added:
  assumes "rolled_back s2 ps2 s' ps' pgdir a0 newsz" "added s p ps s2 ps2 pgdir a" "drange a0 newsz a"
    "frames_in (mem s2) pgdir a0 newsz = insert p (frames_in (mem s) pgdir a0 newsz)"
    "\<And>va. PGROUNDDOWN va = PGROUNDDOWN a \<Longrightarrow> drange a0 newsz va"
  shows "rolled_back s (p # ps) s' ps' pgdir a0 newsz"
proof -
  have "unmapped (pgmap (mem s2) pgdir) a0 newsz = unmapped (pgmap (mem s) pgdir) a0 newsz"
    using assms(2,5) by (auto simp: unmapped_def added_def upd_page_def fun_eq_iff)
  moreover have pp: "pt_pages (mem s2) pgdir \<union> set ps2 = pt_pages (mem s) pgdir \<union> set ps"
    using assms(2) by (simp add: added_def)
  moreover have "page_eq (mem s) (mem s') q"
    if "q \<notin> pt_pages (mem s) pgdir \<union> set (p # ps) \<union> frames_in (mem s) pgdir a0 newsz" for q
  proof -
    have "page_eq (mem s) (mem s2) q" using assms(2) that by (simp add: added_def)
    moreover have "q \<notin> pt_pages (mem s2) pgdir \<union> set ps2 \<union> frames_in (mem s2) pgdir a0 newsz"
      using that unfolding pp assms(4) by auto
    then have "page_eq (mem s2) (mem s') q" using assms(1) by (simp add: rolled_back_def)
    ultimately show ?thesis by (rule page_eq_trans)
  qed
  moreover have "kend s2 = kend s" "use_lock s2 = use_lock s" "kmem_st.more s2 = kmem_st.more s"
    using assms(2) by (simp_all add: added_def)
  moreover note assms(1) [unfolded rolled_back_def assms(4)]
  ultimately show ?thesis unfolding rolled_back_def by auto
qed

lemma grown_added:
  assumes g: "grown s2 ps2 s' ps' pgdir (a + PGSIZE) newsz" and ad: "added s p ps s2 ps2 pgdir a"
    and a: "pg_aligned a" "a < newsz" "newsz \<le> KERNBASE" and p: "kpage (kend s) p"
  shows "grown s (p # ps) s' ps' pgdir a newsz"
proof -
  let ?e = "V2P p OR PTE_P OR PTE_W OR PTE_U :: u32"
  have aK: "a < KERNBASE" using a(2,3) by simp
  have aa: "PGROUNDDOWN a = a" using a(1) by (simp add: PGROUNDDOWN_id)
  have pa: "P2V (PTE_ADDR ?e) = p" using PTE_ADDR_V2P_or [OF p, of 7] by simp
  have map2: "pgmap (mem s2) pgdir = upd_page (pgmap (mem s) pgdir) a (Some ?e)"
    and ok2: "uvm_ok s2 pgdir ps2"
    and pp2: "pt_pages (mem s2) pgdir \<union> set ps2 = pt_pages (mem s) pgdir \<union> set ps"
    and sub2: "pt_pages (mem s) pgdir \<subseteq> pt_pages (mem s2) pgdir"
    and zero2: "\<And>x. PGROUNDDOWN x = p \<Longrightarrow> mem s2 x = 0"
    and pe2: "\<And>q. q \<notin> pt_pages (mem s) pgdir \<union> set (p # ps) \<Longrightarrow> page_eq (mem s) (mem s2) q"
    and fr2: "kend s2 = kend s" "use_lock s2 = use_lock s" "kmem_st.more s2 = kmem_st.more s"
    using ad by (simp_all add: added_def)
  have ok': "uvm_ok s' pgdir ps'"
    and same': "\<And>va. \<not> drange (a + PGSIZE) newsz va \<Longrightarrow> pgmap (mem s') pgdir va = pgmap (mem s2) pgdir va"
    and new': "\<And>va. drange (a + PGSIZE) newsz va \<Longrightarrow> \<exists>r \<in> set ps2.
        pgmap (mem s') pgdir va = Some (V2P r OR PTE_P OR PTE_W OR PTE_U) \<and> (\<forall>x. PGROUNDDOWN x = r \<longrightarrow> mem s' x = 0)"
    and un': "pt_pages (mem s') pgdir \<union> frames_in (mem s') pgdir (a + PGSIZE) newsz \<union> set ps' =
        pt_pages (mem s2) pgdir \<union> set ps2"
    and fr': "kend s' = kend s2" "use_lock s' = use_lock s2" "kmem_st.more s' = kmem_st.more s2"
    and pe': "\<And>q. q \<notin> pt_pages (mem s2) pgdir \<union> set ps2 \<Longrightarrow> page_eq (mem s2) (mem s') q"
    using g by (simp_all add: grown_def)
  note dn = drange_next [OF a]
  have lt: "unat (a + PGSIZE) = unat a + 4096"
    using aK by (subst unat_add32) (auto simp: word_less_nat_alt)
  have na: "\<not> drange (a + PGSIZE) newsz va" if "PGROUNDDOWN va = a" for va
    using in_page_iff [OF a(1), of va] that lt
    by (auto simp: drange_def word_le_nat_alt unat_sub_if_size word_size)
  have at_a: "pgmap (mem s') pgdir va = Some ?e" if "PGROUNDDOWN va = a" for va
    using same' [OF na [OF that]] that by (simp add: map2 upd_page_def aa)
  have "uframe (mem s2) pgdir a = Some p" using aK pa by (simp add: uframe_def map2 upd_page_def)
  then have pown: "p \<notin> pt_pages (mem s2) pgdir \<union> set ps2" using uvm_ok_frame [OF ok2] by blast
  have ps2: "set ps2 \<subseteq> set ps"
    using pp2 sub2 pgdir_ok_pages [OF uvm_ok_dir [OF ok2]] by blast
  have frames: "frames_in (mem s') pgdir a newsz = insert p (frames_in (mem s') pgdir (a + PGSIZE) newsz)"
  proof (rule set_eqI)
    fix r
    have "r \<in> frames_in (mem s') pgdir a newsz \<longleftrightarrow>
        (\<exists>va. PGROUNDDOWN va = a \<and> uframe (mem s') pgdir va = Some r) \<or> r \<in> frames_in (mem s') pgdir (a + PGSIZE) newsz"
      using dn by (auto simp: frames_in_def)
    moreover have "uframe (mem s') pgdir va = Some p" if "PGROUNDDOWN va = a" for va
      using at_a [OF that] that aK user_page_iff [of va] pa by (simp add: uframe_def)
    then have "(\<exists>va. PGROUNDDOWN va = a \<and> uframe (mem s') pgdir va = Some r) \<longleftrightarrow> r = p"
      using aa by auto
    ultimately show "r \<in> frames_in (mem s') pgdir a newsz \<longleftrightarrow> r \<in> insert p (frames_in (mem s') pgdir (a + PGSIZE) newsz)"
      by simp
  qed
  show ?thesis
    unfolding grown_def
  proof (intro conjI allI impI)
    fix va assume "\<not> drange a newsz va"
    then show "pgmap (mem s') pgdir va = pgmap (mem s) pgdir va"
      using dn same' by (simp add: map2 upd_page_def aa)
  next
    fix va assume "drange a newsz va"
    then consider "PGROUNDDOWN va = a" | "drange (a + PGSIZE) newsz va" using dn by blast
    then show "\<exists>r \<in> set (p # ps). pgmap (mem s') pgdir va = Some (V2P r OR PTE_P OR PTE_W OR PTE_U)
        \<and> (\<forall>x. PGROUNDDOWN x = r \<longrightarrow> mem s' x = 0)"
    proof cases
      case 1
      have "\<forall>x. PGROUNDDOWN x = p \<longrightarrow> mem s' x = 0" using zero2 pe' [OF pown] by (simp add: page_eq_def)
      then show ?thesis using at_a [OF 1] by simp
    next
      case 2
      then show ?thesis using new' [OF 2] ps2 by (meson list.set_intros(2) subsetD)
    qed
  next
    show "pt_pages (mem s') pgdir \<union> frames_in (mem s') pgdir a newsz \<union> set ps' = pt_pages (mem s) pgdir \<union> set (p # ps)"
      unfolding frames using un' pp2 by auto
  next
    fix q assume q: "q \<notin> pt_pages (mem s) pgdir \<union> set (p # ps)"
    then have "q \<notin> pt_pages (mem s2) pgdir \<union> set ps2" using pp2 by auto
    then show "page_eq (mem s) (mem s') q" using pe2 [OF q] pe' by (blast intro: page_eq_trans)
  qed (simp_all add: ok' fr2 fr')
qed

lemma kfree_unowned:
  assumes ok: "uvm_ok s pgdir ps" and p: "kpage (kend s) p" "p \<notin> set ps" "p \<notin> pt_pages (mem s) pgdir"
    "\<And>va. uframe (mem s) pgdir va \<noteq> Some p"
  shows "\<exists>s'. kfree s p = Ret s' \<and> uvm_ok s' pgdir (p # ps) \<and> pgmap (mem s') pgdir = pgmap (mem s) pgdir
    \<and> pt_pages (mem s') pgdir = pt_pages (mem s) pgdir \<and> (\<forall>q. q \<noteq> p \<longrightarrow> page_eq (mem s) (mem s') q)
    \<and> kend s' = kend s \<and> use_lock s' = use_lock s \<and> kmem_st.more s' = kmem_st.more s"
proof -
  have dir: "pgdir_ok s pgdir ps" using ok by (rule uvm_ok_dir)
  obtain s' where s': "kfree s p = Ret s'" "free_pages s' (p # ps)"
    using free_pages_kfree [OF pgdir_ok_free [OF dir] p(1,2)] by blast
  have pe: "\<forall>q. q \<noteq> p \<longrightarrow> page_eq (mem s) (mem s') q" using kfree_page_eq [OF s'(1)] by blast
  then have "\<forall>t \<in> pt_pages (mem s) pgdir. page_eq (mem s) (mem s') t" using p(3) by metis
  moreover have "set (p # ps) \<inter> pt_pages (mem s) pgdir = {}" using p(3) pgdir_ok_pages [OF dir] by auto
  ultimately have k: "pgdir_ok s' pgdir (p # ps)" "pgmap (mem s') pgdir = pgmap (mem s) pgdir"
      "pt_pages (mem s') pgdir = pt_pages (mem s) pgdir"
    using pgdir_ok_frame [OF dir s'(2)] kfree_frame [OF s'(1)] by auto
  have fr: "uframe (mem s') pgdir = uframe (mem s) pgdir" using k(2) by (rule uframe_cong)
  have ke: "kend s' = kend s" using kfree_frame [OF s'(1)] by simp
  have "uvm_ok s' pgdir (p # ps)"
    unfolding uvm_ok_def
  proof (intro conjI allI impI)
    fix va q assume "uframe (mem s') pgdir va = Some q"
    then show "kpage (kend s') q" "q \<notin> set (p # ps)" "q \<notin> pt_pages (mem s') pgdir"
      using uvm_ok_frame [OF ok, of va q] p(4) [of va] k(3) ke by (auto simp: fr)
  next
    show "uframes_inj (mem s') pgdir" using ok unfolding uvm_ok_def uframes_inj_def fr by blast
    show "KERNBASE < kend s'" using uvm_ok_kernel [OF ok] ke by simp
  qed (rule k(1))
  then show ?thesis using s'(1) k(2,3) pe kfree_frame [OF s'(1)] by blast
qed

lemma allocuvm_no_table:
  assumes ok: "uvm_ok s pgdir [p]" and sz: "oldsz < newsz" "newsz \<le> KERNBASE"
  defines "s1 \<equiv> s\<lparr>freelist := load32 (mem s) p, mem := memset (mem s) p 0 PGSIZE\<rparr>"
  shows "\<exists>s3 s4 ps'. deallocuvm s1 pgdir newsz oldsz = Ret (oldsz, s3) \<and> kfree s3 p = Ret s4
    \<and> rolled_back s [p] s4 ps' pgdir (PGROUNDUP oldsz) newsz"
proof -
  note z = zeroed_page [OF ok, folded s1_def]
  obtain s3 ps3 where d: "deallocuvm s1 pgdir newsz oldsz = Ret (oldsz, s3)"
      "released s1 [] s3 ps3 pgdir (PGROUNDUP oldsz) newsz"
    using deallocuvm_spec [OF _ sz, of s1 pgdir "[]"] z by blast
  have fr1: "uframe (mem s1) pgdir = uframe (mem s) pgdir" using z by (intro uframe_cong) simp
  have fi: "frames_in (mem s1) pgdir (PGROUNDUP oldsz) newsz = frames_in (mem s) pgdir (PGROUNDUP oldsz) newsz"
    by (simp add: frames_in_def fr1)
  have rel: "uvm_ok s3 pgdir ps3" "pgmap (mem s3) pgdir = unmapped (pgmap (mem s) pgdir) (PGROUNDUP oldsz) newsz"
      "set ps3 = frames_in (mem s) pgdir (PGROUNDUP oldsz) newsz" "pt_pages (mem s3) pgdir = pt_pages (mem s) pgdir"
      "kend s3 = kend s1" "use_lock s3 = use_lock s1" "kmem_st.more s3 = kmem_st.more s1"
    and pe3: "\<And>q. q \<notin> pt_pages (mem s) pgdir \<Longrightarrow> q \<notin> frames_in (mem s) pgdir (PGROUNDUP oldsz) newsz \<Longrightarrow>
      page_eq (mem s1) (mem s3) q"
    using d(2) z fi unfolding released_def by simp_all
  have not_frame: "uframe (mem s) pgdir va \<noteq> Some p" for va using uvm_ok_frame [OF ok, of va p] by auto
  then have "p \<notin> set ps3" unfolding rel(3) by (auto simp: frames_in_def)
  moreover have "uframe (mem s3) pgdir va \<noteq> Some p" for va
  proof
    assume "uframe (mem s3) pgdir va = Some p"
    then have "uframe (mem s) pgdir va = Some p"
      by (auto simp: uframe_def rel(2) unmapped_def split: if_splits)
    then show False using not_frame by blast
  qed
  moreover have ke1: "kend s1 = kend s" "use_lock s1 = use_lock s" "kmem_st.more s1 = kmem_st.more s"
    by (simp_all add: s1_def)
  ultimately obtain s4 where k: "kfree s3 p = Ret s4" "uvm_ok s4 pgdir (p # ps3)"
      "pgmap (mem s4) pgdir = pgmap (mem s3) pgdir" "pt_pages (mem s4) pgdir = pt_pages (mem s3) pgdir"
      "kend s4 = kend s3" "use_lock s4 = use_lock s3" "kmem_st.more s4 = kmem_st.more s3"
    and pe4: "\<And>q. q \<noteq> p \<Longrightarrow> page_eq (mem s3) (mem s4) q"
    using kfree_unowned [OF rel(1), of p] z rel(4,5) by auto
  have "page_eq (mem s) (mem s4) q"
    if "q \<notin> pt_pages (mem s) pgdir \<union> set [p] \<union> frames_in (mem s) pgdir (PGROUNDUP oldsz) newsz" for q
  proof -
    have "page_eq (mem s) (mem s1) q" using z that by auto
    moreover have "page_eq (mem s1) (mem s3) q" using that by (intro pe3) auto
    moreover have "page_eq (mem s3) (mem s4) q" using that by (intro pe4) auto
    ultimately show ?thesis by (blast intro: page_eq_trans)
  qed
  then have "rolled_back s [p] s4 (p # ps3) pgdir (PGROUNDUP oldsz) newsz"
    unfolding rolled_back_def using k rel ke1 by auto
  then show ?thesis using d(1) k(1) by blast
qed

lemma allocuvm_loop_spec:
  assumes "oldsz \<le> newsz" "newsz < KERNBASE"
  shows "uvm_ok s pgdir ps \<Longrightarrow> pg_aligned a \<Longrightarrow> PGROUNDUP oldsz \<le> a \<Longrightarrow>
    \<forall>va. drange a newsz va \<longrightarrow> pgmap (mem s) pgdir va = None \<Longrightarrow>
    (\<exists>s' ps'. allocuvm_loop s pgdir oldsz newsz a = Ret (newsz, s') \<and> grown s ps s' ps' pgdir a newsz)
    \<or> (\<exists>s' ps'. allocuvm_loop s pgdir oldsz newsz a = Ret (0, s') \<and> a < newsz
        \<and> rolled_back s ps s' ps' pgdir (PGROUNDUP oldsz) newsz)"
proof (induction "4294967296 - unat a" arbitrary: a s ps rule: less_induct)
  case less
  let ?a0 = "PGROUNDUP oldsz"
  have u0: "unat ?a0 = (unat oldsz + 4095) div 4096 * 4096"
    using assms by (intro unat_PGROUNDUP) (simp add: word_less_nat_alt word_le_nat_alt)
  then have a0: "pg_aligned ?a0" by simp
  have old: "oldsz \<le> ?a0"
    using div_mult_mod_eq [of "unat oldsz + 4095" 4096] mod_less_divisor [of 4096 "unat oldsz + 4095"]
    unfolding word_le_nat_alt u0 by linarith
  show ?case
  proof (cases "a < newsz")
    case False
    then have "\<not> drange a newsz va" for va using less.prems(2) by (intro drange_empty) auto
    then have "grown s ps s ps pgdir a newsz"
      using less.prems(1) by (simp add: grown_def frames_in_def)
    then show ?thesis using False by (auto simp: allocuvm_loop.simps [of s])
  next
    case True
    have aK: "a < KERNBASE" using True assms(2) by simp
    have le: "newsz \<le> KERNBASE" using assms(2) by simp
    have olt: "oldsz < newsz" using old less.prems(3) True by simp
    have aa: "PGROUNDDOWN a = a" using less.prems(2) by (simp add: PGROUNDDOWN_id)
    have pgs: "drange ?a0 newsz va" if "PGROUNDDOWN va = PGROUNDDOWN a" for va
      using that True less.prems(3) aa PGROUNDDOWN_le [of va] by (auto simp: drange_def)
    have u: "unat (a + PGSIZE) = unat a + 4096"
      using aK by (subst unat_add32) (auto simp: word_less_nat_alt)
    then have nxt: "a < a + PGSIZE" "pg_aligned (a + PGSIZE)"
      using less.prems(2) by (simp_all add: word_less_nat_alt)
    have dec: "4294967296 - unat (a + PGSIZE) < 4294967296 - unat a"
      using u unat_lt32 [of a] by (simp add: diff_less_mono2)
    have none: "pgmap (mem s) pgdir a = None" using less.prems(4) True aa by (simp add: drange_def)
    show ?thesis
    proof (cases ps)
      case Nil
      have "kalloc s = (0, s)"
        using Nil less.prems(1) by (intro kalloc_empty pgdir_ok_free uvm_ok_dir) simp
      moreover obtain s' ps' where d: "deallocuvm s pgdir newsz oldsz = Ret (oldsz, s')"
          "released s ps s' ps' pgdir ?a0 newsz"
        using deallocuvm_spec [OF less.prems(1) olt le] by blast
      ultimately have "allocuvm_loop s pgdir oldsz newsz a = Ret (0, s')"
        using True by (subst allocuvm_loop.simps) simp
      then show ?thesis using True released_rolled_back [OF d(2)] by blast
    next
      case (Cons p ps1)
      have ok: "uvm_ok s pgdir (p # ps1)" using less.prems(1) Cons by simp
      note z = zeroed_page [OF ok]
      then have p0: "p \<noteq> 0" by blast
      have nle: "\<not> a + PGSIZE \<le> a" using nxt(1) by (simp only: not_le)
      let ?s1 = "s\<lparr>freelist := load32 (mem s) p, mem := memset (mem s) p 0 PGSIZE\<rparr>"
      have ka: "kalloc s = (p, s\<lparr>freelist := load32 (mem s) p\<rparr>)"
        using ok by (intro kalloc_cons pgdir_ok_free uvm_ok_dir)
      show ?thesis
      proof (cases rule: add_page [OF ok less.prems(2) aK none])
        case (1 s2 ps2)
        have ok2: "uvm_ok s2 pgdir ps2" using 1(2) by (simp add: added_def)
        have none2: "\<forall>va. drange (a + PGSIZE) newsz va \<longrightarrow> pgmap (mem s2) pgdir va = None"
        proof (intro allI impI)
          fix va assume va: "drange (a + PGSIZE) newsz va"
          then have "4096 \<le> unat (va - a)"
            using u by (auto simp: drange_def word_le_nat_alt unat_sub_if_size word_size)
          then have "PGROUNDDOWN va \<noteq> PGROUNDDOWN a" using in_page_iff [OF less.prems(2), of va] aa by auto
          then show "pgmap (mem s2) pgdir va = None"
            using 1(2) less.prems(4) drange_next [OF less.prems(2) True le] va by (simp add: added_def upd_page_def)
        qed
        have step: "allocuvm_loop s pgdir oldsz newsz a = allocuvm_loop s2 pgdir oldsz newsz (a + PGSIZE)"
          using True ka p0 1(1) nle by (subst allocuvm_loop.simps) simp
        have "?a0 \<le> a + PGSIZE" using less.prems(3) nxt(1) by simp
        note IH = less.hyps [OF dec ok2 nxt(2) this none2]
        have fi: "frames_in (mem s2) pgdir ?a0 newsz = insert p (frames_in (mem s) pgdir ?a0 newsz)"
          using z pgs by (intro added_frames_in [OF 1(2) aK _ a0 less.prems(2) none]) auto
        from IH show ?thesis
          unfolding step Cons
        proof (elim disjE exE conjE, goal_cases)
          case (1 s' ps')
          then show ?case using grown_added [OF 1(2) \<open>added s p ps1 s2 ps2 pgdir a\<close> less.prems(2) True le] z by blast
        next
          case (2 s' ps')
          then show ?case
            using rolled_back_added [OF 2(3) \<open>added s p ps1 s2 ps2 pgdir a\<close> _ fi pgs] pgs True by blast
        qed
      next
        case 2
        obtain s3 s4 ps' where d: "deallocuvm ?s1 pgdir newsz oldsz = Ret (oldsz, s3)" "kfree s3 p = Ret s4"
            "rolled_back s [p] s4 ps' pgdir ?a0 newsz"
          using allocuvm_no_table [OF ok[unfolded 2(2)] olt le] by blast
        have "allocuvm_loop s pgdir oldsz newsz a = Ret (0, s4)"
          using True ka p0 2(1) d(1,2) by (subst allocuvm_loop.simps) simp
        then show ?thesis using True d(3) Cons 2(2) by blast
      qed
    qed
  qed
qed

section \<open>\<^verbatim>\<open>freevm\<close>\<close>

text \<open>The table of directory entry \<open>i\<close>.\<close>

definition tab_at :: "memory \<Rightarrow> u32 \<Rightarrow> nat \<Rightarrow> u32 option" where
  "tab_at m pgdir i = map_option (\<lambda>e. P2V (PTE_ADDR e)) (present (load32 m (pgdir + 4 * of_nat i)))"

lemma pgtab_tab_at: "pgtab m pgdir va = tab_at m pgdir (unat (PDX va))"
  by (simp add: pgtab_def tab_at_def present_def Let_def)

lemma PDX_of_nat:
  assumes "i < 1024"
  shows "unat (PDX (of_nat (i * 4194304))) = i"
  using assms by (simp only: unat_PDX unat_of_nat) simp

lemma pt_pages_tab_at:
  "pt_pages m pgdir = insert pgdir {t. \<exists>i < 1024. tab_at m pgdir i = Some t}"
proof -
  have "(\<exists>va. pgtab m pgdir va = Some t) \<longleftrightarrow> (\<exists>i < 1024. tab_at m pgdir i = Some t)" for t
    unfolding pgtab_tab_at using PDX_of_nat PDX_lt by metis
  then show ?thesis by (simp add: pt_pages_def)
qed

lemma unat_index: "i < 1024 \<Longrightarrow> unat (of_nat i :: u32) = i"
  by (simp add: unat_of_nat)

lemma tab_at_cong:
  "page_eq m m' pgdir \<Longrightarrow> pg_aligned pgdir \<Longrightarrow> i < 1024 \<Longrightarrow> tab_at m' pgdir i = tab_at m pgdir i"
  by (simp add: tab_at_def load32_slot_page_eq unat_index)

definition tabs_from :: "memory \<Rightarrow> u32 \<Rightarrow> nat \<Rightarrow> u32 set" where
  "tabs_from m pgdir i = {t. \<exists>j. i \<le> j \<and> j < 1024 \<and> tab_at m pgdir j = Some t}"

lemma tabs_from_step:
  "i < 1024 \<Longrightarrow> tabs_from m pgdir i = set_option (tab_at m pgdir i) \<union> tabs_from m pgdir (Suc i)"
proof -
  assume i: "i < 1024"
  have "i \<le> j \<longleftrightarrow> j = i \<or> Suc i \<le> j" for j by auto
  then show ?thesis using i unfolding tabs_from_def by (auto simp: elem_set)
qed

definition freed ::
  "'a kmem_st_scheme \<Rightarrow> u32 set \<Rightarrow> 'a kmem_st_scheme \<Rightarrow> bool" where
  "freed s F s' \<longleftrightarrow> kend s' = kend s \<and> use_lock s' = use_lock s \<and> kmem_st.more s' = kmem_st.more s
     \<and> (\<forall>q. q \<notin> F \<longrightarrow> page_eq (mem s) (mem s') q)"

lemma freed_trans: "freed s F s1 \<Longrightarrow> freed s1 G s2 \<Longrightarrow> freed s (F \<union> G) s2"
  unfolding freed_def by (auto intro: page_eq_trans)

lemma kfree_freed: "kfree s v = Ret s' \<Longrightarrow> freed s {v} s'"
  using kfree_frame kfree_page_eq unfolding freed_def by blast

lemma freevm_loop_spec:
  assumes "free_pages s ps" "pg_aligned pgdir" "pgdir \<notin> tabs_from (mem s) pgdir i"
    "\<forall>t \<in> tabs_from (mem s) pgdir i. kpage (kend s) t \<and> t \<notin> set ps"
    "\<forall>j k t. j < 1024 \<longrightarrow> k < 1024 \<longrightarrow> tab_at (mem s) pgdir j = Some t \<longrightarrow> tab_at (mem s) pgdir k = Some t \<longrightarrow> j = k"
    "i + n = 1024"
  shows "\<exists>s' ps'. freevm_loop s pgdir i n = Ret s' \<and> free_pages s' ps'
    \<and> set ps' = set ps \<union> tabs_from (mem s) pgdir i \<and> freed s (tabs_from (mem s) pgdir i) s'"
  using assms
proof (induction n arbitrary: s ps i)
  case 0
  then show ?case by (auto simp: tabs_from_def freed_def)
next
  case (Suc n)
  have i: "i < 1024" using Suc.prems(6) by simp
  show ?case
  proof (cases "tab_at (mem s) pgdir i")
    case None
    then have "load32 (mem s) (pgdir + 4 * of_nat i) AND PTE_P = 0"
      by (simp add: tab_at_def present_None)
    moreover have "tabs_from (mem s) pgdir i = tabs_from (mem s) pgdir (Suc i)"
      using tabs_from_step [OF i] None by simp
    ultimately show ?thesis using Suc.IH [of s ps "Suc i"] Suc.prems by (simp add: Let_def)
  next
    case (Some t)
    let ?e = "load32 (mem s) (pgdir + 4 * of_nat i)"
    have e: "?e AND PTE_P \<noteq> 0" "P2V (PTE_ADDR ?e) = t"
      using Some by (auto simp: tab_at_def present_def split: if_splits)
    have tf: "tabs_from (mem s) pgdir i = insert t (tabs_from (mem s) pgdir (Suc i))"
      using tabs_from_step [OF i] Some by auto
    then obtain s1 where s1: "kfree s t = Ret s1" "free_pages s1 (t # ps)"
      using free_pages_kfree [OF Suc.prems(1)] Suc.prems(4) by blast
    have tp: "t \<noteq> pgdir" using Suc.prems(3) tf by auto
    have tab: "tab_at (mem s1) pgdir j = tab_at (mem s) pgdir j" if "j < 1024" for j
      using kfree_page_eq [OF s1(1)] tp Suc.prems(2) that by (intro tab_at_cong) auto
    then have tf1: "tabs_from (mem s1) pgdir (Suc i) = tabs_from (mem s) pgdir (Suc i)"
      by (auto simp: tabs_from_def)
    have "t \<notin> tabs_from (mem s) pgdir (Suc i)"
      using Suc.prems(5) Some i by (auto simp: tabs_from_def)
    moreover have "kend s1 = kend s" using kfree_frame [OF s1(1)] by simp
    ultimately have "\<exists>s' ps'. freevm_loop s1 pgdir (Suc i) n = Ret s' \<and> free_pages s' ps'
        \<and> set ps' = set (t # ps) \<union> tabs_from (mem s1) pgdir (Suc i) \<and> freed s1 (tabs_from (mem s1) pgdir (Suc i)) s'"
      using Suc.prems tf tf1 tab s1(2) by (intro Suc.IH) (auto simp del: mod_PGSIZE_iff)
    then show ?thesis
      using s1(1) e tf tf1 freed_trans [OF kfree_freed [OF s1(1)]] by (fastforce simp: Let_def)
  qed
qed

lemma freevm_spec:
  assumes ok: "uvm_ok s pgdir ps"
  shows "\<exists>s' ps'. freevm s pgdir = Ret s' \<and> free_pages s' ps'
    \<and> set ps' = set ps \<union> pt_pages (mem s) pgdir \<union> frames_in (mem s) pgdir 0 MIN_ADDR
    \<and> freed s (pt_pages (mem s) pgdir \<union> frames_in (mem s) pgdir 0 MIN_ADDR) s'"
proof -
  let ?F = "frames_in (mem s) pgdir 0 MIN_ADDR"
  have dir: "pgdir_ok s pgdir ps" using ok by (rule uvm_ok_dir)
  have p0: "pgdir \<noteq> 0" using pgdir_ok_pages [OF dir] by auto
  have "PGROUNDUP 0 = 0" by (simp add: PGROUNDUP_def)
  then obtain s1 ps1 where d: "deallocuvm s pgdir MIN_ADDR 0 = Ret (0, s1)"
      "released s ps s1 ps1 pgdir 0 MIN_ADDR"
    using deallocuvm_spec [OF ok, of 0 MIN_ADDR] by auto
  have ok1: "uvm_ok s1 pgdir ps1" and set1: "set ps1 = set ps \<union> ?F"
    and pp1: "pt_pages (mem s1) pgdir = pt_pages (mem s) pgdir"
    using d(2) by (simp_all add: released_def)
  have fr1: "freed s (pt_pages (mem s) pgdir \<union> ?F) s1"
    using d(2) unfolding released_def freed_def by blast
  have dir1: "pgdir_ok s1 pgdir ps1" using ok1 by (rule uvm_ok_dir)
  have tf: "tabs_from (mem s1) pgdir 0 = {t. \<exists>i < 1024. tab_at (mem s1) pgdir i = Some t}"
    by (simp add: tabs_from_def)
  have notdir: "pgdir \<notin> tabs_from (mem s1) pgdir 0"
  proof -
    have "tab_at (mem s1) pgdir i \<noteq> Some pgdir" if "i < 1024" for i
      using dir1 PDX_of_nat [OF that] unfolding pgdir_ok_def pgtab_tab_at by metis
    then show ?thesis by (auto simp: tf)
  qed
  have inj: "\<forall>j k t. j < 1024 \<longrightarrow> k < 1024 \<longrightarrow> tab_at (mem s1) pgdir j = Some t \<longrightarrow> tab_at (mem s1) pgdir k = Some t \<longrightarrow> j = k"
    using dir1 PDX_of_nat unfolding pgdir_ok_def tabs_inj_def pgtab_tab_at by metis
  have pp: "pt_pages (mem s1) pgdir = insert pgdir (tabs_from (mem s1) pgdir 0)"
    by (simp add: pt_pages_tab_at tf)
  then have tabs: "\<forall>t \<in> tabs_from (mem s1) pgdir 0. kpage (kend s1) t \<and> t \<notin> set ps1"
    using pgdir_ok_pages [OF dir1] by auto
  obtain s2 ps2 where l: "freevm_loop s1 pgdir 0 1024 = Ret s2" "free_pages s2 ps2"
      "set ps2 = set ps1 \<union> tabs_from (mem s1) pgdir 0" "freed s1 (tabs_from (mem s1) pgdir 0) s2"
    using freevm_loop_spec [OF pgdir_ok_free [OF dir1] _ notdir tabs inj, of 1024] pgdir_ok_dir [OF dir1] by auto
  have "kpage (kend s2) pgdir" using pgdir_ok_dir [OF dir1] l(4) by (simp add: freed_def)
  moreover have "pgdir \<notin> set ps2" using l(3) notdir pgdir_ok_dir [OF dir1] by auto
  ultimately obtain s3 where k: "kfree s2 pgdir = Ret s3" "free_pages s3 (pgdir # ps2)"
    using free_pages_kfree [OF l(2)] by blast
  have "set (pgdir # ps2) = set ps \<union> pt_pages (mem s) pgdir \<union> ?F"
    using l(3) set1 pp pp1 by auto
  moreover have "freed s (pt_pages (mem s) pgdir \<union> ?F) s3"
    using freed_trans [OF freed_trans [OF fr1 l(4)] kfree_freed [OF k(1)]] pp pp1
    by (simp add: freed_def)
  ultimately show ?thesis using d(1) l(1) k p0 unfolding freevm_def by auto
qed

lemma allocuvm_eq:
  "oldsz \<le> newsz \<Longrightarrow> newsz < KERNBASE \<Longrightarrow>
   allocuvm s pgdir oldsz newsz = allocuvm_loop s pgdir oldsz newsz (PGROUNDUP oldsz)"
  by (auto simp: allocuvm_def)

section \<open>Concrete address spaces\<close>

lemma vm_demo_uvm_ok: "uvm_ok vm_demo 0x80300000 [0x80400000, 0x80401000]"
  by (simp add: uvm_ok_def vm_demo_ok uframes_inj_def uframe_def vm_demo_map)

lemma vm_mapped_frame:
  "uframe (mem vm_mapped) 0x80300000 va = (if PGROUNDDOWN va = 0 then Some 0x80401000 else None)"
proof -
  have "PGROUNDDOWN va = 0 \<Longrightarrow> va < KERNBASE" using user_page_iff [of va] by simp
  then show ?thesis by (auto simp: uframe_def vm_mapped_map P2V_def PTE_ADDR_def)
qed

lemma vm_mapped_uvm_ok: "uvm_ok vm_mapped 0x80300000 []"
  by (auto simp: uvm_ok_def vm_mapped_ok uframes_inj_def vm_mapped_frame vm_mapped_pages kpage_def V2P_def split: if_splits)

section \<open>Properties\<close>

text \<open>
  C4: \<^verbatim>\<open>allocuvm\<close> is all or nothing. On a well-formed address space whose pages from
  \<open>PGROUNDUP oldsz\<close> up to \<open>newsz\<close> are unmapped it either returns \<open>newsz\<close>, and then exactly
  these pages are new, each backed by a zeroed page of its own taken from the free list; or it
  returns 0, and then the map is what it was and every page it took is free again or a page
  table of the process. Memory that was neither free nor a page table is untouched in both cases.
\<close>

theorem allocuvm_all_or_nothing:
  assumes "uvm_ok s pgdir ps" "oldsz \<le> newsz" "newsz < KERNBASE"
    "\<forall>va. drange (PGROUNDUP oldsz) newsz va \<longrightarrow> pgmap (mem s) pgdir va = None"
  shows "\<exists>r s' ps'. allocuvm s pgdir oldsz newsz = Ret (r, s')
    \<and> (r = newsz \<and> grown s ps s' ps' pgdir (PGROUNDUP oldsz) newsz
      \<or> r = 0 \<and> uvm_ok s' pgdir ps' \<and> pgmap (mem s') pgdir = pgmap (mem s) pgdir
        \<and> pt_pages (mem s') pgdir \<union> set ps' = pt_pages (mem s) pgdir \<union> set ps
        \<and> (\<forall>q. q \<notin> pt_pages (mem s) pgdir \<union> set ps \<longrightarrow> page_eq (mem s) (mem s') q))"
proof -
  have "unat (PGROUNDUP oldsz) = (unat oldsz + 4095) div 4096 * 4096"
    using assms(2,3) by (intro unat_PGROUNDUP) (simp add: word_less_nat_alt word_le_nat_alt)
  then have a: "pg_aligned (PGROUNDUP oldsz)" by simp
  have same: "unmapped (pgmap (mem s) pgdir) (PGROUNDUP oldsz) newsz = pgmap (mem s) pgdir"
    using assms(4) by (auto simp: unmapped_def)
  have none: "frames_in (mem s) pgdir (PGROUNDUP oldsz) newsz = {}"
    using assms(4) by (auto simp: frames_in_def uframe_def split: if_splits)
  have eq: "allocuvm s pgdir oldsz newsz = allocuvm_loop s pgdir oldsz newsz (PGROUNDUP oldsz)"
    using assms(2,3) by (intro allocuvm_eq)
  from allocuvm_loop_spec [OF assms(2,3,1) a order_refl assms(4)] show ?thesis
    unfolding eq rolled_back_def same none by (elim disjE exE conjE) auto
qed

theorem allocuvm_all_or_nothing_witness:
  "\<exists>r s' ps'. allocuvm vm_demo 0x80300000 0 0x1800 = Ret (r, s')
    \<and> (r = 0x1800 \<and> grown vm_demo [0x80400000, 0x80401000] s' ps' 0x80300000 (PGROUNDUP 0) 0x1800
      \<or> r = 0 \<and> uvm_ok s' 0x80300000 ps' \<and> pgmap (mem s') 0x80300000 = pgmap (mem vm_demo) 0x80300000
        \<and> pt_pages (mem s') 0x80300000 \<union> set ps' =
            pt_pages (mem vm_demo) 0x80300000 \<union> set [0x80400000, 0x80401000]
        \<and> (\<forall>q. q \<notin> pt_pages (mem vm_demo) 0x80300000 \<union> set [0x80400000, 0x80401000] \<longrightarrow>
            page_eq (mem vm_demo) (mem s') q))"
  using vm_demo_map by (intro allocuvm_all_or_nothing [OF vm_demo_uvm_ok]) simp_all

text \<open>
  C6: \<^verbatim>\<open>deallocuvm\<close> releases exactly a range. Below \<open>KERNBASE\<close>, on a well-formed
  address space it returns \<open>newsz\<close>, unmaps exactly the pages that start in
  \<open>[PGROUNDUP newsz, oldsz)\<close>, puts exactly their pages on the free list, and changes no page
  but those and the page tables; it neither panics nor loops.
\<close>

theorem deallocuvm_exact:
  assumes "uvm_ok s pgdir ps" "newsz < oldsz" "oldsz \<le> KERNBASE"
  shows "\<exists>s' ps'. deallocuvm s pgdir oldsz newsz = Ret (newsz, s')
    \<and> uvm_ok s' pgdir ps'
    \<and> pgmap (mem s') pgdir = (\<lambda>va. if PGROUNDUP newsz \<le> va \<and> PGROUNDDOWN va < oldsz then None else pgmap (mem s) pgdir va)
    \<and> set ps' = set ps \<union> {q. \<exists>va. PGROUNDUP newsz \<le> va \<and> PGROUNDDOWN va < oldsz \<and> uframe (mem s) pgdir va = Some q}"
  using deallocuvm_spec [OF assms] by (fastforce simp: released_def unmapped_def frames_in_def drange_def)

theorem deallocuvm_exact_witness:
  "\<exists>s' ps'. deallocuvm vm_mapped 0x80300000 0x1000 0 = Ret (0, s')
    \<and> uvm_ok s' 0x80300000 ps'
    \<and> pgmap (mem s') 0x80300000 = (\<lambda>va. if PGROUNDUP 0 \<le> va \<and> PGROUNDDOWN va < 0x1000 then None
        else pgmap (mem vm_mapped) 0x80300000 va)
    \<and> set ps' = set [] \<union> {q. \<exists>va. PGROUNDUP 0 \<le> va \<and> PGROUNDDOWN va < 0x1000
        \<and> uframe (mem vm_mapped) 0x80300000 va = Some q}"
  by (intro deallocuvm_exact [OF vm_mapped_uvm_ok]) simp_all

text \<open>
  C20: growing and shrinking back is the identity on the map: when \<^verbatim>\<open>allocuvm\<close> succeeds,
  \<^verbatim>\<open>deallocuvm\<close> of the same range restores every entry, and the pages that are free or
  page tables afterwards are the ones that were before.
\<close>

theorem allocuvm_deallocuvm:
  assumes "uvm_ok s pgdir ps" "oldsz < newsz" "newsz < KERNBASE"
    "\<forall>va. drange (PGROUNDUP oldsz) newsz va \<longrightarrow> pgmap (mem s) pgdir va = None"
  shows "\<exists>r s1. allocuvm s pgdir oldsz newsz = Ret (r, s1) \<and> (r = 0 \<or>
    (\<exists>s2 ps2. deallocuvm s1 pgdir r oldsz = Ret (oldsz, s2) \<and> uvm_ok s2 pgdir ps2
      \<and> pgmap (mem s2) pgdir = pgmap (mem s) pgdir
      \<and> pt_pages (mem s2) pgdir \<union> set ps2 = pt_pages (mem s) pgdir \<union> set ps))"
proof -
  have "unat (PGROUNDUP oldsz) = (unat oldsz + 4095) div 4096 * 4096"
    using assms(2,3) by (intro unat_PGROUNDUP) (simp add: word_less_nat_alt word_le_nat_alt)
  then have a: "pg_aligned (PGROUNDUP oldsz)" by simp
  have le: "oldsz \<le> newsz" "newsz \<le> KERNBASE" using assms(2,3) by auto
  have undo: "\<exists>s2 ps2. deallocuvm s1 pgdir newsz oldsz = Ret (oldsz, s2) \<and> uvm_ok s2 pgdir ps2
      \<and> pgmap (mem s2) pgdir = pgmap (mem s) pgdir
      \<and> pt_pages (mem s2) pgdir \<union> set ps2 = pt_pages (mem s) pgdir \<union> set ps"
    if g: "grown s ps s1 ps1 pgdir (PGROUNDUP oldsz) newsz" for s1 ps1
  proof -
    have ok1: "uvm_ok s1 pgdir ps1" using g by (simp add: grown_def)
    obtain s2 ps2 where d: "deallocuvm s1 pgdir newsz oldsz = Ret (oldsz, s2)"
        "released s1 ps1 s2 ps2 pgdir (PGROUNDUP oldsz) newsz"
      using deallocuvm_spec [OF ok1 assms(2) le(2)] by blast
    have "pgmap (mem s2) pgdir = pgmap (mem s) pgdir"
      using d(2) g assms(4) by (auto simp: released_def grown_def unmapped_def)
    moreover have "pt_pages (mem s2) pgdir \<union> set ps2 = pt_pages (mem s) pgdir \<union> set ps"
      using d(2) g unfolding released_def grown_def by auto
    ultimately show ?thesis using d unfolding released_def by blast
  qed
  from allocuvm_loop_spec [OF le(1) assms(3,1) a order_refl assms(4)] show ?thesis
    unfolding allocuvm_eq [OF le(1) assms(3)] using undo by fast
qed

theorem allocuvm_deallocuvm_witness:
  "\<exists>r s1. allocuvm vm_demo 0x80300000 0 0x1000 = Ret (r, s1) \<and> (r = 0 \<or>
    (\<exists>s2 ps2. deallocuvm s1 0x80300000 r 0 = Ret (0, s2) \<and> uvm_ok s2 0x80300000 ps2
      \<and> pgmap (mem s2) 0x80300000 = pgmap (mem vm_demo) 0x80300000
      \<and> pt_pages (mem s2) 0x80300000 \<union> set ps2 =
          pt_pages (mem vm_demo) 0x80300000 \<union> set [0x80400000, 0x80401000]))"
  using vm_demo_map by (intro allocuvm_deallocuvm [OF vm_demo_uvm_ok]) simp_all

text \<open>
  C23: what \<^verbatim>\<open>freevm\<close> releases. On a well-formed address space it returns, and the free
  list then holds what was free before, the directory with all its page tables, and the pages
  mapped below \<open>MIN_ADDR\<close>. Pages mapped at or above \<open>MIN_ADDR\<close>, where \<^verbatim>\<open>wmap\<close> places its
  mappings, are not released: once the tables are gone nothing refers to them any more.
\<close>

theorem freevm_releases:
  assumes "uvm_ok s pgdir ps"
  shows "\<exists>s' ps'. freevm s pgdir = Ret s' \<and> free_pages s' ps'
    \<and> set ps' = set ps \<union> pt_pages (mem s) pgdir
        \<union> {q. \<exists>va. PGROUNDDOWN va < MIN_ADDR \<and> uframe (mem s) pgdir va = Some q}
    \<and> (\<forall>va q. MIN_ADDR \<le> va \<and> uframe (mem s) pgdir va = Some q \<longrightarrow> q \<notin> set ps')"
proof -
  let ?F = "frames_in (mem s) pgdir 0 MIN_ADDR"
  have F: "?F = {q. \<exists>va. PGROUNDDOWN va < MIN_ADDR \<and> uframe (mem s) pgdir va = Some q}"
    by (simp add: frames_in_def drange_def)
  obtain s' ps' where s': "freevm s pgdir = Ret s'" "free_pages s' ps'"
      "set ps' = set ps \<union> pt_pages (mem s) pgdir \<union> ?F"
    using freevm_spec [OF assms] by blast
  have "q \<notin> set ps'" if "MIN_ADDR \<le> va" "uframe (mem s) pgdir va = Some q" for va q
  proof -
    have "MIN_ADDR \<le> PGROUNDDOWN va"
      using PGROUNDDOWN_mono [OF that(1)] by (simp add: PGROUNDDOWN_def)
    then have "q \<notin> ?F"
      unfolding F using uframes_injD [OF assms that(2)] by (auto simp: not_less [symmetric])
    then show ?thesis using s'(3) uvm_ok_frame [OF assms that(2)] by auto
  qed
  then show ?thesis using s' unfolding F by blast
qed

theorem freevm_releases_witness:
  "\<exists>s' ps'. freevm vm_mapped 0x80300000 = Ret s' \<and> free_pages s' ps'
    \<and> set ps' = set [] \<union> pt_pages (mem vm_mapped) 0x80300000
        \<union> {q. \<exists>va. PGROUNDDOWN va < MIN_ADDR \<and> uframe (mem vm_mapped) 0x80300000 va = Some q}
    \<and> (\<forall>va q. MIN_ADDR \<le> va \<and> uframe (mem vm_mapped) 0x80300000 va = Some q \<longrightarrow> q \<notin> set ps')"
  by (rule freevm_releases [OF vm_mapped_uvm_ok])

end
