(* ===== verification/Copyout.thy ===== *)
theory Copyout
  imports Uvm
begin

text \<open>
  Reading user memory from the kernel (uva2ka, copyout of vm.c). \<open>uaddr\<close> is the byte a user
  address stands for; \<open>copyout\<close> is shown to write exactly the bytes of the user range.
\<close>

section \<open>\<^verbatim>\<open>uva2ka\<close> and \<^verbatim>\<open>copyout\<close>\<close>

text \<open>The kernel address of a user byte.\<close>

definition uaddr :: "memory \<Rightarrow> u32 \<Rightarrow> u32 \<Rightarrow> u32 option" where
  "uaddr m pgdir va = map_option (\<lambda>q. q + (va - PGROUNDDOWN va)) (uframe m pgdir va)"

definition user_ok :: "memory \<Rightarrow> u32 \<Rightarrow> u32 \<Rightarrow> bool" where
  "user_ok m pgdir va \<longleftrightarrow> (\<exists>e. pgmap m pgdir va = Some e \<and> e AND PTE_U \<noteq> 0)"

lemma pgmap_tab: "pgmap m pgdir va = Some e \<Longrightarrow> \<exists>t. pgtab m pgdir va = Some t"
  by (cases "pgtab m pgdir va") (simp_all add: pgmap_def)

lemma uva2ka_user:
  assumes "pgdir_ok s pgdir ps"
  shows "uva2ka s pgdir va = (case pgtab (mem s) pgdir va of None \<Rightarrow> Fault
    | Some t \<Rightarrow> (case pgmap (mem s) pgdir va of None \<Rightarrow> Ret 0
        | Some e \<Rightarrow> Ret (if e AND PTE_U = 0 then 0 else P2V (PTE_ADDR e))))"
proof (cases "pgtab (mem s) pgdir va")
  case None
  then show ?thesis by (simp add: uva2ka_def walkpgdir_None)
next
  case (Some t)
  have "t + 4 * PTX va \<noteq> 0" using pgtab_page [OF assms Some] by (intro slot_nonzero) auto
  then show ?thesis
    using Some by (auto simp: uva2ka_def walkpgdir_Some [OF Some] pgmap_entry [OF Some] present_def Let_def)
qed

lemma write_frame:
  assumes ok: "uvm_ok s pgdir ps" and q: "uframe (mem s) pgdir va = Some q"
    and pe: "\<And>r. r \<noteq> q \<Longrightarrow> page_eq (mem s) m r"
  shows "uvm_ok (s\<lparr>mem := m\<rparr>) pgdir ps \<and> pgmap m pgdir = pgmap (mem s) pgdir
    \<and> pt_pages m pgdir = pt_pages (mem s) pgdir"
proof -
  note qo = uvm_ok_frame [OF ok q]
  have dir: "pgdir_ok s pgdir ps" using ok by (rule uvm_ok_dir)
  have "\<forall>r \<in> set ps. page_eq (mem s) (mem (s\<lparr>mem := m\<rparr>)) r" using pe qo by (simp, metis)
  then have "free_pages (s\<lparr>mem := m\<rparr>) ps"
    by (intro free_pages_frame [OF pgdir_ok_free [OF dir]]) simp_all
  moreover have "\<forall>r \<in> pt_pages (mem s) pgdir. page_eq (mem s) (mem (s\<lparr>mem := m\<rparr>)) r" using pe qo by (simp, metis)
  moreover have "set ps \<inter> pt_pages (mem s) pgdir = {}" using pgdir_ok_pages [OF dir] by auto
  ultimately have k: "pgdir_ok (s\<lparr>mem := m\<rparr>) pgdir ps \<and> pgmap m pgdir = pgmap (mem s) pgdir
      \<and> pt_pages m pgdir = pt_pages (mem s) pgdir"
    using pgdir_ok_frame [OF dir, of "s\<lparr>mem := m\<rparr>" ps] by simp
  then have fr: "uframe m pgdir = uframe (mem s) pgdir" by (intro uframe_cong) simp
  have "uframes_inj m pgdir" using ok unfolding uvm_ok_def uframes_inj_def fr by blast
  then have "uvm_ok (s\<lparr>mem := m\<rparr>) pgdir ps" using ok k by (simp add: uvm_ok_def fr)
  then show ?thesis using k by blast
qed

text \<open>The part of a copy that falls into one page.\<close>

definition chunk :: "u32 \<Rightarrow> u32 \<Rightarrow> u32" where
  "chunk va len = (let n = PGSIZE - (va - PGROUNDDOWN va) in if n > len then len else n)"

lemma chunk_unat: "unat (chunk va len) = min (4096 - unat va mod 4096) (unat len)"
    and off_unat: "unat (va - PGROUNDDOWN va) = unat va mod 4096"
proof -
  have o: "unat (va - PGROUNDDOWN va) = unat va mod 4096"
    using unat_sub32 [OF PGROUNDDOWN_le [of va]] by (simp add: unat_PGROUNDDOWN minus_div_mult_eq_mod)
  then have "va - PGROUNDDOWN va \<le> PGSIZE" by (simp add: word_le_nat_alt less_imp_le)
  then have "unat (PGSIZE - (va - PGROUNDDOWN va)) = 4096 - unat va mod 4096"
    using unat_sub32 o by fastforce
  then show "unat (chunk va len) = min (4096 - unat va mod 4096) (unat len)"
    by (auto simp: chunk_def Let_def word_less_nat_alt min_def)
  show "unat (va - PGROUNDDOWN va) = unat va mod 4096" by (rule o)
qed

lemma chunk_page:
  assumes "i < chunk va len"
  shows "PGROUNDDOWN (va + i) = PGROUNDDOWN va" "va + i - PGROUNDDOWN va = (va - PGROUNDDOWN va) + i"
proof -
  have "unat va mod 4096 + unat i < 4096"
    using assms chunk_unat [of va len] mod_less_divisor [of 4096 "unat va"]
    unfolding word_less_nat_alt by linarith
  then have "unat ((va - PGROUNDDOWN va) + i) < 4096"
    by (subst unat_add32) (simp_all add: off_unat)
  moreover show eq: "va + i - PGROUNDDOWN va = (va - PGROUNDDOWN va) + i" by simp
  ultimately have "unat (va + i - PGROUNDDOWN va) < 4096" by (simp only: eq)
  then show "PGROUNDDOWN (va + i) = PGROUNDDOWN va"
    by (simp only: in_page_iff [OF PGROUNDDOWN_aligned])
qed

text \<open>One round of the loop of \<^verbatim>\<open>copyout\<close>.\<close>

lemma copy_chunk:
  fixes len :: u32
  assumes ok: "uvm_ok s pgdir ps" and va: "va < KERNBASE" and len: "0 < unat len"
    and buf: "unat buf + unat len < 4294967296" and uo: "user_ok (mem s) pgdir va"
  defines "n \<equiv> chunk va len" and "off \<equiv> va - PGROUNDDOWN va"
  obtains q m1 where "uframe (mem s) pgdir va = Some q" "pg_aligned q"
    "copyout_loop s pgdir va buf len =
      copyout_loop (s\<lparr>mem := m1\<rparr>) pgdir (PGROUNDDOWN va + PGSIZE) (buf + n) (len - n)"
    "uvm_ok (s\<lparr>mem := m1\<rparr>) pgdir ps" "pgmap m1 pgdir = pgmap (mem s) pgdir"
    "\<And>x. m1 x = (if x - (q + off) < n then mem s (buf + (x - (q + off))) else mem s x)"
    "\<And>k. k < n \<Longrightarrow> PGROUNDDOWN (q + off + k) = q"
proof -
  obtain e where e: "pgmap (mem s) pgdir va = Some e" "e AND PTE_U \<noteq> 0"
    using uo by (auto simp: user_ok_def)
  define q where "q = P2V (PTE_ADDR e)"
  have fq: "uframe (mem s) pgdir va = Some q" using e va by (simp add: uframe_def q_def)
  have qk: "kpage (kend s) q" using uvm_ok_frame [OF ok fq] by simp
  have q: "q \<noteq> 0" "pg_aligned q" "unat q + 4096 \<le> 4294967296"
    using kpage_nonzero [OF qk] qk pg_aligned_room by auto
  have e0: "pgmap (mem s) pgdir (PGROUNDDOWN va) = Some e" using e(1) by simp
  obtain t where "pgtab (mem s) pgdir (PGROUNDDOWN va) = Some t" using pgmap_tab [OF e0] by blast
  then have ka: "uva2ka s pgdir (PGROUNDDOWN va) = Ret q"
    using e0 e(2) by (simp add: uva2ka_user [OF uvm_ok_dir [OF ok]] q_def)
  have nle: "unat n \<le> unat len" "unat off + unat n \<le> 4096" "unat off < 4096"
    using len mod_less_divisor [of 4096 "unat va"] unfolding n_def chunk_unat off_def off_unat by linarith+
  have dst: "unat (q + off) = unat q + unat off" using q nle by (intro unat_add32) linarith
  define m1 where "m1 = memmove (mem s) (q + off) buf n"
  have m1: "m1 x = (if x - (q + off) < n then mem s (buf + (x - (q + off))) else mem s x)" for x
    unfolding m1_def word_less_nat_alt using buf nle dst q(3) by (intro memmove_apply) simp_all
  have inq: "PGROUNDDOWN (q + off + k) = q" if "k < n" for k
  proof -
    have "unat (off + k) < 4096" using nle that by (subst unat_add32) (simp_all add: word_less_nat_alt)
    then show ?thesis using PGROUNDDOWN_add [OF q(2)] by (simp only: add.assoc)
  qed
  have "page_eq (mem s) m1 r" if "r \<noteq> q" for r
    unfolding page_eq_def
  proof (intro allI impI)
    fix x assume "PGROUNDDOWN x = r"
    then have "\<not> x - (q + off) < n" using inq [of "x - (q + off)"] that by auto
    then show "m1 x = mem s x" by (simp add: m1)
  qed
  note w = write_frame [OF ok fq this]
  have "copyout_loop s pgdir va buf len =
      copyout_loop (s\<lparr>mem := m1\<rparr>) pgdir (PGROUNDDOWN va + PGSIZE) (buf + n) (len - n)"
    using len ka q(1) by (subst copyout_loop.simps) (simp add: Let_def m1_def n_def off_def chunk_def unat_gt_0 word_gt_0)
  then show thesis using that [OF fq q(2)] w m1 inq by blast
qed

lemma chunk_split:
  fixes len :: u32
  assumes "j < len - chunk va len"
  shows "PGROUNDDOWN va + PGSIZE + j = va + (chunk va len + j)" "chunk va len + j < len"
proof -
  let ?n = "chunk va len"
  have "?n \<le> len" by (simp add: word_le_nat_alt chunk_unat)
  then have "unat (len - ?n) = unat len - unat ?n" by (rule unat_sub32)
  then have j: "unat ?n + unat j < unat len" using assms by (simp add: word_less_nat_alt)
  then have u: "unat (?n + j) = unat ?n + unat j" using unat_lt32 [of len] by (intro unat_add32) linarith
  then show "?n + j < len" using j by (simp add: word_less_nat_alt)
  have "?n < len" using j by (simp add: word_less_nat_alt)
  then have "?n = PGSIZE - (va - PGROUNDDOWN va)" by (auto simp: chunk_def Let_def split: if_splits)
  then show "PGROUNDDOWN va + PGSIZE + j = va + (?n + j)" by simp
qed

lemma chunk_cases:
  fixes len :: u32
  assumes "i < len" "\<not> i < chunk va len"
  obtains j where "j < len - chunk va len" "i = chunk va len + j"
proof (rule that)
  have "chunk va len \<le> i" using assms by simp
  then show "i - chunk va len < len - chunk va len"
    using assms(1) by (simp add: word_less_nat_alt word_le_nat_alt unat_sub_if_size word_size)
qed simp

lemma uframe_same_page:
  "PGROUNDDOWN va = PGROUNDDOWN vb \<Longrightarrow> uframe m pgdir va = uframe m pgdir vb"
  using user_page_iff [of va] user_page_iff [of vb] pgmap_same_page [of va vb m pgdir]
  by (simp add: uframe_def)

lemma uaddr_page:
  assumes "uvm_ok s pgdir ps" "uaddr (mem s) pgdir va = Some x"
  shows "uframe (mem s) pgdir va = Some (PGROUNDDOWN x)"
proof -
  obtain q where q: "uframe (mem s) pgdir va = Some q" "x = q + (va - PGROUNDDOWN va)"
    using assms(2) by (auto simp: uaddr_def)
  have "pg_aligned q" using uvm_ok_frame [OF assms(1) q(1)] kpage_aligned by blast
  then have "PGROUNDDOWN x = q" unfolding q(2) by (rule PGROUNDDOWN_add) (simp add: off_unat)
  then show ?thesis using q(1) by simp
qed

lemma next_page:
  assumes "va < KERNBASE"
  shows "unat (PGROUNDDOWN va + PGSIZE) = unat va div 4096 * 4096 + 4096"
    and "unat (PGROUNDDOWN va + PGSIZE) \<le> 2147483648"
proof -
  have "unat va div 4096 < 524288" using assms by (simp add: word_less_nat_alt)
  then have le: "unat va div 4096 * 4096 + 4096 \<le> 2147483648" by simp
  then show u: "unat (PGROUNDDOWN va + PGSIZE) = unat va div 4096 * 4096 + 4096"
    by (subst unat_add32) (simp_all add: unat_PGROUNDDOWN)
  show "unat (PGROUNDDOWN va + PGSIZE) \<le> 2147483648" using le u by simp
qed

lemma chunk_room:
  fixes len :: u32
  assumes "va < KERNBASE" "unat va + unat len \<le> 2147483648"
  shows "unat (PGROUNDDOWN va + PGSIZE) + (unat len - unat (chunk va len)) \<le> 2147483648"
proof (cases "unat len \<le> 4096 - unat va mod 4096")
  case True
  then show ?thesis using next_page(2) [OF assms(1)] by (simp add: chunk_unat)
next
  case False
  then have c: "unat (chunk va len) = 4096 - unat va mod 4096" by (simp add: chunk_unat)
  have "unat va div 4096 * 4096 + unat va mod 4096 = unat va" by (rule div_mult_mod_eq)
  then show ?thesis
    using assms(2) False mod_less_divisor [of 4096 "unat va"] unfolding next_page(1) [OF assms(1)] c by linarith
qed

lemma chunk_next:
  fixes len :: u32
  assumes "j < len - chunk va len" "unat va + unat len \<le> 2147483648"
  shows "PGROUNDDOWN (PGROUNDDOWN va + PGSIZE + j) \<noteq> PGROUNDDOWN va"
proof
  have "0 < unat len" using chunk_split(2) [OF assms(1)] by (auto simp: word_less_nat_alt)
  then have vK: "va < KERNBASE" using assms(2) by (simp add: word_less_nat_alt)
  note np = next_page [OF vK]
  have "chunk va len \<le> len" by (simp add: word_le_nat_alt chunk_unat)
  then have "unat j < unat len - unat (chunk va len)"
    using assms(1) unat_sub32 by (fastforce simp: word_less_nat_alt)
  then have u: "unat (PGROUNDDOWN va + PGSIZE + j) = unat (PGROUNDDOWN va + PGSIZE) + unat j"
    using chunk_room [OF vK assms(2)] by (intro unat_add32) linarith
  assume "PGROUNDDOWN (PGROUNDDOWN va + PGSIZE + j) = PGROUNDDOWN va"
  then have "unat (PGROUNDDOWN (PGROUNDDOWN va + PGSIZE + j)) = unat (PGROUNDDOWN va)" by simp
  then have "(unat va div 4096 * 4096 + 4096 + unat j) div 4096 * 4096 = unat va div 4096 * 4096"
    unfolding unat_PGROUNDDOWN u np(1) .
  moreover have "(unat va div 4096 * 4096 + 4096 + unat j) div 4096 = unat va div 4096 + 1 + unat j div 4096"
    using div_mult_self3 [of 4096 "unat va div 4096 + 1" "unat j"] by (simp add: algebra_simps)
  ultimately show False by simp
qed

lemma copyout_loop_spec:
  assumes "uvm_ok s pgdir ps" "unat va + unat len \<le> 2147483648" "unat buf + unat len < 4294967296"
    "\<forall>i < len. user_ok (mem s) pgdir (va + i)"
    "\<forall>i < len. \<forall>vb. uframe (mem s) pgdir vb \<noteq> Some (PGROUNDDOWN (buf + i))"
  shows "\<exists>s'. copyout_loop s pgdir va buf len = Ret (0, s') \<and> uvm_ok s' pgdir ps
    \<and> pgmap (mem s') pgdir = pgmap (mem s) pgdir \<and> (\<exists>m. s' = s\<lparr>mem := m\<rparr>)
    \<and> (\<forall>i < len. \<forall>x. uaddr (mem s) pgdir (va + i) = Some x \<longrightarrow> mem s' x = mem s (buf + i))
    \<and> (\<forall>x. (\<forall>i < len. uaddr (mem s) pgdir (va + i) \<noteq> Some x) \<longrightarrow> mem s' x = mem s x)"
  using assms
proof (induction "unat len" arbitrary: s va buf len rule: less_induct)
  case less
  show ?case
  proof (cases "len = 0")
    case True
    then show ?thesis using less.prems(1) by (auto simp: copyout_loop.simps [of s] intro: exI [of _ "mem s"])
  next
    case False
    then have l0: "0 < len" "0 < unat len" by (simp_all add: word_gt_0 unat_gt_0)
    have vK: "va < KERNBASE" using less.prems(2) l0 by (simp add: word_less_nat_alt)
    have "user_ok (mem s) pgdir va" using less.prems(4) l0(1) by force
    from copy_chunk [OF less.prems(1) vK l0(2) less.prems(3) this]
    obtain q m1 where fq: "uframe (mem s) pgdir va = Some q" and q: "pg_aligned q"
      and step: "copyout_loop s pgdir va buf len = copyout_loop (s\<lparr>mem := m1\<rparr>) pgdir
        (PGROUNDDOWN va + PGSIZE) (buf + chunk va len) (len - chunk va len)"
      and ok1: "uvm_ok (s\<lparr>mem := m1\<rparr>) pgdir ps" and map1: "pgmap m1 pgdir = pgmap (mem s) pgdir"
      and m1: "\<And>x. m1 x = (if x - (q + (va - PGROUNDDOWN va)) < chunk va len
        then mem s (buf + (x - (q + (va - PGROUNDDOWN va)))) else mem s x)"
      and inq: "\<And>k. k < chunk va len \<Longrightarrow> PGROUNDDOWN (q + (va - PGROUNDDOWN va) + k) = q"
      by blast
    let ?n = "chunk va len" and ?off = "va - PGROUNDDOWN va" and ?va1 = "PGROUNDDOWN va + PGSIZE"
    have fr1: "uframe m1 pgdir = uframe (mem s) pgdir" using map1 by (rule uframe_cong)
    have ua1: "uaddr m1 pgdir = uaddr (mem s) pgdir" by (rule ext) (simp add: uaddr_def fr1)
    have uo1: "user_ok m1 pgdir = user_ok (mem s) pgdir" by (rule ext) (simp add: user_ok_def map1)
    have n: "unat ?n \<le> unat len" "0 < unat ?n" using l0 by (simp_all add: chunk_unat)
    then have len1: "unat (len - ?n) = unat len - unat ?n" by (intro unat_sub32) (simp add: word_le_nat_alt)
    have IH: "\<exists>s'. copyout_loop (s\<lparr>mem := m1\<rparr>) pgdir ?va1 (buf + ?n) (len - ?n) = Ret (0, s') \<and> uvm_ok s' pgdir ps
      \<and> pgmap (mem s') pgdir = pgmap m1 pgdir \<and> (\<exists>m. s' = s\<lparr>mem := m\<rparr>)
      \<and> (\<forall>i < len - ?n. \<forall>x. uaddr m1 pgdir (?va1 + i) = Some x \<longrightarrow> mem s' x = m1 (buf + ?n + i))
      \<and> (\<forall>x. (\<forall>i < len - ?n. uaddr m1 pgdir (?va1 + i) \<noteq> Some x) \<longrightarrow> mem s' x = m1 x)"
    proof -
      have buf1: "unat (buf + ?n) = unat buf + unat ?n"
        using less.prems(3) n by (intro unat_add32) linarith
      have "\<forall>i < len - ?n. user_ok m1 pgdir (?va1 + i)"
        using less.prems(4) chunk_split by (metis uo1)
      moreover have "\<forall>i < len - ?n. \<forall>vb. uframe m1 pgdir vb \<noteq> Some (PGROUNDDOWN (buf + ?n + i))"
        using less.prems(5) chunk_split(2) by (metis fr1 add.assoc)
      ultimately show ?thesis
        using less.hyps [of "len - ?n" "s\<lparr>mem := m1\<rparr>" ?va1 "buf + ?n"] ok1 n len1 buf1 less.prems(3)
          chunk_room [OF vK less.prems(2)] by simp
    qed
    then obtain s' where s': "copyout_loop (s\<lparr>mem := m1\<rparr>) pgdir ?va1 (buf + ?n) (len - ?n) = Ret (0, s')"
        "uvm_ok s' pgdir ps" "pgmap (mem s') pgdir = pgmap m1 pgdir" "\<exists>m. s' = s\<lparr>mem := m\<rparr>"
      and hit: "\<And>j x. j < len - ?n \<Longrightarrow> uaddr (mem s) pgdir (?va1 + j) = Some x \<Longrightarrow> mem s' x = m1 (buf + ?n + j)"
      and miss: "\<And>x. (\<And>j. j < len - ?n \<Longrightarrow> uaddr (mem s) pgdir (?va1 + j) \<noteq> Some x) \<Longrightarrow> mem s' x = m1 x"
      unfolding ua1 by blast
    have first: "uaddr (mem s) pgdir (va + k) = Some (q + ?off + k)" if "k < ?n" for k
      using chunk_page [OF that] uframe_same_page [of "va + k" va "mem s" pgdir] fq
      by (simp add: uaddr_def add.assoc)
    have later: "uaddr (mem s) pgdir (?va1 + j) \<noteq> Some x" if "j < len - ?n" "PGROUNDDOWN x = q" for j x
    proof
      assume "uaddr (mem s) pgdir (?va1 + j) = Some x"
      then have "uframe (mem s) pgdir (?va1 + j) = Some q"
        using uaddr_page [OF less.prems(1)] that(2) by auto
      then have "PGROUNDDOWN (?va1 + j) = PGROUNDDOWN va"
        using uframes_injD [OF less.prems(1) _ fq] by blast
      then show False using chunk_next [OF that(1) less.prems(2)] by simp
    qed
    have src: "m1 (buf + i) = mem s (buf + i)" if "i < len" for i
    proof -
      have "PGROUNDDOWN (buf + i) \<noteq> q" using less.prems(5) that fq by auto
      then show ?thesis using inq [of "buf + i - (q + ?off)"] by (auto simp: m1)
    qed
    have "mem s' x = mem s (buf + i)" if i: "i < len" "uaddr (mem s) pgdir (va + i) = Some x" for i x
    proof (cases "i < ?n")
      case True
      then have x: "x = q + ?off + i" using first i(2) by simp
      then have "mem s' x = m1 x" using later inq [OF True] by (intro miss) simp
      also have "\<dots> = mem s (buf + i)" using True by (simp add: m1 x)
      finally show ?thesis .
    next
      case False
      obtain j where j: "j < len - ?n" "i = ?n + j" using chunk_cases [OF i(1) False] .
      then have "mem s' x = m1 (buf + ?n + j)"
        using hit [OF j(1), of x] chunk_split(1) [OF j(1)] i(2) by simp
      also have "\<dots> = mem s (buf + i)" using src [OF i(1)] by (simp add: j(2) add.assoc)
      finally show ?thesis .
    qed
    moreover have "mem s' x = mem s x" if "\<forall>i < len. uaddr (mem s) pgdir (va + i) \<noteq> Some x" for x
    proof -
      have "mem s' x = m1 x"
        using that chunk_split by (intro miss) metis
      moreover have "\<not> x - (q + ?off) < ?n"
      proof
        define k where "k = x - (q + ?off)"
        then have x: "x = q + ?off + k" by simp
        assume "x - (q + ?off) < ?n"
        then have k: "k < ?n" by (simp only: k_def)
        then have "k < len" using n by (simp add: word_less_nat_alt)
        then show False using that first [OF k] unfolding x by blast
      qed
      ultimately show ?thesis by (simp add: m1)
    qed
    ultimately show ?thesis using s' map1 step by auto
  qed
qed

section \<open>Properties\<close>

text \<open>
  C7: \<^verbatim>\<open>copyout\<close> writes a user range. When every byte of \<open>[va, va + len)\<close> is mapped
  with \<open>PTE_U\<close>, whatever pages the range crosses, it returns 0; user byte \<open>va + i\<close> then holds
  byte \<open>i\<close> of the source, no other byte of memory has changed, and neither has the map. The
  source lies outside the user's pages, as kernel buffers do.
\<close>

theorem copyout_correct:
  assumes "uvm_ok s pgdir ps" "unat va + unat len \<le> 2147483648" "unat p + unat len < 4294967296"
    "\<forall>i < len. user_ok (mem s) pgdir (va + i)"
    "\<forall>i < len. \<forall>vb. uframe (mem s) pgdir vb \<noteq> Some (PGROUNDDOWN (p + i))"
  shows "\<exists>s'. copyout s pgdir va p len = Ret (0, s') \<and> uvm_ok s' pgdir ps
    \<and> pgmap (mem s') pgdir = pgmap (mem s) pgdir
    \<and> (\<forall>i < len. \<forall>x. uaddr (mem s) pgdir (va + i) = Some x \<longrightarrow> mem s' x = mem s (p + i))
    \<and> (\<forall>x. (\<forall>i < len. uaddr (mem s) pgdir (va + i) \<noteq> Some x) \<longrightarrow> mem s' x = mem s x)"
  unfolding copyout_def using copyout_loop_spec [OF assms] by blast

lemma vm_mapped_user: "i < 100 \<Longrightarrow> user_ok (mem vm_mapped) 0x80300000 (10 + i)"
proof -
  assume "i < 100"
  then have "unat i < 100" by (simp add: word_less_nat_alt)
  then have "unat (10 + i) = 10 + unat i" by (subst unat_add32) simp_all
  then have "PGROUNDDOWN (10 + i) = 0"
    using \<open>unat i < 100\<close> by (intro word32_eqI) (simp add: unat_PGROUNDDOWN)
  then show ?thesis by (simp add: user_ok_def vm_mapped_map)
qed

lemma vm_mapped_source: "i < 100 \<Longrightarrow> uframe (mem vm_mapped) 0x80300000 vb \<noteq> Some (PGROUNDDOWN (0x80500000 + i))"
proof -
  assume "i < 100"
  then have "PGROUNDDOWN (0x80500000 + i) = 0x80500000"
    by (intro PGROUNDDOWN_add) (simp_all add: word_less_nat_alt)
  then show ?thesis by (simp add: vm_mapped_frame)
qed

theorem copyout_correct_witness:
  "\<exists>s'. copyout vm_mapped 0x80300000 10 0x80500000 100 = Ret (0, s') \<and> uvm_ok s' 0x80300000 []
    \<and> pgmap (mem s') 0x80300000 = pgmap (mem vm_mapped) 0x80300000
    \<and> (\<forall>i < 100. \<forall>x. uaddr (mem vm_mapped) 0x80300000 (10 + i) = Some x \<longrightarrow>
        mem s' x = mem vm_mapped (0x80500000 + i))
    \<and> (\<forall>x. (\<forall>i < 100. uaddr (mem vm_mapped) 0x80300000 (10 + i) \<noteq> Some x) \<longrightarrow> mem s' x = mem vm_mapped x)"
  using vm_mapped_user vm_mapped_source by (intro copyout_correct [OF vm_mapped_uvm_ok]) simp_all

text \<open>
  \<^verbatim>\<open>uva2ka\<close> on every case. For an address without a page table it reads through a
  null pointer instead of returning 0; otherwise it returns 0 exactly for entries that are absent
  or lack \<open>PTE_U\<close>, and else the kernel address of the page.
\<close>

lemma uva2ka_cases:
  assumes "pgdir_ok s pgdir ps"
  shows "uva2ka s pgdir va = (if pgtab (mem s) pgdir va = None then Fault
    else if user_ok (mem s) pgdir va then Ret (P2V (PTE_ADDR (the (pgmap (mem s) pgdir va)))) else Ret 0)"
  using uva2ka_user [OF assms, of va]
  by (auto simp: user_ok_def split: option.splits)

lemma uva2ka_cases_witness:
  "uva2ka vm_mapped 0x80300000 0x60000000 = (if pgtab (mem vm_mapped) 0x80300000 0x60000000 = None then Fault
    else if user_ok (mem vm_mapped) 0x80300000 0x60000000
      then Ret (P2V (PTE_ADDR (the (pgmap (mem vm_mapped) 0x80300000 0x60000000)))) else Ret 0)
   \<and> pgtab (mem vm_mapped) 0x80300000 0x60000000 = None"
  using uva2ka_cases [OF vm_mapped_ok, of "0x60000000"] by (simp add: vm_mapped_tab PDX_def)

end
