(* ===== verification/Procdata.thy ===== *)
theory Procdata
  imports Kalloc
begin

text \<open>
  The process descriptor (proc.h) and the records of the memory-mapping extension (wmap.h).
  The sixteen \<^verbatim>\<open>mem_block\<close>s and the \<^verbatim>\<open>wmapinfo\<close> of a process live in pages of their own
  that \<^verbatim>\<open>allocproc\<close> takes from the allocator; as no two of these pointers are ever equal, the
  model keeps the values in the descriptor, next to the addresses of their pages. Likewise the
  trap frame and the saved context, which live in the process's kernel stack page. Fields of
  type \<^verbatim>\<open>int\<close> are words read with signed comparison.
\<close>

datatype procstate = UNUSED | EMBRYO | SLEEPING | RUNNABLE | RUNNING | ZOMBIE

record mem_block =
  mb_start :: u32
  mb_end :: u32
  mb_flags :: u32
  mb_length :: u32
  mb_fd :: u32
  mb_ref :: u32
  mb_valid :: u32

record wmapinfo =
  total_mmaps :: u32
  wi_addr :: "u32 list"
  wi_length :: "u32 list"
  n_loaded_pages :: "u32 list"
  leftmostLoadedAddr :: "u32 list"

record trapframe =
  tf_edi :: u32
  tf_esi :: u32
  tf_ebp :: u32
  tf_oesp :: u32
  tf_ebx :: u32
  tf_edx :: u32
  tf_ecx :: u32
  tf_eax :: u32
  tf_gs :: u32
  tf_fs :: u32
  tf_es :: u32
  tf_ds :: u32
  tf_trapno :: u32
  tf_err :: u32
  tf_eip :: u32
  tf_cs :: u32
  tf_eflags :: u32
  tf_esp :: u32
  tf_ss :: u32

record kcontext =
  cx_edi :: u32
  cx_esi :: u32
  cx_ebx :: u32
  cx_ebp :: u32
  cx_eip :: u32

text \<open>
  A sleep channel is the address of a kernel object. As only equality of channels matters, the
  model names the object instead.
\<close>

datatype kchan = NoChan | ProcChan nat | TicksChan | LogChan | BufChan nat | BufLockChan nat
  | InodeLockChan nat | PipeReadChan u32 | PipeWriteChan u32 | ConsChan

text \<open>
  \<open>parent\<close> is the index of the parent's slot in the process table, \<open>ofile\<close> holds indices into the
  file table and \<open>cwd\<close> an index into the inode cache, where the code has pointers.
\<close>

record proc =
  sz :: u32
  pgdir :: u32
  kstack :: u32
  pstate :: procstate
  pid :: u32
  parent :: "nat option"
  tf :: trapframe
  pcontext :: kcontext
  chan :: kchan
  killed :: u32
  ofile :: "nat option list"
  cwd :: "nat option"
  pname :: "u8 list"
  arr :: "mem_block list"
  arr_ptr :: "u32 list"
  winfo :: wmapinfo
  winfo_ptr :: u32

section \<open>Initial values\<close>

text \<open>Blocks and \<^verbatim>\<open>wmapinfo\<close> as \<^verbatim>\<open>allocproc\<close> initialises them, and a zeroed slot of the process table.\<close>

definition no_block :: mem_block where
  "no_block = \<lparr>mb_start = 0, mb_end = 0, mb_flags = 0, mb_length = 0, mb_fd = 0, mb_ref = 0, mb_valid = 0\<rparr>"

definition empty_winfo :: wmapinfo where
  "empty_winfo = \<lparr>total_mmaps = 0, wi_addr = replicate 16 0, wi_length = replicate 16 0,
     n_loaded_pages = replicate 16 0, leftmostLoadedAddr = replicate 16 (MAX_ADDR + 1)\<rparr>"

definition zero_tf :: trapframe where
  "zero_tf = \<lparr>tf_edi = 0, tf_esi = 0, tf_ebp = 0, tf_oesp = 0, tf_ebx = 0, tf_edx = 0, tf_ecx = 0, tf_eax = 0,
     tf_gs = 0, tf_fs = 0, tf_es = 0, tf_ds = 0, tf_trapno = 0, tf_err = 0, tf_eip = 0, tf_cs = 0,
     tf_eflags = 0, tf_esp = 0, tf_ss = 0\<rparr>"

definition zero_context :: kcontext where
  "zero_context = \<lparr>cx_edi = 0, cx_esi = 0, cx_ebx = 0, cx_ebp = 0, cx_eip = 0\<rparr>"

definition zero_proc :: proc where
  "zero_proc = \<lparr>sz = 0, pgdir = 0, kstack = 0, pstate = UNUSED, pid = 0, parent = None, tf = zero_tf,
     pcontext = zero_context, chan = NoChan, killed = 0, ofile = replicate 16 None, cwd = None,
     pname = replicate 16 0, arr = replicate 16 no_block, arr_ptr = replicate 16 0,
     winfo = empty_winfo, winfo_ptr = 0\<rparr>"

end
