(* ===== verification/Spinlock.thy ===== *)
theory Spinlock
  imports Mmu Mem
begin

text \<open>
  Spin locks (spinlock.c) with the per-CPU interrupt bookkeeping they use (\<^verbatim>\<open>struct cpu\<close>
  of proc.h). The operations work on the state of the calling CPU and on the lock. A CPU that
  finds the lock taken spins: \<open>acquire\<close> is then \<open>Block\<close>. The last part interleaves the memory
  accesses of any number of CPUs and proves mutual exclusion.
\<close>

section \<open>State\<close>

text \<open>\<open>iflag\<close> is the interrupt flag \<^verbatim>\<open>FL_IF\<close> of the CPU's \<^verbatim>\<open>eflags\<close>.\<close>

record cpu =
  ncli :: u32
  intena :: bool
  iflag :: bool

record spinlock =
  locked :: u32
  lock_name :: string
  lock_cpu :: "nat option"
  pcs :: "u32 list"

section \<open>Operations\<close>

definition initlock :: "spinlock \<Rightarrow> string \<Rightarrow> spinlock" where
  "initlock lk name = lk\<lparr>lock_name := name, locked := 0, lock_cpu := None\<rparr>"

definition pushcli :: "cpu \<Rightarrow> cpu" where
  "pushcli c =
     (let eflags_if = iflag c;
          c = c\<lparr>iflag := False\<rparr>;
          c = (if ncli c = 0 then c\<lparr>intena := eflags_if\<rparr> else c)
      in c\<lparr>ncli := ncli c + 1\<rparr>)"

definition popcli :: "cpu \<Rightarrow> cpu res" where
  "popcli c =
     (if iflag c then Panic ''popcli - interruptible''
      else let c = c\<lparr>ncli := ncli c - 1\<rparr> in
        if ncli c <s 0 then Panic ''popcli''
        else if ncli c = 0 \<and> intena c then Ret (c\<lparr>iflag := True\<rparr>)
        else Ret c)"

definition holding :: "nat \<Rightarrow> cpu \<Rightarrow> spinlock \<Rightarrow> (bool \<times> cpu) res" where
  "holding i c lk =
     (let c = pushcli c; r = (locked lk \<noteq> 0 \<and> lock_cpu lk = Some i)
      in bind_res (popcli c) (\<lambda>c. Ret (r, c)))"

definition xchg :: "spinlock \<Rightarrow> u32 \<Rightarrow> u32 \<times> spinlock" where
  "xchg lk newval = (locked lk, lk\<lparr>locked := newval\<rparr>)"

text \<open>
  \<open>getcallerpcs\<close> follows saved frame pointers through memory, at most ten of them.
\<close>

fun getcallerpcs_loop :: "memory \<Rightarrow> u32 \<Rightarrow> nat \<Rightarrow> u32 list" where
  "getcallerpcs_loop m ebp 0 = []"
| "getcallerpcs_loop m ebp (Suc n) =
     (if ebp = 0 \<or> ebp < KERNBASE \<or> ebp = 0xFFFFFFFF then replicate (Suc n) 0
      else load32 m (ebp + 4) # getcallerpcs_loop m (load32 m ebp) n)"

definition getcallerpcs :: "memory \<Rightarrow> u32 \<Rightarrow> u32 list" where
  "getcallerpcs m v = getcallerpcs_loop m (v - 8) 10"

text \<open>\<open>cs\<close> is the call stack that \<^verbatim>\<open>getcallerpcs\<close> records.\<close>

definition acquire :: "nat \<Rightarrow> u32 list \<Rightarrow> cpu \<Rightarrow> spinlock \<Rightarrow> (cpu \<times> spinlock) res" where
  "acquire i cs c lk =
     (let c = pushcli c in
      bind_res (holding i c lk) (\<lambda>(h, c).
        if h then Panic ''acquire''
        else let (old, lk) = xchg lk 1 in
          if old \<noteq> 0 then Block
          else Ret (c, lk\<lparr>lock_cpu := Some i, pcs := cs\<rparr>)))"

definition release :: "nat \<Rightarrow> cpu \<Rightarrow> spinlock \<Rightarrow> (cpu \<times> spinlock) res" where
  "release i c lk =
     bind_res (holding i c lk) (\<lambda>(h, c).
       if \<not> h then Panic ''release''
       else let lk = lk\<lparr>pcs := (pcs lk)[0 := 0], lock_cpu := None\<rparr>;
                lk = lk\<lparr>locked := 0\<rparr>
            in bind_res (popcli c) (\<lambda>c. Ret (c, lk)))"

section \<open>Interrupt bookkeeping\<close>

text \<open>Within \<open>n > 0\<close> nested sections interrupts are off and \<open>ncli\<close> counts the sections.\<close>

definition cli_depth :: "cpu \<Rightarrow> nat \<Rightarrow> bool" where
  "cli_depth c n \<longleftrightarrow> ncli c = of_nat n \<and> n < 2 ^ 31 \<and> (0 < n \<longrightarrow> \<not> iflag c)"

lemma of_nat_pos_u32: "0 < n \<Longrightarrow> n < 2 ^ 31 \<Longrightarrow> (of_nat n :: u32) \<noteq> 0"
proof
  assume n: "0 < n" "n < 2 ^ 31" and "(of_nat n :: u32) = 0"
  then have "unat (of_nat n :: u32) = 0" by simp
  then show False using n by (simp add: unat_of_nat)
qed

lemma of_nat_not_neg: "n < 2 ^ 31 \<Longrightarrow> \<not> (of_nat n :: u32) <s 0"
proof -
  assume n: "n < 2 ^ 31"
  then have "sint (of_nat n :: u32) = int n"
    by (simp add: sint_uint signed_take_bit_int_eq_self uint_nat unat_of_nat)
  then show ?thesis by (simp add: word_sless_alt)
qed

lemma pushcli_depth:
  "cli_depth c n \<Longrightarrow> Suc n < 2 ^ 31 \<Longrightarrow> cli_depth (pushcli c) (Suc n)"
  by (auto simp: cli_depth_def pushcli_def Let_def add.commute)

lemma popcli_depth:
  assumes "cli_depth c (Suc n)"
  shows "popcli c = Ret (c\<lparr>ncli := of_nat n, iflag := (n = 0 \<and> intena c)\<rparr>)"
proof -
  have n: "n < 2 ^ 31" and nc: "ncli c - 1 = of_nat n" and "\<not> iflag c"
    using assms by (auto simp: cli_depth_def)
  moreover have "(of_nat n :: u32) = 0 \<longleftrightarrow> n = 0" using of_nat_pos_u32 [of n] n by auto
  ultimately show ?thesis
    using of_nat_not_neg [of n] by (auto simp: popcli_def Let_def)
qed

lemma popcli_pushcli:
  assumes "cli_depth c n" "Suc n < 2 ^ 31" "0 < n"
  shows "popcli (pushcli c) = Ret c"
proof -
  have "pushcli c = c\<lparr>iflag := False, ncli := ncli c + 1\<rparr>"
    using assms of_nat_pos_u32 [of n] by (simp add: pushcli_def cli_depth_def)
  moreover have "cli_depth (pushcli c) (Suc n)" using assms by (intro pushcli_depth)
  ultimately show ?thesis
    using popcli_depth [of "pushcli c" n] assms by (simp add: cli_depth_def)
qed

lemma holding_eq:
  "cli_depth c n \<Longrightarrow> Suc n < 2 ^ 31 \<Longrightarrow> 0 < n \<Longrightarrow>
   holding i c lk = Ret (locked lk \<noteq> 0 \<and> lock_cpu lk = Some i, c)"
  by (simp add: holding_def Let_def popcli_pushcli)

section \<open>A mutual exclusion interface\<close>

text \<open>
  What the users of a lock rely on, for spin locks and for sleep locks alike: a free lock can be
  taken, a taken one cannot, and only its owner gives it back.
\<close>

datatype 'i lock_event = Take 'i | Drop 'i

fun lock_spec :: "'i lock_event list \<Rightarrow> 'i option \<Rightarrow> 'i option option" where
  "lock_spec [] q = Some q"
| "lock_spec (Take i # es) q = (if q = None then lock_spec es (Some i) else None)"
| "lock_spec (Drop i # es) q = (if q = Some i then lock_spec es None else None)"

locale mutex =
  fixes take :: "'i \<Rightarrow> 's \<Rightarrow> 's option"
    and give :: "'i \<Rightarrow> 's \<Rightarrow> 's option"
    and owner :: "'s \<Rightarrow> 'i option"
    and inv :: "'s \<Rightarrow> bool"
  assumes take_free: "inv s \<Longrightarrow> owner s = None \<Longrightarrow> \<exists>s'. take i s = Some s' \<and> inv s' \<and> owner s' = Some i"
    and take_busy: "inv s \<Longrightarrow> owner s \<noteq> None \<Longrightarrow> take i s = None"
    and give_own: "inv s \<Longrightarrow> owner s = Some i \<Longrightarrow> \<exists>s'. give i s = Some s' \<and> inv s' \<and> owner s' = None"
    and give_other: "inv s \<Longrightarrow> owner s \<noteq> Some i \<Longrightarrow> give i s = None"
begin

fun run :: "'i lock_event list \<Rightarrow> 's \<Rightarrow> 's option" where
  "run [] s = Some s"
| "run (Take i # es) s = (case take i s of None \<Rightarrow> None | Some s' \<Rightarrow> run es s')"
| "run (Drop i # es) s = (case give i s of None \<Rightarrow> None | Some s' \<Rightarrow> run es s')"

lemma run_spec: "inv s \<Longrightarrow> map_option owner (run es s) = lock_spec es (owner s)"
proof (induction es arbitrary: s)
  case Nil
  then show ?case by simp
next
  case (Cons e es)
  show ?case
  proof (cases e)
    case (Take i)
    show ?thesis
    proof (cases "owner s")
      case None
      then obtain s' where "take i s = Some s'" "inv s'" "owner s' = Some i"
        using take_free [OF Cons.prems] by blast
      then show ?thesis using Take None Cons.IH [of s'] by simp
    next
      case (Some j)
      then show ?thesis using Take take_busy [OF Cons.prems] by simp
    qed
  next
    case (Drop i)
    show ?thesis
    proof (cases "owner s = Some i")
      case True
      then obtain s' where "give i s = Some s'" "inv s'" "owner s' = None"
        using give_own [OF Cons.prems] by blast
      then show ?thesis using Drop True Cons.IH [of s'] by simp
    next
      case False
      then show ?thesis using Drop give_other [OF Cons.prems] by simp
    qed
  qed
qed

end

text \<open>The spin lock as such a lock, with one state per CPU.\<close>

type_synonym smp = "(nat \<Rightarrow> cpu) \<times> spinlock"

definition spin_take :: "nat \<Rightarrow> smp \<Rightarrow> smp option" where
  "spin_take i s = (case acquire i (replicate 10 0) (fst s i) (snd s) of
     Ret (c, lk) \<Rightarrow> Some ((fst s)(i := c), lk) | _ \<Rightarrow> None)"

definition spin_give :: "nat \<Rightarrow> smp \<Rightarrow> smp option" where
  "spin_give i s = (case release i (fst s i) (snd s) of
     Ret (c, lk) \<Rightarrow> Some ((fst s)(i := c), lk) | _ \<Rightarrow> None)"

definition spin_owner :: "smp \<Rightarrow> nat option" where
  "spin_owner s = lock_cpu (snd s)"

definition spin_inv :: "smp \<Rightarrow> bool" where
  "spin_inv s \<longleftrightarrow> (locked (snd s) \<noteq> 0 \<longleftrightarrow> spin_owner s \<noteq> None)
     \<and> (\<forall>i. cli_depth (fst s i) (if spin_owner s = Some i then 1 else 0))"

lemma acquire_free:
  assumes "cli_depth c 0" "locked lk = 0"
  shows "acquire i cs c lk = Ret (pushcli c, lk\<lparr>locked := 1, lock_cpu := Some i, pcs := cs\<rparr>)"
proof -
  have "cli_depth (pushcli c) 1" using pushcli_depth [OF assms(1)] by simp
  then have "holding i (pushcli c) lk = Ret (locked lk \<noteq> 0 \<and> lock_cpu lk = Some i, pushcli c)"
    by (intro holding_eq) auto
  then show ?thesis using assms(2) by (simp add: acquire_def xchg_def Let_def)
qed

lemma acquire_busy:
  assumes "cli_depth c n" "n \<le> 1" "locked lk \<noteq> 0"
  shows "acquire i cs c lk = (if lock_cpu lk = Some i then Panic ''acquire'' else Block)"
proof -
  have "cli_depth (pushcli c) (Suc n)" using pushcli_depth [OF assms(1)] assms(2) by simp
  then have "holding i (pushcli c) lk = Ret (locked lk \<noteq> 0 \<and> lock_cpu lk = Some i, pushcli c)"
    using assms(2) by (intro holding_eq) auto
  then show ?thesis using assms(3) by (simp add: acquire_def xchg_def Let_def)
qed

lemma release_own:
  assumes "cli_depth c 1" "locked lk \<noteq> 0" "lock_cpu lk = Some i"
  shows "release i c lk = Ret (c\<lparr>ncli := 0, iflag := intena c\<rparr>,
    lk\<lparr>pcs := (pcs lk)[0 := 0], lock_cpu := None, locked := 0\<rparr>)"
proof -
  have "holding i c lk = Ret (True, c)" using assms by (subst holding_eq [of c 1]) auto
  moreover have "popcli c = Ret (c\<lparr>ncli := 0, iflag := intena c\<rparr>)"
    using popcli_depth [of c 0] assms(1) by simp
  ultimately show ?thesis by (simp add: release_def)
qed

lemma release_other:
  assumes "cli_depth c 0 \<or> cli_depth c 1" "lock_cpu lk \<noteq> Some i"
  shows "\<exists>msg. release i c lk = Panic msg"
proof -
  have "\<exists>c'. holding i c lk = Ret (False, c')"
    using assms(1)
  proof
    assume "cli_depth c 0"
    then have "cli_depth (pushcli c) (Suc 0)" using pushcli_depth by simp
    from popcli_depth [OF this] show ?thesis using assms(2) by (simp add: holding_def Let_def)
  next
    assume "cli_depth c 1"
    then show ?thesis using assms(2) by (subst holding_eq [of c 1]) auto
  qed
  then show ?thesis by (auto simp: release_def)
qed

interpretation spin: mutex spin_take spin_give spin_owner spin_inv
proof (unfold_locales, goal_cases)
  case (1 s i)
  then have c: "cli_depth (fst s i) 0" and l: "locked (snd s) = 0" by (auto simp: spin_inv_def)
  note a = acquire_free [OF c l, of i "replicate 10 0"]
  have "cli_depth (pushcli (fst s i)) 1" using pushcli_depth [OF c] by simp
  then show ?case
    using 1 by (auto simp: spin_take_def a spin_inv_def spin_owner_def)
next
  case (2 s i)
  then have "locked (snd s) \<noteq> 0" "cli_depth (fst s i) 1 \<or> cli_depth (fst s i) 0"
    by (auto simp: spin_inv_def split: if_splits)
  then show ?case using acquire_busy [of "fst s i" _ "snd s" i "replicate 10 0"]
    by (auto simp: spin_take_def)
next
  case (3 s i)
  then have c: "cli_depth (fst s i) 1" and l: "locked (snd s) \<noteq> 0" "lock_cpu (snd s) = Some i"
    by (auto simp: spin_inv_def spin_owner_def split: if_splits)
  have "cli_depth ((fst s i)\<lparr>ncli := 0, iflag := intena (fst s i)\<rparr>) 0" by (simp add: cli_depth_def)
  moreover have "cli_depth (fst s j) 0" if "j \<noteq> i" for j
    using 3 that unfolding spin_inv_def by (metis option.inject)
  ultimately show ?case
    by (auto simp: spin_give_def release_own [OF c l] spin_inv_def spin_owner_def)
next
  case (4 s i)
  then have "cli_depth (fst s i) 0 \<or> cli_depth (fst s i) 1" by (auto simp: spin_inv_def split: if_splits)
  then show ?case using release_other [of "fst s i" "snd s" i] 4 by (auto simp: spin_give_def spin_owner_def)
qed

section \<open>Interleaving\<close>

text \<open>
  Any number of CPUs use one lock. Each shared access is one step: the test of \<open>holding\<close>
  in \<open>acquire\<close>, each \<open>xchg\<close> of the spinning loop, the store of \<^verbatim>\<open>lk->cpu\<close>, and the two
  stores of \<open>release\<close>. A CPU is \<open>Outside\<close>, \<open>Spinning\<close>, past the exchange (\<open>Won\<close>), in its critical
  section (\<open>Inside\<close>), or between the stores of \<open>release\<close> (\<open>Leaving\<close>).
\<close>

datatype lock_pc = Outside | Spinning | Won | Inside | Leaving

record lock_sys =
  the_lock :: spinlock
  cpu_of :: "nat \<Rightarrow> cpu"
  at :: "nat \<Rightarrow> lock_pc"

inductive lock_step :: "lock_sys \<Rightarrow> lock_sys \<Rightarrow> bool" where
  enter: "at s i = Outside \<Longrightarrow> holding i (pushcli (cpu_of s i)) (the_lock s) = Ret (False, c) \<Longrightarrow>
    lock_step s (s\<lparr>cpu_of := (cpu_of s)(i := c), at := (at s)(i := Spinning)\<rparr>)"
| spin: "at s i = Spinning \<Longrightarrow> xchg (the_lock s) 1 = (old, l) \<Longrightarrow> old \<noteq> 0 \<Longrightarrow> lock_step s (s\<lparr>the_lock := l\<rparr>)"
| win: "at s i = Spinning \<Longrightarrow> xchg (the_lock s) 1 = (0, l) \<Longrightarrow>
    lock_step s (s\<lparr>the_lock := l, at := (at s)(i := Won)\<rparr>)"
| own: "at s i = Won \<Longrightarrow>
    lock_step s (s\<lparr>the_lock := (the_lock s)\<lparr>lock_cpu := Some i, pcs := cs\<rparr>, at := (at s)(i := Inside)\<rparr>)"
| leave: "at s i = Inside \<Longrightarrow> holding i (cpu_of s i) (the_lock s) = Ret (True, c) \<Longrightarrow>
    lock_step s (s\<lparr>the_lock := (the_lock s)\<lparr>pcs := (pcs (the_lock s))[0 := 0], lock_cpu := None\<rparr>,
      cpu_of := (cpu_of s)(i := c), at := (at s)(i := Leaving)\<rparr>)"
| freed: "at s i = Leaving \<Longrightarrow> popcli (cpu_of s i) = Ret c \<Longrightarrow>
    lock_step s (s\<lparr>the_lock := (the_lock s)\<lparr>locked := 0\<rparr>, cpu_of := (cpu_of s)(i := c), at := (at s)(i := Outside)\<rparr>)"

inductive reachable :: "lock_sys \<Rightarrow> bool" where
  start: "locked (the_lock s) = 0 \<Longrightarrow> lock_cpu (the_lock s) = None \<Longrightarrow> \<forall>i. at s i = Outside \<Longrightarrow>
    \<forall>i. cli_depth (cpu_of s i) 0 \<Longrightarrow> reachable s"
| step: "reachable s \<Longrightarrow> lock_step s s' \<Longrightarrow> reachable s'"

definition holds :: "lock_sys \<Rightarrow> nat \<Rightarrow> bool" where
  "holds s i \<longleftrightarrow> at s i = Won \<or> at s i = Inside \<or> at s i = Leaving"

definition lock_inv :: "lock_sys \<Rightarrow> bool" where
  "lock_inv s \<longleftrightarrow>
     (\<forall>i j. holds s i \<longrightarrow> holds s j \<longrightarrow> i = j)
     \<and> (locked (the_lock s) \<noteq> 0 \<longleftrightarrow> (\<exists>i. holds s i))
     \<and> (\<forall>i. lock_cpu (the_lock s) = Some i \<longleftrightarrow> at s i = Inside)
     \<and> (\<forall>i. at s i = Outside \<longrightarrow> cli_depth (cpu_of s i) 0)
     \<and> (\<forall>i. at s i \<noteq> Outside \<longrightarrow> cli_depth (cpu_of s i) 1)"

lemma lock_invD:
  assumes "lock_inv s"
  shows "holds s i \<Longrightarrow> holds s j \<Longrightarrow> i = j" "locked (the_lock s) \<noteq> 0 \<longleftrightarrow> (\<exists>i. holds s i)"
    "lock_cpu (the_lock s) = Some i \<longleftrightarrow> at s i = Inside"
    "at s i = Outside \<Longrightarrow> cli_depth (cpu_of s i) 0" "at s i \<noteq> Outside \<Longrightarrow> cli_depth (cpu_of s i) 1"
  using assms unfolding lock_inv_def by blast+

lemma lock_inv_step: "lock_step s s' \<Longrightarrow> lock_inv s \<Longrightarrow> lock_inv s'"
proof (induction rule: lock_step.induct)
  case (enter s i c)
  note inv = lock_invD [OF enter(3)]
  let ?s' = "s\<lparr>cpu_of := (cpu_of s)(i := c), at := (at s)(i := Spinning)\<rparr>"
  have h: "holds ?s' = holds s" using enter(1) by (auto simp: holds_def fun_eq_iff)
  have d: "cli_depth (pushcli (cpu_of s i)) 1" using pushcli_depth [OF inv(4) [OF enter(1)]] by simp
  then have "c = pushcli (cpu_of s i)" using enter(2) holding_eq [of "pushcli (cpu_of s i)" 1 i "the_lock s"] by simp
  then show ?case unfolding lock_inv_def h using enter(1) inv d by auto
next
  case (spin s i old l)
  note inv = lock_invD [OF spin(4)]
  have "holds (s\<lparr>the_lock := l\<rparr>) = holds s" by (simp add: holds_def fun_eq_iff)
  then show ?case unfolding lock_inv_def using spin(2,3) inv by (auto simp: xchg_def)
next
  case (win s i l)
  note inv = lock_invD [OF win(3)]
  let ?s' = "s\<lparr>the_lock := l, at := (at s)(i := Won)\<rparr>"
  have "locked (the_lock s) = 0" and l: "l = (the_lock s)\<lparr>locked := 1\<rparr>" using win(2) by (simp_all add: xchg_def)
  then have none: "\<not> holds s j" for j using inv(2) by blast
  have h: "holds ?s' = (\<lambda>j. j = i)" using none by (auto simp: holds_def fun_eq_iff)
  show ?case unfolding lock_inv_def h using win(1) inv(3-5) by (auto simp: l)
next
  case (own s i cs)
  note inv = lock_invD [OF own(2)]
  let ?s' = "s\<lparr>the_lock := (the_lock s)\<lparr>lock_cpu := Some i, pcs := cs\<rparr>, at := (at s)(i := Inside)\<rparr>"
  have h: "holds ?s' = holds s" using own(1) by (auto simp: holds_def fun_eq_iff)
  have "at s j \<noteq> Inside" if "j \<noteq> i" for j using inv(1) [of i j] own(1) that by (auto simp: holds_def)
  then show ?case unfolding lock_inv_def h using own(1) inv by auto
next
  case (leave s i c)
  note inv = lock_invD [OF leave(3)]
  let ?s' = "s\<lparr>the_lock := (the_lock s)\<lparr>pcs := (pcs (the_lock s))[0 := 0], lock_cpu := None\<rparr>,
      cpu_of := (cpu_of s)(i := c), at := (at s)(i := Leaving)\<rparr>"
  have h: "holds ?s' = holds s" using leave(1) by (auto simp: holds_def fun_eq_iff)
  have o: "at s j \<noteq> Inside" if "j \<noteq> i" for j using inv(1) [of i j] leave(1) that by (auto simp: holds_def)
  have d: "cli_depth (cpu_of s i) 1" using inv(5) [of i] leave(1) by simp
  then have "c = cpu_of s i" using leave(2) holding_eq [of "cpu_of s i" 1 i "the_lock s"] by simp
  then show ?case unfolding lock_inv_def h using leave(1) inv o d by auto
next
  case (freed s i c)
  note inv = lock_invD [OF freed(3)]
  let ?s' = "s\<lparr>the_lock := (the_lock s)\<lparr>locked := 0\<rparr>, cpu_of := (cpu_of s)(i := c), at := (at s)(i := Outside)\<rparr>"
  have "holds s i" using freed(1) by (simp add: holds_def)
  then have n: "\<not> holds s j" if "j \<noteq> i" for j using inv(1) [of i j] that by blast
  then have h: "holds ?s' = (\<lambda>j. False)" by (auto simp: holds_def fun_eq_iff)
  have "cli_depth (cpu_of s i) (Suc 0)" using inv(5) [of i] freed(1) by simp
  then have "cli_depth c 0" using popcli_depth [of "cpu_of s i" 0] freed(2) by (auto simp: cli_depth_def)
  then show ?case unfolding lock_inv_def h using freed(1) inv by (auto simp: holds_def)
qed

lemma reachable_inv: "reachable s \<Longrightarrow> lock_inv s"
proof (induction rule: reachable.induct)
  case (start s)
  then show ?case by (simp add: lock_inv_def holds_def)
next
  case (step s s')
  then show ?case using lock_inv_step by blast
qed

section \<open>Properties\<close>

text \<open>
  C13: mutual exclusion. However the CPUs' accesses interleave, at most one CPU is between winning
  the exchange and giving the lock back; it runs with interrupts disabled, and inside its
  critical section the lock names it as its holder, so that its \<open>release\<close> does not panic.
\<close>

theorem spinlock_mutual_exclusion:
  assumes "reachable s" "holds s i"
  shows "{j. holds s j} = {i} \<and> \<not> iflag (cpu_of s i) \<and> ncli (cpu_of s i) = 1 \<and> locked (the_lock s) \<noteq> 0
    \<and> (at s i = Inside \<longrightarrow> (\<exists>c l. release i (cpu_of s i) (the_lock s) = Ret (c, l) \<and> locked l = 0))"
proof -
  note inv = lock_invD [OF reachable_inv [OF assms(1)]]
  have d: "cli_depth (cpu_of s i) 1" using inv(5) [of i] assms(2) by (auto simp: holds_def)
  have l: "locked (the_lock s) \<noteq> 0" using inv(2) assms(2) by blast
  have "\<exists>c l. release i (cpu_of s i) (the_lock s) = Ret (c, l) \<and> locked l = 0" if "at s i = Inside"
    using release_own [OF d l] inv(3) that by simp
  moreover have "{j. holds s j} = {i}" using inv(1) assms(2) by blast
  ultimately show ?thesis using d l by (auto simp: cli_depth_def)
qed

definition lock_demo :: lock_sys where
  "lock_demo = \<lparr>the_lock = \<lparr>locked = 1, lock_name = ''kmem'', lock_cpu = Some 3, pcs = replicate 10 0\<rparr>,
     cpu_of = (\<lambda>_. \<lparr>ncli = 0, intena = False, iflag = True\<rparr>)(3 := \<lparr>ncli = 1, intena = True, iflag = False\<rparr>),
     at = (\<lambda>_. Outside)(3 := Inside)\<rparr>"

lemma lock_demo_reachable: "reachable lock_demo"
proof -
  define c where "c = \<lparr>ncli = 0, intena = False, iflag = True\<rparr>"
  define c1 where "c1 = \<lparr>ncli = 1, intena = True, iflag = False\<rparr>"
  define l where "l = \<lparr>locked = 0, lock_name = ''kmem'', lock_cpu = None, pcs = replicate 10 0\<rparr>"
  define s0 where "s0 = \<lparr>the_lock = l, cpu_of = (\<lambda>_. c), at = (\<lambda>_. Outside)\<rparr>"
  define s1 where "s1 = s0\<lparr>cpu_of := (\<lambda>_. c)(3 := c1), at := (\<lambda>_. Outside)(3 := Spinning)\<rparr>"
  define s2 where "s2 = s1\<lparr>the_lock := l\<lparr>locked := 1\<rparr>, at := (\<lambda>_. Outside)(3 := Won)\<rparr>"
  have d: "cli_depth c 0" by (simp add: c_def cli_depth_def)
  have pc: "pushcli c = c1" by (simp add: c_def c1_def pushcli_def)
  then have "holding 3 (pushcli c) l = Ret (False, c1)"
    using pushcli_depth [OF d] by (subst holding_eq [of _ 1]) (simp_all add: l_def)
  then have st1: "lock_step s0 s1"
    using lock_step.enter [of s0 3 c1] by (simp add: s0_def s1_def)
  have "reachable s0" by (rule reachable.start) (simp_all add: s0_def l_def d)
  then have "reachable s1" using st1 by (rule reachable.step)
  moreover have "lock_step s1 s2"
    using lock_step.win [of s1 3 "l\<lparr>locked := 1\<rparr>"] by (simp add: xchg_def s1_def s0_def s2_def l_def)
  ultimately have "reachable s2" by (rule reachable.step)
  moreover have "lock_step s2 (s2\<lparr>the_lock := (the_lock s2)\<lparr>lock_cpu := Some 3, pcs := replicate 10 0\<rparr>, at := (at s2)(3 := Inside)\<rparr>)"
    by (rule lock_step.own) (simp add: s2_def)
  ultimately have "reachable (s2\<lparr>the_lock := (the_lock s2)\<lparr>lock_cpu := Some 3, pcs := replicate 10 0\<rparr>, at := (at s2)(3 := Inside)\<rparr>)"
    by (rule reachable.step)
  then show ?thesis by (simp add: s2_def s1_def s0_def l_def c_def c1_def lock_demo_def)
qed

theorem spinlock_mutual_exclusion_witness:
  "{j. holds lock_demo j} = {3} \<and> \<not> iflag (cpu_of lock_demo 3) \<and> ncli (cpu_of lock_demo 3) = 1
    \<and> locked (the_lock lock_demo) \<noteq> 0 \<and> at lock_demo 3 = Inside
    \<and> (\<exists>c l. release 3 (cpu_of lock_demo 3) (the_lock lock_demo) = Ret (c, l) \<and> locked l = 0)"
proof -
  have "at lock_demo 3 = Inside" by (simp add: lock_demo_def)
  moreover from this have "holds lock_demo 3" by (simp add: holds_def)
  ultimately show ?thesis using spinlock_mutual_exclusion [OF lock_demo_reachable, of 3] by blast
qed

fun popclis :: "nat \<Rightarrow> cpu \<Rightarrow> cpu res" where
  "popclis 0 c = Ret c"
| "popclis (Suc k) c = bind_res (popcli c) (popclis k)"

lemma pushclis_depth:
  "cli_depth c 0 \<Longrightarrow> n < 2 ^ 31 \<Longrightarrow> cli_depth ((pushcli ^^ n) c) n \<and> (0 < n \<longrightarrow> intena ((pushcli ^^ n) c) = iflag c)"
proof (induction n)
  case 0
  then show ?case by simp
next
  case (Suc n)
  let ?c = "(pushcli ^^ n) c"
  have d: "cli_depth ?c n" "0 < n \<longrightarrow> intena ?c = iflag c" using Suc by auto
  have "intena (pushcli ?c) = iflag c"
  proof (cases n)
    case 0
    then show ?thesis using d(1) by (simp add: pushcli_def cli_depth_def)
  next
    case (Suc m)
    then have "ncli ?c \<noteq> 0" using d(1) of_nat_pos_u32 [of n] by (auto simp: cli_depth_def)
    then show ?thesis using d(2) Suc by (simp add: pushcli_def)
  qed
  then show ?case using pushcli_depth [OF d(1)] Suc.prems by simp
qed

lemma popclis_depth:
  "cli_depth c n \<Longrightarrow> k < n \<Longrightarrow> \<exists>c'. popclis k c = Ret c' \<and> cli_depth c' (n - k) \<and> intena c' = intena c"
proof (induction k arbitrary: c n)
  case 0
  then show ?case by simp
next
  case (Suc k)
  then obtain m where m: "n = Suc m" "k < m" by (cases n) auto
  let ?c = "c\<lparr>ncli := of_nat m, iflag := (m = 0 \<and> intena c)\<rparr>"
  have "popcli c = Ret ?c" using Suc.prems m by (intro popcli_depth) simp
  moreover have "cli_depth ?c m" using Suc.prems m by (simp add: cli_depth_def)
  ultimately show ?case using Suc.IH [of ?c m] m by simp
qed

lemma popclis_Suc: "popclis (Suc k) c = bind_res (popclis k c) popcli"
proof (induction k arbitrary: c)
  case 0
  have "popclis 0 = Ret" by (rule ext) simp
  then show ?case by simp
next
  case (Suc k)
  have eq: "popclis (Suc k) = (\<lambda>c. bind_res (popclis k c) popcli)" using Suc.IH by (rule ext)
  have "popclis (Suc (Suc k)) c = bind_res (popcli c) (popclis (Suc k))" by (rule popclis.simps)
  also have "\<dots> = bind_res (popcli c) (\<lambda>c. bind_res (popclis k c) popcli)" by (simp only: eq)
  also have "\<dots> = bind_res (bind_res (popcli c) (popclis k)) popcli" by (simp only: bind_res_assoc)
  also have "\<dots> = bind_res (popclis (Suc k) c) popcli" by (simp only: popclis.simps)
  finally show ?case .
qed

text \<open>
  Nesting of \<open>pushcli\<close> and \<open>popcli\<close>. From interrupts-on or -off, \<open>n\<close> calls of \<open>pushcli\<close>
  followed by \<open>k\<close> of \<open>popcli\<close> keep interrupts off as long as \<open>k < n\<close>; the \<open>n\<close>-th \<open>popcli\<close>
  restores the interrupt flag, and no call panics.
\<close>

lemma pushcli_popcli_nesting:
  assumes "cli_depth c 0" "0 < n" "n < 2 ^ 31"
  shows "(\<forall>k < n. \<exists>c'. popclis k ((pushcli ^^ n) c) = Ret c' \<and> \<not> iflag c')
    \<and> (\<exists>c'. popclis n ((pushcli ^^ n) c) = Ret c' \<and> iflag c' = iflag c \<and> ncli c' = 0)"
proof -
  let ?c = "(pushcli ^^ n) c"
  have d: "cli_depth ?c n" "intena ?c = iflag c" using pushclis_depth [OF assms(1,3)] assms(2) by auto
  obtain m where m: "n = Suc m" using assms(2) by (cases n) auto
  then obtain c1 where c1: "popclis m ?c = Ret c1" "cli_depth c1 (Suc 0)" "intena c1 = iflag c"
    using popclis_depth [OF d(1), of m] d(2) by auto
  have "popclis n ?c = popcli c1" using popclis_Suc [of m ?c] c1(1) by (simp only: m bind_res.simps)
  then have "\<exists>c'. popclis n ?c = Ret c' \<and> iflag c' = iflag c \<and> ncli c' = 0"
    using popcli_depth [OF c1(2)] c1(3) by simp
  moreover have "\<exists>c'. popclis k ?c = Ret c' \<and> \<not> iflag c'" if "k < n" for k
    using popclis_depth [OF d(1) that] that by (auto simp: cli_depth_def)
  ultimately show ?thesis by blast
qed

definition cpu_demo :: cpu where
  "cpu_demo = \<lparr>ncli = 0, intena = False, iflag = True\<rparr>"

lemma cpu_demo_depth: "cli_depth cpu_demo 0" "iflag cpu_demo"
  by (simp_all add: cpu_demo_def cli_depth_def)

lemma pushcli_popcli_nesting_witness:
  "(\<exists>c'. popclis 2 ((pushcli ^^ 3) cpu_demo) = Ret c' \<and> \<not> iflag c')
    \<and> (\<exists>c'. popclis 3 ((pushcli ^^ 3) cpu_demo) = Ret c' \<and> iflag c' = iflag cpu_demo \<and> ncli c' = 0)"
proof -
  have "0 < (3::nat)" "(3::nat) < 2 ^ 31" "(2::nat) < 3" by simp_all
  then show ?thesis using pushcli_popcli_nesting [OF cpu_demo_depth(1), of 3] by blast
qed

text \<open>
  C24: the spin lock implements the abstract lock. A sequence of \<open>acquire\<close> and \<open>release\<close> calls by
  any CPUs goes through without panicking or waiting exactly when the sequence is one the
  specification allows (each \<open>acquire\<close> finds the lock free, each \<open>release\<close> comes from its holder),
  and then the holder recorded in the lock is the one of the specification.
\<close>

theorem spinlock_refines:
  assumes "spin_inv s"
  shows "map_option spin_owner (spin.run es s) = lock_spec es (spin_owner s)"
  using assms by (rule spin.run_spec)

definition smp_demo :: smp where
  "smp_demo = (\<lambda>_. cpu_demo, \<lparr>locked = 0, lock_name = ''kmem'', lock_cpu = None, pcs = replicate 10 0\<rparr>)"

lemma smp_demo_inv: "spin_inv smp_demo" "spin_owner smp_demo = None"
  by (simp_all add: spin_inv_def spin_owner_def smp_demo_def cpu_demo_depth)

theorem spinlock_refines_witness:
  "map_option spin_owner (spin.run [Take 0, Drop 0, Take 1] smp_demo) = Some (Some 1)"
  unfolding spinlock_refines [OF smp_demo_inv(1)] by (simp add: smp_demo_inv)

end
