(* ===== verification/Proc.thy ===== *)
theory Proc
  imports Procdata Vm Spinlock
begin

text \<open>
  The process table and the scheduler (proc.c), as far as they do not need files. The table is a
  list of 64 descriptors; a \<^verbatim>\<open>struct proc *\<close> is an index into it. \<open>this_cpu\<close> is the CPU that
  executes. \<^verbatim>\<open>ptable.lock\<close> is taken and given back with the operations of spinlock.c, so that
  their panics and the checks of \<^verbatim>\<open>sched()\<close> are part of the model.

  \<^verbatim>\<open>swtch()\<close> leaves a kernel thread in the middle of \<^verbatim>\<open>sched()\<close>. The operations that
  call it come in two parts: \<open>yield_out\<close>, \<open>sleep_out\<close> run up to the switch, \<open>yield_back\<close>,
  \<open>sleep_back\<close> from there to the end. The body of the scheduler's loop is split at its own
  \<^verbatim>\<open>swtch()\<close> into \<open>scheduler_next\<close> and \<open>scheduler_back\<close>. Output to the console is left out.
\<close>

abbreviation (input) NPROC :: nat where "NPROC \<equiv> 64"
abbreviation (input) KSTACKSIZE :: u32 where "KSTACKSIZE \<equiv> 4096"

section \<open>State\<close>

text \<open>
  \<open>apicids\<close> lists \<^verbatim>\<open>cpus[i].apicid\<close> for the \<^verbatim>\<open>ncpu\<close> CPUs, \<open>cpu_proc\<close> is
  \<^verbatim>\<open>cpus[i].proc\<close>, \<open>callers\<close> what \<^verbatim>\<open>getcallerpcs\<close> records when a lock is taken, and the two
  \<open>_pc\<close> fields are the addresses of the assembly labels.
\<close>

record proc_st = vm_st +
  ptable :: "proc list"
  ptlock :: spinlock
  cpus :: "nat \<Rightarrow> cpu"
  cpu_proc :: "nat \<Rightarrow> nat option"
  apicids :: "u8 list"
  this_cpu :: nat
  callers :: "u32 list"
  nextpid :: u32
  initproc :: "nat option"
  forkret_pc :: u32
  trapret_pc :: u32

definition upd_proc :: "nat \<Rightarrow> (proc \<Rightarrow> proc) \<Rightarrow> 'a proc_st_scheme \<Rightarrow> 'a proc_st_scheme" where
  "upd_proc i f s = s\<lparr>ptable := (ptable s)[i := f (ptable s ! i)]\<rparr>"

definition set_cpu :: "cpu \<Rightarrow> 'a proc_st_scheme \<Rightarrow> 'a proc_st_scheme" where
  "set_cpu c s = s\<lparr>cpus := (cpus s)(this_cpu s := c)\<rparr>"

definition pinit :: "'a proc_st_scheme \<Rightarrow> 'a proc_st_scheme" where
  "pinit s = s\<lparr>ptlock := initlock (ptlock s) ''ptable''\<rparr>"

fun find_apicid :: "u8 list \<Rightarrow> u8 \<Rightarrow> nat \<Rightarrow> nat option" where
  "find_apicid [] a i = None"
| "find_apicid (x # xs) a i = (if x = a then Some i else find_apicid xs a (Suc i))"

definition mycpu :: "'a proc_st_scheme \<Rightarrow> nat res" where
  "mycpu s =
     (if iflag (cpus s (this_cpu s)) then Panic ''mycpu called with interrupts enabled''
      else case find_apicid (apicids s) (apicids s ! this_cpu s) 0 of
        Some i \<Rightarrow> Ret i
      | None \<Rightarrow> Panic ''unknown apicid'')"

definition cpuid :: "'a proc_st_scheme \<Rightarrow> nat res" where
  "cpuid s = mycpu s"

definition myproc :: "'a proc_st_scheme \<Rightarrow> (nat option \<times> 'a proc_st_scheme) res" where
  "myproc s =
     (let s1 = set_cpu (pushcli (cpus s (this_cpu s))) s in
      bind_res (mycpu s1) (\<lambda>c.
        let p = cpu_proc s1 c in
        bind_res (popcli (cpus s1 (this_cpu s1))) (\<lambda>k. Ret (p, set_cpu k s1))))"

definition pt_acquire :: "'a proc_st_scheme \<Rightarrow> 'a proc_st_scheme res" where
  "pt_acquire s =
     bind_res (acquire (this_cpu s) (callers s) (cpus s (this_cpu s)) (ptlock s)) (\<lambda>(c, lk).
       Ret ((set_cpu c s)\<lparr>ptlock := lk\<rparr>))"

definition pt_release :: "'a proc_st_scheme \<Rightarrow> 'a proc_st_scheme res" where
  "pt_release s =
     bind_res (release (this_cpu s) (cpus s (this_cpu s)) (ptlock s)) (\<lambda>(c, lk).
       Ret ((set_cpu c s)\<lparr>ptlock := lk\<rparr>))"

section \<open>Creating a process\<close>

fun find_unused :: "proc list \<Rightarrow> nat \<Rightarrow> nat option" where
  "find_unused [] i = None"
| "find_unused (p # ps) i = (if pstate p = UNUSED then Some i else find_unused ps (Suc i))"

text \<open>The loop of \<^verbatim>\<open>allocproc\<close> that gives the process its sixteen empty mapping blocks.\<close>

fun alloc_blocks :: "'a proc_st_scheme \<Rightarrow> nat \<Rightarrow> nat \<Rightarrow> nat \<Rightarrow> 'a proc_st_scheme res" where
  "alloc_blocks s p i 0 = Ret s"
| "alloc_blocks s p i (Suc n) =
     (let (b, s) = kalloc s in
      if b = 0 then Panic ''kalloc()''
      else alloc_blocks (upd_proc p (\<lambda>q. q\<lparr>arr := (arr q)[i := no_block], arr_ptr := (arr_ptr q)[i := b]\<rparr>) s)
             p (Suc i) n)"

text \<open>
  The kernel stack of a new process: the trap frame on top (76 bytes, left as it is), below it the
  return address \<^verbatim>\<open>trapret\<close>, below it the context that starts at \<^verbatim>\<open>forkret\<close>.
\<close>

definition setup_proc :: "'a proc_st_scheme \<Rightarrow> nat \<Rightarrow> (nat option \<times> 'a proc_st_scheme) res" where
  "setup_proc s p =
     (let (stk, s) = kalloc s; s = upd_proc p (\<lambda>q. q\<lparr>kstack := stk\<rparr>) s in
      if stk = 0 then Ret (None, upd_proc p (\<lambda>q. q\<lparr>pstate := UNUSED\<rparr>) s)
      else let sp = stk + KSTACKSIZE - 76 - 4;
               s = s\<lparr>mem := store32 (mem s) sp (trapret_pc s)\<rparr>;
               s = upd_proc p (\<lambda>q. q\<lparr>pcontext := zero_context\<lparr>cx_eip := forkret_pc s\<rparr>\<rparr>) s;
               (w, s) = kalloc s
           in if w = 0 then Panic ''kalloc()''
              else let s = upd_proc p (\<lambda>q. q\<lparr>winfo := empty_winfo, winfo_ptr := w\<rparr>) s
                   in bind_res (alloc_blocks s p 0 16) (\<lambda>s. Ret (Some p, s)))"

definition allocproc :: "'a proc_st_scheme \<Rightarrow> (nat option \<times> 'a proc_st_scheme) res" where
  "allocproc s =
     bind_res (pt_acquire s) (\<lambda>s.
       case find_unused (ptable s) 0 of
         None \<Rightarrow> bind_res (pt_release s) (\<lambda>s. Ret (None, s))
       | Some p \<Rightarrow>
         let s = upd_proc p (\<lambda>q. q\<lparr>pstate := EMBRYO, pid := nextpid s\<rparr>) s;
             s = s\<lparr>nextpid := nextpid s + 1\<rparr>
         in bind_res (pt_release s) (\<lambda>s. setup_proc s p))"

section \<open>Growing a process\<close>

definition switchuvm :: "'a proc_st_scheme \<Rightarrow> nat option \<Rightarrow> 'a proc_st_scheme res" where
  "switchuvm s po =
     (case po of
        None \<Rightarrow> Panic ''switchuvm: no process''
      | Some p \<Rightarrow>
          if kstack (ptable s ! p) = 0 then Panic ''switchuvm: no kstack''
          else if pgdir (ptable s ! p) = 0 then Panic ''switchuvm: no pgdir''
          else let s = set_cpu (pushcli (cpus s (this_cpu s))) s;
                   s = s\<lparr>cr3 := V2P (pgdir (ptable s ! p))\<rparr>
               in bind_res (popcli (cpus s (this_cpu s))) (\<lambda>c. Ret (set_cpu c s)))"

definition growproc :: "'a proc_st_scheme \<Rightarrow> u32 \<Rightarrow> (u32 \<times> 'a proc_st_scheme) res" where
  "growproc s n =
     bind_res (myproc s) (\<lambda>(po, s).
       case po of
         None \<Rightarrow> Fault
       | Some p \<Rightarrow>
         let q = ptable s ! p;
             finish = (\<lambda>(nsz, s). if nsz = 0 then Ret (- 1, s)
               else bind_res (switchuvm (upd_proc p (\<lambda>q. q\<lparr>sz := nsz\<rparr>) s) (Some p)) (\<lambda>s. Ret (0, s)))
         in if 0 <s n then bind_res (allocuvm s (pgdir q) (sz q) (sz q + n)) finish
            else if n <s 0 then bind_res (deallocuvm s (pgdir q) (sz q) (sz q + n)) finish
            else bind_res (switchuvm s (Some p)) (\<lambda>s. Ret (0, s)))"

section \<open>Switching\<close>

definition sched_out :: "'a proc_st_scheme \<Rightarrow> (bool \<times> 'a proc_st_scheme) res" where
  "sched_out s =
     bind_res (myproc s) (\<lambda>(po, s).
       bind_res (holding (this_cpu s) (cpus s (this_cpu s)) (ptlock s)) (\<lambda>(h, c).
         let s = set_cpu c s in
         if \<not> h then Panic ''sched ptable.lock''
         else if ncli c \<noteq> 1 then Panic ''sched locks''
         else case po of
           None \<Rightarrow> Fault
         | Some p \<Rightarrow>
             if pstate (ptable s ! p) = RUNNING then Panic ''sched running''
             else if iflag c then Panic ''sched interruptible''
             else Ret (intena c, s)))"

definition sched_back :: "bool \<Rightarrow> 'a proc_st_scheme \<Rightarrow> 'a proc_st_scheme" where
  "sched_back ena s = set_cpu ((cpus s (this_cpu s))\<lparr>intena := ena\<rparr>) s"

definition yield_out :: "'a proc_st_scheme \<Rightarrow> (bool \<times> 'a proc_st_scheme) res" where
  "yield_out s =
     bind_res (pt_acquire s) (\<lambda>s.
       bind_res (myproc s) (\<lambda>(po, s).
         case po of
           None \<Rightarrow> Fault
         | Some p \<Rightarrow> sched_out (upd_proc p (\<lambda>q. q\<lparr>pstate := RUNNABLE\<rparr>) s)))"

definition yield_back :: "bool \<Rightarrow> 'a proc_st_scheme \<Rightarrow> 'a proc_st_scheme res" where
  "yield_back ena s = pt_release (sched_back ena s)"

text \<open>The lock a sleeper gives up: none, \<^verbatim>\<open>ptable.lock\<close> itself, or a lock of its own.\<close>

datatype sleep_lk = NullLock | PtableLock | OtherLock spinlock

definition lk_release :: "'a proc_st_scheme \<Rightarrow> spinlock \<Rightarrow> (spinlock \<times> 'a proc_st_scheme) res" where
  "lk_release s lk =
     bind_res (release (this_cpu s) (cpus s (this_cpu s)) lk) (\<lambda>(c, lk). Ret (lk, set_cpu c s))"

definition lk_acquire :: "'a proc_st_scheme \<Rightarrow> spinlock \<Rightarrow> (spinlock \<times> 'a proc_st_scheme) res" where
  "lk_acquire s lk =
     bind_res (acquire (this_cpu s) (callers s) (cpus s (this_cpu s)) lk) (\<lambda>(c, lk). Ret (lk, set_cpu c s))"

definition sleep_out ::
  "'a proc_st_scheme \<Rightarrow> kchan \<Rightarrow> sleep_lk \<Rightarrow> (bool \<times> sleep_lk \<times> 'a proc_st_scheme) res" where
  "sleep_out s ch l =
     bind_res (myproc s) (\<lambda>(po, s).
       case po of
         None \<Rightarrow> Panic ''sleep''
       | Some p \<Rightarrow>
         let rest = (\<lambda>l s. bind_res (sched_out (upd_proc p (\<lambda>q. q\<lparr>chan := ch, pstate := SLEEPING\<rparr>) s))
               (\<lambda>(ena, s). Ret (ena, l, s)))
         in case l of
              NullLock \<Rightarrow> Panic ''sleep without lk''
            | PtableLock \<Rightarrow> rest PtableLock s
            | OtherLock lk \<Rightarrow>
                bind_res (pt_acquire s) (\<lambda>s.
                  bind_res (lk_release s lk) (\<lambda>(lk, s). rest (OtherLock lk) s)))"

definition sleep_back ::
  "nat \<Rightarrow> bool \<Rightarrow> sleep_lk \<Rightarrow> 'a proc_st_scheme \<Rightarrow> (sleep_lk \<times> 'a proc_st_scheme) res" where
  "sleep_back p ena l s =
     (let s = upd_proc p (\<lambda>q. q\<lparr>chan := NoChan\<rparr>) (sched_back ena s) in
      case l of
        OtherLock lk \<Rightarrow>
          bind_res (pt_release s) (\<lambda>s.
            bind_res (lk_acquire s lk) (\<lambda>(lk, s). Ret (OtherLock lk, s)))
      | _ \<Rightarrow> Ret (l, s))"

section \<open>Waking and killing\<close>

definition wake_proc :: "kchan \<Rightarrow> proc \<Rightarrow> proc" where
  "wake_proc ch p = (if pstate p = SLEEPING \<and> chan p = ch then p\<lparr>pstate := RUNNABLE\<rparr> else p)"

definition wakeup1 :: "kchan \<Rightarrow> 'a proc_st_scheme \<Rightarrow> 'a proc_st_scheme" where
  "wakeup1 ch s = s\<lparr>ptable := map (wake_proc ch) (ptable s)\<rparr>"

definition wakeup :: "'a proc_st_scheme \<Rightarrow> kchan \<Rightarrow> 'a proc_st_scheme res" where
  "wakeup s ch = bind_res (pt_acquire s) (\<lambda>s. pt_release (wakeup1 ch s))"

fun find_pid :: "proc list \<Rightarrow> u32 \<Rightarrow> nat \<Rightarrow> nat option" where
  "find_pid [] k i = None"
| "find_pid (p # ps) k i = (if pid p = k then Some i else find_pid ps k (Suc i))"

definition kill :: "'a proc_st_scheme \<Rightarrow> u32 \<Rightarrow> (u32 \<times> 'a proc_st_scheme) res" where
  "kill s k =
     bind_res (pt_acquire s) (\<lambda>s.
       case find_pid (ptable s) k 0 of
         None \<Rightarrow> bind_res (pt_release s) (\<lambda>s. Ret (- 1, s))
       | Some p \<Rightarrow>
           let s = upd_proc p (\<lambda>q. q\<lparr>killed := 1\<rparr>) s;
               s = (if pstate (ptable s ! p) = SLEEPING then upd_proc p (\<lambda>q. q\<lparr>pstate := RUNNABLE\<rparr>) s else s)
           in bind_res (pt_release s) (\<lambda>s. Ret (0, s)))"

section \<open>The scheduler\<close>

fun find_runnable :: "proc list \<Rightarrow> nat \<Rightarrow> nat option" where
  "find_runnable [] i = None"
| "find_runnable (p # ps) i = (if pstate p = RUNNABLE then Some i else find_runnable ps (Suc i))"

definition scheduler_start :: "'a proc_st_scheme \<Rightarrow> 'a proc_st_scheme res" where
  "scheduler_start s = pt_acquire (set_cpu ((cpus s (this_cpu s))\<lparr>iflag := True\<rparr>) s)"

definition scheduler_next :: "nat \<Rightarrow> 'a proc_st_scheme \<Rightarrow> (nat option \<times> 'a proc_st_scheme) res" where
  "scheduler_next pos s =
     (case find_runnable (drop pos (ptable s)) pos of
        None \<Rightarrow> bind_res (pt_release s) (\<lambda>s. Ret (None, s))
      | Some p \<Rightarrow>
          let s = s\<lparr>cpu_proc := (cpu_proc s)(this_cpu s := Some p)\<rparr>
          in bind_res (switchuvm s (Some p)) (\<lambda>s.
               Ret (Some p, upd_proc p (\<lambda>q. q\<lparr>pstate := RUNNING\<rparr>) s)))"

definition scheduler_back :: "'a proc_st_scheme \<Rightarrow> 'a proc_st_scheme" where
  "scheduler_back s = (let s = switchkvm s in s\<lparr>cpu_proc := (cpu_proc s)(this_cpu s := None)\<rparr>)"

section \<open>Listing\<close>

definition state_name :: "procstate \<Rightarrow> string" where
  "state_name st = (case st of UNUSED \<Rightarrow> ''unused'' | EMBRYO \<Rightarrow> ''embryo'' | SLEEPING \<Rightarrow> ''sleep ''
     | RUNNABLE \<Rightarrow> ''runble'' | RUNNING \<Rightarrow> ''run   '' | ZOMBIE \<Rightarrow> ''zombie'')"

text \<open>The arguments of the calls of \<^verbatim>\<open>cprintf\<close> for each process in use.\<close>

definition procdump :: "'a proc_st_scheme \<Rightarrow> (u32 \<times> string \<times> u8 list \<times> u32 list) list" where
  "procdump s =
     map (\<lambda>p. (pid p, state_name (pstate p), pname p,
       if pstate p = SLEEPING
       then takeWhile (\<lambda>pc. pc \<noteq> 0) (getcallerpcs (mem s) (cx_ebp (pcontext p) + 8)) else []))
     (filter (\<lambda>p. pstate p \<noteq> UNUSED) (ptable s))"

end
