(* ===== verification/Exitwait.thy ===== *)
theory Exitwait
  imports Proc
begin

text \<open>
  The parts of \<^verbatim>\<open>exit()\<close> and \<^verbatim>\<open>wait()\<close> of proc.c that run with \<^verbatim>\<open>ptable.lock\<close> held, and what they leave of the
  process table and of the CPUs. \<open>exit_out\<close> is the end of \<^verbatim>\<open>exit()\<close>, from \<^verbatim>\<open>acquire(&ptable.lock)\<close> to
  the switch to the scheduler; the closing of the files before it is in theory \<open>Fork\<close>.
\<close>

section \<open>Exit\<close>

text \<open>\<open>proc_chan\<close> is the channel of a process pointer; null is no channel.\<close>

definition proc_chan :: "nat option \<Rightarrow> kchan" where
  "proc_chan po = (case po of None \<Rightarrow> NoChan | Some p \<Rightarrow> ProcChan p)"

fun reparent :: "'a proc_st_scheme \<Rightarrow> nat \<Rightarrow> nat \<Rightarrow> nat \<Rightarrow> 'a proc_st_scheme" where
  "reparent s cur p 0 = s"
| "reparent s cur p (Suc n) =
     (if parent (ptable s ! p) = Some cur
      then let s = upd_proc p (\<lambda>q. q\<lparr>parent := initproc s\<rparr>) s;
               s = (if pstate (ptable s ! p) = ZOMBIE then wakeup1 (proc_chan (initproc s)) s else s)
           in reparent s cur (Suc p) n
      else reparent s cur (Suc p) n)"

fun exit_blocks :: "'a proc_st_scheme \<Rightarrow> nat \<Rightarrow> nat \<Rightarrow> nat \<Rightarrow> 'a proc_st_scheme res" where
  "exit_blocks s cur i 0 = Ret s"
| "exit_blocks s cur i (Suc n) =
     (let q = ptable s ! cur; b = arr q ! i in
      bind_res (if mb_valid b = 1 \<and> mb_ref b = 1 then kfree s (arr_ptr q ! i) else Ret s) (\<lambda>s.
        case parent q of
          None \<Rightarrow> Fault
        | Some pp \<Rightarrow>
            exit_blocks (upd_proc pp (\<lambda>r. r\<lparr>arr := (arr r)[i := (arr r ! i)\<lparr>mb_ref := mb_ref (arr r ! i) - 1\<rparr>]\<rparr>) s)
              cur (Suc i) n))"

text \<open>The memory the process gives back: its \<^verbatim>\<open>wmapinfo\<close>, its mapping blocks and its user pages.\<close>

definition exit_free :: "'a proc_st_scheme \<Rightarrow> nat \<Rightarrow> 'a proc_st_scheme res" where
  "exit_free s cur =
     bind_res (kfree s (winfo_ptr (ptable s ! cur))) (\<lambda>s.
       bind_res (exit_blocks s cur 0 16) (\<lambda>s.
         bind_res (deallocuvm s (pgdir (ptable s ! cur)) (sz (ptable s ! cur)) 0) (\<lambda>(_, s). Ret s)))"

text \<open>The wake-up of the parent and the handing over of the children to the first process.\<close>

definition exit_family :: "'a proc_st_scheme \<Rightarrow> nat \<Rightarrow> 'a proc_st_scheme" where
  "exit_family s cur = reparent (wakeup1 (proc_chan (parent (ptable s ! cur))) s) cur 0 NPROC"

definition exit_out :: "'a proc_st_scheme \<Rightarrow> nat \<Rightarrow> 'a proc_st_scheme res" where
  "exit_out s cur =
     bind_res (pt_acquire s) (\<lambda>s.
       bind_res (exit_free (exit_family s cur) cur) (\<lambda>s.
         bind_res (sched_out (upd_proc cur (\<lambda>q. q\<lparr>pstate := ZOMBIE\<rparr>) s)) (\<lambda>(_, s). Ret s)))"

section \<open>Wait\<close>

fun find_zombie :: "proc list \<Rightarrow> nat \<Rightarrow> nat \<Rightarrow> nat option" where
  "find_zombie [] cur i = None"
| "find_zombie (p # ps) cur i =
     (if parent p = Some cur \<and> pstate p = ZOMBIE then Some i else find_zombie ps cur (Suc i))"

definition havekids :: "proc list \<Rightarrow> nat \<Rightarrow> bool" where
  "havekids ps cur = list_ex (\<lambda>p. parent p = Some cur) ps"

text \<open>The memory of a child that is found dead: its kernel stack and its page table.\<close>

definition reap_free :: "'a proc_st_scheme \<Rightarrow> nat \<Rightarrow> 'a proc_st_scheme res" where
  "reap_free s p =
     bind_res (kfree s (kstack (ptable s ! p))) (\<lambda>s.
       let s = upd_proc p (\<lambda>q. q\<lparr>kstack := 0\<rparr>) s in freevm s (pgdir (ptable s ! p)))"

text \<open>One round of the endless loop, entered with the lock held: a child was reaped, there is nothing to wait for, or the process sleeps.\<close>

datatype 's wait_result = Reaped u32 's | NoChild 's | Sleeping bool 's

definition wait_round :: "'a proc_st_scheme \<Rightarrow> nat \<Rightarrow> 'a proc_st_scheme wait_result res" where
  "wait_round s cur =
     (case find_zombie (ptable s) cur 0 of
        Some p \<Rightarrow>
          let k = pid (ptable s ! p) in
          bind_res (reap_free s p) (\<lambda>s.
            let s = upd_proc p (\<lambda>q. q\<lparr>pid := 0, parent := None, pname := (pname q)[0 := 0], killed := 0, pstate := UNUSED\<rparr>) s
            in bind_res (pt_release s) (\<lambda>s. Ret (Reaped k s)))
      | None \<Rightarrow>
          if \<not> havekids (ptable s) cur \<or> killed (ptable s ! cur) \<noteq> 0
          then bind_res (pt_release s) (\<lambda>s. Ret (NoChild s))
          else bind_res (sleep_out s (ProcChan cur) PtableLock) (\<lambda>(ena, _, s). Ret (Sleeping ena s)))"

definition wait :: "'a proc_st_scheme \<Rightarrow> 'a proc_st_scheme wait_result res" where
  "wait s =
     bind_res (myproc s) (\<lambda>(co, s).
       case co of None \<Rightarrow> Fault | Some cur \<Rightarrow> bind_res (pt_acquire s) (\<lambda>s. wait_round s cur))"

section \<open>What they leave alone\<close>

text \<open>The fields of a state that the allocator and the page tables do not use.\<close>

lemma same_more:
  assumes "kmem_st.more s' = kmem_st.more s"
  shows "ptable s' = ptable s" "cpu_proc s' = cpu_proc s" "apicids s' = apicids s" "this_cpu s' = this_cpu s"
    "ptlock s' = ptlock s" "cpus s' = cpus s"
proof -
  have "s' = s\<lparr>mem := mem s', kend := kend s', use_lock := use_lock s', freelist := freelist s'\<rparr>"
    by (rule kmem_st.equality) (simp_all add: assms)
  then obtain m e l f where s': "s' = s\<lparr>mem := m, kend := e, use_lock := l, freelist := f\<rparr>" by blast
  show "ptable s' = ptable s" "cpu_proc s' = cpu_proc s" "apicids s' = apicids s" "this_cpu s' = this_cpu s"
    "ptlock s' = ptlock s" "cpus s' = cpus s" by (simp_all add: s')
qed

lemma kfree_more: "kfree s v = Ret s' \<Longrightarrow> kmem_st.more s' = kmem_st.more s"
  using kfree_frame by blast

lemma deallocuvm_loop_more: "deallocuvm_loop s d n a = Ret s' \<Longrightarrow> kmem_st.more s' = kmem_st.more s"
proof (induction s d n a rule: deallocuvm_loop.induct)
  case (1 s d n a)
  define pte where "pte = fst (walkpgdir s d a False)"
  have w: "(pte, s) = walkpgdir s d a False" by (auto simp: pte_def walkpgdir_def Let_def)
  note e = deallocuvm_loop.simps [of s d n a, folded w, simplified Let_def prod.case]
  consider "\<not> a < n" | "a < n" "pte = 0" | "a < n" "pte \<noteq> 0" "load32 (mem s) pte AND PTE_P = 0"
    | "a < n" "pte \<noteq> 0" "load32 (mem s) pte AND PTE_P \<noteq> 0" by blast
  then show ?case
  proof cases
    case 1
    then show ?thesis using "1.prems" by (simp add: e)
  next
    case 2
    then show ?thesis using "1.prems" "1.IH"(1) [OF 2(1) w refl 2(2) refl] by (simp add: e split: if_splits)
  next
    case 3
    then show ?thesis using "1.prems" "1.IH"(3) [OF 3(1) w refl 3(2) refl refl] by (simp add: e split: if_splits)
  next
    case 4
    then obtain v where v: "kfree s (P2V (PTE_ADDR (load32 (mem s) pte))) = Ret v" "\<not> a + PGSIZE \<le> a" "PTE_ADDR (load32 (mem s) pte) \<noteq> 0"
        "deallocuvm_loop (v\<lparr>mem := store32 (mem v) pte 0\<rparr>) d n (a + PGSIZE) = Ret s'"
      using "1.prems" by (auto simp: e bind_res_eq_Ret split: if_splits)
    have "kmem_st.more s' = kmem_st.more (v\<lparr>mem := store32 (mem v) pte 0\<rparr>)"
      by (rule "1.IH"(2) [OF 4(1) w refl 4(2) refl refl 4(3) v(3,1) refl v(2,4)])
    then show ?thesis using kfree_more [OF v(1)] by simp
  qed
qed

lemma deallocuvm_more: "deallocuvm s d n a = Ret (r, s') \<Longrightarrow> kmem_st.more s' = kmem_st.more s"
  by (auto simp: deallocuvm_def split: if_splits dest: deallocuvm_loop_more)

lemma freevm_loop_more: "freevm_loop s d i n = Ret s' \<Longrightarrow> kmem_st.more s' = kmem_st.more s"
  by (induction n arbitrary: s i) (auto simp: Let_def split: if_splits dest!: kfree_more)

lemma freevm_more: "freevm s d = Ret s' \<Longrightarrow> kmem_st.more s' = kmem_st.more s"
  by (auto simp: freevm_def split: if_splits dest!: kfree_more freevm_loop_more deallocuvm_more)

text \<open>
  \<open>same_cpus\<close>: locks and CPUs are untouched. \<open>kept\<close>: besides, every process has its stack, its page
  directory, its number and its channel, and its state is the same or it has been woken.
\<close>

definition same_cpus :: "'a proc_st_scheme \<Rightarrow> 'a proc_st_scheme \<Rightarrow> bool" where
  "same_cpus s s' \<longleftrightarrow> cpu_proc s' = cpu_proc s \<and> apicids s' = apicids s
     \<and> this_cpu s' = this_cpu s \<and> ptlock s' = ptlock s \<and> cpus s' = cpus s"

definition kept_proc :: "proc \<Rightarrow> proc \<Rightarrow> bool" where
  "kept_proc p q \<longleftrightarrow> kstack q = kstack p \<and> pgdir q = pgdir p \<and> pid q = pid p \<and> chan q = chan p
     \<and> (pstate q = pstate p \<or> pstate p = SLEEPING \<and> pstate q = RUNNABLE)"

definition kept :: "'a proc_st_scheme \<Rightarrow> 'a proc_st_scheme \<Rightarrow> bool" where
  "kept s s' \<longleftrightarrow> same_cpus s s' \<and> list_all2 kept_proc (ptable s) (ptable s')"

lemma same_cpus_trans: "same_cpus a b \<Longrightarrow> same_cpus b c \<Longrightarrow> same_cpus a c"
  by (simp add: same_cpus_def)

lemma kept_proc_trans: "kept_proc a b \<Longrightarrow> kept_proc b c \<Longrightarrow> kept_proc a c"
  by (auto simp: kept_proc_def)

lemma kept_trans:
  assumes "kept a b" "kept b c"
  shows "kept a c"
proof -
  have ab: "same_cpus a b" "length (ptable b) = length (ptable a)" "\<And>i. i < length (ptable a) \<Longrightarrow> kept_proc (ptable a ! i) (ptable b ! i)"
    using assms(1) by (simp_all add: kept_def list_all2_conv_all_nth)
  have bc: "same_cpus b c" "length (ptable c) = length (ptable b)" "\<And>i. i < length (ptable b) \<Longrightarrow> kept_proc (ptable b ! i) (ptable c ! i)"
    using assms(2) by (simp_all add: kept_def list_all2_conv_all_nth)
  have "kept_proc (ptable a ! i) (ptable c ! i)" if "i < length (ptable a)" for i
    using kept_proc_trans [OF ab(3) [OF that] bc(3) [of i]] that ab(2) by simp
  then show ?thesis
    using same_cpus_trans [OF ab(1) bc(1)] ab(2) bc(2) by (simp add: kept_def list_all2_conv_all_nth)
qed

lemma kept_more: "kmem_st.more s' = kmem_st.more s \<Longrightarrow> kept s s'"
  using same_more [of s' s] by (simp add: kept_def same_cpus_def list_all2_refl kept_proc_def)

lemma kept_refl [simp]: "kept s s"
  by (rule kept_more) simp

lemma kept_wakeup1 [simp]: "kept s (wakeup1 ch s)"
  by (simp add: kept_def same_cpus_def wakeup1_def list_all2_conv_all_nth kept_proc_def wake_proc_def)

lemma kept_upd_proc:
  assumes "\<And>q. kept_proc q (f q)"
  shows "kept s (upd_proc p f s)"
proof -
  have "kept_proc q q" for q by (simp add: kept_proc_def)
  then show ?thesis
    using assms by (auto simp: kept_def same_cpus_def upd_proc_def list_all2_conv_all_nth) (metis nth_list_update_eq nth_list_update_neq)
qed

lemma kept_reparent: "kept s (reparent s cur p n)"
proof (induction n arbitrary: s p)
  case (Suc n)
  let ?u = "upd_proc p (\<lambda>q. q\<lparr>parent := initproc s\<rparr>) s"
  have "kept s ?u" by (rule kept_upd_proc) (simp add: kept_proc_def)
  moreover have "kept ?u (wakeup1 ch ?u)" for ch by simp
  ultimately have w: "kept s (wakeup1 ch ?u)" for ch by (rule kept_trans)
  show ?case
  proof (cases "parent (ptable s ! p) = Some cur")
    case True
    show ?thesis
      using kept_trans [OF w Suc [of "wakeup1 (proc_chan (initproc ?u)) ?u" "Suc p"]] kept_trans [OF \<open>kept s ?u\<close> Suc [of ?u "Suc p"]] True
      by (simp add: Let_def)
  qed (simp add: Suc)
qed simp

lemma kept_exit_family: "kept s (exit_family s cur)"
  unfolding exit_family_def by (rule kept_trans [OF kept_wakeup1 kept_reparent])

lemma kept_exit_blocks: "exit_blocks s cur i n = Ret s' \<Longrightarrow> kept s s'"
proof (induction n arbitrary: s i)
  case (Suc n)
  let ?q = "ptable s ! cur"
  obtain s1 pp where 1: "(if mb_valid (arr ?q ! i) = 1 \<and> mb_ref (arr ?q ! i) = 1 then kfree s (arr_ptr ?q ! i) else Ret s) = Ret s1"
    "exit_blocks (upd_proc pp (\<lambda>r. r\<lparr>arr := (arr r)[i := (arr r ! i)\<lparr>mb_ref := mb_ref (arr r ! i) - 1\<rparr>]\<rparr>) s1) cur (Suc i) n = Ret s'"
    using Suc.prems by (auto simp: Let_def split: option.splits)
  have a: "kept s s1"
  proof (cases "mb_valid (arr ?q ! i) = 1 \<and> mb_ref (arr ?q ! i) = 1")
    case True
    then have "kfree s (arr_ptr ?q ! i) = Ret s1" using 1(1) by simp
    then show ?thesis by (rule kept_more [OF kfree_more])
  qed (use 1(1) in \<open>simp only: if_False kept_refl res.inject\<close>)
  have b: "kept s1 (upd_proc pp (\<lambda>r. r\<lparr>arr := (arr r)[i := (arr r ! i)\<lparr>mb_ref := mb_ref (arr r ! i) - 1\<rparr>]\<rparr>) s1)"
    by (rule kept_upd_proc) (simp add: kept_proc_def)
  show ?case by (rule kept_trans [OF a kept_trans [OF b Suc.IH [OF 1(2)]]])
qed simp

lemma kept_exit_free:
  assumes "exit_free s cur = Ret s'"
  shows "kept s s'"
proof -
  obtain s1 s2 r where f: "kfree s (winfo_ptr (ptable s ! cur)) = Ret s1" "exit_blocks s1 cur 0 16 = Ret s2"
    "deallocuvm s2 (pgdir (ptable s2 ! cur)) (sz (ptable s2 ! cur)) 0 = Ret (r, s')"
    using assms unfolding exit_free_def bind_res_eq_Ret by auto
  show ?thesis
    by (rule kept_trans [OF kept_more [OF kfree_more [OF f(1)]] kept_trans [OF kept_exit_blocks [OF f(2)] kept_more [OF deallocuvm_more [OF f(3)]]]])
qed

lemma reap_free_frame:
  assumes "reap_free s p = Ret s'"
  shows "same_cpus s s'" "ptable s' = (ptable s)[p := (ptable s ! p)\<lparr>kstack := 0\<rparr>]"
proof -
  obtain s1 where f: "kfree s (kstack (ptable s ! p)) = Ret s1" "freevm (upd_proc p (\<lambda>q. q\<lparr>kstack := 0\<rparr>) s1)
      (pgdir (ptable (upd_proc p (\<lambda>q. q\<lparr>kstack := 0\<rparr>) s1) ! p)) = Ret s'"
    using assms unfolding reap_free_def Let_def bind_res_eq_Ret by blast
  have m: "kmem_st.more s1 = kmem_st.more s" "kmem_st.more s' = kmem_st.more (upd_proc p (\<lambda>q. q\<lparr>kstack := 0\<rparr>) s1)"
    by (rule kfree_more [OF f(1)]) (rule freevm_more [OF f(2)])
  show "same_cpus s s'" "ptable s' = (ptable s)[p := (ptable s ! p)\<lparr>kstack := 0\<rparr>]"
    unfolding same_cpus_def same_more [OF m(2)] by (simp_all add: upd_proc_def same_more [OF m(1)])
qed

lemma find_zombie_Some:
  "find_zombie ps cur n = Some j \<Longrightarrow> n \<le> j \<and> j < n + length ps \<and> pstate (ps ! (j - n)) = ZOMBIE \<and> parent (ps ! (j - n)) = Some cur"
proof (induction ps arbitrary: n)
  case (Cons p ps)
  show ?case
  proof (cases "parent p = Some cur \<and> pstate p = ZOMBIE")
    case False
    then have "find_zombie ps cur (Suc n) = Some j" using Cons.prems by (simp only: find_zombie.simps if_False)
    note ih = Cons.IH [OF this]
    then have "Suc n \<le> j" by blast
    then have "j - n = Suc (j - Suc n)" by arith
    then show ?thesis using ih by auto
  next
    case True
    then have "n = j" using Cons.prems by simp
    then show ?thesis using True by simp
  qed
qed simp

end
