(* ===== verification/Sched.thy ===== *)
theory Sched
  imports Exitwait
begin

text \<open>
  The scheduling protocol of proc.c with any number of CPUs: a step relation whose steps are the
  operations of the theories \<open>Proc\<close> and \<open>Exitwait\<close>, and the invariant that they hand \<^verbatim>\<open>ptable.lock\<close> over
  correctly, that a process runs on at most one CPU, and that no check of \<^verbatim>\<open>sched()\<close> fails.
\<close>

section \<open>Steps\<close>

text \<open>
  A CPU is \<open>Idle\<close> at the top of the scheduler's endless loop, in its inner loop at some position
  of the table with the lock held (\<open>Scan\<close>), just switched into a process with the lock still held
  (\<open>Enter\<close>), or executing a process without it (\<open>Run\<close>). \<open>kont\<close> says in which function a
  process that is not running was switched out: \<^verbatim>\<open>sleep()\<close> with a lock of the caller (\<open>KSleep\<close>) or with
  \<^verbatim>\<open>ptable.lock\<close>, which only \<^verbatim>\<open>wait()\<close> does (\<open>KWait\<close>).
\<close>

datatype cpu_mode = Idle | Scan nat | Enter nat | Run nat

datatype kont = KForkret | KYield bool | KSleep bool | KWait bool

record sys =
  kst :: proc_st
  mode :: "nat \<Rightarrow> cpu_mode"
  kont_of :: "nat \<Rightarrow> kont"

text \<open>The state as CPU \<open>i\<close> sees it.\<close>

definition on :: "nat \<Rightarrow> sys \<Rightarrow> proc_st" where
  "on i t = (kst t)\<lparr>this_cpu := i\<rparr>"

definition holds_lock :: "cpu_mode \<Rightarrow> bool" where
  "holds_lock m \<longleftrightarrow> (case m of Scan n \<Rightarrow> True | Enter p \<Rightarrow> True | _ \<Rightarrow> False)"

text \<open>
  What \<^verbatim>\<open>fork()\<close> does between \<^verbatim>\<open>allocproc()\<close> and its own critical section (theory \<open>Fork\<close>), as far as scheduling
  goes: it fills the new slot, which then has a page directory, and may change memory and the mapping blocks of
  other processes.
\<close>

definition fork_fills :: "nat \<Rightarrow> proc_st \<Rightarrow> proc_st \<Rightarrow> bool" where
  "fork_fills q s s' \<longleftrightarrow> same_cpus s s' \<and> nextpid s' = nextpid s \<and> initproc s' = initproc s \<and> length (ptable s') = length (ptable s)
     \<and> (\<forall>r<length (ptable s). r \<noteq> q \<longrightarrow> (\<exists>A. ptable s' ! r = (ptable s ! r)\<lparr>arr := A\<rparr>))
     \<and> pstate (ptable s' ! q) = EMBRYO \<and> kstack (ptable s' ! q) = kstack (ptable s ! q) \<and> pgdir (ptable s' ! q) \<noteq> 0"

text \<open>The system after a round of \<^verbatim>\<open>wait()\<close>: the process goes on, or has been switched out.\<close>

definition wait_sys :: "nat \<Rightarrow> nat \<Rightarrow> proc_st wait_result \<Rightarrow> sys \<Rightarrow> sys" where
  "wait_sys i p r t = (case r of
       Reaped k s \<Rightarrow> t\<lparr>kst := s, mode := (mode t)(i := Run p)\<rparr>
     | NoChild s \<Rightarrow> t\<lparr>kst := s, mode := (mode t)(i := Run p)\<rparr>
     | Sleeping ena s \<Rightarrow> t\<lparr>kst := scheduler_back s, mode := (mode t)(i := Scan (Suc p)), kont_of := (kont_of t)(p := KWait ena)\<rparr>)"

text \<open>
  A critical section of \<^verbatim>\<open>ptable.lock\<close> is one step. \<open>waking\<close> is also the wake-up of an interrupt handler, which may
  run on a CPU that is at the top of the scheduler's loop.
\<close>

inductive sys_step :: "sys \<Rightarrow> sys \<Rightarrow> bool" where
  start: "i < length (apicids (kst t)) \<Longrightarrow> mode t i = Idle \<Longrightarrow> scheduler_start (on i t) = Ret s \<Longrightarrow>
    sys_step t (t\<lparr>kst := s, mode := (mode t)(i := Scan 0)\<rparr>)"
| pick: "i < length (apicids (kst t)) \<Longrightarrow> mode t i = Scan n \<Longrightarrow> scheduler_next n (on i t) = Ret (Some p, s) \<Longrightarrow>
    sys_step t (t\<lparr>kst := s, mode := (mode t)(i := Enter p)\<rparr>)"
| none: "i < length (apicids (kst t)) \<Longrightarrow> mode t i = Scan n \<Longrightarrow> scheduler_next n (on i t) = Ret (None, s) \<Longrightarrow>
    sys_step t (t\<lparr>kst := s, mode := (mode t)(i := Idle)\<rparr>)"
| forkret: "i < length (apicids (kst t)) \<Longrightarrow> mode t i = Enter p \<Longrightarrow> kont_of t p = KForkret \<Longrightarrow>
    pt_release (on i t) = Ret s \<Longrightarrow> sys_step t (t\<lparr>kst := s, mode := (mode t)(i := Run p)\<rparr>)"
| yielded: "i < length (apicids (kst t)) \<Longrightarrow> mode t i = Enter p \<Longrightarrow> kont_of t p = KYield ena \<Longrightarrow>
    yield_back ena (on i t) = Ret s \<Longrightarrow> sys_step t (t\<lparr>kst := s, mode := (mode t)(i := Run p)\<rparr>)"
| slept: "i < length (apicids (kst t)) \<Longrightarrow> mode t i = Enter p \<Longrightarrow> kont_of t p = KSleep ena \<Longrightarrow> locked lk = 0 \<Longrightarrow>
    sleep_back p ena (OtherLock lk) (on i t) = Ret (OtherLock lk1, s1) \<Longrightarrow> lk_release s1 lk1 = Ret (lk2, s) \<Longrightarrow>
    sys_step t (t\<lparr>kst := s, mode := (mode t)(i := Run p)\<rparr>)"
| yield: "i < length (apicids (kst t)) \<Longrightarrow> mode t i = Run p \<Longrightarrow> yield_out (on i t) = Ret (ena, s) \<Longrightarrow>
    sys_step t (t\<lparr>kst := scheduler_back s, mode := (mode t)(i := Scan (Suc p)), kont_of := (kont_of t)(p := KYield ena)\<rparr>)"
| sleep: "i < length (apicids (kst t)) \<Longrightarrow> mode t i = Run p \<Longrightarrow> locked lk = 0 \<Longrightarrow>
    lk_acquire (on i t) lk = Ret (lk1, s1) \<Longrightarrow> sleep_out s1 ch (OtherLock lk1) = Ret (ena, l, s) \<Longrightarrow>
    sys_step t (t\<lparr>kst := scheduler_back s, mode := (mode t)(i := Scan (Suc p)), kont_of := (kont_of t)(p := KSleep ena)\<rparr>)"
| exiting: "i < length (apicids (kst t)) \<Longrightarrow> mode t i = Run p \<Longrightarrow> initproc (kst t) \<noteq> Some p \<Longrightarrow> exit_out (on i t) p = Ret s \<Longrightarrow>
    sys_step t (t\<lparr>kst := scheduler_back s, mode := (mode t)(i := Scan (Suc p))\<rparr>)"
| waking: "i < length (apicids (kst t)) \<Longrightarrow> \<not> holds_lock (mode t i) \<Longrightarrow> wakeup (on i t) ch = Ret s \<Longrightarrow>
    sys_step t (t\<lparr>kst := s\<rparr>)"
| killing: "i < length (apicids (kst t)) \<Longrightarrow> mode t i = Run p \<Longrightarrow> kill (on i t) k = Ret (r, s) \<Longrightarrow>
    sys_step t (t\<lparr>kst := s\<rparr>)"
| creating: "i < length (apicids (kst t)) \<Longrightarrow> mode t i = Run p \<Longrightarrow> allocproc (on i t) = Ret (Some q, s1) \<Longrightarrow>
    fork_fills q s1 s2 \<Longrightarrow> pt_acquire s2 = Ret s3 \<Longrightarrow> pt_release (upd_proc q (\<lambda>r. r\<lparr>pstate := RUNNABLE\<rparr>) s3) = Ret s \<Longrightarrow>
    sys_step t (t\<lparr>kst := s, kont_of := (kont_of t)(q := KForkret)\<rparr>)"
| waiting: "i < length (apicids (kst t)) \<Longrightarrow> mode t i = Run p \<Longrightarrow> wait (on i t) = Ret r \<Longrightarrow> sys_step t (wait_sys i p r t)"
| waited: "i < length (apicids (kst t)) \<Longrightarrow> mode t i = Enter p \<Longrightarrow> kont_of t p = KWait ena \<Longrightarrow>
    sleep_back p ena PtableLock (on i t) = Ret (l, s) \<Longrightarrow> wait_round s p = Ret r \<Longrightarrow> sys_step t (wait_sys i p r t)"

inductive sys_reach :: "sys \<Rightarrow> sys \<Rightarrow> bool" for t0 where
  refl: "sys_reach t0 t0"
| step: "sys_reach t0 t \<Longrightarrow> sys_step t t' \<Longrightarrow> sys_reach t0 t'"

section \<open>Invariant\<close>

definition at_proc :: "cpu_mode \<Rightarrow> nat \<Rightarrow> bool" where
  "at_proc m p \<longleftrightarrow> m = Enter p \<or> m = Run p"

definition running_ok :: "proc list \<Rightarrow> (nat \<Rightarrow> cpu_mode) \<Rightarrow> bool" where
  "running_ok ps md \<longleftrightarrow>
     (\<forall>p. (\<exists>i. at_proc (md i) p) \<longleftrightarrow> p < length ps \<and> pstate (ps ! p) = RUNNING)
     \<and> (\<forall>i j p. at_proc (md i) p \<longrightarrow> at_proc (md j) p \<longrightarrow> i = j)"

definition stacks_ok :: "proc list \<Rightarrow> bool" where
  "stacks_ok ps \<longleftrightarrow> length ps = NPROC
     \<and> (\<forall>p\<in>set ps. pstate p \<in> {SLEEPING, RUNNABLE, RUNNING} \<longrightarrow> kstack p \<noteq> 0 \<and> pgdir p \<noteq> 0)"

definition lock_ok :: "proc_st \<Rightarrow> (nat \<Rightarrow> cpu_mode) \<Rightarrow> bool" where
  "lock_ok s md \<longleftrightarrow> spin_inv (cpus s, ptlock s)
     \<and> (\<forall>i. holds_lock (md i) \<longleftrightarrow> spin_owner (cpus s, ptlock s) = Some i)
     \<and> (\<forall>i p. cpu_proc s i = Some p \<longleftrightarrow> at_proc (md i) p)"

definition sys_ok :: "sys \<Rightarrow> bool" where
  "sys_ok t \<longleftrightarrow> distinct (apicids (kst t)) \<and> lock_ok (kst t) (mode t)
     \<and> running_ok (ptable (kst t)) (mode t) \<and> stacks_ok (ptable (kst t))"

section \<open>The operations under the invariant\<close>

lemma acquire_free_depth:
  assumes "cli_depth c n" "n < 10" "locked lk = 0"
  shows "acquire i cs c lk = Ret (pushcli c, lk\<lparr>locked := 1, lock_cpu := Some i, pcs := cs\<rparr>)"
proof -
  have "cli_depth (pushcli c) (Suc n)" using pushcli_depth [OF assms(1)] assms(2) by simp
  then have "holding i (pushcli c) lk = Ret (locked lk \<noteq> 0 \<and> lock_cpu lk = Some i, pushcli c)"
    using assms(2) by (intro holding_eq) auto
  then show ?thesis using assms(3) by (simp add: acquire_def xchg_def Let_def)
qed

lemma release_own_depth:
  assumes "cli_depth c (Suc n)" "n < 10" "locked lk \<noteq> 0" "lock_cpu lk = Some i"
  shows "release i c lk = Ret (c\<lparr>ncli := of_nat n, iflag := (n = 0 \<and> intena c)\<rparr>,
    lk\<lparr>pcs := (pcs lk)[0 := 0], lock_cpu := None, locked := 0\<rparr>)"
proof -
  have "holding i c lk = Ret (True, c)" using assms by (subst holding_eq [of c "Suc n"]) auto
  then show ?thesis using popcli_depth [OF assms(1)] by (simp add: release_def)
qed

definition taken :: "'a proc_st_scheme \<Rightarrow> 'a proc_st_scheme" where
  "taken s = (set_cpu (pushcli (cpus s (this_cpu s))) s)
     \<lparr>ptlock := (ptlock s)\<lparr>locked := 1, lock_cpu := Some (this_cpu s), pcs := callers s\<rparr>\<rparr>"

definition given :: "'a proc_st_scheme \<Rightarrow> 'a proc_st_scheme" where
  "given s = (set_cpu ((cpus s (this_cpu s))\<lparr>ncli := 0, iflag := intena (cpus s (this_cpu s))\<rparr>) s)
     \<lparr>ptlock := (ptlock s)\<lparr>pcs := (pcs (ptlock s))[0 := 0], lock_cpu := None, locked := 0\<rparr>\<rparr>"

abbreviation pt_inv :: "'a proc_st_scheme \<Rightarrow> bool" where
  "pt_inv s \<equiv> spin_inv (cpus s, ptlock s)"

abbreviation lock_owner :: "'a proc_st_scheme \<Rightarrow> nat option" where
  "lock_owner s \<equiv> lock_cpu (ptlock s)"

lemma taken_sel [simp]:
  "ptable (taken s) = ptable s" "cpu_proc (taken s) = cpu_proc s" "apicids (taken s) = apicids s"
  "this_cpu (taken s) = this_cpu s" "lock_owner (taken s) = Some (this_cpu s)"
  by (simp_all add: taken_def set_cpu_def)

lemma given_sel [simp]:
  "ptable (given s) = ptable s" "cpu_proc (given s) = cpu_proc s" "apicids (given s) = apicids s"
  "this_cpu (given s) = this_cpu s" "lock_owner (given s) = None"
  by (simp_all add: given_def set_cpu_def)

lemma upd_proc_sel [simp]:
  "ptable (upd_proc p f s) = (ptable s)[p := f (ptable s ! p)]" "cpu_proc (upd_proc p f s) = cpu_proc s"
  "apicids (upd_proc p f s) = apicids s" "this_cpu (upd_proc p f s) = this_cpu s"
  "cpus (upd_proc p f s) = cpus s" "ptlock (upd_proc p f s) = ptlock s"
  by (simp_all add: upd_proc_def)

lemma lock_inv_depth:
  "pt_inv s \<Longrightarrow> cli_depth (cpus s i) (if lock_owner s = Some i then 1 else 0)"
  by (auto simp: spin_inv_def spin_owner_def)

lemma pt_acquire_eq:
  assumes "pt_inv s" "lock_owner s \<noteq> Some (this_cpu s)"
  shows "pt_acquire s = (if lock_owner s = None then Ret (taken s) else Block)"
proof -
  have d: "cli_depth (cpus s (this_cpu s)) 0"
    using lock_inv_depth [OF assms(1), of "this_cpu s"] assms(2) by simp
  have l: "locked (ptlock s) \<noteq> 0 \<longleftrightarrow> lock_owner s \<noteq> None"
    using assms(1) by (simp add: spin_inv_def spin_owner_def)
  show ?thesis
    using acquire_free [OF d, of "ptlock s"] acquire_busy [OF d, of "ptlock s"] l assms(2)
    by (auto simp: pt_acquire_def taken_def)
qed

lemma lock_inv_taken:
  assumes "pt_inv s" "lock_owner s = None"
  shows "pt_inv (taken s)"
proof -
  have "cli_depth (cpus s i) 0" for i using lock_inv_depth [OF assms(1), of i] assms(2) by simp
  then show ?thesis
    using pushcli_depth by (auto simp: spin_inv_def spin_owner_def taken_def set_cpu_def)
qed

lemma pt_release_eq:
  assumes "pt_inv s" "lock_owner s = Some (this_cpu s)"
  shows "pt_release s = Ret (given s)"
proof -
  have "cli_depth (cpus s (this_cpu s)) 1" "locked (ptlock s) \<noteq> 0"
    using assms lock_inv_depth [OF assms(1), of "this_cpu s"] by (auto simp: spin_inv_def spin_owner_def)
  from release_own [OF this assms(2)] show ?thesis by (simp add: pt_release_def given_def)
qed

lemma lock_inv_given:
  assumes "pt_inv s" "lock_owner s = Some (this_cpu s)"
  shows "pt_inv (given s)"
proof -
  have "cli_depth (cpus s i) 0" if "i \<noteq> this_cpu s" for i
    using lock_inv_depth [OF assms(1), of i] assms(2) that by simp
  then show ?thesis
    by (auto simp: spin_inv_def spin_owner_def given_def set_cpu_def cli_depth_def)
qed

lemma find_apicid_nth:
  "distinct xs \<Longrightarrow> i < length xs \<Longrightarrow> find_apicid xs (xs ! i) n = Some (n + i)"
proof (induction xs arbitrary: i n)
  case Nil
  then show ?case by simp
next
  case (Cons x xs)
  then show ?case by (cases i) auto
qed

lemma myproc_locked:
  assumes "distinct (apicids s)" "this_cpu s < length (apicids s)"
    and d: "cli_depth (cpus s (this_cpu s)) n" "0 < n" "n < 10"
  shows "myproc s = Ret (cpu_proc s (this_cpu s), s)"
proof -
  have "cli_depth (pushcli (cpus s (this_cpu s))) (Suc n)" using pushcli_depth [OF d(1)] d(3) by simp
  then have "\<not> iflag (pushcli (cpus s (this_cpu s)))" by (simp add: cli_depth_def)
  then show ?thesis
    using popcli_pushcli [OF d(1)] d(2,3) find_apicid_nth [OF assms(1,2), of 0]
    by (simp add: myproc_def mycpu_def Let_def set_cpu_def)
qed

lemma sched_out_eq:
  assumes "distinct (apicids s)" "this_cpu s < length (apicids s)" "pt_inv s"
    "lock_owner s = Some (this_cpu s)" "cpu_proc s (this_cpu s) = Some p" "pstate (ptable s ! p) \<noteq> RUNNING"
  shows "sched_out s = Ret (intena (cpus s (this_cpu s)), s)"
proof -
  have d: "cli_depth (cpus s (this_cpu s)) 1" and l: "locked (ptlock s) \<noteq> 0"
    using assms lock_inv_depth [OF assms(3), of "this_cpu s"] by (auto simp: spin_inv_def spin_owner_def)
  have "holding (this_cpu s) (cpus s (this_cpu s)) (ptlock s) = Ret (True, cpus s (this_cpu s))"
    using holding_eq [OF d] l assms(4) by simp
  moreover have "ncli (cpus s (this_cpu s)) = 1" "\<not> iflag (cpus s (this_cpu s))"
    using d by (simp_all add: cli_depth_def)
  ultimately show ?thesis
    using myproc_locked [OF assms(1,2) d] assms(5,6) by (simp add: sched_out_def set_cpu_def)
qed

lemma switchuvm_eq:
  assumes "cli_depth (cpus s (this_cpu s)) n" "0 < n" "n < 10"
    and "kstack (ptable s ! p) \<noteq> 0" "pgdir (ptable s ! p) \<noteq> 0"
  shows "switchuvm s (Some p) = Ret (s\<lparr>cr3 := V2P (pgdir (ptable s ! p))\<rparr>)"
  using assms popcli_pushcli [OF assms(1)] by (simp add: switchuvm_def Let_def set_cpu_def)

section \<open>Preservation\<close>

lemma running_ok_cong:
  assumes "running_ok ps md" "length ps' = length ps"
    "\<And>p. p < length ps \<Longrightarrow> pstate (ps' ! p) = RUNNING \<longleftrightarrow> pstate (ps ! p) = RUNNING"
    "\<And>i p. at_proc (md' i) p \<longleftrightarrow> at_proc (md i) p"
  shows "running_ok ps' md'"
  using assms by (simp add: running_ok_def cong: conj_cong)

lemma running_okI:
  assumes "\<And>i p. at_proc (md i) p \<Longrightarrow> p < length ps \<and> pstate (ps ! p) = RUNNING"
    and "\<And>p. p < length ps \<Longrightarrow> pstate (ps ! p) = RUNNING \<Longrightarrow> \<exists>i. at_proc (md i) p"
    and "\<And>i j p. at_proc (md i) p \<Longrightarrow> at_proc (md j) p \<Longrightarrow> i = j"
  shows "running_ok ps md"
  unfolding running_ok_def using assms by blast

lemma running_okD:
  assumes "running_ok ps md"
  shows "at_proc (md i) p \<Longrightarrow> p < length ps \<and> pstate (ps ! p) = RUNNING"
    and "p < length ps \<Longrightarrow> pstate (ps ! p) = RUNNING \<Longrightarrow> \<exists>i. at_proc (md i) p"
    and "at_proc (md i) p \<Longrightarrow> at_proc (md j) p \<Longrightarrow> i = j"
  using assms unfolding running_ok_def by blast+

lemma at_proc_fun: "at_proc m p \<Longrightarrow> at_proc m q \<Longrightarrow> p = q"
  by (auto simp: at_proc_def)

lemma at_proc_upd_Scan: "at_proc ((md(i := Scan n)) j) r \<longleftrightarrow> j \<noteq> i \<and> at_proc (md j) r"
  by (simp add: at_proc_def)

lemma at_proc_upd_Enter: "at_proc ((md(i := Enter p)) j) r \<longleftrightarrow> (if j = i then r = p else at_proc (md j) r)"
  by (auto simp: at_proc_def)

lemma running_ok_out:
  assumes ok: "running_ok ps md" and at: "at_proc (md i) p" and q: "pstate q \<noteq> RUNNING"
  shows "running_ok (ps[p := q]) (md(i := Scan n))"
proof (rule running_okI, unfold at_proc_upd_Scan)
  fix j r assume j: "j \<noteq> i \<and> at_proc (md j) r"
  then have "r \<noteq> p" using running_okD(3) [OF ok at, of j] by blast
  then show "r < length (ps[p := q]) \<and> pstate (ps[p := q] ! r) = RUNNING"
    using running_okD(1) [OF ok, of j r] j by simp
next
  fix r assume r: "r < length (ps[p := q])" "pstate (ps[p := q] ! r) = RUNNING"
  then have "r \<noteq> p" using q by auto
  then obtain j where "at_proc (md j) r" using running_okD(2) [OF ok, of r] r by auto
  then show "\<exists>j. j \<noteq> i \<and> at_proc (md j) r" using at_proc_fun [OF at] \<open>r \<noteq> p\<close> by metis
next
  fix j k r assume "j \<noteq> i \<and> at_proc (md j) r" "k \<noteq> i \<and> at_proc (md k) r"
  then show "j = k" using running_okD(3) [OF ok] by blast
qed

lemma running_ok_in:
  assumes ok: "running_ok ps md" and i: "md i = Scan n" and p: "p < length ps" "pstate (ps ! p) \<noteq> RUNNING"
    and q: "pstate q = RUNNING"
  shows "running_ok (ps[p := q]) (md(i := Enter p))"
proof (rule running_okI, unfold at_proc_upd_Enter)
  have no: "\<not> at_proc (md j) p" for j using running_okD(1) [OF ok] p by blast
  fix j r assume j: "if j = i then r = p else at_proc (md j) r"
  then show "r < length (ps[p := q]) \<and> pstate (ps[p := q] ! r) = RUNNING"
    using running_okD(1) [OF ok] no p q by (cases "r = p") (auto split: if_splits)
  fix k assume "if k = i then r = p else at_proc (md k) r"
  then show "j = k" using j running_okD(3) [OF ok] no by (auto split: if_splits)
next
  fix r assume r: "r < length (ps[p := q])" "pstate (ps[p := q] ! r) = RUNNING"
  show "\<exists>j. if j = i then r = p else at_proc (md j) r"
  proof (cases "r = p")
    case False
    then obtain j where j: "at_proc (md j) r" using running_okD(2) [OF ok, of r] r by auto
    moreover have "j \<noteq> i" using j i by (auto simp: at_proc_def)
    ultimately show ?thesis by auto
  qed auto
qed

lemma stacks_ok_upd:
  assumes "stacks_ok ps"
    and "pstate q \<in> {SLEEPING, RUNNABLE, RUNNING} \<Longrightarrow> kstack q \<noteq> 0 \<and> pgdir q \<noteq> 0"
  shows "stacks_ok (ps[p := q])"
  using assms by (auto simp: stacks_ok_def dest!: set_update_subset_insert [THEN subsetD])

lemma stacks_okD:
  "stacks_ok ps \<Longrightarrow> p < length ps \<Longrightarrow> pstate (ps ! p) \<in> {SLEEPING, RUNNABLE, RUNNING} \<Longrightarrow>
   kstack (ps ! p) \<noteq> 0 \<and> pgdir (ps ! p) \<noteq> 0"
  using nth_mem [of p ps] by (auto simp: stacks_ok_def)

lemma lock_ok_move:
  assumes "lock_ok s md" "pt_inv s'" "lock_owner s' = (if holds_lock m then Some i else None)"
    "lock_owner s = None \<or> lock_owner s = Some i"
    "\<And>j. j \<noteq> i \<Longrightarrow> cpu_proc s' j = cpu_proc s j" "\<And>p. cpu_proc s' i = Some p \<longleftrightarrow> at_proc m p"
  shows "lock_ok s' (md(i := m))"
  using assms by (auto simp: lock_ok_def spin_owner_def)

lemma on_sel [simp]:
  "this_cpu (on i t) = i" "ptable (on i t) = ptable (kst t)" "cpu_proc (on i t) = cpu_proc (kst t)"
  "apicids (on i t) = apicids (kst t)" "cpus (on i t) = cpus (kst t)" "ptlock (on i t) = ptlock (kst t)"
  by (simp_all add: on_def)

lemma scheduler_back_sel [simp]:
  "ptable (scheduler_back s) = ptable s" "apicids (scheduler_back s) = apicids s"
  "cpus (scheduler_back s) = cpus s" "ptlock (scheduler_back s) = ptlock s"
  "cpu_proc (scheduler_back s) = (cpu_proc s)(this_cpu s := None)"
  by (simp_all add: scheduler_back_def switchkvm_def Let_def)

lemma sys_ok_lock:
  assumes "sys_ok t"
  shows "pt_inv (kst t)" "lock_owner (kst t) = Some i \<longleftrightarrow> holds_lock (mode t i)"
    "cpu_proc (kst t) i = Some p \<longleftrightarrow> at_proc (mode t i) p"
  using assms by (auto simp: sys_ok_def lock_ok_def spin_owner_def)

lemma nth_upd: "xs[p := y] ! q = (if q = p \<and> p < length xs then y else xs ! q)"
  by (cases "p < length xs") (auto simp: nth_list_update list_update_beyond)

text \<open>A process that is switched out, in whatever new state, leaves the invariant intact.\<close>

lemma sys_ok_leave:
  assumes ok: "sys_ok t" and at: "at_proc (mode t i) p" and own: "lock_owner (kst t) = None \<or> lock_owner (kst t) = Some i"
    and s: "apicids s = apicids (kst t)" "cpu_proc s = cpu_proc (kst t)" "this_cpu s = i" "pt_inv s" "lock_owner s = Some i"
    and ps: "stacks_ok (ptable s)"
      "\<And>q. q < NPROC \<Longrightarrow> pstate (ptable s ! q) = RUNNING \<longleftrightarrow> q \<noteq> p \<and> pstate (ptable (kst t) ! q) = RUNNING"
  shows "sys_ok (t\<lparr>kst := scheduler_back s, mode := (mode t)(i := Scan n), kont_of := k\<rparr>)"
proof -
  have l: "length (ptable s) = NPROC" "length (ptable (kst t)) = NPROC"
    using ok ps(1) by (simp_all add: sys_ok_def stacks_ok_def)
  let ?q = "(ptable (kst t) ! p)\<lparr>pstate := ZOMBIE\<rparr>"
  have "running_ok ((ptable (kst t))[p := ?q]) ((mode t)(i := Scan n))"
    using ok at by (intro running_ok_out) (simp_all add: sys_ok_def)
  then have "running_ok (ptable s) ((mode t)(i := Scan n))"
    by (rule running_ok_cong) (use l ps(2) in \<open>auto simp: nth_upd\<close>)
  moreover have "lock_ok (scheduler_back s) ((mode t)(i := Scan n))"
    using ok own s by (intro lock_ok_move [of "kst t"]) (simp_all add: sys_ok_def at_proc_def holds_lock_def)
  ultimately show ?thesis using ok ps(1) s(1) by (simp add: sys_ok_def)
qed

lemma sys_ok_out:
  assumes ok: "sys_ok t" and i: "mode t i = Run p" and own: "lock_owner (kst t) = None"
    and f: "pstate (f (ptable (kst t) ! p)) \<noteq> RUNNING" "kstack (f (ptable (kst t) ! p)) = kstack (ptable (kst t) ! p)"
      "pgdir (f (ptable (kst t) ! p)) = pgdir (ptable (kst t) ! p)"
  shows "sys_ok (t\<lparr>kst := scheduler_back (upd_proc p f (taken (on i t))), mode := (mode t)(i := Scan n), kont_of := k\<rparr>)"
proof -
  have at: "at_proc (mode t i) p" using i by (simp add: at_proc_def)
  then have p: "p < length (ptable (kst t))" "pstate (ptable (kst t) ! p) = RUNNING"
    using ok unfolding sys_ok_def running_ok_def by blast+
  then have "kstack (ptable (kst t) ! p) \<noteq> 0" "pgdir (ptable (kst t) ! p) \<noteq> 0"
    using ok by (auto simp: sys_ok_def stacks_ok_def)
  then have st: "stacks_ok ((ptable (kst t))[p := f (ptable (kst t) ! p)])"
    using ok f by (intro stacks_ok_upd) (simp_all add: sys_ok_def)
  have "pt_inv (taken (on i t))"
    using lock_inv_taken [of "on i t"] sys_ok_lock(1) [OF ok] own by simp
  then show ?thesis
    by (intro sys_ok_leave [OF ok at]) (use own st f p in \<open>auto simp: nth_upd\<close>)
qed

text \<open>A step that keeps which process runs where.\<close>

lemma sys_ok_same:
  assumes ok: "sys_ok t" and s: "apicids s = apicids (kst t)" "cpu_proc s = cpu_proc (kst t)" "pt_inv s"
      "lock_owner s = (if holds_lock m then Some i else None)"
    and own: "lock_owner (kst t) = None \<or> lock_owner (kst t) = Some i"
    and m: "\<And>p. at_proc m p \<longleftrightarrow> at_proc (mode t i) p"
    and ps: "stacks_ok (ptable s)"
      "\<And>p. p < NPROC \<Longrightarrow> pstate (ptable s ! p) = RUNNING \<longleftrightarrow> pstate (ptable (kst t) ! p) = RUNNING"
  shows "sys_ok (t\<lparr>kst := s, mode := (mode t)(i := m), kont_of := k\<rparr>)"
proof -
  have l: "length (ptable s) = length (ptable (kst t))" "length (ptable (kst t)) = NPROC"
    using ok ps(1) by (simp_all add: sys_ok_def stacks_ok_def)
  have "running_ok (ptable s) ((mode t)(i := m))"
  proof (rule running_ok_cong [of "ptable (kst t)" "mode t"])
    fix j p show "at_proc (((mode t)(i := m)) j) p \<longleftrightarrow> at_proc (mode t j) p" using m by simp
  qed (use ok l ps(2) in \<open>simp_all add: sys_ok_def\<close>)
  moreover have "lock_ok s ((mode t)(i := m))"
    using ok s own m sys_ok_lock(3) [OF ok, of i] by (intro lock_ok_move [of "kst t"]) (simp_all add: sys_ok_def)
  ultimately show ?thesis using ok s(1) ps(1) by (simp add: sys_ok_def)
qed

text \<open>The processes' own operations, up to the switch.\<close>

lemma yield_out_eq:
  assumes "distinct (apicids s)" "this_cpu s < length (apicids s)" "pt_inv s" "lock_owner s = None"
    "cpu_proc s (this_cpu s) = Some p" "p < length (ptable s)"
  shows "yield_out s = Ret (intena (cpus (taken s) (this_cpu s)), upd_proc p (\<lambda>q. q\<lparr>pstate := RUNNABLE\<rparr>) (taken s))"
proof -
  note inv = lock_inv_taken [OF assms(3,4)]
  have "cli_depth (cpus (taken s) (this_cpu s)) 1" using lock_inv_depth [OF inv, of "this_cpu s"] by simp
  then have "myproc (taken s) = Ret (Some p, taken s)"
    using myproc_locked [of "taken s" 1] assms by simp
  moreover have "sched_out (upd_proc p (\<lambda>q. q\<lparr>pstate := RUNNABLE\<rparr>) (taken s)) =
      Ret (intena (cpus (taken s) (this_cpu s)), upd_proc p (\<lambda>q. q\<lparr>pstate := RUNNABLE\<rparr>) (taken s))"
    using sched_out_eq [of "upd_proc p (\<lambda>q. q\<lparr>pstate := RUNNABLE\<rparr>) (taken s)" p] assms inv by simp
  ultimately show ?thesis using pt_acquire_eq [OF assms(3)] assms(4) by (simp add: yield_out_def)
qed

lemma sleep_out_eq:
  assumes "distinct (apicids s)" "this_cpu s < length (apicids s)" "pt_inv s" "lock_owner s = None"
    "cpu_proc s (this_cpu s) = Some p" "p < length (ptable s)"
    and lk: "locked lk = 0" "lk_acquire s lk = Ret (lk1, s1)"
  shows "\<exists>l. locked l = 0 \<and> sleep_out s1 ch (OtherLock lk1) = Ret (intena (cpus (taken s) (this_cpu s)), OtherLock l,
     upd_proc p (\<lambda>q. q\<lparr>chan := ch, pstate := SLEEPING\<rparr>) (taken s))"
proof -
  let ?i = "this_cpu s" and ?c = "pushcli (cpus s (this_cpu s))"
  have d0: "cli_depth (cpus s ?i) 0" using lock_inv_depth [OF assms(3), of ?i] assms(4) by simp
  then have d1: "cli_depth ?c 1" using pushcli_depth by fastforce
  then have d2: "cli_depth (pushcli ?c) (Suc 1)" using pushcli_depth by fastforce
  have s1: "s1 = set_cpu ?c s" and lk1: "locked lk1 \<noteq> 0" "lock_cpu lk1 = Some ?i"
    using lk acquire_free_depth [OF d0 _ lk(1)] by (auto simp: lk_acquire_def)
  have "locked (ptlock s) = 0" using assms(3,4) by (auto simp: spin_inv_def spin_owner_def)
  then have a: "pt_acquire s1 = Ret (set_cpu (pushcli ?c) s\<lparr>ptlock := ptlock (taken s)\<rparr>)"
    using acquire_free_depth [OF d1, of "ptlock s"] by (simp add: pt_acquire_def s1 set_cpu_def taken_def)
  have "(pushcli ?c)\<lparr>ncli := of_nat 1, iflag := (1 = (0::nat) \<and> intena (pushcli ?c))\<rparr> = ?c"
    using d1 by (auto simp: pushcli_def cli_depth_def Let_def)
  then have "\<exists>l. locked l = 0 \<and> lk_release (set_cpu (pushcli ?c) s\<lparr>ptlock := ptlock (taken s)\<rparr>) lk1 = Ret (l, taken s)"
    using release_own_depth [OF d2 _ lk1] by (simp add: lk_release_def set_cpu_def taken_def)
  moreover have "myproc s1 = Ret (Some p, s1)"
    using myproc_locked [of s1 1] assms(1,2,5) d1 by (simp add: s1 set_cpu_def)
  moreover have "sched_out (upd_proc p (\<lambda>q. q\<lparr>chan := ch, pstate := SLEEPING\<rparr>) (taken s)) =
      Ret (intena (cpus (taken s) ?i), upd_proc p (\<lambda>q. q\<lparr>chan := ch, pstate := SLEEPING\<rparr>) (taken s))"
    using sched_out_eq [of "upd_proc p (\<lambda>q. q\<lparr>chan := ch, pstate := SLEEPING\<rparr>) (taken s)" p] assms
      lock_inv_taken [OF assms(3,4)] by simp
  ultimately show ?thesis using a by (auto simp: sleep_out_def)
qed

lemma sys_ok_on:
  assumes "sys_ok t" "i < length (apicids (kst t))" "mode t i = Run p"
  shows "distinct (apicids (on i t))" "this_cpu (on i t) < length (apicids (on i t))" "pt_inv (on i t)"
    "cpu_proc (on i t) (this_cpu (on i t)) = Some p" "p < length (ptable (on i t))"
    "lock_owner (on i t) \<noteq> Some (this_cpu (on i t))"
proof -
  have at: "at_proc (mode t i) p" using assms(3) by (simp add: at_proc_def)
  then show "cpu_proc (on i t) (this_cpu (on i t)) = Some p" using sys_ok_lock(3) [OF assms(1)] by simp
  show "p < length (ptable (on i t))"
    using at running_okD(1) [of "ptable (kst t)" "mode t" i p] assms(1) by (simp add: sys_ok_def)
  show "lock_owner (on i t) \<noteq> Some (this_cpu (on i t))"
    using sys_ok_lock(2) [OF assms(1), of i] assms(3) by (simp add: holds_lock_def)
qed (use assms sys_ok_lock(1) [OF assms(1)] in \<open>simp_all add: sys_ok_def\<close>)

lemma pt_acquire_Ret:
  "pt_inv s \<Longrightarrow> lock_owner s \<noteq> Some (this_cpu s) \<Longrightarrow> pt_acquire s = Ret s' \<Longrightarrow>
   lock_owner s = None \<and> s' = taken s"
  by (simp add: pt_acquire_eq split: if_splits)

lemma step_yield:
  assumes "sys_ok t" "i < length (apicids (kst t))" "mode t i = Run p" "yield_out (on i t) = Ret (ena, s)"
  shows "sys_ok (t\<lparr>kst := scheduler_back s, mode := (mode t)(i := Scan (Suc p)), kont_of := k\<rparr>)"
proof -
  note o = sys_ok_on [OF assms(1-3)]
  have own: "lock_owner (on i t) = None"
    using assms(4) pt_acquire_Ret [OF o(3,6)] by (auto simp: yield_out_def)
  then have "s = upd_proc p (\<lambda>q. q\<lparr>pstate := RUNNABLE\<rparr>) (taken (on i t))"
    using yield_out_eq [OF o(1-3) _ o(4,5)] assms(4) by simp
  then show ?thesis using sys_ok_out [OF assms(1,3)] own by simp
qed

lemma sleep_out_busy:
  assumes "sys_ok t" "i < length (apicids (kst t))" "mode t i = Run p" "lock_owner (kst t) \<noteq> None"
  shows "sleep_out (set_cpu (pushcli (cpus (kst t) i)) (on i t)) ch (OtherLock lk) = Block"
proof -
  let ?s = "set_cpu (pushcli (cpus (kst t) i)) (on i t)"
  note o = sys_ok_on [OF assms(1-3)]
  have d: "cli_depth (cpus (on i t) i) 0" using lock_inv_depth [OF o(3), of i] o(6) by simp
  have l: "locked (ptlock (kst t)) \<noteq> 0" "lock_owner (kst t) \<noteq> Some i"
    using o(3,6) assms(4) by (auto simp: spin_inv_def spin_owner_def)
  have d1: "cli_depth (pushcli (cpus (kst t) i)) 1" using pushcli_depth [OF d] by simp
  then have "pt_acquire ?s = Block"
    using acquire_busy [OF d1 _ l(1), of i] l(2) by (simp add: pt_acquire_def set_cpu_def)
  moreover have "myproc ?s = Ret (Some p, ?s)"
    using myproc_locked [of ?s 1] o(1,2,4) d1 by (simp add: set_cpu_def)
  ultimately show ?thesis by (simp add: sleep_out_def)
qed

lemma sleep_out_step:
  assumes "sys_ok t" "i < length (apicids (kst t))" "mode t i = Run p" "locked lk = 0"
    "lk_acquire (on i t) lk = Ret (lk1, s1)" "sleep_out s1 ch (OtherLock lk1) = Ret (ena, l, s)"
  shows "lock_owner (on i t) = None" "s = upd_proc p (\<lambda>q. q\<lparr>chan := ch, pstate := SLEEPING\<rparr>) (taken (on i t))"
proof -
  note o = sys_ok_on [OF assms(1-3)]
  have d: "cli_depth (cpus (on i t) i) 0" using lock_inv_depth [OF o(3), of i] o(6) by simp
  have s1: "s1 = set_cpu (pushcli (cpus (kst t) i)) (on i t)"
    using assms(4,5) acquire_free_depth [OF d _ assms(4)] by (auto simp: lk_acquire_def)
  show own: "lock_owner (on i t) = None"
    using sleep_out_busy [OF assms(1-3), of ch lk1] assms(6) by (cases "lock_owner (kst t)") (auto simp: s1)
  then show "s = upd_proc p (\<lambda>q. q\<lparr>chan := ch, pstate := SLEEPING\<rparr>) (taken (on i t))"
    using sleep_out_eq [OF o(1-3) _ o(4,5) assms(4,5), of ch] assms(6) by auto
qed

lemma step_sleep:
  assumes "sys_ok t" "i < length (apicids (kst t))" "mode t i = Run p" "locked lk = 0"
    "lk_acquire (on i t) lk = Ret (lk1, s1)" "sleep_out s1 ch (OtherLock lk1) = Ret (ena, l, s)"
  shows "sys_ok (t\<lparr>kst := scheduler_back s, mode := (mode t)(i := Scan (Suc p)), kont_of := k\<rparr>)"
  using sleep_out_step [OF assms] sys_ok_out [OF assms(1,3)] by simp

lemma keptD:
  assumes "kept s s'"
  shows "ptlock s' = ptlock s" "cpus s' = cpus s" "apicids s' = apicids s" "this_cpu s' = this_cpu s" "cpu_proc s' = cpu_proc s"
    "length (ptable s') = length (ptable s)" "q < length (ptable s) \<Longrightarrow> kept_proc (ptable s ! q) (ptable s' ! q)"
  using assms by (simp_all add: kept_def same_cpus_def list_all2_conv_all_nth)

lemma stacks_ok_kept: "stacks_ok ps \<Longrightarrow> list_all2 kept_proc ps ps' \<Longrightarrow> stacks_ok ps'"
  by (fastforce simp: stacks_ok_def list_all2_conv_all_nth kept_proc_def all_set_conv_all_nth)

text \<open>The end of \<^verbatim>\<open>exit()\<close> fails only where the freeing of its memory does.\<close>

lemma exit_out_eq:
  assumes "distinct (apicids s)" "this_cpu s < length (apicids s)" "pt_inv s" "lock_owner s = None"
    "cpu_proc s (this_cpu s) = Some p" "p < length (ptable s)"
  shows "exit_out s p = bind_res (exit_free (exit_family (taken s) p) p) (\<lambda>s2. Ret (upd_proc p (\<lambda>q. q\<lparr>pstate := ZOMBIE\<rparr>) s2))"
proof (cases "exit_free (exit_family (taken s) p) p")
  case (Ret s2)
  note k = keptD [OF kept_trans [OF kept_exit_family kept_exit_free [OF Ret]]]
  have "sched_out (upd_proc p (\<lambda>q. q\<lparr>pstate := ZOMBIE\<rparr>) s2) =
      Ret (intena (cpus s2 (this_cpu s)), upd_proc p (\<lambda>q. q\<lparr>pstate := ZOMBIE\<rparr>) s2)"
    using sched_out_eq [of "upd_proc p (\<lambda>q. q\<lparr>pstate := ZOMBIE\<rparr>) s2" p] assms k(1-6) lock_inv_taken [OF assms(3,4)] by simp
  then show ?thesis using pt_acquire_eq [OF assms(3)] assms(4) Ret by (simp add: exit_out_def)
qed (use pt_acquire_eq [OF assms(3)] assms(4) in \<open>simp_all add: exit_out_def\<close>)

lemma exit_out_step:
  assumes "sys_ok t" "i < length (apicids (kst t))" "mode t i = Run p" "exit_out (on i t) p = Ret s"
  shows "lock_owner (on i t) = None" "\<exists>s2. kept (taken (on i t)) s2 \<and> s = upd_proc p (\<lambda>q. q\<lparr>pstate := ZOMBIE\<rparr>) s2"
proof -
  note o = sys_ok_on [OF assms(1-3)]
  show own: "lock_owner (on i t) = None" using assms(4) pt_acquire_Ret [OF o(3,6)] by (auto simp: exit_out_def)
  obtain s2 where "exit_free (exit_family (taken (on i t)) p) p = Ret s2" "s = upd_proc p (\<lambda>q. q\<lparr>pstate := ZOMBIE\<rparr>) s2"
    using assms(4) unfolding exit_out_eq [OF o(1-3) own o(4,5)] bind_res_eq_Ret by auto
  then show "\<exists>s2. kept (taken (on i t)) s2 \<and> s = upd_proc p (\<lambda>q. q\<lparr>pstate := ZOMBIE\<rparr>) s2"
    using kept_trans [OF kept_exit_family kept_exit_free] by blast
qed

lemma step_exit:
  assumes "sys_ok t" "i < length (apicids (kst t))" "mode t i = Run p" "exit_out (on i t) p = Ret s"
  shows "sys_ok (t\<lparr>kst := scheduler_back s, mode := (mode t)(i := Scan (Suc p)), kont_of := k\<rparr>)"
proof -
  note o = sys_ok_on [OF assms(1-3)]
  obtain s2 where own: "lock_owner (on i t) = None" and k2: "kept (taken (on i t)) s2"
    and s: "s = upd_proc p (\<lambda>q. q\<lparr>pstate := ZOMBIE\<rparr>) s2" using exit_out_step [OF assms] by blast
  note k = keptD [OF k2]
  have at: "at_proc (mode t i) p" using assms(3) by (simp add: at_proc_def)
  have st: "stacks_ok (ptable (kst t))" using assms(1) by (simp add: sys_ok_def)
  then have st2: "stacks_ok (ptable s2)" using stacks_ok_kept k2 unfolding kept_def by fastforce
  have "pstate (ptable s ! q) = RUNNING \<longleftrightarrow> q \<noteq> p \<and> pstate (ptable (kst t) ! q) = RUNNING" if "q < NPROC" for q
    using k(6) k(7) [of q] st o(5) that by (auto simp: s nth_upd stacks_ok_def kept_proc_def)
  moreover have "stacks_ok (ptable s)"
    using stacks_ok_upd [OF st2, of "(ptable s2 ! p)\<lparr>pstate := ZOMBIE\<rparr>" p] by (simp add: s)
  moreover have "pt_inv s2" using lock_inv_taken [OF o(3) own] k(1,2) by simp
  ultimately show ?thesis
    by (intro sys_ok_leave [OF assms(1) at]) (use own k in \<open>simp_all add: s\<close>)
qed

text \<open>A round of \<^verbatim>\<open>wait()\<close> fails only where the freeing of the child's memory does.\<close>

definition reaped :: "proc \<Rightarrow> proc" where
  "reaped q = q\<lparr>pid := 0, parent := None, pname := (pname q)[0 := 0], killed := 0, pstate := UNUSED\<rparr>"

lemma wait_round_eq:
  assumes "distinct (apicids s)" "this_cpu s < length (apicids s)" "pt_inv s" "lock_owner s = Some (this_cpu s)"
    "cpu_proc s (this_cpu s) = Some p" "p < length (ptable s)"
  shows "wait_round s p = (case find_zombie (ptable s) p 0 of
      Some q \<Rightarrow> bind_res (reap_free s q) (\<lambda>s2. Ret (Reaped (pid (ptable s ! q)) (given (upd_proc q reaped s2))))
    | None \<Rightarrow> Ret (if \<not> havekids (ptable s) p \<or> killed (ptable s ! p) \<noteq> 0 then NoChild (given s)
        else Sleeping (intena (cpus s (this_cpu s))) (upd_proc p (\<lambda>q. q\<lparr>chan := ProcChan p, pstate := SLEEPING\<rparr>) s)))"
proof (cases "find_zombie (ptable s) p 0")
  case None
  have "cli_depth (cpus s (this_cpu s)) 1" using lock_inv_depth [OF assms(3), of "this_cpu s"] assms(4) by simp
  then have m: "myproc s = Ret (Some p, s)" using myproc_locked [OF assms(1,2), of 1] assms(5) by simp
  have "sched_out (upd_proc p (\<lambda>q. q\<lparr>chan := ProcChan p, pstate := SLEEPING\<rparr>) s) =
      Ret (intena (cpus s (this_cpu s)), upd_proc p (\<lambda>q. q\<lparr>chan := ProcChan p, pstate := SLEEPING\<rparr>) s)"
    using sched_out_eq [of "upd_proc p (\<lambda>q. q\<lparr>chan := ProcChan p, pstate := SLEEPING\<rparr>) s" p] assms by simp
  then show ?thesis using None m pt_release_eq [OF assms(3,4)] by (simp add: wait_round_def sleep_out_def)
next
  case (Some q)
  show ?thesis
  proof (cases "reap_free s q")
    case (Ret s2)
    note f = reap_free_frame [OF Ret]
    have "pt_release (upd_proc q reaped s2) = Ret (given (upd_proc q reaped s2))"
      using f(1) assms(3,4) by (intro pt_release_eq) (simp_all add: same_cpus_def)
    then show ?thesis using Some Ret by (simp add: wait_round_def Let_def reaped_def [abs_def])
  qed (use Some in \<open>simp_all add: wait_round_def\<close>)
qed

text \<open>A critical section of a running process that starts and stops no process.\<close>

lemma sys_ok_section:
  assumes ok: "sys_ok t" and i: "\<not> holds_lock (mode t i)" and own: "lock_owner (kst t) = None"
    and s: "apicids s = apicids (kst t)" "cpu_proc s = cpu_proc (kst t)" "this_cpu s = i"
      "cpus s = cpus (taken (on i t))" "ptlock s = ptlock (taken (on i t))"
    and ps: "stacks_ok (ptable s)"
      "\<And>p. p < NPROC \<Longrightarrow> pstate (ptable s ! p) = RUNNING \<longleftrightarrow> pstate (ptable (kst t) ! p) = RUNNING"
  shows "pt_release s = Ret (given s)" "sys_ok (t\<lparr>kst := given s, kont_of := k\<rparr>)"
proof -
  have inv: "pt_inv s"
    using lock_inv_taken [of "on i t"] sys_ok_lock(1) [OF ok] own s by simp
  then show "pt_release s = Ret (given s)" using s by (intro pt_release_eq) simp_all
  have "sys_ok (t\<lparr>kst := given s, mode := (mode t)(i := mode t i), kont_of := k\<rparr>)"
    using lock_inv_given [OF inv] s ps i own
    by (intro sys_ok_same [OF ok]) simp_all
  then show "sys_ok (t\<lparr>kst := given s, kont_of := k\<rparr>)" by simp
qed

text \<open>A CPU that does not hold the lock gets it exactly when it is free.\<close>

lemma free_acquire:
  assumes "sys_ok t" "\<not> holds_lock (mode t i)"
  shows "pt_acquire (on i t) = (if lock_owner (kst t) = None then Ret (taken (on i t)) else Block)"
  using pt_acquire_eq [of "on i t"] sys_ok_lock(1) [OF assms(1)] sys_ok_lock(2) [OF assms(1), of i] assms(2) by simp

lemma wake_proc_sel [simp]:
  "pstate (wake_proc ch p) = RUNNING \<longleftrightarrow> pstate p = RUNNING" "kstack (wake_proc ch p) = kstack p"
  "pgdir (wake_proc ch p) = pgdir p"
  "pstate (wake_proc ch p) \<in> {SLEEPING, RUNNABLE, RUNNING} \<longleftrightarrow> pstate p \<in> {SLEEPING, RUNNABLE, RUNNING}"
  by (auto simp: wake_proc_def)

lemma step_wakeup:
  assumes "sys_ok t" "\<not> holds_lock (mode t i)"
  shows "wakeup (on i t) ch = (if lock_owner (kst t) = None then Ret (given (wakeup1 ch (taken (on i t)))) else Block)"
    and "wakeup (on i t) ch = Ret s \<Longrightarrow> sys_ok (t\<lparr>kst := s\<rparr>)"
proof -
  have "stacks_ok (ptable (wakeup1 ch (taken (on i t))))"
    using assms(1) by (auto simp: sys_ok_def stacks_ok_def wakeup1_def simp del: insert_iff)
  moreover have "pstate (ptable (wakeup1 ch (taken (on i t))) ! q) = RUNNING \<longleftrightarrow> pstate (ptable (kst t) ! q) = RUNNING"
    if "q < NPROC" for q using assms(1) that by (simp add: sys_ok_def stacks_ok_def wakeup1_def)
  ultimately have s: "pt_release (wakeup1 ch (taken (on i t))) = Ret (given (wakeup1 ch (taken (on i t))))"
    "sys_ok (t\<lparr>kst := given (wakeup1 ch (taken (on i t)))\<rparr>)" if "lock_owner (kst t) = None"
    using sys_ok_section(1) [OF assms that, of "wakeup1 ch (taken (on i t))"]
      sys_ok_section(2) [OF assms that, of "wakeup1 ch (taken (on i t))" "kont_of t"] by (simp_all add: wakeup1_def)
  show w: "wakeup (on i t) ch = (if lock_owner (kst t) = None then Ret (given (wakeup1 ch (taken (on i t)))) else Block)"
    using s(1) by (simp add: wakeup_def free_acquire [OF assms])
  show "wakeup (on i t) ch = Ret s \<Longrightarrow> sys_ok (t\<lparr>kst := s\<rparr>)"
    using s(2) by (auto simp: w split: if_splits)
qed

lemma find_pid_Some: "find_pid ps k n = Some j \<Longrightarrow> n \<le> j \<and> j < n + length ps \<and> pid (ps ! (j - n)) = k"
proof (induction ps arbitrary: n)
  case (Cons p ps)
  then show ?case by (auto simp: nth_Cons' split: if_splits dest!: Cons.IH)
qed simp

lemma step_kill:
  assumes "sys_ok t" "\<not> holds_lock (mode t i)"
  shows "if lock_owner (kst t) = None then \<exists>r s. kill (on i t) k = Ret (r, s) \<and> sys_ok (t\<lparr>kst := s\<rparr>) else kill (on i t) k = Block"
proof (cases "lock_owner (kst t) = None")
  case own: True
  let ?s = "taken (on i t)"
  have st: "stacks_ok (ptable (kst t))" using assms(1) by (simp add: sys_ok_def)
  have a: "pt_acquire (on i t) = Ret ?s" using free_acquire [OF assms] own by simp
  show ?thesis
  proof (cases "find_pid (ptable (kst t)) k 0")
    case None
    then show ?thesis
      using sys_ok_section(1) [OF assms own, of ?s] sys_ok_section(2) [OF assms own, of ?s "kont_of t"] st a own
      by (auto simp: kill_def)
  next
    case (Some j)
    then have j: "j < length (ptable (kst t))" using find_pid_Some by fastforce
    define f :: "proc \<Rightarrow> proc" where "f = (\<lambda>q. if pstate q = SLEEPING then q\<lparr>killed := 1, pstate := RUNNABLE\<rparr> else q\<lparr>killed := 1\<rparr>)"
    have "kill (on i t) k = bind_res (pt_release (upd_proc j f ?s)) (\<lambda>s. Ret (0, s))"
      using a Some j by (auto simp: kill_def Let_def upd_proc_def f_def split: if_splits)
    moreover have "stacks_ok (ptable (upd_proc j f ?s))"
      using stacks_ok_upd [OF st, of "f (ptable (kst t) ! j)" j] stacks_okD [OF st j] by (auto simp: f_def)
    moreover have "pstate (ptable (upd_proc j f ?s) ! q) = RUNNING \<longleftrightarrow> pstate (ptable (kst t) ! q) = RUNNING" for q
      using j by (cases "q = j") (simp_all add: f_def)
    ultimately show ?thesis
      using sys_ok_section(1) [OF assms own, of "upd_proc j f ?s"]
      sys_ok_section(2) [OF assms own, of "upd_proc j f ?s" "kont_of t"] own by simp
  qed
next
  case False
  then have "pt_acquire (on i t) = Block" using free_acquire [OF assms] by simp
  then show ?thesis using False by (simp add: kill_def)
qed

lemma step_start:
  assumes "sys_ok t" "mode t i = Idle" "scheduler_start (on i t) = Ret s"
  shows "sys_ok (t\<lparr>kst := s, mode := (mode t)(i := Scan 0)\<rparr>)"
proof -
  define s0 where "s0 = set_cpu ((cpus (kst t) i)\<lparr>iflag := True\<rparr>) (on i t)"
  have nh: "lock_owner (kst t) \<noteq> Some i" using sys_ok_lock(2) [OF assms(1), of i] assms(2) by (simp add: holds_lock_def)
  have inv: "pt_inv s0"
    using sys_ok_lock(1) [OF assms(1)] nh by (auto simp: s0_def set_cpu_def spin_inv_def spin_owner_def cli_depth_def)
  have sel: "this_cpu s0 = i" "ptlock s0 = ptlock (kst t)" "apicids s0 = apicids (kst t)"
    "cpu_proc s0 = cpu_proc (kst t)" "ptable s0 = ptable (kst t)" by (simp_all add: s0_def set_cpu_def)
  have own: "lock_owner (kst t) = None" and s: "s = taken s0"
    using assms(3) pt_acquire_Ret [OF inv, of s] nh sel by (simp_all add: scheduler_start_def s0_def)
  have "stacks_ok (ptable (kst t))" using assms(1) by (simp add: sys_ok_def)
  then show ?thesis
    using sys_ok_same [OF assms(1), of s "Scan 0" i "kont_of t"] lock_inv_taken [OF inv] own sel assms(2)
    by (simp add: s holds_lock_def at_proc_def)
qed

lemma find_runnable_Some:
  "find_runnable ps n = Some j \<Longrightarrow> n \<le> j \<and> j < n + length ps \<and> pstate (ps ! (j - n)) = RUNNABLE"
proof (induction ps arbitrary: n)
  case (Cons p ps)
  then show ?case by (auto simp: nth_Cons' split: if_splits dest!: Cons.IH)
qed simp

lemma scan_depth:
  assumes "sys_ok t" "holds_lock (mode t i)"
  shows "pt_inv (on i t)" "lock_owner (on i t) = Some i" "cli_depth (cpus (on i t) i) 1"
  using sys_ok_lock(1) [OF assms(1)] sys_ok_lock(2) [OF assms(1), of i] assms(2)
    lock_inv_depth [of "on i t" i] by simp_all

lemma scheduler_next_pick:
  assumes ok: "sys_ok t" and m: "mode t i = Scan n" and f: "find_runnable (drop n (ptable (kst t))) n = Some p"
  shows "p < length (ptable (kst t))" "pstate (ptable (kst t) ! p) = RUNNABLE"
    "scheduler_next n (on i t) = Ret (Some p, upd_proc p (\<lambda>q. q\<lparr>pstate := RUNNING\<rparr>)
       ((on i t)\<lparr>cpu_proc := (cpu_proc (kst t))(i := Some p), cr3 := V2P (pgdir (ptable (kst t) ! p))\<rparr>))"
proof -
  show p: "p < length (ptable (kst t))" "pstate (ptable (kst t) ! p) = RUNNABLE"
    using find_runnable_Some [OF f] by auto
  have h: "holds_lock (mode t i)" using m by (simp add: holds_lock_def)
  have "kstack (ptable (kst t) ! p) \<noteq> 0 \<and> pgdir (ptable (kst t) ! p) \<noteq> 0"
    using ok p by (intro stacks_okD) (simp_all add: sys_ok_def)
  then show "scheduler_next n (on i t) = Ret (Some p, upd_proc p (\<lambda>q. q\<lparr>pstate := RUNNING\<rparr>)
       ((on i t)\<lparr>cpu_proc := (cpu_proc (kst t))(i := Some p), cr3 := V2P (pgdir (ptable (kst t) ! p))\<rparr>))"
    using f scan_depth(3) [OF ok h] switchuvm_eq [of "(on i t)\<lparr>cpu_proc := (cpu_proc (kst t))(i := Some p)\<rparr>" 1 p]
    by (simp add: scheduler_next_def Let_def)
qed

lemma step_pick:
  assumes ok: "sys_ok t" and m: "mode t i = Scan n" and e: "scheduler_next n (on i t) = Ret (Some p, s)"
  shows "sys_ok (t\<lparr>kst := s, mode := (mode t)(i := Enter p)\<rparr>)"
proof -
  have h: "holds_lock (mode t i)" using m by (simp add: holds_lock_def)
  have f: "find_runnable (drop n (ptable (kst t))) n = Some p"
    using e by (auto simp: scheduler_next_def Let_def split: option.splits)
  note p = scheduler_next_pick [OF ok m f]
  have s: "s = upd_proc p (\<lambda>q. q\<lparr>pstate := RUNNING\<rparr>)
       ((on i t)\<lparr>cpu_proc := (cpu_proc (kst t))(i := Some p), cr3 := V2P (pgdir (ptable (kst t) ! p))\<rparr>)"
    using e p(3) by simp
  have "kstack (ptable (kst t) ! p) \<noteq> 0 \<and> pgdir (ptable (kst t) ! p) \<noteq> 0"
    using ok p(1,2) by (intro stacks_okD) (simp_all add: sys_ok_def)
  then have "stacks_ok (ptable s)"
    using ok stacks_ok_upd [of "ptable (kst t)" "(ptable (kst t) ! p)\<lparr>pstate := RUNNING\<rparr>" p] by (simp add: s sys_ok_def)
  moreover have "running_ok (ptable s) ((mode t)(i := Enter p))"
    using ok p m running_ok_in [of "ptable (kst t)" "mode t" i n p "(ptable (kst t) ! p)\<lparr>pstate := RUNNING\<rparr>"]
    by (simp add: s sys_ok_def)
  moreover have "lock_ok s ((mode t)(i := Enter p))"
    using ok scan_depth [OF ok h]
    by (intro lock_ok_move [of "kst t"]) (auto simp: s sys_ok_def holds_lock_def at_proc_def)
  ultimately show ?thesis using ok by (simp add: sys_ok_def s)
qed

text \<open>Giving the lock back at the end of the scheduler's loop or in the process that was entered.\<close>

lemma sys_ok_release:
  assumes ok: "sys_ok t" and h: "holds_lock (mode t i)" and m: "\<not> holds_lock m" "\<And>p. at_proc m p \<longleftrightarrow> at_proc (mode t i) p"
    and s: "apicids s = apicids (kst t)" "cpu_proc s = cpu_proc (kst t)" "pt_inv s" "lock_owner s = None"
      "stacks_ok (ptable s)" "\<And>p. p < NPROC \<Longrightarrow> pstate (ptable s ! p) = pstate (ptable (kst t) ! p)"
  shows "sys_ok (t\<lparr>kst := s, mode := (mode t)(i := m)\<rparr>)"
  using sys_ok_same [OF ok s(1-3), of m i "kont_of t"] s(4-6) m scan_depth(2) [OF ok h] by simp

lemma step_release:
  assumes ok: "sys_ok t" and h: "holds_lock (mode t i)" and m: "\<not> holds_lock m" "\<And>p. at_proc m p \<longleftrightarrow> at_proc (mode t i) p"
    and e: "pt_release (on i t) = Ret s"
  shows "sys_ok (t\<lparr>kst := s, mode := (mode t)(i := m)\<rparr>)"
proof -
  note d = scan_depth [OF ok h]
  have s: "s = given (on i t)" using e pt_release_eq [of "on i t"] d by simp
  have "stacks_ok (ptable (kst t))" using ok by (simp add: sys_ok_def)
  then show ?thesis
    using sys_ok_release [OF ok h m] lock_inv_given [of "on i t"] d by (simp add: s)
qed

lemma sched_back_sel [simp]:
  "ptable (sched_back e s) = ptable s" "cpu_proc (sched_back e s) = cpu_proc s" "apicids (sched_back e s) = apicids s"
  "this_cpu (sched_back e s) = this_cpu s" "ptlock (sched_back e s) = ptlock s"
  by (simp_all add: sched_back_def set_cpu_def)

lemma lock_inv_sched_back: "pt_inv s \<Longrightarrow> pt_inv (sched_back e s)"
  by (auto simp: spin_inv_def spin_owner_def sched_back_def set_cpu_def cli_depth_def)

lemma step_yielded:
  assumes ok: "sys_ok t" and m: "mode t i = Enter p" and e: "yield_back ena (on i t) = Ret s"
  shows "sys_ok (t\<lparr>kst := s, mode := (mode t)(i := Run p)\<rparr>)"
proof -
  have h: "holds_lock (mode t i)" using m by (simp add: holds_lock_def)
  note d = scan_depth [OF ok h] lock_inv_sched_back [OF scan_depth(1) [OF ok h], of ena]
  have s: "s = given (sched_back ena (on i t))"
    using e pt_release_eq [of "sched_back ena (on i t)"] d by (simp add: yield_back_def)
  have "stacks_ok (ptable (kst t))" using ok by (simp add: sys_ok_def)
  then show ?thesis
    using sys_ok_release [OF ok h, of "Run p" s] lock_inv_given [of "sched_back ena (on i t)"] d m
    by (simp add: s holds_lock_def at_proc_def)
qed

lemma lk_acquire_release:
  assumes "pt_inv s" "lock_owner s = None" "locked lk = 0" "lk_acquire s lk = Ret (lk1, s1)" "lk_release s1 lk1 = Ret (lk2, s2)"
  shows "\<exists>c. s2 = set_cpu c s \<and> cli_depth c 0"
proof -
  let ?i = "this_cpu s"
  have d: "cli_depth (cpus s ?i) 0" using lock_inv_depth [OF assms(1), of ?i] assms(2) by simp
  then have d1: "cli_depth (pushcli (cpus s ?i)) (Suc 0)" using pushcli_depth by fastforce
  have s1: "s1 = set_cpu (pushcli (cpus s ?i)) s" "locked lk1 \<noteq> 0" "lock_cpu lk1 = Some ?i"
    using assms(3,4) acquire_free_depth [OF d _ assms(3)] by (auto simp: lk_acquire_def)
  have "s2 = set_cpu ((pushcli (cpus s ?i))\<lparr>ncli := 0, iflag := intena (pushcli (cpus s ?i))\<rparr>) s"
    using assms(5) release_own_depth [OF d1 _ s1(2,3)] by (auto simp: lk_release_def s1(1) set_cpu_def)
  then show ?thesis by (auto simp: cli_depth_def)
qed

lemma set_cpu_sel [simp]:
  "ptable (set_cpu c s) = ptable s" "cpu_proc (set_cpu c s) = cpu_proc s" "apicids (set_cpu c s) = apicids s"
  "this_cpu (set_cpu c s) = this_cpu s" "ptlock (set_cpu c s) = ptlock s"
  by (simp_all add: set_cpu_def)

lemma lock_inv_set_cpu:
  assumes "pt_inv s" "lock_owner s \<noteq> Some (this_cpu s)" "cli_depth c 0"
  shows "pt_inv (set_cpu c s)"
proof -
  have "cli_depth (cpus (set_cpu c s) j) (if lock_owner s = Some j then 1 else 0)" for j
    using assms(2,3) lock_inv_depth [OF assms(1), of j] by (cases "j = this_cpu s") (simp_all add: set_cpu_def)
  then show ?thesis using assms(1) by (simp add: spin_inv_def spin_owner_def)
qed

lemma step_slept:
  assumes ok: "sys_ok t" and m: "mode t i = Enter p" and lk: "locked lk = 0"
    and e: "sleep_back p ena (OtherLock lk) (on i t) = Ret (OtherLock lk1, s1)" "lk_release s1 lk1 = Ret (lk2, s)"
  shows "sys_ok (t\<lparr>kst := s, mode := (mode t)(i := Run p)\<rparr>)"
proof -
  have h: "holds_lock (mode t i)" using m by (simp add: holds_lock_def)
  define s0 where "s0 = upd_proc p (\<lambda>q. q\<lparr>chan := NoChan\<rparr>) (sched_back ena (on i t))"
  have st: "stacks_ok (ptable (kst t))" using ok by (simp add: sys_ok_def)
  have inv: "pt_inv s0" "lock_owner s0 = Some (this_cpu s0)"
    using lock_inv_sched_back [OF scan_depth(1) [OF ok h], of ena] scan_depth(2) [OF ok h] by (simp_all add: s0_def)
  have "lk_acquire (given s0) lk = Ret (lk1, s1)"
    using e(1) pt_release_eq [OF inv] by (simp add: sleep_back_def s0_def Let_def)
  then obtain c where c: "s = set_cpu c (given s0)" "cli_depth c 0"
    using lk_acquire_release [OF lock_inv_given [OF inv] _ lk] e(2) by (metis given_sel(5))
  have p: "p < length (ptable (kst t))"
    using running_okD(1) [of "ptable (kst t)" "mode t" i p] ok m by (simp add: sys_ok_def at_proc_def)
  have "stacks_ok (ptable s)"
    using stacks_ok_upd [OF st, of "(ptable (kst t) ! p)\<lparr>chan := NoChan\<rparr>" p] stacks_okD [OF st p]
    by (simp add: c(1) s0_def)
  moreover have "pstate (ptable s ! q) = pstate (ptable (kst t) ! q)" for q
    using p by (cases "q = p") (simp_all add: c(1) s0_def)
  ultimately show ?thesis
    using sys_ok_release [OF ok h, of "Run p" s] m lock_inv_set_cpu [OF lock_inv_given [OF inv] _ c(2)]
    by (simp add: c(1) s0_def holds_lock_def at_proc_def)
qed

lemma myproc_free:
  assumes "distinct (apicids s)" "this_cpu s < length (apicids s)" "cli_depth (cpus s (this_cpu s)) 0"
  shows "\<exists>c. cli_depth c 0 \<and> myproc s = Ret (cpu_proc s (this_cpu s), set_cpu c s)"
proof -
  have "cli_depth (pushcli (cpus s (this_cpu s))) (Suc 0)" using pushcli_depth [OF assms(3)] by simp
  then have "\<not> iflag (pushcli (cpus s (this_cpu s)))"
    "popcli (pushcli (cpus s (this_cpu s))) = Ret ((pushcli (cpus s (this_cpu s)))\<lparr>ncli := 0, iflag := intena (pushcli (cpus s (this_cpu s)))\<rparr>)"
    using popcli_depth [of "pushcli (cpus s (this_cpu s))" 0] by (simp_all add: cli_depth_def)
  then show ?thesis
    using find_apicid_nth [OF assms(1,2), of 0]
    by (intro exI [of _ "(pushcli (cpus s (this_cpu s)))\<lparr>ncli := 0, iflag := intena (pushcli (cpus s (this_cpu s)))\<rparr>"])
       (simp add: myproc_def mycpu_def Let_def set_cpu_def cli_depth_def)
qed

lemma wait_eq:
  assumes "sys_ok t" "i < length (apicids (kst t))" "mode t i = Run p"
  shows "\<exists>c. cli_depth c 0 \<and> wait (on i t) = (if lock_owner (kst t) = None then wait_round (taken (set_cpu c (on i t))) p else Block)"
proof -
  note o = sys_ok_on [OF assms]
  have d: "cli_depth (cpus (on i t) (this_cpu (on i t))) 0" using lock_inv_depth [OF o(3), of i] o(6) by simp
  from myproc_free [OF o(1,2) d] obtain c where c: "cli_depth c 0" "myproc (on i t) = Ret (Some p, set_cpu c (on i t))"
    using o(4) by auto
  have "pt_inv (set_cpu c (on i t))" by (rule lock_inv_set_cpu [OF o(3,6) c(1)])
  from pt_acquire_eq [OF this] show ?thesis
    using c o(6) by (intro exI [of _ c]) (simp add: wait_def)
qed

text \<open>The state in which a round of \<^verbatim>\<open>wait()\<close> starts: the lock is held and the table is that of the system.\<close>

definition wait_start :: "nat \<Rightarrow> nat \<Rightarrow> sys \<Rightarrow> proc_st \<Rightarrow> bool" where
  "wait_start i p t s \<longleftrightarrow> apicids s = apicids (kst t) \<and> cpu_proc s = cpu_proc (kst t) \<and> this_cpu s = i \<and> pt_inv s \<and> lock_owner s = Some i
     \<and> (\<exists>ch. ptable s = (ptable (kst t))[p := (ptable (kst t) ! p)\<lparr>chan := ch\<rparr>])"

lemma wait_start_first:
  assumes "sys_ok t" "i < length (apicids (kst t))" "mode t i = Run p" "cli_depth c 0" "lock_owner (kst t) = None"
  shows "wait_start i p t (taken (set_cpu c (on i t)))"
proof -
  note o = sys_ok_on [OF assms(1-3)]
  have "pt_inv (set_cpu c (on i t))" by (rule lock_inv_set_cpu [OF o(3,6) assms(4)])
  from lock_inv_taken [OF this] show ?thesis
    using assms(5) by (auto simp: wait_start_def intro!: exI [of _ "chan (ptable (kst t) ! p)"])
qed

lemma wait_start_again:
  assumes "sys_ok t" "mode t i = Enter p" "sleep_back p ena PtableLock (on i t) = Ret (l, s)"
  shows "wait_start i p t s"
proof -
  have h: "holds_lock (mode t i)" using assms(2) by (simp add: holds_lock_def)
  have "s = upd_proc p (\<lambda>q. q\<lparr>chan := NoChan\<rparr>) (sched_back ena (on i t))" using assms(3) by (simp add: sleep_back_def)
  then show ?thesis
    using lock_inv_sched_back [OF scan_depth(1) [OF assms(1) h], of ena] scan_depth(2) [OF assms(1) h]
    by (auto simp: wait_start_def)
qed

lemma wait_startD:
  assumes "sys_ok t" "at_proc (mode t i) p" "i < length (apicids (kst t))" "wait_start i p t s"
  shows "distinct (apicids s)" "this_cpu s < length (apicids s)" "pt_inv s" "lock_owner s = Some (this_cpu s)"
    "cpu_proc s (this_cpu s) = Some p" "p < length (ptable s)" "stacks_ok (ptable s)"
    "pstate (ptable s ! q) = pstate (ptable (kst t) ! q)"
proof -
  have st: "stacks_ok (ptable (kst t))" and p: "p < length (ptable (kst t))"
    using running_okD(1) [of "ptable (kst t)" "mode t" i p] assms(1,2) by (simp_all add: sys_ok_def)
  obtain ch where ch: "ptable s = (ptable (kst t))[p := (ptable (kst t) ! p)\<lparr>chan := ch\<rparr>]"
    using assms(4) by (auto simp: wait_start_def)
  show "p < length (ptable s)" "pstate (ptable s ! q) = pstate (ptable (kst t) ! q)" using p by (simp_all add: ch nth_upd)
  show "stacks_ok (ptable s)"
    using stacks_ok_upd [OF st, of "(ptable (kst t) ! p)\<lparr>chan := ch\<rparr>" p] stacks_okD [OF st p] by (simp add: ch)
  show "cpu_proc s (this_cpu s) = Some p" using sys_ok_lock(3) [OF assms(1), of i p] assms(2,4) by (simp add: wait_start_def)
qed (use assms in \<open>simp_all add: wait_start_def sys_ok_def\<close>)

lemma step_wait_round:
  assumes ok: "sys_ok t" and at: "at_proc (mode t i) p" and i: "i < length (apicids (kst t))"
    and own: "lock_owner (kst t) = None \<or> lock_owner (kst t) = Some i" and w: "wait_start i p t s" and r: "wait_round s p = Ret r"
  shows "sys_ok (wait_sys i p r t)"
proof -
  note d = wait_startD [OF ok at i w]
  have sel: "apicids s = apicids (kst t)" "cpu_proc s = cpu_proc (kst t)" "this_cpu s = i" using w by (simp_all add: wait_start_def)
  have m: "at_proc (Run p) q \<longleftrightarrow> at_proc (mode t i) q" for q using at at_proc_fun [OF at, of q] by (auto simp: at_proc_def)
  have run: "sys_ok (t\<lparr>kst := given u, mode := (mode t)(i := Run p)\<rparr>)"
    if "same_cpus s u" "stacks_ok (ptable u)" "\<And>q. q < NPROC \<Longrightarrow> pstate (ptable u ! q) = RUNNING \<longleftrightarrow> pstate (ptable (kst t) ! q) = RUNNING" for u
  proof -
    have "pt_inv u" "lock_owner u = Some (this_cpu u)" using that(1) d(3,4) by (simp_all add: same_cpus_def)
    from sys_ok_same [OF ok _ _ lock_inv_given [OF this], of "Run p" i "kont_of t"] show ?thesis
      using that sel own m by (simp add: same_cpus_def holds_lock_def)
  qed
  show ?thesis
  proof (cases "find_zombie (ptable s) p 0")
    case (Some q)
    obtain s2 where s2: "reap_free s q = Ret s2" and r': "r = Reaped (pid (ptable s ! q)) (given (upd_proc q reaped s2))"
      using r Some wait_round_eq [OF d(1-6)] by auto
    note f = reap_free_frame [OF s2] and z = find_zombie_Some [OF Some]
    have ps: "ptable (upd_proc q reaped s2) = (ptable s)[q := reaped ((ptable s ! q)\<lparr>kstack := 0\<rparr>)]" using z by (simp add: f(2))
    have "stacks_ok (ptable (upd_proc q reaped s2))" unfolding ps using d(7) by (rule stacks_ok_upd) (simp add: reaped_def)
    moreover have "pstate (ptable (upd_proc q reaped s2) ! j) = RUNNING \<longleftrightarrow> pstate (ptable (kst t) ! j) = RUNNING" for j
      using z d(8) [of j] unfolding ps by (auto simp: nth_upd reaped_def)
    ultimately show ?thesis using run [of "upd_proc q reaped s2"] f(1) by (simp add: wait_sys_def r' same_cpus_def)
  next
    case None
    show ?thesis
    proof (cases "\<not> havekids (ptable s) p \<or> killed (ptable s ! p) \<noteq> 0")
      case True
      then have "r = NoChild (given s)" using r None wait_round_eq [OF d(1-6)] by auto
      then show ?thesis using run [of s] d(7,8) by (simp add: wait_sys_def same_cpus_def)
    next
      case False
      let ?u = "upd_proc p (\<lambda>q. q\<lparr>chan := ProcChan p, pstate := SLEEPING\<rparr>) s"
      have r': "r = Sleeping (intena (cpus s (this_cpu s))) ?u" using r None False wait_round_eq [OF d(1-6)] by auto
      have "stacks_ok (ptable ?u)"
        using stacks_ok_upd [OF d(7), of "(ptable s ! p)\<lparr>chan := ProcChan p, pstate := SLEEPING\<rparr>" p] stacks_okD [OF d(7,6)]
          running_okD(1) [of "ptable (kst t)" "mode t" i p] d(8) [of p] ok at by (simp add: sys_ok_def)
      moreover have "pstate (ptable ?u ! q) = RUNNING \<longleftrightarrow> q \<noteq> p \<and> pstate (ptable (kst t) ! q) = RUNNING" for q
        using d(6) d(8) [of q] by (auto simp: nth_upd)
      ultimately show ?thesis
        using sys_ok_leave [OF ok at own, where s = ?u and n = "Suc p"] sel d(3,4) by (simp add: wait_sys_def r')
    qed
  qed
qed

lemma step_wait:
  assumes "sys_ok t" "i < length (apicids (kst t))" "mode t i = Run p" "wait (on i t) = Ret r"
  shows "\<exists>s. lock_owner (kst t) = None \<and> wait_start i p t s \<and> wait_round s p = Ret r \<and> sys_ok (wait_sys i p r t)"
proof -
  obtain c where c: "cli_depth c 0"
    "wait (on i t) = (if lock_owner (kst t) = None then wait_round (taken (set_cpu c (on i t))) p else Block)"
    using wait_eq [OF assms(1-3)] by blast
  then have own: "lock_owner (kst t) = None" and r: "wait_round (taken (set_cpu c (on i t))) p = Ret r"
    using assms(4) by (simp_all split: if_splits)
  have at: "at_proc (mode t i) p" using assms(3) by (simp add: at_proc_def)
  note w = wait_start_first [OF assms(1-3) c(1) own]
  show ?thesis using own w r step_wait_round [OF assms(1) at assms(2) _ w r] by blast
qed

lemma step_waited:
  assumes "sys_ok t" "i < length (apicids (kst t))" "mode t i = Enter p" "sleep_back p ena PtableLock (on i t) = Ret (l, s)"
    "wait_round s p = Ret r"
  shows "sys_ok (wait_sys i p r t)"
proof -
  have "at_proc (mode t i) p" "lock_owner (kst t) = Some i"
    using assms(3) sys_ok_lock(2) [OF assms(1), of i] by (simp_all add: at_proc_def holds_lock_def)
  then show ?thesis using step_wait_round [OF assms(1) _ assms(2) _ wait_start_again [OF assms(1,3,4)] assms(5)] by blast
qed

lemma kalloc_sel [simp]:
  "kalloc s = (b, s') \<Longrightarrow> ptable s' = ptable s \<and> cpu_proc s' = cpu_proc s \<and> apicids s' = apicids s
     \<and> this_cpu s' = this_cpu s \<and> ptlock s' = ptlock s \<and> cpus s' = cpus s"
  by (auto simp: kalloc_def Let_def split: if_splits)

lemma alloc_blocks_frame:
  "alloc_blocks s p i n = Ret s' \<Longrightarrow> p < length (ptable s) \<Longrightarrow>
   same_cpus s s' \<and> (\<exists>A P. ptable s' = (ptable s)[p := (ptable s ! p)\<lparr>arr := A, arr_ptr := P\<rparr>])"
proof (induction n arbitrary: s i)
  case 0
  then show ?case
    by (auto simp: same_cpus_def intro!: exI [of _ "arr (ptable s ! p)"] exI [of _ "arr_ptr (ptable s ! p)"])
next
  case (Suc n)
  obtain b s1 where k: "kalloc s = (b, s1)" by fastforce
  let ?s = "upd_proc p (\<lambda>q. q\<lparr>arr := (arr q)[i := no_block], arr_ptr := (arr_ptr q)[i := b]\<rparr>) s1"
  have "alloc_blocks ?s p (Suc i) n = Ret s'" using Suc.prems(1) k by (simp split: if_splits)
  moreover have "p < length (ptable ?s)" using Suc.prems(2) kalloc_sel [OF k] by simp
  ultimately have ih: "same_cpus ?s s' \<and> (\<exists>A P. ptable s' = (ptable ?s)[p := (ptable ?s ! p)\<lparr>arr := A, arr_ptr := P\<rparr>])"
    by (rule Suc.IH)
  then show ?case using kalloc_sel [OF k] Suc.prems(2) by (auto simp: same_cpus_def)
qed

lemma find_unused_Some:
  "find_unused ps n = Some j \<Longrightarrow> n \<le> j \<and> j < n + length ps \<and> pstate (ps ! (j - n)) = UNUSED"
proof (induction ps arbitrary: n)
  case (Cons p ps)
  then show ?case by (auto simp: nth_Cons' split: if_splits dest!: Cons.IH)
qed simp

lemma given_frame:
  "same_cpus (taken s) s' \<Longrightarrow> same_cpus (given (taken s)) (given s')"
  by (simp add: same_cpus_def given_def set_cpu_def)

text \<open>A slot that \<open>allocproc\<close> has set up: the new pid, a stack, and whatever mark it had.\<close>

definition fresh_proc :: "proc \<Rightarrow> proc \<Rightarrow> u32 \<Rightarrow> bool" where
  "fresh_proc q r n \<longleftrightarrow> pstate r = EMBRYO \<and> kstack r \<noteq> 0 \<and> pid r = n \<and> killed r = killed q"

lemma setup_proc_frame:
  assumes e: "setup_proc s p = Ret (Some q, s')" and p: "p < length (ptable s)" "pstate (ptable s ! p) = EMBRYO"
  shows "q = p \<and> same_cpus s s' \<and> (\<exists>r. ptable s' = (ptable s)[p := r] \<and> fresh_proc (ptable s ! p) r (pid (ptable s ! p)))"
proof -
  obtain stk s2 where k1: "kalloc s = (stk, s2)" by fastforce
  have nz: "stk \<noteq> 0" using e k1 by (auto simp: setup_proc_def Let_def split: if_splits)
  define s3 where "s3 = upd_proc p (\<lambda>q. q\<lparr>pcontext := zero_context\<lparr>cx_eip := forkret_pc s2\<rparr>\<rparr>)
    ((upd_proc p (\<lambda>q. q\<lparr>kstack := stk\<rparr>) s2)\<lparr>mem := store32 (mem s2) (stk + KSTACKSIZE - 76 - 4) (trapret_pc s2)\<rparr>)"
  obtain w s4 where k2: "kalloc s3 = (w, s4)" by fastforce
  define s5 where "s5 = upd_proc p (\<lambda>q. q\<lparr>winfo := empty_winfo, winfo_ptr := w\<rparr>) s4"
  have q: "q = p" and bl: "alloc_blocks s5 p 0 16 = Ret s'"
    using e k1 k2 nz by (auto simp: setup_proc_def Let_def s3_def s5_def upd_proc_def split: if_splits)
  have s5: "same_cpus s s5" "p < length (ptable s5)" "\<exists>r. ptable s5 = (ptable s)[p := r] \<and> fresh_proc (ptable s ! p) r (pid (ptable s ! p))"
    using kalloc_sel [OF k1] kalloc_sel [OF k2] nz p by (auto simp: s5_def s3_def same_cpus_def fresh_proc_def)
  obtain r A P where r: "ptable s' = (ptable s)[p := r\<lparr>arr := A, arr_ptr := P\<rparr>]" "fresh_proc (ptable s ! p) r (pid (ptable s ! p))"
    "same_cpus s5 s'"
    using alloc_blocks_frame [OF bl s5(2)] s5(3) p(1) by auto
  then have "fresh_proc (ptable s ! p) (r\<lparr>arr := A, arr_ptr := P\<rparr>) (pid (ptable s ! p))" by (simp add: fresh_proc_def)
  then show ?thesis using q r(1) same_cpus_trans [OF s5(1) r(3)] by blast
qed

lemma allocproc_frame:
  assumes inv: "pt_inv s" "lock_owner s \<noteq> Some (this_cpu s)" and e: "allocproc s = Ret (Some q, s')"
  shows "lock_owner s = None \<and> find_unused (ptable s) 0 = Some q \<and> same_cpus (given (taken s)) s'
     \<and> (\<exists>r. ptable s' = (ptable s)[q := r] \<and> fresh_proc (ptable s ! q) r (nextpid s))"
proof -
  have own: "lock_owner s = None" using e pt_acquire_Ret [OF inv] by (auto simp: allocproc_def)
  then have a: "pt_acquire s = Ret (taken s)" using pt_acquire_eq [OF inv] by simp
  have np: "nextpid (taken s) = nextpid s" by (simp add: taken_def set_cpu_def)
  obtain p where p: "find_unused (ptable s) 0 = Some p"
    using e a by (auto simp: allocproc_def split: option.splits)
  then have lp: "p < length (ptable s)" using find_unused_Some by fastforce
  define s1 where "s1 = (upd_proc p (\<lambda>q. q\<lparr>pstate := EMBRYO, pid := nextpid s\<rparr>) (taken s))\<lparr>nextpid := nextpid s + 1\<rparr>"
  have s1: "same_cpus (taken s) s1" "ptable s1 = (ptable s)[p := (ptable s ! p)\<lparr>pstate := EMBRYO, pid := nextpid s\<rparr>]"
    by (simp_all add: s1_def same_cpus_def)
  have "pt_inv s1" "lock_owner s1 = Some (this_cpu s1)"
    using lock_inv_taken [OF inv(1) own] s1(1) by (simp_all add: same_cpus_def)
  from pt_release_eq [OF this] have "setup_proc (given s1) p = Ret (Some q, s')"
    using e a p by (simp add: allocproc_def Let_def s1_def np upd_proc_def)
  from setup_proc_frame [OF this] have "q = p" "same_cpus (given s1) s'"
    "\<exists>r. ptable s' = (ptable s)[p := r] \<and> fresh_proc (ptable s ! p) r (nextpid s)"
    using lp by (auto simp: s1(2) fresh_proc_def)
  then show ?thesis using own p same_cpus_trans [OF given_frame [OF s1(1)]] by simp
qed

lemma step_create:
  assumes ok: "sys_ok t" and i: "i < length (apicids (kst t))" "mode t i = Run p"
    and e: "allocproc (on i t) = Ret (Some q, s1)" and f2: "fork_fills q s1 s2"
  shows "\<exists>s3. pt_acquire s2 = Ret s3 \<and> pt_release (upd_proc q (\<lambda>r. r\<lparr>pstate := RUNNABLE\<rparr>) s3) =
      Ret (given (upd_proc q (\<lambda>r. r\<lparr>pstate := RUNNABLE\<rparr>) s3)) \<and> ptable s3 = ptable s2
      \<and> sys_ok (t\<lparr>kst := given (upd_proc q (\<lambda>r. r\<lparr>pstate := RUNNABLE\<rparr>) s3), kont_of := k\<rparr>)"
proof -
  note o = sys_ok_on [OF ok i]
  have st: "stacks_ok (ptable (kst t))" using ok by (simp add: sys_ok_def)
  obtain x where own: "lock_owner (kst t) = None" and f: "find_unused (ptable (kst t)) 0 = Some q"
    and c: "same_cpus (given (taken (on i t))) s1" and x: "ptable s1 = (ptable (kst t))[q := x]" "kstack x \<noteq> 0"
    using allocproc_frame [OF o(3,6) e] by (auto simp: fresh_proc_def)
  have q: "q < length (ptable (kst t))" "pstate (ptable (kst t) ! q) = UNUSED" using find_unused_Some [OF f] by auto
  have l: "length (ptable s2) = length (ptable (kst t))" and q2: "kstack (ptable s2 ! q) \<noteq> 0" "pgdir (ptable s2 ! q) \<noteq> 0"
    and other: "\<And>r. r < length (ptable (kst t)) \<Longrightarrow> r \<noteq> q \<Longrightarrow> \<exists>A. ptable s2 ! r = (ptable (kst t) ! r)\<lparr>arr := A\<rparr>"
    and c2: "same_cpus (given (taken (on i t))) s2"
    using f2 x q(1) same_cpus_trans [OF c, of s2] by (auto simp: fork_fills_def)
  have "pt_inv (given (taken (on i t)))"
    using lock_inv_given [of "taken (on i t)"] lock_inv_taken [OF o(3)] own by simp
  then have u: "pt_inv s2" "lock_owner s2 = None" using c2 by (simp_all add: same_cpus_def)
  let ?v = "upd_proc q (\<lambda>r. r\<lparr>pstate := RUNNABLE\<rparr>) (taken s2)"
  have v: "pt_inv ?v" "lock_owner ?v = Some (this_cpu ?v)" using lock_inv_taken [OF u] by simp_all
  have n: "length (ptable (kst t)) = NPROC" using st by (simp add: stacks_ok_def)
  have vq: "ptable ?v ! q = (ptable s2 ! q)\<lparr>pstate := RUNNABLE\<rparr>" using q(1) l by simp
  have vr: "pstate (ptable ?v ! r) = pstate (ptable (kst t) ! r) \<and> kstack (ptable ?v ! r) = kstack (ptable (kst t) ! r)
      \<and> pgdir (ptable ?v ! r) = pgdir (ptable (kst t) ! r)" if r: "r < NPROC" "r \<noteq> q" for r
  proof -
    obtain A where "ptable s2 ! r = (ptable (kst t) ! r)\<lparr>arr := A\<rparr>" using other [of r] r n by auto
    then show ?thesis using r(2) by simp
  qed
  have "kstack (ptable ?v ! r) \<noteq> 0 \<and> pgdir (ptable ?v ! r) \<noteq> 0"
    if r: "r < NPROC" "pstate (ptable ?v ! r) \<in> {SLEEPING, RUNNABLE, RUNNING}" for r
  proof (cases "r = q")
    case False
    then show ?thesis using vr [OF r(1) False] stacks_okD [OF st, of r] r n by simp
  qed (use vq q2 in simp)
  then have "stacks_ok (ptable ?v)" using l n unfolding stacks_ok_def all_set_conv_all_nth by simp
  moreover have "pstate (ptable ?v ! j) = RUNNING \<longleftrightarrow> pstate (ptable (kst t) ! j) = RUNNING" if "j < NPROC" for j
    using q(2) vq vr [OF that] by (cases "j = q") simp_all
  ultimately have "sys_ok (t\<lparr>kst := given ?v, mode := (mode t)(i := Run p), kont_of := k\<rparr>)"
    using c2 lock_inv_given [OF v] own i by (intro sys_ok_same [OF ok]) (simp_all add: holds_lock_def same_cpus_def)
  then have "sys_ok (t\<lparr>kst := given ?v, kont_of := k\<rparr>)" using i by (simp add: fun_upd_idem)
  then show ?thesis
    using pt_acquire_eq [OF u(1)] u(2) pt_release_eq [OF v] by (intro exI [of _ "taken s2"]) simp
qed

lemma lock_ptable:
  "pt_acquire s = Ret s' \<Longrightarrow> ptable s' = ptable s" "pt_release s = Ret s' \<Longrightarrow> ptable s' = ptable s"
  "lk_acquire s lk = Ret (lk', s') \<Longrightarrow> ptable s' = ptable s" "lk_release s lk = Ret (lk', s') \<Longrightarrow> ptable s' = ptable s"
  by (auto simp: pt_acquire_def pt_release_def lk_acquire_def lk_release_def set_cpu_def bind_res_eq_Ret)

lemma sys_step_ok: "sys_step t t' \<Longrightarrow> sys_ok t \<Longrightarrow> sys_ok t'"
proof (induction rule: sys_step.induct)
  case (start i t s)
  then show ?case using step_start by blast
next
  case (pick i t n p s)
  then show ?case using step_pick by blast
next
  case (none i t n s)
  have "pt_release (on i t) = Ret s"
    using none(3) by (auto simp: scheduler_next_def Let_def split: option.splits)
  then show ?case using none step_release [of t i Idle s] by (simp add: holds_lock_def at_proc_def)
next
  case (forkret i t p s)
  then show ?case using step_release [of t i "Run p" s] by (simp add: holds_lock_def at_proc_def)
next
  case (yielded i t p ena s)
  then show ?case using step_yielded by blast
next
  case (slept i t p ena lk lk1 s1 lk2 s)
  then show ?case using step_slept by blast
next
  case (yield i t p ena s)
  then show ?case using step_yield by blast
next
  case (sleep i t p lk lk1 s1 ch ena l s)
  then show ?case using step_sleep by blast
next
  case (exiting i t p s)
  then show ?case using step_exit [of t i p s "kont_of t"] by simp
next
  case (waking i t ch s)
  then show ?case using step_wakeup by blast
next
  case (killing i t p k r s)
  then show ?case using step_kill [of t i k] by (auto simp: holds_lock_def split: if_splits)
next
  case (creating i t p q s1 s2 s3 s)
  then show ?case using step_create [OF creating(7,1-4), of "(kont_of t)(q := KForkret)"] by auto
next
  case (waiting i t p r)
  then show ?case using step_wait [of t i p r] by blast
next
  case (waited i t p ena l s r)
  then show ?case using step_waited by blast
qed

lemma sys_reach_ok: "sys_reach t0 t \<Longrightarrow> sys_ok t0 \<Longrightarrow> sys_ok t"
  by (induction rule: sys_reach.induct) (auto intro: sys_step_ok)

section \<open>Properties\<close>

text \<open>
  The system when the CPUs enter \<^verbatim>\<open>scheduler()\<close>: nobody holds the lock, no process runs, and the
  processes that may be scheduled have a stack and a page directory.
\<close>

definition booted :: "sys \<Rightarrow> bool" where
  "booted t \<longleftrightarrow> distinct (apicids (kst t)) \<and> (\<forall>i. mode t i = Idle \<and> cpu_proc (kst t) i = None \<and> ncli (cpus (kst t) i) = 0)
     \<and> locked (ptlock (kst t)) = 0 \<and> lock_owner (kst t) = None \<and> stacks_ok (ptable (kst t))
     \<and> (\<forall>p\<in>set (ptable (kst t)). pstate p \<noteq> RUNNING)"

lemma booted_ok: "booted t \<Longrightarrow> sys_ok t"
  by (auto simp: booted_def sys_ok_def lock_ok_def running_ok_def spin_inv_def spin_owner_def cli_depth_def
      holds_lock_def at_proc_def)

lemma booted_reach_ok: "booted t0 \<Longrightarrow> sys_reach t0 t \<Longrightarrow> sys_ok t"
  using booted_ok sys_reach_ok by blast

definition sched_demo_proc :: "procstate \<Rightarrow> u32 \<Rightarrow> proc" where
  "sched_demo_proc st k = zero_proc\<lparr>pstate := st, pid := k, kstack := 0x80500000, pgdir := 0x80300000\<rparr>"

definition sched_demo_st :: proc_st where
  "sched_demo_st = \<lparr>mem = (\<lambda>_. 0), kend = 0x80200000, use_lock = True, freelist = 0,
     kdata = 0x80108000, kpgdir = 0x803F0000, cr3 = 0x3F0000,
     ptable = sched_demo_proc RUNNABLE 1 # sched_demo_proc RUNNABLE 2 # zero_proc # replicate 61 zero_proc,
     ptlock = \<lparr>locked = 0, lock_name = ''ptable'', lock_cpu = None, pcs = replicate 10 0\<rparr>,
     cpus = (\<lambda>_. \<lparr>ncli = 0, intena = False, iflag = True\<rparr>), cpu_proc = (\<lambda>_. None), apicids = [0, 1],
     this_cpu = 0, callers = replicate 10 0, nextpid = 3, initproc = Some 0,
     forkret_pc = 0x80103000, trapret_pc = 0x80105000\<rparr>"

definition sched_demo :: sys where
  "sched_demo = \<lparr>kst = sched_demo_st, mode = (\<lambda>_. Idle), kont_of = (\<lambda>_. KForkret)\<rparr>"

lemma booted_demo: "booted sched_demo"
  by (simp add: booted_def sched_demo_def sched_demo_st_def stacks_ok_def sched_demo_proc_def zero_proc_def)

text \<open>Two steps of CPU 0 of the demonstration system: it enters process 0.\<close>

lemma sched_demo_start: "\<exists>t. sys_reach sched_demo t \<and> mode t 0 = Scan 0 \<and> mode t 1 = Idle \<and> ptable (kst t) = ptable sched_demo_st
    \<and> length (apicids (kst t)) = 2 \<and> kont_of t = (\<lambda>_. KForkret)"
proof -
  let ?s = "on 0 sched_demo"
  let ?u = "set_cpu ((cpus ?s (this_cpu ?s))\<lparr>iflag := True\<rparr>) ?s"
  have "pt_inv ?u" by (simp add: sched_demo_def sched_demo_st_def set_cpu_def spin_inv_def spin_owner_def cli_depth_def)
  moreover have "lock_owner ?u = None" by (simp add: sched_demo_def sched_demo_st_def)
  ultimately have e: "scheduler_start ?s = Ret (taken ?u)"
    using pt_acquire_eq [of ?u] by (simp add: scheduler_start_def)
  have "0 < length (apicids (kst sched_demo))" "mode sched_demo 0 = Idle"
    by (simp_all add: sched_demo_def sched_demo_st_def)
  from sys_reach.step [OF sys_reach.refl sys_step.start [OF this e]] show ?thesis
    by (auto simp: sched_demo_def sched_demo_st_def intro!: exI)
qed

lemma sched_demo_enter: "\<exists>t. sys_reach sched_demo t \<and> mode t 0 = Enter 0 \<and> mode t 1 = Idle \<and> 0 < length (apicids (kst t)) \<and> kont_of t 0 = KForkret"
proof -
  obtain t where t: "sys_reach sched_demo t" "mode t 0 = Scan 0" "mode t 1 = Idle" "ptable (kst t) = ptable sched_demo_st"
    "length (apicids (kst t)) = 2" "kont_of t = (\<lambda>_. KForkret)" using sched_demo_start by auto
  have "find_runnable (drop 0 (ptable (kst t))) 0 = Some 0"
    by (simp add: t(4) sched_demo_st_def sched_demo_proc_def)
  from scheduler_next_pick(3) [OF booted_reach_ok [OF booted_demo t(1)] t(2) this]
  obtain s where e: "scheduler_next 0 (on 0 t) = Ret (Some 0, s)" by blast
  have "0 < length (apicids (kst t))" using t(5) by simp
  have "apicids s = apicids (kst t)"
    using e scheduler_next_pick(3) [OF booted_reach_ok [OF booted_demo t(1)] t(2) \<open>find_runnable _ 0 = Some 0\<close>] by auto
  then show ?thesis
    using sys_reach.step [OF t(1) sys_step.pick [OF \<open>0 < _\<close> t(2) e]] t(3,5,6) by (intro exI conjI) (assumption | simp)+
qed

text \<open>One more step, and process 0 runs with the lock free.\<close>

lemma sched_demo_run: "\<exists>t. sys_reach sched_demo t \<and> mode t 0 = Run 0 \<and> lock_owner (kst t) = None \<and> 0 < length (apicids (kst t))"
proof -
  obtain t where t: "sys_reach sched_demo t" "mode t 0 = Enter 0" "0 < length (apicids (kst t))" "kont_of t 0 = KForkret"
    using sched_demo_enter by blast
  have h: "holds_lock (mode t 0)" using t(2) by (simp add: holds_lock_def)
  have "pt_release (on 0 t) = Ret (given (on 0 t))"
    using pt_release_eq [of "on 0 t"] scan_depth [OF booted_reach_ok [OF booted_demo t(1)] h] by simp
  from sys_reach.step [OF t(1) sys_step.forkret [OF t(3,2,4) this]] show ?thesis
    using t(3) by (intro exI conjI) (assumption | simp)+
qed

text \<open>
  C28: however the CPUs interleave, a process runs on at most one CPU, its state is then RUNNING and
  the CPU's \<^verbatim>\<open>proc\<close> pointer names it.
\<close>

theorem scheduler_exclusive:
  assumes "booted t0" "sys_reach t0 t" "at_proc (mode t i) p" "at_proc (mode t j) p"
  shows "i = j \<and> pstate (ptable (kst t) ! p) = RUNNING \<and> cpu_proc (kst t) i = Some p"
proof -
  note ok = booted_reach_ok [OF assms(1,2)]
  then have "running_ok (ptable (kst t)) (mode t)" by (simp add: sys_ok_def)
  from running_okD(1,3) [OF this] show ?thesis using assms(3,4) sys_ok_lock(3) [OF ok] by blast
qed

theorem scheduler_exclusive_witness:
  "\<exists>t. sys_reach sched_demo t \<and> mode t 0 = Enter 0 \<and> pstate (ptable (kst t) ! 0) = RUNNING \<and> cpu_proc (kst t) 0 = Some 0"
proof -
  obtain t where t: "sys_reach sched_demo t" "mode t 0 = Enter 0" using sched_demo_enter by blast
  then have "at_proc (mode t 0) 0" by (simp add: at_proc_def)
  from scheduler_exclusive [OF booted_demo t(1) this this] show ?thesis using t by blast
qed

lemma scheduler_start_eq:
  assumes "sys_ok t" "mode t i = Idle"
  shows "if lock_owner (kst t) = None then \<exists>s. scheduler_start (on i t) = Ret s else scheduler_start (on i t) = Block"
proof -
  let ?u = "set_cpu ((cpus (kst t) i)\<lparr>iflag := True\<rparr>) (on i t)"
  have nh: "lock_owner (kst t) \<noteq> Some i" using sys_ok_lock(2) [OF assms(1), of i] assms(2) by (simp add: holds_lock_def)
  have "pt_inv ?u"
    using sys_ok_lock(1) [OF assms(1)] nh by (auto simp: set_cpu_def spin_inv_def spin_owner_def cli_depth_def)
  from pt_acquire_eq [OF this] nh show ?thesis by (simp add: scheduler_start_def)
qed

text \<open>A round of \<^verbatim>\<open>wait()\<close> returns if the memory of the child it finds, if any, can be freed.\<close>

definition wait_returns :: "proc_st \<Rightarrow> nat \<Rightarrow> bool" where
  "wait_returns s p \<longleftrightarrow> ((\<forall>q. find_zombie (ptable s) p 0 = Some q \<longrightarrow> (\<exists>s'. reap_free s q = Ret s')) \<longrightarrow> (\<exists>r. wait_round s p = Ret r))"

lemma wait_start_returns:
  assumes "sys_ok t" "at_proc (mode t i) p" "i < length (apicids (kst t))" "wait_start i p t s"
  shows "wait_returns s p"
  using wait_round_eq [OF wait_startD(1-6) [OF assms]] unfolding wait_returns_def by (auto split: option.splits)

text \<open>What the code does in a process that was just entered, in the function it was switched out in.\<close>

definition resumes :: "nat \<Rightarrow> nat \<Rightarrow> bool \<Rightarrow> spinlock \<Rightarrow> sys \<Rightarrow> bool" where
  "resumes i p ena lk t \<longleftrightarrow> (\<exists>s. pt_release (on i t) = Ret s) \<and> (\<exists>s. yield_back ena (on i t) = Ret s)
     \<and> (\<exists>lk1 s1 lk2 s. sleep_back p ena (OtherLock lk) (on i t) = Ret (OtherLock lk1, s1) \<and> lk_release s1 lk1 = Ret (lk2, s))
     \<and> (\<exists>s. sleep_back p ena PtableLock (on i t) = Ret (PtableLock, s) \<and> wait_returns s p)"

lemma lk_acquire_release_ex:
  assumes "pt_inv s" "lock_owner s = None" "locked lk = 0"
  shows "\<exists>lk1 s1 lk2 s2. lk_acquire s lk = Ret (lk1, s1) \<and> lk_release s1 lk1 = Ret (lk2, s2)"
proof -
  let ?i = "this_cpu s"
  have d: "cli_depth (cpus s ?i) 0" using lock_inv_depth [OF assms(1), of ?i] assms(2) by simp
  then have d1: "cli_depth (pushcli (cpus s ?i)) (Suc 0)" using pushcli_depth by fastforce
  show ?thesis
    using acquire_free_depth [OF d _ assms(3)] release_own_depth [OF d1, of "lk\<lparr>locked := 1, lock_cpu := Some ?i, pcs := callers s\<rparr>" ?i]
    by (simp add: lk_acquire_def lk_release_def set_cpu_def)
qed

lemma enter_resumes:
  assumes "sys_ok t" "i < length (apicids (kst t))" "mode t i = Enter p" "locked lk = 0"
  shows "resumes i p ena lk t"
proof -
  have h: "holds_lock (mode t i)" and at: "at_proc (mode t i) p" using assms(3) by (simp_all add: holds_lock_def at_proc_def)
  note d = scan_depth [OF assms(1) h] lock_inv_sched_back [OF scan_depth(1) [OF assms(1) h], of ena]
  let ?s = "upd_proc p (\<lambda>q. q\<lparr>chan := NoChan\<rparr>) (sched_back ena (on i t))"
  have s: "pt_inv ?s" "lock_owner ?s = Some (this_cpu ?s)" using d by simp_all
  have "\<exists>s. pt_release (on i t) = Ret s" using pt_release_eq [of "on i t"] d by simp
  moreover have "\<exists>s. yield_back ena (on i t) = Ret s"
    using pt_release_eq [of "sched_back ena (on i t)"] d by (simp add: yield_back_def)
  moreover have "\<exists>lk1 s1 lk2 s. sleep_back p ena (OtherLock lk) (on i t) = Ret (OtherLock lk1, s1) \<and> lk_release s1 lk1 = Ret (lk2, s)"
    using lk_acquire_release_ex [OF lock_inv_given [OF s] _ assms(4)] pt_release_eq [OF s] by (auto simp: sleep_back_def Let_def)
  moreover have e: "sleep_back p ena PtableLock (on i t) = Ret (PtableLock, ?s)" by (simp add: sleep_back_def)
  moreover have "wait_returns ?s p"
    by (rule wait_start_returns [OF assms(1) at assms(2) wait_start_again [OF assms(1,3) e]])
  ultimately show ?thesis unfolding resumes_def by blast
qed

text \<open>
  What a running process can do when \<^verbatim>\<open>ptable.lock\<close> is free: yield, sleep under a lock of its own, wake up and kill,
  create a process, exit and wait. The freeing of memory in exit and wait and the allocation in \<^verbatim>\<open>allocproc()\<close>
  are the only places where these may fail.
\<close>

definition acts :: "nat \<Rightarrow> nat \<Rightarrow> spinlock \<Rightarrow> kchan \<Rightarrow> u32 \<Rightarrow> sys \<Rightarrow> bool" where
  "acts i p lk ch k t \<longleftrightarrow> (\<exists>ena s. yield_out (on i t) = Ret (ena, s))
     \<and> (\<exists>lk1 s1 ena l s. lk_acquire (on i t) lk = Ret (lk1, s1) \<and> sleep_out s1 ch (OtherLock lk1) = Ret (ena, l, s))
     \<and> (\<exists>s. wakeup (on i t) ch = Ret s) \<and> (\<exists>r s. kill (on i t) k = Ret (r, s))
     \<and> (\<exists>s. allocproc (on i t) = (case find_unused (ptable (kst t)) 0 of None \<Rightarrow> Ret (None, s) | Some q \<Rightarrow> setup_proc s q))
     \<and> (\<forall>q s1 s2. allocproc (on i t) = Ret (Some q, s1) \<longrightarrow> fork_fills q s1 s2 \<longrightarrow>
          (\<exists>s3 s. pt_acquire s2 = Ret s3 \<and> pt_release (upd_proc q (\<lambda>r. r\<lparr>pstate := RUNNABLE\<rparr>) s3) = Ret s))
     \<and> (\<exists>s. pt_acquire (on i t) = Ret s \<and> ((\<exists>s2. exit_free (exit_family s p) p = Ret s2) \<longrightarrow> (\<exists>s3. exit_out (on i t) p = Ret s3)))
     \<and> (\<exists>s. wait (on i t) = wait_round s p \<and> wait_returns s p)"

text \<open>While another CPU has the lock all of these spin; the sleeper does so after it has taken its own lock.\<close>

definition spins :: "nat \<Rightarrow> nat \<Rightarrow> spinlock \<Rightarrow> kchan \<Rightarrow> u32 \<Rightarrow> sys \<Rightarrow> bool" where
  "spins i p lk ch k t \<longleftrightarrow> yield_out (on i t) = Block
     \<and> (\<exists>lk1 s1. lk_acquire (on i t) lk = Ret (lk1, s1) \<and> sleep_out s1 ch (OtherLock lk1) = Block)
     \<and> wakeup (on i t) ch = Block \<and> kill (on i t) k = Block \<and> allocproc (on i t) = Block
     \<and> exit_out (on i t) p = Block \<and> wait (on i t) = Block"

lemma allocproc_locked:
  assumes "pt_inv s" "lock_owner s = None"
  shows "\<exists>s'. allocproc s = (case find_unused (ptable s) 0 of None \<Rightarrow> Ret (None, s') | Some q \<Rightarrow> setup_proc s' q)"
proof (cases "find_unused (ptable s) 0")
  case None
  then show ?thesis
    using pt_acquire_eq [OF assms(1)] assms(2) pt_release_eq [of "taken s"] lock_inv_taken [OF assms] by (simp add: allocproc_def)
next
  case (Some q)
  let ?u = "(upd_proc q (\<lambda>p. p\<lparr>pstate := EMBRYO, pid := nextpid (taken s)\<rparr>) (taken s))\<lparr>nextpid := nextpid (taken s) + 1\<rparr>"
  have u: "pt_inv ?u" "lock_owner ?u = Some (this_cpu ?u)" using lock_inv_taken [OF assms] by simp_all
  have n: "nextpid (upd_proc q f (taken s)) = nextpid (taken s)" for f by (simp add: upd_proc_def)
  show ?thesis
    using pt_acquire_eq [OF assms(1)] assms(2) pt_release_eq [OF u] Some by (auto simp: allocproc_def Let_def n)
qed

lemma run_acts:
  assumes "sys_ok t" "i < length (apicids (kst t))" "mode t i = Run p" "locked lk = 0" "lock_owner (kst t) = None"
  shows "acts i p lk ch k t"
proof -
  note o = sys_ok_on [OF assms(1-3)]
  have h: "\<not> holds_lock (mode t i)" and at: "at_proc (mode t i) p" using assms(3) by (simp_all add: holds_lock_def at_proc_def)
  have own: "lock_owner (on i t) = None" using assms(5) by simp
  have "\<exists>ena s. yield_out (on i t) = Ret (ena, s)" using yield_out_eq [OF o(1-3) own o(4,5)] by simp
  moreover have "\<exists>lk1 s1 ena l s. lk_acquire (on i t) lk = Ret (lk1, s1) \<and> sleep_out s1 ch (OtherLock lk1) = Ret (ena, l, s)"
  proof -
    obtain lk1 s1 where a: "lk_acquire (on i t) lk = Ret (lk1, s1)" using lk_acquire_release_ex [OF o(3) own assms(4)] by blast
    then show ?thesis using sleep_out_eq [OF o(1-3) own o(4,5) assms(4) a, of ch] by blast
  qed
  moreover have "\<exists>s. wakeup (on i t) ch = Ret s" using step_wakeup(1) [OF assms(1) h] assms(5) by simp
  moreover have "\<exists>r s. kill (on i t) k = Ret (r, s)" using step_kill [OF assms(1) h, of k] assms(5) by auto
  moreover have "\<exists>s. allocproc (on i t) = (case find_unused (ptable (kst t)) 0 of None \<Rightarrow> Ret (None, s) | Some q \<Rightarrow> setup_proc s q)"
    using allocproc_locked [OF o(3) own] by simp
  moreover have "\<forall>q s1 s2. allocproc (on i t) = Ret (Some q, s1) \<longrightarrow> fork_fills q s1 s2 \<longrightarrow>
          (\<exists>s3 s. pt_acquire s2 = Ret s3 \<and> pt_release (upd_proc q (\<lambda>r. r\<lparr>pstate := RUNNABLE\<rparr>) s3) = Ret s)"
    using step_create [OF assms(1-3)] by blast
  moreover have "\<exists>s. pt_acquire (on i t) = Ret s \<and> ((\<exists>s2. exit_free (exit_family s p) p = Ret s2) \<longrightarrow> (\<exists>s3. exit_out (on i t) p = Ret s3))"
    using free_acquire [OF assms(1) h] assms(5) exit_out_eq [OF o(1-3) own o(4,5)] by auto
  moreover have "\<exists>s. wait (on i t) = wait_round s p \<and> wait_returns s p"
    using wait_eq [OF assms(1-3)] wait_start_first [OF assms(1-3)] wait_start_returns [OF assms(1) at assms(2)] assms(5) by auto
  ultimately show ?thesis unfolding acts_def by blast
qed

lemma run_spins:
  assumes "sys_ok t" "i < length (apicids (kst t))" "mode t i = Run p" "locked lk = 0" "lock_owner (kst t) \<noteq> None"
  shows "spins i p lk ch k t"
proof -
  note o = sys_ok_on [OF assms(1-3)]
  have h: "\<not> holds_lock (mode t i)" using assms(3) by (simp add: holds_lock_def)
  have a: "pt_acquire (on i t) = Block" using free_acquire [OF assms(1) h] assms(5) by simp
  have d: "cli_depth (cpus (on i t) i) 0" using lock_inv_depth [OF o(3), of i] o(6) by simp
  from acquire_free_depth [OF this _ assms(4)] obtain lk1
    where l: "lk_acquire (on i t) lk = Ret (lk1, set_cpu (pushcli (cpus (kst t) i)) (on i t))" by (simp add: lk_acquire_def)
  have "sleep_out (set_cpu (pushcli (cpus (kst t) i)) (on i t)) ch (OtherLock lk1) = Block"
    using sleep_out_busy [OF assms(1-3,5)] by simp
  moreover have "wait (on i t) = Block" using wait_eq [OF assms(1-3)] assms(5) by auto
  ultimately show ?thesis
    using a l unfolding spins_def by (simp add: yield_out_def wakeup_def kill_def allocproc_def exit_out_def)
qed

lemma scheduler_next_total:
  assumes "sys_ok t" "mode t i = Scan n"
  shows "\<exists>s. scheduler_next n (on i t) = Ret (find_runnable (drop n (ptable (kst t))) n, s)"
proof (cases "find_runnable (drop n (ptable (kst t))) n")
  have h: "holds_lock (mode t i)" using assms(2) by (simp add: holds_lock_def)
  case None
  then show ?thesis
    using pt_release_eq [of "on i t"] scan_depth [OF assms(1) h] by (simp add: scheduler_next_def)
next
  case (Some p)
  then show ?thesis using scheduler_next_pick(3) [OF assms] by simp
qed

text \<open>
  C29: the checks of \<^verbatim>\<open>sched()\<close>, \<^verbatim>\<open>sleep()\<close>, \<^verbatim>\<open>acquire()\<close>, \<^verbatim>\<open>release()\<close>, \<^verbatim>\<open>mycpu()\<close> and \<^verbatim>\<open>switchuvm()\<close> never fail in the
  scheduling protocol. An idle CPU gets the lock as soon as it is free, and otherwise spins; so does
  the wake-up of an interrupt handler that runs there. In the scheduler's loop a CPU gets to the first
  runnable process from its position, or gives the lock back when there is none. A process that has
  just been entered gets through the rest of the function it was switched out in, be it
  \<^verbatim>\<open>forkret()\<close>, \<^verbatim>\<open>yield()\<close>, \<^verbatim>\<open>sleep()\<close> or \<^verbatim>\<open>wait()\<close>, which holds the lock and may sleep again (\<open>resumes\<close>). A
  running process, when the lock is free, gets through \<^verbatim>\<open>yield()\<close>, \<^verbatim>\<open>sleep()\<close>, \<^verbatim>\<open>wakeup()\<close>, \<^verbatim>\<open>kill()\<close>, the critical
  sections of \<^verbatim>\<open>fork()\<close>, \<^verbatim>\<open>exit()\<close> and \<^verbatim>\<open>wait()\<close>, where only the allocator may fail (\<open>acts\<close>), and otherwise
  each of them spins (\<open>spins\<close>).
\<close>

theorem scheduler_never_panics:
  assumes "booted t0" "sys_reach t0 t" "i < length (apicids (kst t))" "locked lk = 0"
  shows "case mode t i of
      Idle \<Rightarrow> if lock_owner (kst t) = None then (\<exists>s. scheduler_start (on i t) = Ret s) \<and> (\<exists>s. wakeup (on i t) ch = Ret s)
        else scheduler_start (on i t) = Block \<and> wakeup (on i t) ch = Block
    | Scan n \<Rightarrow> \<exists>s. scheduler_next n (on i t) = Ret (find_runnable (drop n (ptable (kst t))) n, s)
    | Enter p \<Rightarrow> resumes i p ena lk t
    | Run p \<Rightarrow> if lock_owner (kst t) = None then acts i p lk ch k t else spins i p lk ch k t"
proof -
  note ok = booted_reach_ok [OF assms(1,2)]
  show ?thesis
  proof (cases "mode t i")
    case Idle
    then have "\<not> holds_lock (mode t i)" by (simp add: holds_lock_def)
    then show ?thesis using Idle scheduler_start_eq [OF ok Idle] step_wakeup(1) [OF ok, of i ch] by simp
  next
    case (Scan n)
    then show ?thesis using scheduler_next_total [OF ok Scan] by simp
  next
    case (Enter p)
    then show ?thesis using enter_resumes [OF ok assms(3) Enter assms(4)] by simp
  next
    case (Run p)
    then show ?thesis using run_acts [OF ok assms(3) Run assms(4)] run_spins [OF ok assms(3) Run assms(4)] by simp
  qed
qed

theorem scheduler_never_panics_witness:
  "\<exists>t. sys_reach sched_demo t \<and> mode t 0 = Run 0 \<and> acts 0 0 \<lparr>locked = 0, lock_name = [], lock_cpu = None, pcs = []\<rparr> LogChan 2 t"
proof -
  obtain t where t: "sys_reach sched_demo t" "mode t 0 = Run 0" "lock_owner (kst t) = None" "0 < length (apicids (kst t))"
    using sched_demo_run by blast
  then show ?thesis
    using scheduler_never_panics [OF booted_demo t(1,4), of "\<lparr>locked = 0, lock_name = [], lock_cpu = None, pcs = []\<rparr>" LogChan _ 2]
    by auto
qed

text \<open>
  C30: \<^verbatim>\<open>wakeup(chan)\<close> makes runnable exactly the processes that sleep on \<^verbatim>\<open>chan\<close>, changes no other
  process, and leaves the lock free and the CPUs as they were apart from the saved interrupt flag.
\<close>

theorem wakeup_exact:
  assumes "pt_inv s" "lock_owner s = None" "i < length (ptable s)"
  shows "\<exists>s'. wakeup s ch = Ret s' \<and> pt_inv s' \<and> lock_owner s' = None \<and> length (ptable s') = length (ptable s)
    \<and> ptable s' ! i = (if pstate (ptable s ! i) = SLEEPING \<and> chan (ptable s ! i) = ch
        then (ptable s ! i)\<lparr>pstate := RUNNABLE\<rparr> else ptable s ! i)"
proof -
  let ?u = "wakeup1 ch (taken s)"
  have u: "pt_inv ?u" "lock_owner ?u = Some (this_cpu ?u)"
    using lock_inv_taken [OF assms(1,2)] by (simp_all add: wakeup1_def)
  then have "wakeup s ch = Ret (given ?u)"
    using pt_acquire_eq [OF assms(1)] assms(2) pt_release_eq [OF u] by (simp add: wakeup_def)
  then show ?thesis using lock_inv_given [OF u] assms(3) by (simp add: wakeup1_def wake_proc_def)
qed

theorem wakeup_exact_witness:
  "\<exists>s'. wakeup (upd_proc 0 (\<lambda>q. q\<lparr>pstate := SLEEPING, chan := LogChan\<rparr>) sched_demo_st) LogChan = Ret s'
     \<and> pstate (ptable s' ! 0) = RUNNABLE"
proof -
  let ?s = "upd_proc 0 (\<lambda>q. q\<lparr>pstate := SLEEPING, chan := LogChan\<rparr>) sched_demo_st"
  have "pt_inv ?s" "lock_owner ?s = None" "0 < length (ptable ?s)"
    by (simp_all add: sched_demo_st_def spin_inv_def spin_owner_def cli_depth_def)
  from wakeup_exact [OF this, of LogChan] show ?thesis by (auto simp: sched_demo_st_def upd_proc_def)
qed

end
