(* ===== verification/Sleeplock.thy ===== *)
theory Sleeplock
  imports Proc
begin

text \<open>
  Sleep locks (sleeplock.c), held by processes, as what each operation does to the lock. The spin lock
  \<^verbatim>\<open>lk->lk\<close> makes each operation one critical section, and inside it \<^verbatim>\<open>wakeup\<close> is the update of the process
  table \<open>wakeup1\<close>. \<open>ch\<close> is the channel of the lock, its address in the code. \<open>acquiresleep\<close> is the last round of
  the loop, in which the lock is free; a process that finds the lock taken does not come that far, and the
  operation is \<open>Block\<close>. Theory \<open>Sleepsync\<close> has the operations in full, with the inner lock, the loop and the
  sleeping and waking of processes, and shows that these are their results.
\<close>

record sleeplock =
  slocked :: u32
  sl_lk :: spinlock
  sl_name :: string
  sl_pid :: u32

definition initsleeplock :: "sleeplock \<Rightarrow> string \<Rightarrow> sleeplock" where
  "initsleeplock lk name =
     lk\<lparr>sl_lk := initlock (sl_lk lk) ''sleep lock'', sl_name := name, slocked := 0, sl_pid := 0\<rparr>"

text \<open>\<open>me\<close> is \<^verbatim>\<open>myproc()->pid\<close>.\<close>

definition acquiresleep :: "u32 \<Rightarrow> sleeplock \<Rightarrow> sleeplock res" where
  "acquiresleep me lk = (if slocked lk \<noteq> 0 then Block else Ret (lk\<lparr>slocked := 1, sl_pid := me\<rparr>))"

definition releasesleep ::
  "kchan \<Rightarrow> sleeplock \<Rightarrow> 'a proc_st_scheme \<Rightarrow> sleeplock \<times> 'a proc_st_scheme" where
  "releasesleep ch lk s = (lk\<lparr>slocked := 0, sl_pid := 0\<rparr>, wakeup1 ch s)"

definition holdingsleep :: "u32 \<Rightarrow> sleeplock \<Rightarrow> bool" where
  "holdingsleep me lk \<longleftrightarrow> slocked lk \<noteq> 0 \<and> sl_pid lk = me"

text \<open>
  \<open>curpid\<close> is \<^verbatim>\<open>myproc()->pid\<close> in the code that runs for a process, as all users of sleep locks do. Without a
  current process the code would read through a null pointer; the value 0 for this case is never used.
\<close>

definition curpid :: "'a proc_st_scheme \<Rightarrow> u32" where
  "curpid s = (case cpu_proc s (this_cpu s) of None \<Rightarrow> 0 | Some p \<Rightarrow> pid (ptable s ! p))"

text \<open>
  The users (brelse of bio.c, iunlock of fs.c) test \<open>holdingsleep\<close> before they release; used
  that way the lock meets the same contract as the spin lock.
\<close>

type_synonym slp_st = "sleeplock \<times> proc_st"

definition sleep_take :: "u32 \<Rightarrow> slp_st \<Rightarrow> slp_st option" where
  "sleep_take me x = (case acquiresleep me (fst x) of Ret lk \<Rightarrow> Some (lk, snd x) | _ \<Rightarrow> None)"

definition sleep_give :: "kchan \<Rightarrow> u32 \<Rightarrow> slp_st \<Rightarrow> slp_st option" where
  "sleep_give ch me x = (if holdingsleep me (fst x) then Some (releasesleep ch (fst x) (snd x)) else None)"

definition sleep_owner :: "slp_st \<Rightarrow> u32 option" where
  "sleep_owner x = (if slocked (fst x) \<noteq> 0 then Some (sl_pid (fst x)) else None)"

interpretation slp: mutex sleep_take "sleep_give ch" sleep_owner "\<lambda>_. True" for ch
  by unfold_locales
    (auto simp: sleep_take_def sleep_give_def sleep_owner_def acquiresleep_def releasesleep_def
      holdingsleep_def split: if_splits)

section \<open>Property\<close>

text \<open>
  Sleep locks implement the abstract lock as well, with processes as owners: a sequence of
  guarded operations goes through exactly when the specification allows it.
\<close>

lemma sleeplock_refines:
  "map_option sleep_owner (slp.run ch es x) = lock_spec es (sleep_owner x)"
  by (rule slp.run_spec) simp

end
