(* ===== verification/Sleepsync.thy ===== *)
theory Sleepsync
  imports Sched Sleeplock
begin

text \<open>
  Sleep locks on several CPUs: the operations of sleeplock.c in full, with the inner spin lock, the loop that
  sleeps while the lock is taken and the wake-up of the sleepers, interleaved with everything the scheduling
  protocol of theory \<open>Sched\<close> does. The operations of theory \<open>Sleeplock\<close>, which the rest of the kernel model
  uses, are what they do to the lock.
\<close>

section \<open>The operations\<close>








section \<open>Their results\<close>





section \<open>The lock among the processes\<close>














section \<open>Preservation\<close>









section \<open>Start, and the calls in a reachable state\<close>





section \<open>A run\<close>









section \<open>Property\<close>



end
