(* ===== verification/Wmap.thy ===== *)
theory Wmap
  imports Procdata Vm
begin

text \<open>
  The table of memory mappings of a process (the wmap part of sysfile.c): insertion in address
  order, removal, the choice of an address for a new mapping, and the loop of \<^verbatim>\<open>wunmap\<close> that
  releases the loaded pages. A process has sixteen blocks; the valid ones come first.
\<close>

section \<open>Insertion and removal\<close>

definition copy_left :: "u32 list \<Rightarrow> nat \<Rightarrow> u32 list" where
  "copy_left xs i = xs[Suc i := xs ! i]"

definition copy_right :: "u32 list \<Rightarrow> nat \<Rightarrow> u32 list" where
  "copy_right xs i = xs[i := xs ! Suc i]"

text \<open>The shifting loop of \<^verbatim>\<open>insert_mapping\<close>; it leaves \<^verbatim>\<open>leftmostLoadedAddr\<close> where it is.\<close>

fun shift_right :: "proc \<Rightarrow> u32 \<Rightarrow> nat \<Rightarrow> nat \<times> proc" where
  "shift_right p start 0 = (0, p)"
| "shift_right p start (Suc i) =
     (if mb_start (arr p ! i) > start
      then let w = winfo p in
        shift_right (p\<lparr>arr := (arr p)[Suc i := arr p ! i],
          winfo := w\<lparr>wi_addr := copy_left (wi_addr w) i, wi_length := copy_left (wi_length w) i,
            n_loaded_pages := copy_left (n_loaded_pages w) i\<rparr>\<rparr>) start i
      else (Suc i, p))"

definition set_block :: "proc \<Rightarrow> nat \<Rightarrow> mem_block \<Rightarrow> proc" where
  "set_block p i b =
     (let w = winfo p in
      p\<lparr>arr := (arr p)[i := b],
        winfo := w\<lparr>wi_addr := (wi_addr w)[i := mb_start b], wi_length := (wi_length w)[i := mb_length b],
          total_mmaps := total_mmaps w + 1\<rparr>\<rparr>)"

definition insert_mapping ::
  "proc \<Rightarrow> u32 \<Rightarrow> u32 \<Rightarrow> u32 \<Rightarrow> u32 \<Rightarrow> u32 \<Rightarrow> u32 \<Rightarrow> (u32 \<times> proc) res" where
  "insert_mapping p start endp flags len numMappings fd =
     (if numMappings = of_nat MAX_WMMAP_INFO then Ret (FAILED, p)
      else let b = \<lparr>mb_start = start, mb_end = endp, mb_flags = flags, mb_length = len, mb_fd = fd,
            mb_ref = 1, mb_valid = 1\<rparr> in
        if numMappings = 0 then Ret (start, set_block p 0 b)
        else if numMappings > of_nat MAX_WMMAP_INFO then Fault
        else let (insert_idx, p) = shift_right p start (unat numMappings)
          in Ret (start, set_block p insert_idx b))"

fun find_block :: "mem_block list \<Rightarrow> u32 \<Rightarrow> nat option" where
  "find_block [] addr = None"
| "find_block (b # bs) addr =
     (if mb_valid b \<noteq> 0 \<and> mb_start b = addr then Some 0 else map_option Suc (find_block bs addr))"

fun shift_left :: "proc \<Rightarrow> nat \<Rightarrow> nat \<Rightarrow> proc" where
  "shift_left p i 0 = p"
| "shift_left p i (Suc n) =
     (let w = winfo p in
      shift_left (p\<lparr>arr := (arr p)[i := arr p ! Suc i],
        winfo := w\<lparr>wi_addr := copy_right (wi_addr w) i, wi_length := copy_right (wi_length w) i,
          leftmostLoadedAddr := copy_right (leftmostLoadedAddr w) i,
          n_loaded_pages := copy_right (n_loaded_pages w) i\<rparr>\<rparr>) (Suc i) n)"

definition remove_mapping :: "proc \<Rightarrow> u32 \<Rightarrow> u32 \<times> proc" where
  "remove_mapping p addr =
     (case find_block (take MAX_WMMAP_INFO (arr p)) addr of
        None \<Rightarrow> (0, p)
      | Some found \<Rightarrow>
          let b = arr p ! found;
              b = b\<lparr>mb_ref := mb_ref b - 1\<rparr>;
              p = p\<lparr>arr := (arr p)[found := b]\<rparr>
          in if mb_ref b = 0
             then let w = winfo p;
                 w = w\<lparr>wi_addr := (wi_addr w)[found := 0], wi_length := (wi_length w)[found := 0],
                   leftmostLoadedAddr := (leftmostLoadedAddr w)[found := 0],
                   n_loaded_pages := (n_loaded_pages w)[found := 0], total_mmaps := total_mmaps w - 1\<rparr>;
                 b = b\<lparr>mb_end := 0, mb_flags := 0, mb_length := 0, mb_fd := 0, mb_ref := 0, mb_valid := 0\<rparr>;
                 p = p\<lparr>arr := (arr p)[found := b], winfo := w\<rparr>
               in (1, shift_left p found (MAX_WMMAP_INFO - 1 - found))
             else (1, p))"

section \<open>Choosing an address\<close>

text \<open>
  The search loop of \<^verbatim>\<open>sys_wmap\<close> and \<^verbatim>\<open>sys_wremap\<close>; \<open>prevEnd\<close> and \<open>curStart\<close> are ints, the
  test compares signed.
\<close>

fun find_place :: "mem_block list \<Rightarrow> u32 \<Rightarrow> u32 \<Rightarrow> u32 \<Rightarrow> u32" where
  "find_place [] prevEnd leftmostAddr len = leftmostAddr"
| "find_place (b # bs) prevEnd leftmostAddr len =
     (if mb_valid b = 0 then prevEnd + 1
      else let curStart = mb_start b in
        find_place bs (mb_end b)
          (if PGROUNDUP len <s curStart - prevEnd then prevEnd + 1 else leftmostAddr) len)"

definition wmap_conflict :: "mem_block list \<Rightarrow> u32 \<Rightarrow> u32 \<Rightarrow> bool" where
  "wmap_conflict bs addr endp \<longleftrightarrow>
     list_ex (\<lambda>b. mb_valid b \<noteq> 0 \<and> (addr > mb_start b \<and> addr < mb_end b \<or> endp > mb_start b \<and> endp < mb_end b)) bs"

text \<open>\<^verbatim>\<open>sys_wmap\<close> once its arguments have been fetched.\<close>

definition wmap_body :: "proc \<Rightarrow> u32 \<Rightarrow> u32 \<Rightarrow> u32 \<Rightarrow> u32 \<Rightarrow> (u32 \<times> proc) res" where
  "wmap_body p addr len flags fd =
     (if len <s 1 then Ret (FAILED, p)
      else if flags AND MAP_FIXED \<noteq> 0
      then if addr mod PGSIZE \<noteq> 0 then Ret (FAILED, p)
        else let endp = addr + PGROUNDUP len - 1 in
          if wmap_conflict (take MAX_WMMAP_INFO (arr p)) addr endp then Ret (FAILED, p)
          else insert_mapping p addr endp flags len (total_mmaps (winfo p)) fd
      else if total_mmaps (winfo p) = of_nat MAX_WMMAP_INFO then Ret (FAILED, p)
      else let leftmostAddr = find_place (take MAX_WMMAP_INFO (arr p)) (MIN_ADDR - 1) MIN_ADDR len;
               endp = leftmostAddr + PGROUNDUP len - 1
           in insert_mapping p leftmostAddr endp flags len (total_mmaps (winfo p)) fd)"

section \<open>Remapping\<close>

text \<open>The lookup loops of \<^verbatim>\<open>sys_wunmap\<close> (any start) and \<^verbatim>\<open>sys_wremap\<close> (valid blocks).\<close>

fun find_upto :: "(mem_block \<Rightarrow> bool) \<Rightarrow> mem_block list \<Rightarrow> nat \<Rightarrow> nat option res" where
  "find_upto P bs 0 = Ret None"
| "find_upto P [] (Suc n) = Fault"
| "find_upto P (b # bs) (Suc n) =
     (if P b then Ret (Some 0) else bind_res (find_upto P bs n) (\<lambda>r. Ret (map_option Suc r)))"

definition num_mmaps :: "proc \<Rightarrow> nat" where
  "num_mmaps p = nat (sint (total_mmaps (winfo p)))"


definition wremap_replace :: "proc \<Rightarrow> u32 \<Rightarrow> u32 \<Rightarrow> u32 \<Rightarrow> u32 \<Rightarrow> u32 \<Rightarrow> (u32 \<times> proc) res" where
  "wremap_replace p oldaddr endp old_flags newsize old_fd =
     (let (x, p) = remove_mapping p oldaddr in
      if x \<noteq> 1 then Ret (FAILED, p)
      else bind_res (insert_mapping p oldaddr (endp - 1) old_flags newsize (total_mmaps (winfo p)) old_fd)
        (\<lambda>(x2, p). if x2 \<noteq> - 1 then Ret (x2, p) else Ret (FAILED, p)))"

definition wremap_body :: "proc \<Rightarrow> u32 \<Rightarrow> u32 \<Rightarrow> u32 \<Rightarrow> u32 \<Rightarrow> (u32 \<times> proc) res" where
  "wremap_body p oldaddr oldsize newsize flag =
     (if oldaddr mod PGSIZE \<noteq> 0 then Ret (FAILED, p)
      else bind_res (find_upto (\<lambda>b. mb_valid b = 1 \<and> mb_start b = oldaddr) (arr p) (num_mmaps p)) (\<lambda>r.
        case r of
        None \<Rightarrow> Ret (FAILED, p)
      | Some location \<Rightarrow>
          let old_flags = mb_flags (arr p ! location);
              old_fd = mb_fd (arr p ! location);
              endp = oldaddr + PGROUNDUP newsize
          in if Suc location \<ge> length (arr p) then Fault
          else let nb = arr p ! Suc location in
            if mb_valid nb = 1 \<and> endp < mb_start nb
            then wremap_replace p oldaddr endp old_flags newsize old_fd
            else if mb_valid nb = 0
            then if endp > MAX_ADDR then Ret (FAILED, p)
              else wremap_replace p oldaddr endp old_flags newsize old_fd
            else if flag = 0 then Ret (FAILED, p)
            else let (x3, p) = remove_mapping p oldaddr in
              if x3 \<noteq> 1 then Ret (FAILED, p)
              else let leftmostAddr = find_place (take MAX_WMMAP_INFO (arr p)) (MIN_ADDR - 1) MIN_ADDR newsize;
                       endp = leftmostAddr + PGROUNDUP newsize - 1
                   in insert_mapping p leftmostAddr (endp - 1) old_flags newsize (total_mmaps (winfo p)) old_fd))"

section \<open>Releasing loaded pages\<close>

text \<open>
  The loop of \<^verbatim>\<open>sys_wunmap\<close>. Its counter is an int: the test is signed, and a step past the
  largest int would start over at the smallest.
\<close>

function wunmap_loop :: "'a kmem_st_scheme \<Rightarrow> u32 \<Rightarrow> u32 \<Rightarrow> u32 \<Rightarrow> 'a kmem_st_scheme res" where
  "wunmap_loop s pgd va bound =
     (if va <s bound
      then let (pte, s1) = walkpgdir s pgd va False in
        bind_res
          (if pte \<noteq> 0 \<and> load32 (mem s1) pte AND PTE_P \<noteq> 0
           then let pa = PTE_ADDR (load32 (mem s1) pte) in
             kfree (s1\<lparr>mem := store32 (mem s1) pte 0\<rparr>) (P2V pa)
           else Ret s1)
          (\<lambda>s2. if va + PGSIZE \<le>s va then Diverge else wunmap_loop s2 pgd (va + PGSIZE) bound)
      else Ret s)"
  by pat_completeness auto
termination
proof (relation "measure (\<lambda>(s, pgd, va, bound). nat (2147483648 - sint va))", goal_cases)
  case 1
  then show ?case by simp
next
  case (2 s pgd va bound)
  then have "sint va < sint (va + PGSIZE)" by (simp add: word_sle_eq not_le)
  moreover have "sint (va + PGSIZE) < 2147483648" using sint_lt [of "va + PGSIZE"] by simp
  ultimately show ?case by simp
qed

declare wunmap_loop.simps [simp del]

section \<open>Invariant\<close>

text \<open>
  The first \<open>n\<close> blocks are the mappings, in order of their start, and \<^verbatim>\<open>wmapinfo\<close> describes them.
\<close>

definition wm_ok :: "proc \<Rightarrow> nat \<Rightarrow> bool" where
  "wm_ok p n \<longleftrightarrow> n \<le> 16 \<and> total_mmaps (winfo p) = of_nat n
     \<and> length (arr p) = 16 \<and> length (wi_addr (winfo p)) = 16 \<and> length (wi_length (winfo p)) = 16
     \<and> length (n_loaded_pages (winfo p)) = 16 \<and> length (leftmostLoadedAddr (winfo p)) = 16
     \<and> (\<forall>i < n. mb_valid (arr p ! i) \<noteq> 0) \<and> (\<forall>i. n \<le> i \<and> i < 16 \<longrightarrow> mb_valid (arr p ! i) = 0)
     \<and> sorted (map mb_start (take n (arr p)))
     \<and> (\<forall>i < n. wi_addr (winfo p) ! i = mb_start (arr p ! i) \<and> wi_length (winfo p) ! i = mb_length (arr p ! i))"

definition blocks :: "proc \<Rightarrow> mem_block list" where
  "blocks p = take (unat (total_mmaps (winfo p))) (arr p)"

lemma wm_ok_blocks: "wm_ok p n \<Longrightarrow> blocks p = take n (arr p)"
  by (simp add: wm_ok_def blocks_def unat_of_nat)

lemma length_copy_left [simp]: "length (copy_left xs i) = length xs"
  by (simp add: copy_left_def)

lemma length_copy_right [simp]: "length (copy_right xs i) = length xs"
  by (simp add: copy_right_def)

text \<open>A list after its elements \<open>k..n-1\<close> have moved one place to the right.\<close>

definition moved_right :: "nat \<Rightarrow> nat \<Rightarrow> 'a list \<Rightarrow> 'a list \<Rightarrow> bool" where
  "moved_right k n xs ys \<longleftrightarrow> length ys = length xs
     \<and> (\<forall>j < length xs. ys ! j = (if k < j \<and> j \<le> n then xs ! (j - 1) else xs ! j))"

lemma moved_right_refl: "moved_right n n xs xs"
  by (auto simp: moved_right_def)

lemma moved_right_step:
  assumes "moved_right k i (xs[Suc i := xs ! i]) ys" "k \<le> i" "Suc i < length xs"
  shows "moved_right k (Suc i) xs ys"
  unfolding moved_right_def
proof (intro conjI allI impI)
  show "length ys = length xs" using assms(1) by (simp add: moved_right_def)
  fix j assume j: "j < length xs"
  then have "ys ! j = (if k < j \<and> j \<le> i then xs[Suc i := xs ! i] ! (j - 1) else xs[Suc i := xs ! i] ! j)"
    using assms(1) by (simp add: moved_right_def)
  then show "ys ! j = (if k < j \<and> j \<le> Suc i then xs ! (j - 1) else xs ! j)"
    using assms(2) j by (auto simp: nth_list_update le_Suc_eq)
qed

lemma shift_right_spec:
  assumes "shift_right p s n = (k, p')" "n < length (arr p)" "n < length (wi_addr (winfo p))"
    "n < length (wi_length (winfo p))" "n < length (n_loaded_pages (winfo p))"
  shows "k \<le> n \<and> (\<forall>j. k \<le> j \<and> j < n \<longrightarrow> s < mb_start (arr p ! j))
    \<and> (0 < k \<longrightarrow> mb_start (arr p ! (k - 1)) \<le> s)
    \<and> moved_right k n (arr p) (arr p') \<and> moved_right k n (wi_addr (winfo p)) (wi_addr (winfo p'))
    \<and> moved_right k n (wi_length (winfo p)) (wi_length (winfo p'))
    \<and> moved_right k n (n_loaded_pages (winfo p)) (n_loaded_pages (winfo p'))
    \<and> p' = p\<lparr>arr := arr p', winfo := (winfo p)\<lparr>wi_addr := wi_addr (winfo p'),
        wi_length := wi_length (winfo p'), n_loaded_pages := n_loaded_pages (winfo p')\<rparr>\<rparr>"
  using assms
proof (induction p s n arbitrary: k p' rule: shift_right.induct)
  case (1 p start)
  then show ?case by (auto simp: moved_right_def)
next
  case (2 p start i)
  show ?case
  proof (cases "start < mb_start (arr p ! i)")
    case False
    then show ?thesis using 2(2) by (auto simp: moved_right_refl)
  next
    case True
    let ?w = "winfo p"
    let ?q = "p\<lparr>arr := (arr p)[Suc i := arr p ! i], winfo := ?w\<lparr>wi_addr := copy_left (wi_addr ?w) i,
      wi_length := copy_left (wi_length ?w) i, n_loaded_pages := copy_left (n_loaded_pages ?w) i\<rparr>\<rparr>"
    have "shift_right ?q start i = (k, p')" using 2(2) True by (simp add: Let_def)
    from 2(1) [OF True refl this] 2(3-6)
    have IH: "k \<le> i" "\<forall>j. k \<le> j \<and> j < i \<longrightarrow> start < mb_start (arr ?q ! j)"
      "0 < k \<longrightarrow> mb_start (arr ?q ! (k - 1)) \<le> start"
      "moved_right k i (arr ?q) (arr p')" "moved_right k i (wi_addr (winfo ?q)) (wi_addr (winfo p'))"
      "moved_right k i (wi_length (winfo ?q)) (wi_length (winfo p'))"
      "moved_right k i (n_loaded_pages (winfo ?q)) (n_loaded_pages (winfo p'))"
      "p' = ?q\<lparr>arr := arr p', winfo := (winfo ?q)\<lparr>wi_addr := wi_addr (winfo p'),
        wi_length := wi_length (winfo p'), n_loaded_pages := n_loaded_pages (winfo p')\<rparr>\<rparr>"
      by auto
    have "start < mb_start (arr p ! j)" if "k \<le> j" "j < Suc i" for j
      using IH(2) that True by (cases "j = i") auto
    moreover have "0 < k \<longrightarrow> mb_start (arr p ! (k - 1)) \<le> start" using IH(1,3) by auto
    moreover have "moved_right k (Suc i) (arr p) (arr p')"
      using IH(1,4) 2(3) by (auto intro: moved_right_step)
    moreover have "moved_right k (Suc i) (wi_addr ?w) (wi_addr (winfo p'))"
      using IH(1,5) 2(4) by (auto intro: moved_right_step simp: copy_left_def)
    moreover have "moved_right k (Suc i) (wi_length ?w) (wi_length (winfo p'))"
      using IH(1,6) 2(5) by (auto intro: moved_right_step simp: copy_left_def)
    moreover have "moved_right k (Suc i) (n_loaded_pages ?w) (n_loaded_pages (winfo p'))"
      using IH(1,7) 2(6) by (auto intro: moved_right_step simp: copy_left_def)
    moreover have "p' = p\<lparr>arr := arr p', winfo := ?w\<lparr>wi_addr := wi_addr (winfo p'),
        wi_length := wi_length (winfo p'), n_loaded_pages := n_loaded_pages (winfo p')\<rparr>\<rparr>"
      using IH(8) by simp
    ultimately show ?thesis using IH(1) by simp
  qed
qed

lemma moved_right_insert:
  assumes "moved_right k n xs ys" "k \<le> n" "n < length xs"
  shows "take (Suc n) (ys[k := v]) = take k xs @ v # drop k (take n xs)"
    and "n < i \<Longrightarrow> i < length xs \<Longrightarrow> ys[k := v] ! i = xs ! i"
proof -
  have len: "length ys = length xs" and nth: "\<And>j. j < length xs \<Longrightarrow> ys ! j = (if k < j \<and> j \<le> n then xs ! (j - 1) else xs ! j)"
    using assms(1) by (auto simp: moved_right_def)
  show "take (Suc n) (ys[k := v]) = take k xs @ v # drop k (take n xs)"
  proof (rule nth_equalityI)
    show "length (take (Suc n) (ys[k := v])) = length (take k xs @ v # drop k (take n xs))"
      using assms len by simp
    fix j assume "j < length (take (Suc n) (ys[k := v]))"
    then have j: "j \<le> n" "j < length xs" using assms(3) len by auto
    have idx: "\<not> j < k \<Longrightarrow> j \<noteq> k \<Longrightarrow> k + (j - Suc k) = j - Suc 0" by simp
    show "take (Suc n) (ys[k := v]) ! j = (take k xs @ v # drop k (take n xs)) ! j"
      using j assms(2,3) len nth [of j] idx by (auto simp: nth_append nth_list_update nth_Cons' le_eq_less_or_eq)
  qed
  show "n < i \<Longrightarrow> i < length xs \<Longrightarrow> ys[k := v] ! i = xs ! i" using assms(2) nth [of i] len by simp
qed

lemma moved_right_rel:
  assumes "moved_right k n us vs" "moved_right k n xs ys" "k \<le> n"
    "\<And>i. i < n \<Longrightarrow> us ! i = f (xs ! i)" "i < Suc n" "n < length xs" "n < length us"
  shows "vs[k := f b] ! i = f (ys[k := b] ! i)"
  using assms unfolding moved_right_def by (auto simp: nth_list_update)

text \<open>Insertion into a list sorted by start, after blocks with the same start.\<close>

definition insert_block :: "mem_block \<Rightarrow> mem_block list \<Rightarrow> mem_block list" where
  "insert_block b bs =
     takeWhile (\<lambda>c. mb_start c \<le> mb_start b) bs @ b # dropWhile (\<lambda>c. mb_start c \<le> mb_start b) bs"

lemma split_sorted:
  assumes "sorted (map mb_start bs)" "k \<le> length bs" "\<forall>j. k \<le> j \<and> j < length bs \<longrightarrow> s < mb_start (bs ! j)"
    "0 < k \<longrightarrow> mb_start (bs ! (k - 1)) \<le> s"
  shows "take k bs = takeWhile (\<lambda>c. mb_start c \<le> s) bs" "drop k bs = dropWhile (\<lambda>c. mb_start c \<le> s) bs"
proof -
  have all: "mb_start (bs ! j) \<le> s" if "j < k" for j
  proof -
    have "map mb_start bs ! j \<le> map mb_start bs ! (k - 1)"
      using assms(1,2) that by (intro sorted_nth_mono) auto
    then show ?thesis using assms(2,4) that by auto
  qed
  have hd: "\<not> mb_start (bs ! k) \<le> s" if "k < length bs" using assms(3) that by auto
  have "takeWhile (\<lambda>c. mb_start c \<le> s) bs = take k bs"
    using all hd assms(2) by (intro takeWhile_eq_take_P_nth) auto
  then show t: "take k bs = takeWhile (\<lambda>c. mb_start c \<le> s) bs" ..
  then have "length (takeWhile (\<lambda>c. mb_start c \<le> s) bs) = k" using assms(2) by (metis length_take min.absorb2)
  then show "drop k bs = dropWhile (\<lambda>c. mb_start c \<le> s) bs" by (metis dropWhile_eq_drop)
qed

lemma sorted_insert_block:
  "sorted (map mb_start bs) \<Longrightarrow> sorted (map mb_start (insert_block b bs))"
  by (induction bs) (auto simp: insert_block_def dest!: set_takeWhileD set_dropWhileD)

definition new_block :: "u32 \<Rightarrow> u32 \<Rightarrow> u32 \<Rightarrow> u32 \<Rightarrow> u32 \<Rightarrow> mem_block" where
  "new_block start endp flags len fd = \<lparr>mb_start = start, mb_end = endp, mb_flags = flags, mb_length = len,
     mb_fd = fd, mb_ref = 1, mb_valid = 1\<rparr>"

lemma new_block_simps [simp]:
  "mb_start (new_block s e f l d) = s" "mb_end (new_block s e f l d) = e" "mb_length (new_block s e f l d) = l"
  "mb_valid (new_block s e f l d) = 1" "mb_ref (new_block s e f l d) = 1"
  by (simp_all add: new_block_def)

lemma small_of_nat: "n \<le> 16 \<Longrightarrow> unat (of_nat n :: u32) = n"
  by (simp add: unat_of_nat)

lemma of_nat_16: "n \<le> 16 \<Longrightarrow> (of_nat n :: u32) = 16 \<longleftrightarrow> n = 16"
  using small_of_nat [of n] by (auto simp: word_unat_eq_iff)

lemma of_nat_le_16: "n \<le> 16 \<Longrightarrow> \<not> (of_nat n :: u32) > 16"
  using small_of_nat [of n] by (auto simp: word_less_nat_alt)

lemma of_nat_eq_0: "n \<le> 16 \<Longrightarrow> (of_nat n :: u32) = 0 \<longleftrightarrow> n = 0"
  using small_of_nat [of n] by (auto simp: word_unat_eq_iff)

lemma set_block_simps [simp]:
  "arr (set_block p i b) = (arr p)[i := b]"
  "wi_addr (winfo (set_block p i b)) = (wi_addr (winfo p))[i := mb_start b]"
  "wi_length (winfo (set_block p i b)) = (wi_length (winfo p))[i := mb_length b]"
  "n_loaded_pages (winfo (set_block p i b)) = n_loaded_pages (winfo p)"
  "leftmostLoadedAddr (winfo (set_block p i b)) = leftmostLoadedAddr (winfo p)"
  "total_mmaps (winfo (set_block p i b)) = total_mmaps (winfo p) + 1"
  by (simp_all add: set_block_def Let_def)

text \<open>Both branches of \<^verbatim>\<open>insert_mapping\<close> shift and then fill the slot that became free.\<close>

lemma insert_mapping_eq:
  assumes "n < 16" "shift_right p start n = (k, p')"
  shows "insert_mapping p start endp flags len (of_nat n) fd =
    Ret (start, set_block p' k (new_block start endp flags len fd))"
proof (cases "n = 0")
  case True
  then show ?thesis using assms(2) by (simp add: insert_mapping_def new_block_def)
next
  case False
  then show ?thesis
    using assms of_nat_16 [of n] of_nat_le_16 [of n] of_nat_eq_0 [of n] small_of_nat [of n]
    by (simp add: insert_mapping_def new_block_def)
qed

lemma insert_mapping_wm_ok:
  assumes "wm_ok p n" "n < 16"
  shows "\<exists>p'. insert_mapping p start endp flags len (total_mmaps (winfo p)) fd = Ret (start, p')
    \<and> wm_ok p' (Suc n) \<and> blocks p' = insert_block (new_block start endp flags len fd) (blocks p)
    \<and> p' = p\<lparr>arr := arr p', winfo := winfo p'\<rparr> \<and> leftmostLoadedAddr (winfo p') = leftmostLoadedAddr (winfo p)"
proof -
  let ?b = "new_block start endp flags len fd"
  obtain k q where q: "shift_right p start n = (k, q)" by force
  have L: "length (arr p) = 16" "length (wi_addr (winfo p)) = 16" "length (wi_length (winfo p)) = 16"
      "length (n_loaded_pages (winfo p)) = 16" "length (leftmostLoadedAddr (winfo p)) = 16"
      "total_mmaps (winfo p) = of_nat n" "sorted (map mb_start (take n (arr p)))"
    and V: "\<And>i. i < n \<Longrightarrow> mb_valid (arr p ! i) \<noteq> 0" "\<And>i. n \<le> i \<Longrightarrow> i < 16 \<Longrightarrow> mb_valid (arr p ! i) = 0"
    and W: "\<And>i. i < n \<Longrightarrow> wi_addr (winfo p) ! i = mb_start (arr p ! i)"
      "\<And>i. i < n \<Longrightarrow> wi_length (winfo p) ! i = mb_length (arr p ! i)"
    using assms(1) by (auto simp: wm_ok_def)
  have S: "k \<le> n" "\<forall>j. k \<le> j \<and> j < n \<longrightarrow> start < mb_start (arr p ! j)"
      "0 < k \<longrightarrow> mb_start (arr p ! (k - 1)) \<le> start"
      "moved_right k n (arr p) (arr q)" "moved_right k n (wi_addr (winfo p)) (wi_addr (winfo q))"
      "moved_right k n (wi_length (winfo p)) (wi_length (winfo q))"
      "moved_right k n (n_loaded_pages (winfo p)) (n_loaded_pages (winfo q))"
    and Q: "q = p\<lparr>arr := arr q, winfo := (winfo p)\<lparr>wi_addr := wi_addr (winfo q),
        wi_length := wi_length (winfo q), n_loaded_pages := n_loaded_pages (winfo q)\<rparr>\<rparr>"
    using shift_right_spec [OF q] L assms(2) by auto
  let ?p' = "set_block q k ?b"
  have arr': "take (Suc n) (arr ?p') = take k (arr p) @ ?b # drop k (take n (arr p))"
    using moved_right_insert(1) [OF S(4,1)] L(1) assms(2) by simp
  also have "\<dots> = insert_block ?b (take n (arr p))"
    using split_sorted [OF L(7), of k start] S(1-3) L(1) assms(2) by (auto simp: insert_block_def)
  finally have arr': "take (Suc n) (arr ?p') = insert_block ?b (take n (arr p))" .
  have tot: "total_mmaps (winfo ?p') = of_nat (Suc n)"
    using L(6) by (subst Q) simp
  have "wm_ok ?p' (Suc n)"
    unfolding wm_ok_def
  proof (intro conjI allI impI)
    show "sorted (map mb_start (take (Suc n) (arr ?p')))"
      unfolding arr' using L(7) by (rule sorted_insert_block)
    fix i
    show "mb_valid (arr ?p' ! i) \<noteq> 0" if "i < Suc n"
    proof -
      have "arr ?p' ! i = take (Suc n) (arr ?p') ! i" using that by simp
      also have "\<dots> \<in> set (take (Suc n) (arr ?p'))"
        using that S(4) L(1) assms(2) by (intro nth_mem) (simp add: moved_right_def)
      also have "\<dots> \<subseteq> insert ?b (set (take n (arr p)))"
        unfolding arr' by (auto simp: insert_block_def dest: set_takeWhileD set_dropWhileD)
      finally have m: "arr ?p' ! i \<in> insert ?b (set (take n (arr p)))" .
      have "mb_valid b \<noteq> 0" if "b \<in> set (take n (arr p))" for b
        using that V(1) by (auto simp: in_set_conv_nth)
      then show ?thesis using m by (cases "arr ?p' ! i = ?b") auto
    qed
    show "mb_valid (arr ?p' ! i) = 0" if "Suc n \<le> i \<and> i < 16"
      using moved_right_insert(2) [OF S(4,1), of i ?b] V(2) [of i] that L(1) assms(2) by simp
    show "wi_addr (winfo ?p') ! i = mb_start (arr ?p' ! i)" if "i < Suc n"
      using moved_right_rel [OF S(5,4,1), where f = mb_start and b = ?b and i = i] W(1) L that assms(2) by simp
    show "wi_length (winfo ?p') ! i = mb_length (arr ?p' ! i)" if "i < Suc n"
      using moved_right_rel [OF S(6,4,1), where f = mb_length and b = ?b and i = i] W(2) L that assms(2) by simp
  next
    show "length (leftmostLoadedAddr (winfo ?p')) = 16" using L by (subst Q) simp
  qed (use S L assms(2) tot in \<open>simp_all add: moved_right_def\<close>)
  moreover have "blocks ?p' = insert_block ?b (blocks p)"
    using arr' wm_ok_blocks [OF calculation] wm_ok_blocks [OF assms(1)] by simp
  moreover have "?p' = p\<lparr>arr := arr ?p', winfo := winfo ?p'\<rparr>"
  proof -
    obtain A W where "q = p\<lparr>arr := A, winfo := W\<rparr>" using Q by blast
    then show ?thesis by (simp add: set_block_def Let_def)
  qed
  moreover have "leftmostLoadedAddr (winfo ?p') = leftmostLoadedAddr (winfo p)"
    by (subst Q) simp
  ultimately show ?thesis using insert_mapping_eq [OF assms(2) q] L(6) by auto
qed

section \<open>Removal\<close>

lemma find_block_Some:
  "find_block bs addr = Some f \<longleftrightarrow> f < length bs \<and> mb_valid (bs ! f) \<noteq> 0 \<and> mb_start (bs ! f) = addr
    \<and> (\<forall>j < f. \<not> (mb_valid (bs ! j) \<noteq> 0 \<and> mb_start (bs ! j) = addr))"
proof (induction bs arbitrary: f)
  case Nil
  then show ?case by simp
next
  case (Cons b bs)
  show ?case
  proof (cases f)
    case 0
    then show ?thesis by auto
  next
    case (Suc g)
    then show ?thesis using Cons.IH [of g] by (auto simp: less_Suc_eq_0_disj)
  qed
qed

lemma find_block_None:
  "find_block bs addr = None \<longleftrightarrow> (\<forall>b \<in> set bs. \<not> (mb_valid b \<noteq> 0 \<and> mb_start b = addr))"
  by (induction bs) auto

text \<open>A list after the elements from \<open>i + 1\<close> to \<open>i + n\<close> have moved one place to the left.\<close>

definition moved_left :: "nat \<Rightarrow> nat \<Rightarrow> 'a list \<Rightarrow> 'a list \<Rightarrow> bool" where
  "moved_left i n xs ys \<longleftrightarrow> length ys = length xs
     \<and> (\<forall>j < length xs. ys ! j = (if i \<le> j \<and> j < i + n then xs ! Suc j else xs ! j))"

lemma moved_left_step:
  assumes "moved_left (Suc i) n (xs[i := xs ! Suc i]) ys" "Suc (i + n) < length xs"
  shows "moved_left i (Suc n) xs ys"
  unfolding moved_left_def
proof (intro conjI allI impI)
  show "length ys = length xs" using assms(1) by (simp add: moved_left_def)
  fix j assume "j < length xs"
  then show "ys ! j = (if i \<le> j \<and> j < i + Suc n then xs ! Suc j else xs ! j)"
    using assms by (cases "j = i") (auto simp: moved_left_def nth_list_update)
qed

lemma shift_left_spec:
  assumes "i + n < length (arr p)" "i + n < length (wi_addr (winfo p))" "i + n < length (wi_length (winfo p))"
  defines "q \<equiv> shift_left p i n"
  shows "moved_left i n (arr p) (arr q) \<and> moved_left i n (wi_addr (winfo p)) (wi_addr (winfo q))
    \<and> moved_left i n (wi_length (winfo p)) (wi_length (winfo q))
    \<and> length (n_loaded_pages (winfo q)) = length (n_loaded_pages (winfo p))
    \<and> length (leftmostLoadedAddr (winfo q)) = length (leftmostLoadedAddr (winfo p))
    \<and> total_mmaps (winfo q) = total_mmaps (winfo p) \<and> q = p\<lparr>arr := arr q, winfo := winfo q\<rparr>"
  using assms(1-3) unfolding q_def
proof (induction p i n rule: shift_left.induct)
  case (1 p i)
  then show ?case by (auto simp: moved_left_def)
next
  case (2 p i n)
  let ?w = "winfo p"
  let ?q = "p\<lparr>arr := (arr p)[i := arr p ! Suc i], winfo := ?w\<lparr>wi_addr := copy_right (wi_addr ?w) i,
      wi_length := copy_right (wi_length ?w) i, leftmostLoadedAddr := copy_right (leftmostLoadedAddr ?w) i,
      n_loaded_pages := copy_right (n_loaded_pages ?w) i\<rparr>\<rparr>"
  have eq: "shift_left p i (Suc n) = shift_left ?q (Suc i) n" by (simp add: Let_def)
  show ?case
    unfolding eq using 2(1) [OF refl] 2(2-4)
    by (auto intro!: moved_left_step simp: copy_right_def)
qed

lemma moved_left_take:
  assumes "moved_left f (15 - f) xs ys" "length xs = 16" "f < n" "n \<le> 15"
  shows "take (n - 1) ys = take f xs @ drop (Suc f) (take n xs)"
proof (rule nth_equalityI)
  show "length (take (n - 1) ys) = length (take f xs @ drop (Suc f) (take n xs))"
    using assms by (simp add: moved_left_def)
  fix j assume "j < length (take (n - 1) ys)"
  then have j: "j < n - 1" "j < 15" using assms by (auto simp: moved_left_def)
  then show "take (n - 1) ys ! j = (take f xs @ drop (Suc f) (take n xs)) ! j"
    using assms by (auto simp: moved_left_def nth_append)
qed

definition remove_at :: "nat \<Rightarrow> 'a list \<Rightarrow> 'a list" where
  "remove_at f xs = take f xs @ drop (Suc f) xs"

lemma remove_at_simps [simp]: "remove_at 0 (x # xs) = xs" "remove_at (Suc f) (x # xs) = x # remove_at f xs"
  by (simp_all add: remove_at_def)

lemma set_remove_at: "set (remove_at f xs) \<subseteq> set xs"
  by (auto simp: remove_at_def dest: in_set_takeD in_set_dropD)

lemma sorted_remove_at: "sorted (map g xs) \<Longrightarrow> sorted (map g (remove_at f xs))"
proof (induction xs arbitrary: f)
  case Nil
  then show ?case by (simp add: remove_at_def)
next
  case (Cons x xs)
  then show ?case by (cases f) (auto dest: set_remove_at [THEN subsetD])
qed

lemma remove_mapping_absent:
  assumes "wm_ok p n" "\<forall>b \<in> set (blocks p). mb_start b \<noteq> addr"
  shows "remove_mapping p addr = (0, p)"
proof -
  have "\<not> (mb_valid b \<noteq> 0 \<and> mb_start b = addr)" if b: "b \<in> set (take 16 (arr p))" for b
  proof -
    obtain i where i: "i < 16" "b = arr p ! i" using b assms(1) by (auto simp: in_set_conv_nth wm_ok_def)
    show ?thesis
    proof (cases "i < n")
      case True
      then have "b \<in> set (blocks p)"
        using i assms(1) wm_ok_blocks [OF assms(1)] by (auto simp: in_set_conv_nth wm_ok_def)
      then show ?thesis using assms(2) by simp
    next
      case False
      then show ?thesis using i assms(1) by (simp add: wm_ok_def)
    qed
  qed
  then show ?thesis by (auto simp: remove_mapping_def find_block_None [THEN iffD2])
qed

lemma find_block_blocks:
  assumes "wm_ok p n" "f < n" "mb_start (arr p ! f) = addr" "\<forall>j < f. mb_start (arr p ! j) \<noteq> addr"
  shows "find_block (take 16 (arr p)) addr = Some f"
  using assms by (subst find_block_Some) (auto simp: wm_ok_def)

lemma remove_mapping_wm_ok:
  assumes ok: "wm_ok p n" and n: "n < 16" and f: "f < n" "mb_start (arr p ! f) = addr"
    "\<forall>j < f. mb_start (arr p ! j) \<noteq> addr" and ref: "mb_ref (arr p ! f) = 1"
  shows "\<exists>p'. remove_mapping p addr = (1, p') \<and> wm_ok p' (n - 1) \<and> blocks p' = remove_at f (blocks p)
    \<and> p' = p\<lparr>arr := arr p', winfo := winfo p'\<rparr>"
proof -
  have L: "length (arr p) = 16" "length (wi_addr (winfo p)) = 16" "length (wi_length (winfo p)) = 16"
      "length (n_loaded_pages (winfo p)) = 16" "length (leftmostLoadedAddr (winfo p)) = 16"
      "total_mmaps (winfo p) = of_nat n" "sorted (map mb_start (take n (arr p)))"
    and V: "\<And>i. i < n \<Longrightarrow> mb_valid (arr p ! i) \<noteq> 0" "\<And>i. n \<le> i \<Longrightarrow> i < 16 \<Longrightarrow> mb_valid (arr p ! i) = 0"
    and W: "\<And>i. i < n \<Longrightarrow> wi_addr (winfo p) ! i = mb_start (arr p ! i)"
      "\<And>i. i < n \<Longrightarrow> wi_length (winfo p) ! i = mb_length (arr p ! i)"
    using ok by (auto simp: wm_ok_def)
  let ?w = "winfo p"
  define b where "b = (arr p ! f)\<lparr>mb_end := 0, mb_flags := 0, mb_length := 0, mb_fd := 0, mb_ref := 0, mb_valid := 0\<rparr>"
  define q where "q = p\<lparr>arr := (arr p)[f := b], winfo := ?w\<lparr>wi_addr := (wi_addr ?w)[f := 0],
    wi_length := (wi_length ?w)[f := 0], leftmostLoadedAddr := (leftmostLoadedAddr ?w)[f := 0],
    n_loaded_pages := (n_loaded_pages ?w)[f := 0], total_mmaps := total_mmaps ?w - 1\<rparr>\<rparr>"
  define p' where "p' = shift_left q f (15 - f)"
  have rm: "remove_mapping p addr = (1, p')"
    using find_block_blocks [OF ok f] ref L f(1) n
    by (simp add: remove_mapping_def Let_def p'_def q_def b_def)
  have S: "moved_left f (15 - f) (arr q) (arr p')" "moved_left f (15 - f) (wi_addr (winfo q)) (wi_addr (winfo p'))"
      "moved_left f (15 - f) (wi_length (winfo q)) (wi_length (winfo p'))"
      "length (n_loaded_pages (winfo p')) = 16" "length (leftmostLoadedAddr (winfo p')) = 16"
      "total_mmaps (winfo p') = of_nat n - 1" "p' = q\<lparr>arr := arr p', winfo := winfo p'\<rparr>"
    using shift_left_spec [of f "15 - f" q] L f(1) n unfolding p'_def by (auto simp: q_def)
  have tot: "total_mmaps (winfo p') = of_nat (n - 1)" using S(6) f(1) by (simp add: of_nat_diff)
  have arr': "take (n - 1) (arr p') = remove_at f (take n (arr p))"
    using moved_left_take [OF S(1), of n] f(1) n L(1) by (simp add: q_def remove_at_def take_update_swap list_update_beyond)
  have nth': "arr p' ! j = (if f \<le> j \<and> j < 15 then arr p ! Suc j else arr p ! j)" if "j < 16" for j
    using S(1) L(1) that f(1) n by (auto simp: moved_left_def q_def nth_list_update)
  have le: "i < n - 1 \<Longrightarrow> Suc i < n \<and> i < n \<and> i < 16" for i using n by auto
  have ok': "wm_ok p' (n - 1)"
    unfolding wm_ok_def
  proof (intro conjI allI impI)
    show "sorted (map mb_start (take (n - 1) (arr p')))"
      unfolding arr' using L(7) by (rule sorted_remove_at)
    fix i
    show "mb_valid (arr p' ! i) \<noteq> 0" if "i < n - 1"
      using nth' [of i] le [OF that] V(1) [of "Suc i"] V(1) [of i] by (auto split: if_splits)
    show "mb_valid (arr p' ! i) = 0" if "n - 1 \<le> i \<and> i < 16"
      using nth' [of i] that V(2) [of "Suc i"] V(2) [of i] n f(1) by (cases "i = 15") auto
    show "wi_addr (winfo p') ! i = mb_start (arr p' ! i)" if "i < n - 1"
      using nth' [of i] le [OF that] W(1) [of "Suc i"] W(1) [of i] n S(2) L f(1)
      by (auto simp: moved_left_def q_def nth_list_update)
    show "wi_length (winfo p') ! i = mb_length (arr p' ! i)" if "i < n - 1"
      using nth' [of i] le [OF that] W(2) [of "Suc i"] W(2) [of i] n S(3) L f(1)
      by (auto simp: moved_left_def q_def nth_list_update)
  qed (use S L n tot in \<open>simp_all add: moved_left_def q_def\<close>)
  have "blocks p' = remove_at f (blocks p)"
    using arr' wm_ok_blocks [OF ok'] wm_ok_blocks [OF ok] by simp
  moreover have "p' = p\<lparr>arr := arr p', winfo := winfo p'\<rparr>" by (subst S(7)) (simp add: q_def)
  ultimately show ?thesis using rm ok' by blast
qed

section \<open>Placement\<close>

lemma last_take: "0 < n \<Longrightarrow> n \<le> length xs \<Longrightarrow> last (take n xs) = xs ! (n - 1)"
  by (subst last_conv_nth) auto





text \<open>Mappings as they should be: intervals in ascending order that do not meet.\<close>

definition regions_ok :: "mem_block list \<Rightarrow> bool" where
  "regions_ok bs \<longleftrightarrow> (\<forall>b \<in> set bs. mb_start b \<le> mb_end b) \<and> sorted_wrt (\<lambda>a b. mb_end a < mb_start b) bs"


lemma insert_block_last:
  assumes "\<forall>c \<in> set bs. mb_start c \<le> mb_start b"
  shows "insert_block b bs = bs @ [b]"
proof -
  have "takeWhile (\<lambda>c. mb_start c \<le> mb_start b) bs = bs" using assms by (simp add: takeWhile_eq_all_conv)
  moreover have "dropWhile (\<lambda>c. mb_start c \<le> mb_start b) bs = []" using assms by (simp add: dropWhile_eq_Nil_conv)
  ultimately show ?thesis by (simp add: insert_block_def)
qed


section \<open>Properties\<close>

text \<open>A process without mappings, as \<^verbatim>\<open>allocproc\<close> leaves it, and concrete mappings.\<close>

definition with_blocks :: "proc \<Rightarrow> mem_block list \<Rightarrow> proc" where
  "with_blocks p bs = p\<lparr>arr := bs @ replicate (16 - length bs) no_block,
     winfo := empty_winfo\<lparr>total_mmaps := of_nat (length bs),
       wi_addr := map mb_start bs @ replicate (16 - length bs) 0,
       wi_length := map mb_length bs @ replicate (16 - length bs) 0\<rparr>\<rparr>"

lemma wm_ok_with_blocks:
  assumes "length bs \<le> 16" "\<forall>b \<in> set bs. mb_valid b \<noteq> 0" "sorted (map mb_start bs)"
  shows "wm_ok (with_blocks p bs) (length bs)"
  using assms by (auto simp: wm_ok_def with_blocks_def empty_winfo_def nth_append no_block_def)

lemma blocks_with_blocks: "length bs \<le> 16 \<Longrightarrow> blocks (with_blocks p bs) = bs"
  by (simp add: blocks_def with_blocks_def small_of_nat)

text \<open>
  C8: \<^verbatim>\<open>insert_mapping\<close> keeps the table sorted. On a well-formed table with a free slot it
  returns \<open>start\<close>; the mappings afterwards are the old ones with the new one inserted at its
  place in the order of addresses, \<^verbatim>\<open>wmapinfo\<close> describes them, and nothing else of the process
  changes. A full table is left alone and the call fails.
\<close>

theorem insert_mapping_correct:
  assumes "wm_ok p n"
  shows "if n = 16 then insert_mapping p start endp flags len (total_mmaps (winfo p)) fd = Ret (FAILED, p)
    else \<exists>p'. insert_mapping p start endp flags len (total_mmaps (winfo p)) fd = Ret (start, p')
      \<and> wm_ok p' (Suc n) \<and> blocks p' = insert_block (new_block start endp flags len fd) (blocks p)
      \<and> p' = p\<lparr>arr := arr p', winfo := winfo p'\<rparr>"
proof (cases "n = 16")
  case True
  then show ?thesis using assms by (simp add: insert_mapping_def wm_ok_def)
next
  case False
  then have "n < 16" using assms by (simp add: wm_ok_def)
  then show ?thesis using insert_mapping_wm_ok [OF assms, of start endp flags len fd] False by auto
qed

theorem insert_mapping_correct_witness:
  "\<exists>p'. insert_mapping (with_blocks zero_proc [new_block 0x60000000 0x60000FFF 4 4096 0, new_block 0x60005000 0x60005FFF 4 4096 0])
      0x60002000 0x60002FFF 6 100 (total_mmaps (winfo (with_blocks zero_proc
        [new_block 0x60000000 0x60000FFF 4 4096 0, new_block 0x60005000 0x60005FFF 4 4096 0]))) 3 = Ret (0x60002000, p')
    \<and> map mb_start (blocks p') = [0x60000000, 0x60002000, 0x60005000]"
proof -
  let ?bs = "[new_block 0x60000000 0x60000FFF 4 4096 0, new_block 0x60005000 0x60005FFF 4 4096 0]"
  have "wm_ok (with_blocks zero_proc ?bs) (Suc (Suc 0))" using wm_ok_with_blocks [of ?bs zero_proc] by simp
  from insert_mapping_correct [OF this, of "0x60002000" "0x60002FFF" 6 100 3] show ?thesis
    by (auto simp: blocks_with_blocks insert_block_def)
qed

text \<open>
  C9: \<^verbatim>\<open>remove_mapping\<close> of a mapping with one reference. In a well-formed table that is not
  full it returns 1, takes exactly the first block that starts at \<open>addr\<close> out of the table, and
  leaves a well-formed table. Without such a block it returns 0 and changes nothing.
\<close>

theorem remove_mapping_correct:
  assumes "wm_ok p n" "n < 16" "\<forall>b \<in> set (blocks p). mb_ref b = 1"
  shows "case find_block (blocks p) addr of
      None \<Rightarrow> remove_mapping p addr = (0, p)
    | Some f \<Rightarrow> \<exists>p'. remove_mapping p addr = (1, p') \<and> wm_ok p' (n - 1) \<and> blocks p' = remove_at f (blocks p)
        \<and> p' = p\<lparr>arr := arr p', winfo := winfo p'\<rparr>"
proof -
  have bl: "blocks p = take n (arr p)" using assms(1) by (rule wm_ok_blocks)
  have L: "length (arr p) = 16" "\<And>i. i < n \<Longrightarrow> mb_valid (arr p ! i) \<noteq> 0" using assms(1) by (auto simp: wm_ok_def)
  have v: "mb_valid b \<noteq> 0" if "b \<in> set (blocks p)" for b
    using that L assms(2) by (auto simp: bl in_set_conv_nth)
  show ?thesis
  proof (cases "find_block (blocks p) addr")
    case None
    then have "\<forall>b \<in> set (blocks p). mb_start b \<noteq> addr" using v by (auto simp: find_block_None)
    then show ?thesis using remove_mapping_absent [OF assms(1)] None by simp
  next
    case (Some f)
    then have f: "f < n" "mb_start (arr p ! f) = addr" "\<forall>j < f. mb_start (arr p ! j) \<noteq> addr"
      using L assms(2) by (auto simp: find_block_Some bl)
    have "arr p ! f \<in> set (blocks p)" using f(1) L(1) assms(2) by (auto simp: bl in_set_conv_nth)
    then have "mb_ref (arr p ! f) = 1" using assms(3) by blast
    then show ?thesis using Some remove_mapping_wm_ok [OF assms(1,2) f] by simp
  qed
qed

theorem remove_mapping_correct_witness:
  "\<exists>p'. remove_mapping (with_blocks zero_proc [new_block 0x60000000 0x60000FFF 4 4096 0, new_block 0x60005000 0x60005FFF 4 4096 0])
      0x60000000 = (1, p') \<and> map mb_start (blocks p') = [0x60005000]"
proof -
  let ?bs = "[new_block 0x60000000 0x60000FFF 4 4096 0, new_block 0x60005000 0x60005FFF 4 4096 0]"
  have ok: "wm_ok (with_blocks zero_proc ?bs) (Suc (Suc 0))" using wm_ok_with_blocks [of ?bs zero_proc] by simp
  show ?thesis using remove_mapping_correct [OF ok, of "0x60000000"] by (auto simp: blocks_with_blocks)
qed

text \<open>
  Removing what was just inserted restores the mappings: after \<^verbatim>\<open>insert_mapping\<close> at an
  address no other mapping starts at, \<^verbatim>\<open>remove_mapping\<close> of that address leaves exactly the
  blocks that were there before.
\<close>

lemma insert_then_remove:
  assumes "wm_ok p n" "n < 15" "\<forall>b \<in> set (blocks p). mb_start b \<noteq> start"
  shows "\<exists>p1 p2. insert_mapping p start endp flags len (total_mmaps (winfo p)) fd = Ret (start, p1)
    \<and> remove_mapping p1 start = (1, p2) \<and> wm_ok p2 n \<and> blocks p2 = blocks p"
proof -
  let ?b = "new_block start endp flags len fd"
  obtain p1 where p1: "insert_mapping p start endp flags len (total_mmaps (winfo p)) fd = Ret (start, p1)"
      "wm_ok p1 (Suc n)" "blocks p1 = insert_block ?b (blocks p)"
    using insert_mapping_wm_ok [OF assms(1), of start endp flags len fd] assms(2) by auto
  let ?f = "length (takeWhile (\<lambda>c. mb_start c \<le> start) (blocks p))"
  have bl1: "blocks p1 = take (Suc n) (arr p1)" using p1(2) by (rule wm_ok_blocks)
  have len: "length (blocks p) = n" "length (arr p1) = 16"
    using wm_ok_blocks [OF assms(1)] assms(1) p1(2) by (auto simp: wm_ok_def)
  have f: "?f < Suc n" using length_takeWhile_le [of "\<lambda>c. mb_start c \<le> start" "blocks p"] len(1) by simp
  have nth: "arr p1 ! j = insert_block ?b (blocks p) ! j" if "j < Suc n" for j
    using that bl1 p1(3) by (metis nth_take)
  then have at: "arr p1 ! ?f = ?b" using f by (simp add: insert_block_def nth_append)
  have before: "mb_start (arr p1 ! j) \<noteq> start" if "j < ?f" for j
  proof -
    have "arr p1 ! j = takeWhile (\<lambda>c. mb_start c \<le> start) (blocks p) ! j"
      using nth [of j] that f by (simp add: insert_block_def nth_append)
    then have "arr p1 ! j \<in> set (blocks p)" using that by (metis nth_mem set_takeWhileD)
    then show ?thesis using assms(3) by blast
  qed
  obtain p2 where "remove_mapping p1 start = (1, p2)" "wm_ok p2 n" "blocks p2 = remove_at ?f (blocks p1)"
    using remove_mapping_wm_ok [OF p1(2) _ f, of start] assms(2) at before by auto
  moreover have "remove_at ?f (blocks p1) = blocks p"
    unfolding p1(3) remove_at_def insert_block_def by simp
  ultimately show ?thesis using p1(1) by auto
qed

lemma insert_then_remove_witness:
  "\<exists>p1 p2. insert_mapping (with_blocks zero_proc [new_block 0x60005000 0x60005FFF 4 4096 0])
      0x60002000 0x60002FFF 6 100 (total_mmaps (winfo (with_blocks zero_proc [new_block 0x60005000 0x60005FFF 4 4096 0]))) 3
        = Ret (0x60002000, p1)
    \<and> remove_mapping p1 0x60002000 = (1, p2) \<and> wm_ok p2 (Suc 0)
    \<and> blocks p2 = blocks (with_blocks zero_proc [new_block 0x60005000 0x60005FFF 4 4096 0])"
  using wm_ok_with_blocks [of "[new_block 0x60005000 0x60005FFF 4 4096 0]" zero_proc]
  by (intro insert_then_remove) (simp_all add: blocks_with_blocks)



text \<open>
  C26: \<^verbatim>\<open>wmap\<close> with \<^verbatim>\<open>MAP_FIXED\<close> accepts a request that covers existing mappings. The overlap
  test only asks whether an end of the new range lies strictly inside an old one; when every
  old mapping lies within the new range, the request is granted and the table then holds
  mappings that overlap.
\<close>

theorem wmap_fixed_covering:
  assumes "wm_ok p n" "n < 16" "\<not> len <s 1" "flags AND MAP_FIXED \<noteq> 0" "addr mod PGSIZE = 0"
    "\<forall>b \<in> set (blocks p). addr \<le> mb_start b \<and> mb_end b \<le> addr + PGROUNDUP len - 1"
  shows "\<exists>p'. wmap_body p addr len flags fd = Ret (addr, p') \<and> wm_ok p' (Suc n)
    \<and> blocks p' = insert_block (new_block addr (addr + PGROUNDUP len - 1) flags len fd) (blocks p)"
proof -
  have L: "length (arr p) = 16" "\<And>i. n \<le> i \<Longrightarrow> i < 16 \<Longrightarrow> mb_valid (arr p ! i) = 0" using assms(1) by (auto simp: wm_ok_def)
  have "b \<in> set (blocks p) \<or> mb_valid b = 0" if b: "b \<in> set (take 16 (arr p))" for b
  proof -
    obtain i where "i < 16" "b = arr p ! i" using b L(1) by (auto simp: in_set_conv_nth)
    then show ?thesis using L wm_ok_blocks [OF assms(1)] by (cases "i < n") (auto simp: in_set_conv_nth)
  qed
  then have "\<not> wmap_conflict (take 16 (arr p)) addr (addr + PGROUNDUP len - 1)"
    using assms(6) unfolding wmap_conflict_def list_ex_iff by (meson leD)
  then have "wmap_body p addr len flags fd =
      insert_mapping p addr (addr + PGROUNDUP len - 1) flags len (total_mmaps (winfo p)) fd"
    using assms(3-5) by (simp add: wmap_body_def Let_def)
  then show ?thesis using insert_mapping_wm_ok [OF assms(1,2)] by metis
qed

theorem wmap_fixed_covering_witness:
  "\<exists>p'. wmap_body (with_blocks zero_proc [new_block 0x60001000 0x60001FFF 4 4096 0]) 0x60000000 0x3000 14 0 = Ret (0x60000000, p')
    \<and> wm_ok p' (Suc (Suc 0))
    \<and> blocks p' = [new_block 0x60000000 0x60002FFF 14 0x3000 0, new_block 0x60001000 0x60001FFF 4 4096 0]
    \<and> \<not> regions_ok (blocks p')"
proof -
  let ?b = "new_block 0x60001000 0x60001FFF 4 4096 0"
  have "wm_ok (with_blocks zero_proc [?b]) (Suc 0)" using wm_ok_with_blocks [of "[?b]" zero_proc] by simp
  from wmap_fixed_covering [OF this, of "0x3000" 14 "0x60000000" 0] show ?thesis
    by (auto simp: blocks_with_blocks insert_block_def regions_ok_def PGROUNDUP_def word_sless_alt)
qed

text \<open>
  C27: removing from a full table. With sixteen mappings, \<^verbatim>\<open>remove_mapping\<close> shifts slots to the
  left but leaves the last slot as it was: fifteen mappings are counted, and slot 15 is still a
  valid block, a copy of the one now in slot 14.
\<close>

theorem remove_from_full_table:
  assumes "wm_ok p 16" "f < 15" "mb_start (arr p ! f) = addr" "\<forall>j < f. mb_start (arr p ! j) \<noteq> addr"
    "mb_ref (arr p ! f) = 1"
  shows "\<exists>p'. remove_mapping p addr = (1, p') \<and> total_mmaps (winfo p') = 15
    \<and> mb_valid (arr p' ! 15) \<noteq> 0 \<and> arr p' ! 15 = arr p' ! 14"
proof -
  have L: "length (arr p) = 16" "length (wi_addr (winfo p)) = 16" "length (wi_length (winfo p)) = 16"
      "length (n_loaded_pages (winfo p)) = 16" "length (leftmostLoadedAddr (winfo p)) = 16"
      "total_mmaps (winfo p) = 16" "mb_valid (arr p ! 15) \<noteq> 0"
    using assms(1) by (simp_all add: wm_ok_def)
  have fb: "find_block (take 16 (arr p)) addr = Some f"
    using assms(2) by (intro find_block_blocks [OF assms(1) _ assms(3,4)]) simp
  obtain q where rm: "remove_mapping p addr = (1, shift_left q f (15 - f))" and
      q: "length (arr q) = 16" "length (wi_addr (winfo q)) = 16" "length (wi_length (winfo q)) = 16"
        "total_mmaps (winfo q) = 15" "arr q ! 15 = arr p ! 15"
    using fb assms(2,5) L by (simp add: remove_mapping_def Let_def)
  let ?p' = "shift_left q f (15 - f)"
  have S: "moved_left f (15 - f) (arr q) (arr ?p')" "total_mmaps (winfo ?p') = 15"
    using shift_left_spec [of f "15 - f" q] q assms(2) by auto
  then have "arr ?p' ! 15 = arr p ! 15" "arr ?p' ! 14 = arr p ! 15"
    using q(1,5) assms(2) by (auto simp: moved_left_def)
  then show ?thesis using rm S(2) L(7) by auto
qed

definition full_blocks :: "mem_block list" where
  "full_blocks = map (\<lambda>i. new_block (0x60000000 + of_nat i * 0x1000) (0x60000FFF + of_nat i * 0x1000) 4 4096 0) [0..<16]"

lemma full_blocks_ok: "wm_ok (with_blocks zero_proc full_blocks) 16"
proof -
  have "length full_blocks = 16" by (simp add: full_blocks_def)
  moreover have "\<forall>b \<in> set full_blocks. mb_valid b \<noteq> 0" by (simp add: full_blocks_def)
  moreover have "sorted (map mb_start full_blocks)" by (simp add: full_blocks_def upt_conv_Cons)
  ultimately show ?thesis using wm_ok_with_blocks [of full_blocks zero_proc] by simp
qed

lemma full_blocks_nth: "i < 16 \<Longrightarrow> arr (with_blocks zero_proc full_blocks) ! i =
    new_block (0x60000000 + of_nat i * 0x1000) (0x60000FFF + of_nat i * 0x1000) 4 4096 0"
  by (simp add: with_blocks_def full_blocks_def nth_append)

theorem remove_from_full_table_witness:
  "\<exists>p'. remove_mapping (with_blocks zero_proc full_blocks) 0x60001000 = (1, p') \<and> total_mmaps (winfo p') = 15
    \<and> mb_valid (arr p' ! 15) \<noteq> 0 \<and> arr p' ! 15 = arr p' ! 14"
  using full_blocks_nth by (intro remove_from_full_table [OF full_blocks_ok, of 1]) simp_all

lemma find_upto_Some:
  "i < n \<Longrightarrow> n \<le> length bs \<Longrightarrow> P (bs ! i) \<Longrightarrow> \<forall>j < i. \<not> P (bs ! j) \<Longrightarrow> find_upto P bs n = Ret (Some i)"
proof (induction P bs n arbitrary: i rule: find_upto.induct)
  case (3 P b bs n)
  show ?case
  proof (cases i)
    case 0
    then show ?thesis using 3 by simp
  next
    case (Suc k)
    have b: "\<not> P b" using "3.prems"(4) Suc by fastforce
    have "find_upto P bs n = Ret (Some k)" using b "3.prems" Suc by (intro "3.IH") auto
    then show ?thesis using Suc b by simp
  qed
qed auto

lemma num_mmaps_wm_ok: "wm_ok p n \<Longrightarrow> num_mmaps p = n"
proof -
  assume "wm_ok p n"
  then have "n \<le> 16" "total_mmaps (winfo p) = of_nat n" by (simp_all add: wm_ok_def)
  moreover from this have "sint (of_nat n :: u32) = int n"
    by (simp add: sint_uint signed_take_bit_int_eq_self uint_nat unat_of_nat)
  ultimately show ?thesis by (simp add: num_mmaps_def)
qed

text \<open>
  C22: \<^verbatim>\<open>wremap\<close> of the last mapping resizes it in place. When the mapping has one reference and
  its new end stays within \<open>MAX_ADDR\<close>, the call returns the old address; the table has the same
  mappings, except that the last one now ends at \<open>oldaddr + PGROUNDUP newsize - 1\<close> and has length
  \<open>newsize\<close>, with its flags and file kept.
\<close>

theorem wremap_last_in_place:
  assumes "wm_ok p (Suc n)" "Suc n < 16" "oldaddr mod PGSIZE = 0" "oldaddr + PGROUNDUP newsize \<le> MAX_ADDR"
    "mb_start (last (blocks p)) = oldaddr" "mb_valid (last (blocks p)) = 1" "mb_ref (last (blocks p)) = 1"
    "\<forall>b \<in> set (butlast (blocks p)). mb_start b \<noteq> oldaddr"
  shows "\<exists>p'. wremap_body p oldaddr oldsize newsize flag = Ret (oldaddr, p') \<and> wm_ok p' (Suc n)
    \<and> blocks p' = butlast (blocks p) @ [new_block oldaddr (oldaddr + PGROUNDUP newsize - 1)
        (mb_flags (last (blocks p))) newsize (mb_fd (last (blocks p)))]"
proof -
  have bl: "blocks p = take (Suc n) (arr p)" using assms(1) by (rule wm_ok_blocks)
  have L: "length (arr p) = 16" "mb_valid (arr p ! Suc n) = 0" "sorted (map mb_start (blocks p))"
    using assms(1,2) bl by (auto simp: wm_ok_def)
  have lst: "last (blocks p) = arr p ! n" using L(1) assms(2) by (simp add: bl last_take)
  have but: "butlast (blocks p) = take n (arr p)" using L(1) assms(2) by (simp add: bl butlast_take)
  have uniq: "mb_start (arr p ! j) \<noteq> oldaddr" if "j < n" for j
  proof -
    have "arr p ! j \<in> set (take n (arr p))" using that L(1) assms(2) by (auto simp: in_set_conv_nth)
    then show ?thesis using assms(8) but by auto
  qed
  have find: "find_upto (\<lambda>b. mb_valid b = 1 \<and> mb_start b = oldaddr) (arr p) (num_mmaps p) = Ret (Some n)"
    using assms(2,5,6) L(1) uniq by (intro find_upto_Some) (auto simp: num_mmaps_wm_ok [OF assms(1)] lst)
  obtain p1 where p1: "remove_mapping p oldaddr = (1, p1)" "wm_ok p1 n" "blocks p1 = remove_at n (blocks p)"
    using remove_mapping_wm_ok [OF assms(1,2), of n oldaddr] assms(5,7) uniq by (auto simp: lst)
  have b1: "blocks p1 = butlast (blocks p)" using p1(3) L(1) assms(2) by (simp add: but) (simp add: bl remove_at_def)
  let ?b = "new_block oldaddr (oldaddr + PGROUNDUP newsize - 1) (mb_flags (arr p ! n)) newsize (mb_fd (arr p ! n))"
  obtain p2 where p2: "insert_mapping p1 oldaddr (oldaddr + PGROUNDUP newsize - 1) (mb_flags (arr p ! n)) newsize
        (total_mmaps (winfo p1)) (mb_fd (arr p ! n)) = Ret (oldaddr, p2)" "wm_ok p2 (Suc n)"
      "blocks p2 = insert_block ?b (blocks p1)"
    using insert_mapping_wm_ok [OF p1(2)] assms(2) by (metis Suc_lessD)
  have "mb_start b \<le> oldaddr" if "b \<in> set (butlast (blocks p))" for b
  proof -
    have "blocks p = butlast (blocks p) @ [last (blocks p)]" using bl L(1) by (metis append_butlast_last_id assms(2) length_0_conv length_take min.absorb2 nat.distinct(1) less_imp_le)
    then have "sorted (map mb_start (butlast (blocks p)) @ [oldaddr])"
      using L(3) assms(5) by (metis list.simps(8,9) map_append)
    then show ?thesis using that by (auto simp: sorted_append)
  qed
  then have "blocks p2 = butlast (blocks p) @ [?b]" unfolding p2(3) b1 by (intro insert_block_last) simp
  moreover have "oldaddr \<noteq> - 1" using assms(3) by auto
  moreover have "\<not> oldaddr + PGROUNDUP newsize > MAX_ADDR" using assms(4) by simp
  ultimately show ?thesis
    using find p1(1) p2(1,2) assms(2,3) L(1,2)
    by (simp add: wremap_body_def wremap_replace_def Let_def lst)
qed

theorem wremap_last_in_place_witness:
  "\<exists>p'. wremap_body (with_blocks zero_proc [new_block 0x60001000 0x60001FFF 4 4096 0]) 0x60001000 4096 9000 0 = Ret (0x60001000, p')
    \<and> blocks p' = [new_block 0x60001000 0x60003FFF 4 9000 0]"
proof -
  let ?b = "new_block 0x60001000 0x60001FFF 4 4096 0"
  have "wm_ok (with_blocks zero_proc [?b]) (Suc 0)" using wm_ok_with_blocks [of "[?b]" zero_proc] by simp
  from wremap_last_in_place [OF this, of "0x60001000" 9000 4096 0] show ?thesis
    by (auto simp: blocks_with_blocks PGROUNDUP_def new_block_def)
qed

end
