(* ===== verification/Allocproc.thy ===== *)
theory Allocproc
  imports Sched Pagetable
begin

text \<open>
  Creating a process (\<open>allocproc\<close>): which pages of the free list it takes and what it stores in
  the process table, and what \<^verbatim>\<open>kill(0)\<close> does to the slot it will use.
\<close>

section \<open>Pages taken\<close>

lemma free_pages_more: "free_pages s ps \<Longrightarrow> mem s' = mem s \<Longrightarrow> freelist s' = freelist s \<Longrightarrow> kend s' = kend s \<Longrightarrow> free_pages s' ps"
  by (simp add: free_pages_def)

lemma upd_proc_kmem [simp]:
  "mem (upd_proc p f s) = mem s" "freelist (upd_proc p f s) = freelist s" "kend (upd_proc p f s) = kend s"
  by (simp_all add: upd_proc_def)

lemma alloc_blocks_pages:
  "free_pages s ps \<Longrightarrow> n \<le> length ps \<Longrightarrow> p < length (ptable s) \<Longrightarrow> i + n = length (arr (ptable s ! p)) \<Longrightarrow>
   length (arr_ptr (ptable s ! p)) = length (arr (ptable s ! p)) \<Longrightarrow>
   \<exists>s'. alloc_blocks s p i n = Ret s' \<and> free_pages s' (drop n ps)
     \<and> ptable s' = (ptable s)[p := (ptable s ! p)\<lparr>arr := take i (arr (ptable s ! p)) @ replicate n no_block,
          arr_ptr := take i (arr_ptr (ptable s ! p)) @ take n ps\<rparr>]"
proof (induction n arbitrary: s ps i)
  case 0
  then show ?case by simp
next
  case (Suc n)
  then obtain b qs where ps: "ps = b # qs" by (cases ps) auto
  let ?s1 = "s\<lparr>freelist := load32 (mem s) b\<rparr>"
  let ?s = "upd_proc p (\<lambda>q. q\<lparr>arr := (arr q)[i := no_block], arr_ptr := (arr_ptr q)[i := b]\<rparr>) ?s1"
  note k = kalloc_cons [OF Suc.prems(1) [unfolded ps]]
  have b: "b \<noteq> 0" using Suc.prems(1) by (auto simp: ps free_pages_def)
  have fp: "free_pages ?s qs" using k(2) by (rule free_pages_more) simp_all
  have "\<exists>s'. alloc_blocks ?s p (Suc i) n = Ret s' \<and> free_pages s' (drop n qs)
     \<and> ptable s' = (ptable ?s)[p := (ptable ?s ! p)\<lparr>arr := take (Suc i) (arr (ptable ?s ! p)) @ replicate n no_block,
          arr_ptr := take (Suc i) (arr_ptr (ptable ?s ! p)) @ take n qs\<rparr>]"
    using Suc.prems by (intro Suc.IH [OF fp]) (simp_all add: ps)
  then show ?case
    using Suc.prems k(1) b
    by (auto simp: ps take_Suc_conv_app_nth replicate_app_Cons_same)
qed

lemma free_pages_store:
  assumes "free_pages s ps" "mem s' = store32 (mem s) a v" "unat a mod 4 = 0" "PGROUNDDOWN a \<notin> set ps"
    "freelist s' = freelist s" "kend s' = kend s"
  shows "free_pages s' ps"
proof -
  have "load32 (mem s') q = load32 (mem s) q" if "q \<in> set ps" for q
  proof -
    have "pg_aligned q" using assms(1) that by (auto simp: free_pages_def)
    moreover have "q \<noteq> PGROUNDDOWN a" using assms(4) that by blast
    ultimately show ?thesis
      using page_eq_store32 [of a q "mem s" v] assms(2,3)
      by (intro load32_page_eq) (auto simp: PGROUNDDOWN_id [THEN iffD2] pg_aligned_mod4)
  qed
  then show ?thesis
    using assms(1,5,6) flist_cong [of ps "mem s'" "mem s"] by (auto simp: free_pages_def)
qed

lemma setup_proc_pages:
  assumes fp: "free_pages s ps" "18 \<le> length ps" and jl: "j < length (ptable s)"
    and len: "length (arr (ptable s ! j)) = 16" "length (arr_ptr (ptable s ! j)) = 16"
  shows "\<exists>s'. setup_proc s j = Ret (Some j, s') \<and> free_pages s' (drop 18 ps)
    \<and> ptable s' = (ptable s)[j := (ptable s ! j)\<lparr>kstack := ps ! 0, pcontext := zero_context\<lparr>cx_eip := forkret_pc s\<rparr>,
        winfo := empty_winfo, winfo_ptr := ps ! 1, arr := replicate 16 no_block, arr_ptr := take 16 (drop 2 ps)\<rparr>]"
proof -
  obtain stk w qs where ps: "ps = stk # w # qs" "16 \<le> length qs"
    using fp(2) by (cases ps; cases "tl ps") auto
  note k1 = kalloc_cons [OF fp(1) [unfolded ps]]
  define s2 where "s2 = s\<lparr>freelist := load32 (mem s) stk\<rparr>"
  have stk: "stk \<noteq> 0" "w \<noteq> 0" "pg_aligned stk" "stk \<notin> set (w # qs)"
    using fp(1) by (auto simp: ps free_pages_def kpage_nonzero)
  define s3 where "s3 = upd_proc j (\<lambda>q. q\<lparr>pcontext := zero_context\<lparr>cx_eip := forkret_pc s2\<rparr>\<rparr>)
    ((upd_proc j (\<lambda>q. q\<lparr>kstack := stk\<rparr>) s2)\<lparr>mem := store32 (mem s2) (stk + KSTACKSIZE - 76 - 4) (trapret_pc s2)\<rparr>)"
  have n: "unat (1004 :: u32) < 1024" by simp
  have "free_pages s3 (w # qs)"
    using k1(2) slot_page [OF stk(3) n] slot_mod4 [OF stk(3) n] stk(4)
    by (intro free_pages_store [of s2 _ s3 "stk + 4 * 1004" "trapret_pc s2"]) (simp_all add: s3_def s2_def add.commute)
  note k2 = kalloc_cons [OF this]
  define s5 where "s5 = upd_proc j (\<lambda>q. q\<lparr>winfo := empty_winfo, winfo_ptr := w\<rparr>) (s3\<lparr>freelist := load32 (mem s3) w\<rparr>)"
  have al: "setup_proc s j = bind_res (alloc_blocks s5 j 0 16) (\<lambda>s. Ret (Some j, s))"
    using k1(1) k2(1) stk(1,2) by (simp add: setup_proc_def Let_def s2_def s3_def s5_def upd_proc_def)
  have p5: "ptable s5 = (ptable s)[j := (ptable s ! j)\<lparr>kstack := stk,
      pcontext := zero_context\<lparr>cx_eip := forkret_pc s\<rparr>, winfo := empty_winfo, winfo_ptr := w\<rparr>]"
    using jl by (simp add: s5_def s3_def s2_def)
  have "free_pages s5 qs" using k2(2) by (rule free_pages_more) (simp_all add: s5_def)
  from alloc_blocks_pages [OF this ps(2), of j 0] obtain s' where "alloc_blocks s5 j 0 16 = Ret s'" "free_pages s' (drop 16 qs)"
    "ptable s' = (ptable s5)[j := (ptable s5 ! j)\<lparr>arr := replicate 16 no_block, arr_ptr := take 16 qs\<rparr>]"
    using jl len by (auto simp: p5)
  then show ?thesis using al jl by (simp add: ps p5)
qed

text \<open>The state of \<open>allocproc\<close> when it has chosen its slot and left the critical section.\<close>

definition chosen :: "'a proc_st_scheme \<Rightarrow> nat \<Rightarrow> 'a proc_st_scheme" where
  "chosen s j = given ((upd_proc j (\<lambda>q. q\<lparr>pstate := EMBRYO, pid := nextpid s\<rparr>) (taken s))\<lparr>nextpid := nextpid s + 1\<rparr>)"

lemma allocproc_chosen:
  assumes "pt_inv s" "lock_owner s = None" "find_unused (ptable s) 0 = Some j"
  shows "allocproc s = setup_proc (chosen s j) j"
proof -
  have np: "nextpid (taken s) = nextpid s" by (simp add: taken_def set_cpu_def)
  let ?s1 = "(upd_proc j (\<lambda>q. q\<lparr>pstate := EMBRYO, pid := nextpid s\<rparr>) (taken s))\<lparr>nextpid := nextpid s + 1\<rparr>"
  have "pt_inv ?s1" "lock_owner ?s1 = Some (this_cpu ?s1)" using lock_inv_taken [OF assms(1,2)] by simp_all
  from pt_release_eq [OF this] show ?thesis
    using pt_acquire_eq [OF assms(1)] assms(2,3) by (simp add: allocproc_def Let_def np upd_proc_def chosen_def)
qed

lemma chosen_sel [simp]:
  "ptable (chosen s j) = (ptable s)[j := (ptable s ! j)\<lparr>pstate := EMBRYO, pid := nextpid s\<rparr>]"
  by (simp add: chosen_def)

lemma free_pages_chosen: "free_pages s ps \<Longrightarrow> free_pages (chosen s j) ps"
  by (erule free_pages_more) (simp_all add: chosen_def given_def taken_def set_cpu_def)

lemma allocproc_pages:
  assumes "pt_inv s" "lock_owner s = None" "find_unused (ptable s) 0 = Some j" "free_pages s ps" "18 \<le> length ps"
    "length (arr (ptable s ! j)) = 16" "length (arr_ptr (ptable s ! j)) = 16"
  shows "\<exists>s'. allocproc s = Ret (Some j, s') \<and> free_pages s' (drop 18 ps)
    \<and> ptable s' = (ptable s)[j := (ptable s ! j)\<lparr>pstate := EMBRYO, pid := nextpid s, kstack := ps ! 0,
        pcontext := zero_context\<lparr>cx_eip := forkret_pc (chosen s j)\<rparr>, winfo := empty_winfo, winfo_ptr := ps ! 1,
        arr := replicate 16 no_block, arr_ptr := take 16 (drop 2 ps)\<rparr>]"
proof -
  have "j < length (ptable s)" using find_unused_Some [OF assms(3)] by simp
  then show ?thesis
    using setup_proc_pages [OF free_pages_chosen [OF assms(4), of j] assms(5), of j] assms(6,7) allocproc_chosen [OF assms(1-3)]
    by auto
qed

text \<open>A state of the demonstration system with twenty free pages, made by \<open>freerange\<close>.\<close>

lemma freerange_loop_shape: "freerange_loop s p v = Ret s' \<Longrightarrow> \<exists>m f. s' = s\<lparr>mem := m, freelist := f\<rparr>"
proof (induction s p v rule: freerange_loop.induct)
  case (1 s p v)
  show ?case
  proof (cases "p + PGSIZE \<le> v")
    case True
    then obtain s1 where s1: "kfree s p = Ret s1" "freerange_loop s1 (p + PGSIZE) v = Ret s'"
      using "1.prems" by (auto simp: freerange_loop.simps [of s p v])
    obtain m f where "s' = s1\<lparr>mem := m, freelist := f\<rparr>" using "1.IH" [OF True s1] by blast
    moreover obtain m1 f1 where "s1 = s\<lparr>mem := m1, freelist := f1\<rparr>"
      using s1(1) by (auto simp: kfree_eq split: if_splits)
    ultimately show ?thesis by simp blast
  next
    case False
    then show ?thesis using "1.prems" by (auto simp: freerange_loop.simps [of s p v] intro!: exI [of _ "mem s"] exI [of _ "freelist s"])
  qed
qed

lemma demo_pages: "\<exists>m f ps. free_pages (sched_demo_st\<lparr>mem := m, freelist := f\<rparr>) ps \<and> length ps = 20"
proof -
  have "\<exists>s'. freerange_loop sched_demo_st 0x80400000 0x80414000 = Ret s' \<and> free_pages s' (rev (page_run 0x80400000 20) @ [])"
    by (rule freerange_loop_pages) (simp_all add: sched_demo_st_def free_pages_def)
  then obtain s' where s': "freerange_loop sched_demo_st 0x80400000 0x80414000 = Ret s'"
    "free_pages s' (rev (page_run 0x80400000 20))" by auto
  moreover have "length (rev (page_run 0x80400000 20)) = 20" by (simp add: page_run_def)
  ultimately show ?thesis using freerange_loop_shape [OF s'(1)] by blast
qed

lemma demo_alloc:
  "pt_inv (sched_demo_st\<lparr>mem := m, freelist := f\<rparr>)" "lock_owner (sched_demo_st\<lparr>mem := m, freelist := f\<rparr>) = None"
  "find_unused (ptable (sched_demo_st\<lparr>mem := m, freelist := f\<rparr>)) 0 = Some 2"
  "find_pid (ptable (sched_demo_st\<lparr>mem := m, freelist := f\<rparr>)) 0 0 = Some 2"
  "length (arr (ptable sched_demo_st ! 2)) = 16 \<and> length (arr_ptr (ptable sched_demo_st ! 2)) = 16"
  "length (ptable sched_demo_st) = 64 \<and> nextpid sched_demo_st = 3"
  by (simp_all add: sched_demo_st_def sched_demo_proc_def zero_proc_def spin_inv_def spin_owner_def cli_depth_def
      numeral_2_eq_2)

section \<open>Properties\<close>

text \<open>
  C31: with eighteen free pages \<^verbatim>\<open>allocproc()\<close> succeeds: it takes the first free slot, gives it the next
  pid, uses the first page of the free list as kernel stack, the second for the mapping statistics
  and the next sixteen for the mapping blocks, which are all empty; the rest of the free list and
  the other slots stay as they are.
\<close>

theorem allocproc_takes_eighteen_pages:
  assumes "pt_inv s" "lock_owner s = None" "find_unused (ptable s) 0 = Some j" "free_pages s ps" "18 \<le> length ps"
    "length (arr (ptable s ! j)) = 16" "length (arr_ptr (ptable s ! j)) = 16"
  shows "\<exists>s' q. allocproc s = Ret (Some j, s') \<and> free_pages s' (drop 18 ps) \<and> ptable s' = (ptable s)[j := q]
    \<and> pstate q = EMBRYO \<and> pid q = nextpid s \<and> kstack q = ps ! 0 \<and> winfo_ptr q = ps ! 1 \<and> winfo q = empty_winfo
    \<and> arr_ptr q = take 16 (drop 2 ps) \<and> arr q = replicate 16 no_block"
proof -
  obtain s' where s': "allocproc s = Ret (Some j, s') \<and> free_pages s' (drop 18 ps)
    \<and> ptable s' = (ptable s)[j := (ptable s ! j)\<lparr>pstate := EMBRYO, pid := nextpid s, kstack := ps ! 0,
        pcontext := zero_context\<lparr>cx_eip := forkret_pc (chosen s j)\<rparr>, winfo := empty_winfo, winfo_ptr := ps ! 1,
        arr := replicate 16 no_block, arr_ptr := take 16 (drop 2 ps)\<rparr>]"
    using allocproc_pages [OF assms] by blast
  have "j < length (ptable s)" using find_unused_Some [OF assms(3)] by simp
  with s' show ?thesis by (intro exI [of _ s'] exI [of _ "ptable s' ! j"]) simp
qed

theorem allocproc_takes_eighteen_pages_witness:
  "\<exists>m f s' q. allocproc (sched_demo_st\<lparr>mem := m, freelist := f\<rparr>) = Ret (Some 2, s') \<and> ptable s' ! 2 = q
     \<and> pstate q = EMBRYO \<and> pid q = 3"
proof -
  obtain m f ps where fp: "free_pages (sched_demo_st\<lparr>mem := m, freelist := f\<rparr>) ps" "length ps = 20" using demo_pages by blast
  then obtain s' q where "allocproc (sched_demo_st\<lparr>mem := m, freelist := f\<rparr>) = Ret (Some 2, s')"
    "ptable s' = (ptable sched_demo_st)[2 := q]" "pstate q = EMBRYO" "pid q = 3"
    using allocproc_takes_eighteen_pages [OF demo_alloc(1-3) fp(1)] fp(2) demo_alloc(5,6) by auto
  then show ?thesis using demo_alloc(6) by (intro exI [of _ m] exI [of _ f] exI [of _ s'] exI [of _ q]) simp
qed

lemma find_unused_mark: "n \<le> j \<Longrightarrow> find_unused (xs[j - n := (xs ! (j - n))\<lparr>killed := 1\<rparr>]) n = find_unused xs n"
proof (induction xs arbitrary: n)
  case (Cons x xs)
  show ?case
  proof (cases "n = j")
    case False
    then have "j - n = Suc (j - Suc n)" using Cons.prems by simp
    then show ?thesis using Cons.IH [of "Suc n"] Cons.prems False by simp
  qed simp
qed simp

lemma kill_free_slot:
  assumes "pt_inv s" "lock_owner s = None" "find_pid (ptable s) 0 0 = Some j" "find_unused (ptable s) 0 = Some j"
  defines "u \<equiv> given (upd_proc j (\<lambda>q. q\<lparr>killed := 1\<rparr>) (taken s))"
  shows "kill s 0 = Ret (0, u)" "pt_inv u" "lock_owner u = None" "find_unused (ptable u) 0 = Some j"
proof -
  have j: "j < length (ptable s)" "pstate (ptable s ! j) = UNUSED" using find_unused_Some [OF assms(4)] by auto
  let ?v = "upd_proc j (\<lambda>q. q\<lparr>killed := 1\<rparr>) (taken s)"
  have v: "pt_inv ?v" "lock_owner ?v = Some (this_cpu ?v)" using lock_inv_taken [OF assms(1,2)] by simp_all
  show "kill s 0 = Ret (0, u)"
    using assms(3) j pt_acquire_eq [OF assms(1)] assms(2) pt_release_eq [OF v] by (simp add: kill_def Let_def u_def)
  show "pt_inv u" using lock_inv_given [OF v] by (simp add: u_def)
  show "lock_owner u = None" by (simp add: u_def)
  show "find_unused (ptable u) 0 = Some j" using find_unused_mark [of 0 j "ptable s"] assms(4) by (simp add: u_def)
qed

text \<open>
  C32: \<^verbatim>\<open>kill(0)\<close> reports success when a slot of the table is free: it finds the free slot, whose
  pid is 0, and marks it killed. \<^verbatim>\<open>allocproc()\<close> does not reset the mark, so the next process created
  in that slot is born killed.
\<close>

theorem kill_zero_poisons_slot:
  assumes "pt_inv s" "lock_owner s = None" "find_pid (ptable s) 0 0 = Some j" "find_unused (ptable s) 0 = Some j"
    "kill s 0 = Ret (r, s1)" "allocproc s1 = Ret (Some q, s2)"
  shows "r = 0 \<and> q = j \<and> killed (ptable s2 ! q) = 1"
proof -
  note k = kill_free_slot [OF assms(1-4)]
  have j: "j < length (ptable s)" using find_unused_Some [OF assms(4)] by simp
  have "r = 0" and s1: "s1 = given (upd_proc j (\<lambda>q. q\<lparr>killed := 1\<rparr>) (taken s))" using k(1) assms(5) by simp_all
  then show ?thesis using allocproc_frame [of s1 q s2] assms(6) k(2-4) j by (auto simp: fresh_proc_def)
qed

theorem kill_zero_poisons_slot_witness:
  "\<exists>m f s1 s2. kill (sched_demo_st\<lparr>mem := m, freelist := f\<rparr>) 0 = Ret (0, s1) \<and> allocproc s1 = Ret (Some 2, s2)
     \<and> killed (ptable s2 ! 2) = 1"
proof -
  obtain m f ps where fp: "free_pages (sched_demo_st\<lparr>mem := m, freelist := f\<rparr>) ps" "length ps = 20" using demo_pages by blast
  let ?s = "sched_demo_st\<lparr>mem := m, freelist := f\<rparr>"
  note d = demo_alloc(1-4) [where m = m and f = f]
  note k = kill_free_slot [OF d(1,2,4,3)]
  let ?u = "given (upd_proc 2 (\<lambda>q. q\<lparr>killed := 1\<rparr>) (taken ?s))"
  have u: "free_pages ?u ps" using fp(1) by (rule free_pages_more) (simp_all add: given_def taken_def set_cpu_def)
  obtain s2 where "allocproc ?u = Ret (Some 2, s2)"
    using allocproc_pages [OF k(2-4) u] fp(2) demo_alloc(5,6) by auto
  with kill_zero_poisons_slot [OF d(1,2,4,3) k(1)] k(1) show ?thesis by blast
qed

end
