(* ===== verification/Bio.thy ===== *)
theory Bio
  imports Sleeplock
begin

text \<open>
  The buffer cache (bio.c, buf.h) on the memory disk (memide.c, the driver of the \<^verbatim>\<open>kernelmemfs\<close>
  build). Buffers form a circular doubly linked list through \<^verbatim>\<open>prev\<close> and \<^verbatim>\<open>next\<close>; pointers are
  indices into the array of buffers, and the list head \<^verbatim>\<open>bcache.head\<close> is entry 30, after the 30
  buffers. \<^verbatim>\<open>bcache.lock\<close> makes the critical sections of \<^verbatim>\<open>bget\<close> and \<^verbatim>\<open>brelse\<close> atomic. A block
  is the list of its 512 bytes.
\<close>

abbreviation (input) NBUF :: nat where "NBUF \<equiv> 30"
abbreviation (input) BSIZE :: nat where "BSIZE \<equiv> 512"
abbreviation (input) B_VALID :: u32 where "B_VALID \<equiv> 0x2"
abbreviation (input) B_DIRTY :: u32 where "B_DIRTY \<equiv> 0x4"

section \<open>State\<close>

record buf =
  b_flags :: u32
  b_dev :: u32
  b_blockno :: u32
  b_lock :: sleeplock
  b_refcnt :: u32
  b_prev :: nat
  b_next :: nat
  b_qnext :: "nat option"
  b_data :: "u8 list"

text \<open>
  \<open>memdisk\<close> gives the block at each number below \<open>disksize\<close>. \<open>diskwrites\<close> records the blocks
  written, oldest first; no code reads it.
\<close>

record bio_st = proc_st +
  bcache :: "buf list"
  memdisk :: "u32 \<Rightarrow> u8 list"
  disksize :: u32
  diskwrites :: "(u32 \<times> u8 list) list"

definition upd_buf :: "nat \<Rightarrow> (buf \<Rightarrow> buf) \<Rightarrow> buf list \<Rightarrow> buf list" where
  "upd_buf i f bs = bs[i := f (bs ! i)]"

definition set_buf :: "nat \<Rightarrow> (buf \<Rightarrow> buf) \<Rightarrow> 'a bio_st_scheme \<Rightarrow> 'a bio_st_scheme" where
  "set_buf i f s = s\<lparr>bcache := upd_buf i f (bcache s)\<rparr>"

section \<open>The list of buffers\<close>

text \<open>Inserting behind the head, as \<^verbatim>\<open>binit\<close> and \<^verbatim>\<open>brelse\<close> do, and taking a buffer out.\<close>

definition link_front :: "nat \<Rightarrow> buf list \<Rightarrow> buf list" where
  "link_front b bs =
     (let bs = upd_buf b (\<lambda>x. x\<lparr>b_next := b_next (bs ! NBUF)\<rparr>) bs;
          bs = upd_buf b (\<lambda>x. x\<lparr>b_prev := NBUF\<rparr>) bs;
          bs = upd_buf (b_next (bs ! NBUF)) (\<lambda>x. x\<lparr>b_prev := b\<rparr>) bs
      in upd_buf NBUF (\<lambda>x. x\<lparr>b_next := b\<rparr>) bs)"

definition unlink :: "nat \<Rightarrow> buf list \<Rightarrow> buf list" where
  "unlink b bs =
     (let bs = upd_buf (b_next (bs ! b)) (\<lambda>x. x\<lparr>b_prev := b_prev (bs ! b)\<rparr>) bs
      in upd_buf (b_prev (bs ! b)) (\<lambda>x. x\<lparr>b_next := b_next (bs ! b)\<rparr>) bs)"

fun binit_loop :: "buf list \<Rightarrow> nat \<Rightarrow> nat \<Rightarrow> buf list" where
  "binit_loop bs b 0 = bs"
| "binit_loop bs b (Suc n) =
     binit_loop (link_front b (upd_buf b (\<lambda>x. x\<lparr>b_lock := initsleeplock (b_lock x) ''buffer''\<rparr>) bs)) (Suc b) n"

definition binit :: "'a bio_st_scheme \<Rightarrow> 'a bio_st_scheme" where
  "binit s = s\<lparr>bcache := binit_loop (upd_buf NBUF (\<lambda>x. x\<lparr>b_prev := NBUF, b_next := NBUF\<rparr>) (bcache s)) 0 NBUF\<rparr>"

text \<open>
  The two searches of \<^verbatim>\<open>bget\<close>. A list of thirty buffers is left after at most thirty steps; one
  that never comes back to the head makes the loop endless, which the step bound turns into
  \<open>Diverge\<close>.
\<close>

fun scan_next :: "nat \<Rightarrow> (buf \<Rightarrow> bool) \<Rightarrow> buf list \<Rightarrow> nat \<Rightarrow> nat option res" where
  "scan_next n P bs b =
     (if b = NBUF then Ret None
      else if length bs \<le> b then Fault
      else if P (bs ! b) then Ret (Some b)
      else case n of 0 \<Rightarrow> Diverge | Suc m \<Rightarrow> scan_next m P bs (b_next (bs ! b)))"

fun scan_prev :: "nat \<Rightarrow> (buf \<Rightarrow> bool) \<Rightarrow> buf list \<Rightarrow> nat \<Rightarrow> nat option res" where
  "scan_prev n P bs b =
     (if b = NBUF then Ret None
      else if length bs \<le> b then Fault
      else if P (bs ! b) then Ret (Some b)
      else case n of 0 \<Rightarrow> Diverge | Suc m \<Rightarrow> scan_prev m P bs (b_prev (bs ! b)))"

declare scan_next.simps [simp del] scan_prev.simps [simp del]

section \<open>Operations\<close>

definition lock_buf :: "'a bio_st_scheme \<Rightarrow> nat \<Rightarrow> (nat \<times> 'a bio_st_scheme) res" where
  "lock_buf s b =
     bind_res (acquiresleep (curpid s) (b_lock (bcache s ! b))) (\<lambda>lk. Ret (b, set_buf b (\<lambda>x. x\<lparr>b_lock := lk\<rparr>) s))"

definition bget :: "'a bio_st_scheme \<Rightarrow> u32 \<Rightarrow> u32 \<Rightarrow> (nat \<times> 'a bio_st_scheme) res" where
  "bget s dev blockno =
     bind_res (scan_next NBUF (\<lambda>x. b_dev x = dev \<and> b_blockno x = blockno) (bcache s) (b_next (bcache s ! NBUF))) (\<lambda>r.
       case r of
         Some b \<Rightarrow> lock_buf (set_buf b (\<lambda>x. x\<lparr>b_refcnt := b_refcnt x + 1\<rparr>) s) b
       | None \<Rightarrow>
           bind_res (scan_prev NBUF (\<lambda>x. b_refcnt x = 0 \<and> b_flags x AND B_DIRTY = 0) (bcache s) (b_prev (bcache s ! NBUF))) (\<lambda>r.
             case r of
               Some b \<Rightarrow> lock_buf (set_buf b (\<lambda>x. x\<lparr>b_dev := dev, b_blockno := blockno, b_flags := 0, b_refcnt := 1\<rparr>) s) b
             | None \<Rightarrow> Panic ''bget: no buffers''))"

text \<open>The driver of memide.c.\<close>

definition ideinit :: "(u32 \<Rightarrow> u8 list) \<Rightarrow> u32 \<Rightarrow> 'a bio_st_scheme \<Rightarrow> 'a bio_st_scheme" where
  "ideinit img img_size s = s\<lparr>memdisk := img, disksize := img_size div of_nat BSIZE\<rparr>"

definition iderw :: "'a bio_st_scheme \<Rightarrow> nat \<Rightarrow> 'a bio_st_scheme res" where
  "iderw s i =
     (let b = bcache s ! i in
      if \<not> holdingsleep (curpid s) (b_lock b) then Panic ''iderw: buf not locked''
      else if b_flags b AND (B_VALID OR B_DIRTY) = B_VALID then Panic ''iderw: nothing to do''
      else if b_dev b \<noteq> 1 then Panic ''iderw: request not for disk 1''
      else if b_blockno b \<ge> disksize s then Panic ''iderw: block out of range''
      else if b_flags b AND B_DIRTY \<noteq> 0
      then Ret (set_buf i (\<lambda>x. x\<lparr>b_flags := (b_flags x AND NOT B_DIRTY) OR B_VALID\<rparr>)
             (s\<lparr>memdisk := (memdisk s)(b_blockno b := b_data b), diskwrites := diskwrites s @ [(b_blockno b, b_data b)]\<rparr>))
      else Ret (set_buf i (\<lambda>x. x\<lparr>b_data := memdisk s (b_blockno b), b_flags := b_flags x OR B_VALID\<rparr>) s))"

definition bread :: "'a bio_st_scheme \<Rightarrow> u32 \<Rightarrow> u32 \<Rightarrow> (nat \<times> 'a bio_st_scheme) res" where
  "bread s dev blockno =
     bind_res (bget s dev blockno) (\<lambda>(b, s).
       if b_flags (bcache s ! b) AND B_VALID = 0
       then bind_res (iderw s b) (\<lambda>s. Ret (b, s))
       else Ret (b, s))"

definition bwrite :: "'a bio_st_scheme \<Rightarrow> nat \<Rightarrow> 'a bio_st_scheme res" where
  "bwrite s b =
     (if \<not> holdingsleep (curpid s) (b_lock (bcache s ! b)) then Panic ''bwrite''
      else iderw (set_buf b (\<lambda>x. x\<lparr>b_flags := b_flags x OR B_DIRTY\<rparr>) s) b)"

definition brelse :: "'a bio_st_scheme \<Rightarrow> nat \<Rightarrow> 'a bio_st_scheme res" where
  "brelse s b =
     (if \<not> holdingsleep (curpid s) (b_lock (bcache s ! b)) then Panic ''brelse''
      else let (lk, s) = releasesleep (BufLockChan b) (b_lock (bcache s ! b)) s;
               s = set_buf b (\<lambda>x. x\<lparr>b_lock := lk\<rparr>) s;
               s = set_buf b (\<lambda>x. x\<lparr>b_refcnt := b_refcnt x - 1\<rparr>) s
           in if b_refcnt (bcache s ! b) = 0
              then Ret (s\<lparr>bcache := link_front b (unlink b (bcache s))\<rparr>)
              else Ret s)"

lemma length_upd_buf [simp]: "length (upd_buf i f bs) = length bs"
  by (simp add: upd_buf_def)

lemma nth_upd_buf: "j < length bs \<Longrightarrow> upd_buf i f bs ! j = (if i = j then f (bs ! j) else bs ! j)"
  by (simp add: upd_buf_def nth_list_update)

end
