(* ===== verification/Diskfmt.thy ===== *)
theory Diskfmt
  imports Prelude
begin

text \<open>
  The layout of the file system on disk (fs.h): little-endian words inside blocks, and the
  structures that the kernel overlays on a block's bytes.
\<close>

section \<open>Words in byte lists\<close>

definition get32 :: "u8 list \<Rightarrow> nat \<Rightarrow> u32" where
  "get32 bs k = ucast (bs ! k) OR push_bit 8 (ucast (bs ! (k + 1)))
     OR push_bit 16 (ucast (bs ! (k + 2))) OR push_bit 24 (ucast (bs ! (k + 3)))"

definition put32 :: "u8 list \<Rightarrow> nat \<Rightarrow> u32 \<Rightarrow> u8 list" where
  "put32 bs k v = bs[k := ucast v, k + 1 := ucast (drop_bit 8 v),
     k + 2 := ucast (drop_bit 16 v), k + 3 := ucast (drop_bit 24 v)]"

definition get16 :: "u8 list \<Rightarrow> nat \<Rightarrow> u16" where
  "get16 bs k = ucast (bs ! k) OR push_bit 8 (ucast (bs ! (k + 1)))"

definition put16 :: "u8 list \<Rightarrow> nat \<Rightarrow> u16 \<Rightarrow> u8 list" where
  "put16 bs k v = bs[k := ucast v, k + 1 := ucast (drop_bit 8 v)]"

text \<open>Overwriting a stretch of bytes, \<^verbatim>\<open>memmove\<close> into a buffer.\<close>

definition splice :: "'a list \<Rightarrow> nat \<Rightarrow> 'a list \<Rightarrow> 'a list" where
  "splice bs k xs = take k bs @ xs @ drop (k + length xs) bs"

section \<open>Structures\<close>

record superblock =
  sb_size :: u32
  sb_nblocks :: u32
  sb_ninodes :: u32
  sb_nlog :: u32
  sb_logstart :: u32
  sb_inodestart :: u32
  sb_bmapstart :: u32

definition get_superblock :: "u8 list \<Rightarrow> superblock" where
  "get_superblock bs = \<lparr>sb_size = get32 bs 0, sb_nblocks = get32 bs 4, sb_ninodes = get32 bs 8, sb_nlog = get32 bs 12,
     sb_logstart = get32 bs 16, sb_inodestart = get32 bs 20, sb_bmapstart = get32 bs 24\<rparr>"

text \<open>A \<^verbatim>\<open>struct dinode\<close>: type, major, minor, nlink as shorts, the size, thirteen block addresses.\<close>

record dinode =
  d_type :: u16
  d_major :: u16
  d_minor :: u16
  d_nlink :: u16
  d_size :: u32
  d_addrs :: "u32 list"

definition get_dinode :: "u8 list \<Rightarrow> nat \<Rightarrow> dinode" where
  "get_dinode bs k = \<lparr>d_type = get16 bs k, d_major = get16 bs (k + 2), d_minor = get16 bs (k + 4), d_nlink = get16 bs (k + 6),
     d_size = get32 bs (k + 8), d_addrs = map (\<lambda>i. get32 bs (k + 12 + 4 * i)) [0..<13]\<rparr>"

fun put32s :: "u8 list \<Rightarrow> nat \<Rightarrow> u32 list \<Rightarrow> u8 list" where
  "put32s bs k [] = bs"
| "put32s bs k (v # vs) = put32s (put32 bs k v) (k + 4) vs"

definition put_dinode :: "u8 list \<Rightarrow> nat \<Rightarrow> dinode \<Rightarrow> u8 list" where
  "put_dinode bs k d =
     put32s (put32 (put16 (put16 (put16 (put16 bs k (d_type d)) (k + 2) (d_major d)) (k + 4) (d_minor d)) (k + 6) (d_nlink d))
       (k + 8) (d_size d)) (k + 12) (d_addrs d)"

section \<open>Read after write\<close>

lemma length_put [simp]:
  "length (put32 bs k v) = length bs" "length (put16 bs k w) = length bs"
  by (simp_all add: put32_def put16_def)

lemma length_put32s [simp]: "length (put32s bs k vs) = length bs"
  by (induction vs arbitrary: bs k) simp_all

lemma length_splice [simp]: "k + length xs \<le> length bs \<Longrightarrow> length (splice bs k xs) = length bs"
  by (simp add: splice_def)

lemma u32_bytes:
  "ucast (ucast v :: u8) OR push_bit 8 (ucast (ucast (drop_bit 8 v) :: u8))
     OR push_bit 16 (ucast (ucast (drop_bit 16 v) :: u8)) OR push_bit 24 (ucast (ucast (drop_bit 24 v) :: u8)) = (v :: u32)"
proof (rule bit_word_eqI)
  fix n assume "n < LENGTH(32)"
  then consider "n < 8" | "8 \<le> n" "n < 16" | "16 \<le> n" "n < 24" | "24 \<le> n" "n < 32" by fastforce
  then show "bit (ucast (ucast v :: u8) OR push_bit 8 (ucast (ucast (drop_bit 8 v) :: u8))
     OR push_bit 16 (ucast (ucast (drop_bit 16 v) :: u8)) OR push_bit 24 (ucast (ucast (drop_bit 24 v) :: u8)) :: u32) n
     = bit v n"
    by cases (auto simp: bit_simps)
qed

lemma u16_bytes: "ucast (ucast v :: u8) OR push_bit 8 (ucast (ucast (drop_bit 8 v) :: u8)) = (v :: u16)"
proof (rule bit_word_eqI)
  fix n assume "n < LENGTH(16)"
  then consider "n < 8" | "8 \<le> n" "n < 16" by fastforce
  then show "bit (ucast (ucast v :: u8) OR push_bit 8 (ucast (ucast (drop_bit 8 v) :: u8)) :: u16) n = bit v n"
    by cases (auto simp: bit_simps)
qed

lemma get32_put32 [simp]: "k + 4 \<le> length bs \<Longrightarrow> get32 (put32 bs k v) k = v"
  using u32_bytes [of v] by (simp add: get32_def put32_def nth_list_update)

lemma get16_put16 [simp]: "k + 2 \<le> length bs \<Longrightarrow> get16 (put16 bs k v) k = v"
  using u16_bytes [of v] by (simp add: get16_def put16_def nth_list_update)

lemma get32_put32_other: "p + 4 \<le> k \<or> k + 4 \<le> p \<Longrightarrow> get32 (put32 bs k v) p = get32 bs p"
  by (auto simp: get32_def put32_def nth_list_update)

lemma get_put_other:
  "p + 4 \<le> k \<or> k + 2 \<le> p \<Longrightarrow> get32 (put16 bs k w) p = get32 bs p"
  "p + 2 \<le> k \<or> k + 4 \<le> p \<Longrightarrow> get16 (put32 bs k v) p = get16 bs p"
  "p + 2 \<le> k \<or> k + 2 \<le> p \<Longrightarrow> get16 (put16 bs k w) p = get16 bs p"
  by (auto simp: get32_def put32_def get16_def put16_def nth_list_update)

lemma nth_put32s_before: "p < k \<Longrightarrow> put32s bs k vs ! p = bs ! p"
  by (induction vs arbitrary: bs k) (simp_all add: put32_def nth_list_update)

lemma get_put32s_before:
  "p + 4 \<le> k \<Longrightarrow> get32 (put32s bs k vs) p = get32 bs p" "p + 2 \<le> k \<Longrightarrow> get16 (put32s bs k vs) p = get16 bs p"
  by (simp_all add: get32_def get16_def nth_put32s_before)

lemma get32_put32s:
  "i < length vs \<Longrightarrow> k + 4 * length vs \<le> length bs \<Longrightarrow> get32 (put32s bs k vs) (k + 4 * i) = vs ! i"
proof (induction vs arbitrary: bs k i)
  case (Cons v vs)
  show ?case
  proof (cases i)
    case 0
    then show ?thesis using Cons.prems by (simp add: get_put32s_before)
  next
    case (Suc j)
    then show ?thesis using Cons.IH [of j "k + 4" "put32 bs k v"] Cons.prems by (simp add: algebra_simps)
  qed
qed simp

lemma get_put_dinode:
  assumes "length (d_addrs d) = 13" "k + 64 \<le> length bs"
  shows "get_dinode (put_dinode bs k d) k = d"
proof -
  have "map (\<lambda>i. get32 (put_dinode bs k d) (k + 12 + 4 * i)) [0..<13] = d_addrs d"
    using assms by (intro nth_equalityI) (simp_all add: put_dinode_def get32_put32s)
  then show ?thesis
    using assms by (simp add: get_dinode_def) (simp add: put_dinode_def get_put32s_before get_put_other)
qed

end
