(* ===== verification/Log.thy ===== *)
theory Log
  imports Bio Diskfmt
begin

text \<open>
  The write-ahead log (log.c). A transaction collects the numbers of the blocks it changed in the
  in-memory header; \<open>commit\<close> copies them to the log area, writes the header, copies them home and
  clears the header. \<open>recover_from_log\<close> repeats the last two steps after a crash. \<^verbatim>\<open>log.lock\<close> makes
  the bookkeeping atomic; a process that has to wait for a commit is \<open>Block\<close>.
\<close>

abbreviation (input) MAXOPBLOCKS :: u32 where "MAXOPBLOCKS \<equiv> 10"
abbreviation (input) LOGSIZE :: nat where "LOGSIZE \<equiv> 30"

record log_st = bio_st +
  log_start :: u32
  log_size :: u32
  log_outstanding :: u32
  log_committing :: u32
  log_dev :: u32
  lh_n :: u32
  lh_block :: "u32 list"

text \<open>\<^verbatim>\<open>readsb\<close> of fs.c: the superblock is block 1.\<close>

definition readsb :: "'a bio_st_scheme \<Rightarrow> u32 \<Rightarrow> (superblock \<times> 'a bio_st_scheme) res" where
  "readsb s dev =
     bind_res (bread s dev 1) (\<lambda>(bp, s).
       let sb = get_superblock (b_data (bcache s ! bp)) in
       bind_res (brelse s bp) (\<lambda>s. Ret (sb, s)))"

section \<open>Copying blocks\<close>

text \<open>The loops count \<open>tail\<close> up to the signed \<^verbatim>\<open>log.lh.n\<close>; an entry past the array is a \<open>Fault\<close>.\<close>

fun install_loop :: "'a log_st_scheme \<Rightarrow> nat \<Rightarrow> nat \<Rightarrow> 'a log_st_scheme res" where
  "install_loop s tail 0 = Ret s"
| "install_loop s tail (Suc n) =
     (if LOGSIZE \<le> tail then Fault
      else bind_res (bread s (log_dev s) (log_start s + of_nat tail + 1)) (\<lambda>(lbuf, s).
        bind_res (bread s (log_dev s) (lh_block s ! tail)) (\<lambda>(dbuf, s).
          let s = set_buf dbuf (\<lambda>x. x\<lparr>b_data := b_data (bcache s ! lbuf)\<rparr>) s in
          bind_res (bwrite s dbuf) (\<lambda>s.
            bind_res (brelse s lbuf) (\<lambda>s.
              bind_res (brelse s dbuf) (\<lambda>s. install_loop s (Suc tail) n))))))"

definition install_trans :: "'a log_st_scheme \<Rightarrow> 'a log_st_scheme res" where
  "install_trans s = install_loop s 0 (nat (sint (lh_n s)))"

fun write_log_loop :: "'a log_st_scheme \<Rightarrow> nat \<Rightarrow> nat \<Rightarrow> 'a log_st_scheme res" where
  "write_log_loop s tail 0 = Ret s"
| "write_log_loop s tail (Suc n) =
     (if LOGSIZE \<le> tail then Fault
      else bind_res (bread s (log_dev s) (log_start s + of_nat tail + 1)) (\<lambda>(to, s).
        bind_res (bread s (log_dev s) (lh_block s ! tail)) (\<lambda>(from, s).
          let s = set_buf to (\<lambda>x. x\<lparr>b_data := b_data (bcache s ! from)\<rparr>) s in
          bind_res (bwrite s to) (\<lambda>s.
            bind_res (brelse s from) (\<lambda>s.
              bind_res (brelse s to) (\<lambda>s. write_log_loop s (Suc tail) n))))))"

definition write_log :: "'a log_st_scheme \<Rightarrow> 'a log_st_scheme res" where
  "write_log s = write_log_loop s 0 (nat (sint (lh_n s)))"

section \<open>The header block\<close>

fun read_head_loop :: "u8 list \<Rightarrow> u32 list \<Rightarrow> nat \<Rightarrow> nat \<Rightarrow> u32 list res" where
  "read_head_loop bs blks i 0 = Ret blks"
| "read_head_loop bs blks i (Suc n) =
     (if LOGSIZE \<le> i then Fault else read_head_loop bs (blks[i := get32 bs (4 + 4 * i)]) (Suc i) n)"

definition read_head :: "'a log_st_scheme \<Rightarrow> 'a log_st_scheme res" where
  "read_head s =
     bind_res (bread s (log_dev s) (log_start s)) (\<lambda>(b, s).
       let lh = b_data (bcache s ! b); s = s\<lparr>lh_n := get32 lh 0\<rparr> in
       bind_res (read_head_loop lh (lh_block s) 0 (nat (sint (lh_n s)))) (\<lambda>blks.
         brelse (s\<lparr>lh_block := blks\<rparr>) b))"

fun write_head_loop :: "u8 list \<Rightarrow> u32 list \<Rightarrow> nat \<Rightarrow> nat \<Rightarrow> u8 list res" where
  "write_head_loop bs blks i 0 = Ret bs"
| "write_head_loop bs blks i (Suc n) =
     (if LOGSIZE \<le> i then Fault else write_head_loop (put32 bs (4 + 4 * i) (blks ! i)) blks (Suc i) n)"

definition write_head :: "'a log_st_scheme \<Rightarrow> 'a log_st_scheme res" where
  "write_head s =
     bind_res (bread s (log_dev s) (log_start s)) (\<lambda>(b, s).
       bind_res (write_head_loop (put32 (b_data (bcache s ! b)) 0 (lh_n s)) (lh_block s) 0 (nat (sint (lh_n s)))) (\<lambda>hb.
         bind_res (bwrite (set_buf b (\<lambda>x. x\<lparr>b_data := hb\<rparr>) s) b) (\<lambda>s. brelse s b)))"

section \<open>Recovery and commit\<close>

definition recover_from_log :: "'a log_st_scheme \<Rightarrow> 'a log_st_scheme res" where
  "recover_from_log s =
     bind_res (read_head s) (\<lambda>s.
       bind_res (install_trans s) (\<lambda>s.
         write_head (s\<lparr>lh_n := 0\<rparr>)))"

definition initlog :: "'a log_st_scheme \<Rightarrow> u32 \<Rightarrow> 'a log_st_scheme res" where
  "initlog s dev =
     (if 4 + 4 * LOGSIZE \<ge> BSIZE then Panic ''initlog: too big logheader''
      else bind_res (readsb s dev) (\<lambda>(sb, s).
        recover_from_log (s\<lparr>log_start := sb_logstart sb, log_size := sb_nlog sb, log_dev := dev\<rparr>)))"

definition commit :: "'a log_st_scheme \<Rightarrow> 'a log_st_scheme res" where
  "commit s =
     (if 0 <s lh_n s
      then bind_res (write_log s) (\<lambda>s.
        bind_res (write_head s) (\<lambda>s.
          bind_res (install_trans s) (\<lambda>s.
            write_head (s\<lparr>lh_n := 0\<rparr>))))
      else Ret s)"

section \<open>System calls\<close>

definition begin_op :: "'a log_st_scheme \<Rightarrow> 'a log_st_scheme res" where
  "begin_op s =
     (if log_committing s \<noteq> 0 then Block
      else if of_nat LOGSIZE <s lh_n s + (log_outstanding s + 1) * MAXOPBLOCKS then Block
      else Ret (s\<lparr>log_outstanding := log_outstanding s + 1\<rparr>))"

definition end_op :: "'a log_st_scheme \<Rightarrow> 'a log_st_scheme res" where
  "end_op s =
     (let s = s\<lparr>log_outstanding := log_outstanding s - 1\<rparr> in
      if log_committing s \<noteq> 0 then Panic ''log.committing''
      else if log_outstanding s = 0
      then bind_res (commit (s\<lparr>log_committing := 1\<rparr>)) (\<lambda>s. Ret (wakeup1 LogChan (s\<lparr>log_committing := 0\<rparr>)))
      else Ret (wakeup1 LogChan s))"

fun find_logged :: "u32 list \<Rightarrow> u32 \<Rightarrow> nat \<Rightarrow> nat \<Rightarrow> nat" where
  "find_logged blks bno i 0 = i"
| "find_logged blks bno i (Suc n) = (if blks ! i = bno then i else find_logged blks bno (Suc i) n)"

definition log_write :: "'a log_st_scheme \<Rightarrow> nat \<Rightarrow> 'a log_st_scheme res" where
  "log_write s b =
     (if of_nat LOGSIZE <=s lh_n s \<or> log_size s - 1 <=s lh_n s then Panic ''too big a transaction''
      else if log_outstanding s <s 1 then Panic ''log_write outside of trans''
      else let bno = b_blockno (bcache s ! b);
               i = find_logged (lh_block s) bno 0 (nat (sint (lh_n s)));
               s = s\<lparr>lh_block := (lh_block s)[i := bno]\<rparr>;
               s = (if int i = sint (lh_n s) then s\<lparr>lh_n := lh_n s + 1\<rparr> else s)
           in Ret (set_buf b (\<lambda>x. x\<lparr>b_flags := b_flags x OR B_DIRTY\<rparr>) s))"

end
