(* ===== verification/Bcache.thy ===== *)
theory Bcache
  imports Bio
begin

text \<open>
  The buffer cache is correct: the ring of buffers stays a ring, \<open>bread\<close> returns the current content
  of a block, \<open>bwrite\<close> puts it on the disk, and \<open>brelse\<close> gives the buffer back. \<open>view\<close> is the content
  of a block as its users see it, through the cache.
\<close>

section \<open>The ring\<close>

fun chain :: "(nat \<Rightarrow> nat) \<Rightarrow> nat \<Rightarrow> nat list \<Rightarrow> nat \<Rightarrow> bool" where
  "chain f a [] b \<longleftrightarrow> f a = b"
| "chain f a (x # xs) b \<longleftrightarrow> f a = x \<and> chain f x xs b"

lemma chain_append: "chain f a (xs @ y # ys) b \<longleftrightarrow> chain f a xs y \<and> chain f y ys b"
  by (induction xs arbitrary: a) auto

lemma chain_upd: "c \<noteq> a \<Longrightarrow> c \<notin> set xs \<Longrightarrow> chain (f(c := v)) a xs b = chain f a xs b"
  by (induction xs arbitrary: a) auto

lemma chain_upd_last:
  "chain f a xs b \<Longrightarrow> distinct (a # xs) \<Longrightarrow> chain (f(last (a # xs) := v)) a xs v"
  by (induction xs arbitrary: a) (auto simp: fun_upd_other)

lemma chain_last: "chain f a xs b \<Longrightarrow> f (last (a # xs)) = b"
  by (induction xs arbitrary: a) auto

lemma chain_first: "chain f a xs b \<Longrightarrow> f a = hd (xs @ [b])"
  by (cases xs) auto

definition ring :: "(nat \<Rightarrow> nat) \<Rightarrow> (nat \<Rightarrow> nat) \<Rightarrow> nat \<Rightarrow> nat list \<Rightarrow> bool" where
  "ring nx pv h xs \<longleftrightarrow> distinct (h # xs) \<and> chain nx h xs h \<and> chain pv h (rev xs) h"

lemma ring_unlink:
  assumes "ring nx pv h (us @ x # vs)"
  shows "ring (nx(pv x := nx x)) (pv(nx x := pv x)) h (us @ vs)"
proof -
  have d: "distinct (h # us @ x # vs)" and n: "chain nx h us x" "chain nx x vs h"
    and p: "chain pv h (rev vs) x" "chain pv x (rev us) h"
    using assms by (auto simp: ring_def chain_append)
  have px: "pv x = last (h # us)" using chain_first [OF p(2)] by (cases us rule: rev_cases) auto
  have nxx: "nx x = last (h # rev vs)" using chain_first [OF n(2)] by (cases vs) auto
  have "chain (nx(pv x := nx x)) h us (nx x)" unfolding px using chain_upd_last [OF n(1)] d by auto
  moreover have "chain (pv(nx x := pv x)) h (rev vs) (pv x)" unfolding nxx using chain_upd_last [OF p(1)] d by auto
  moreover have "chain (nx(pv x := nx x)) h (us @ vs) h"
  proof (cases vs)
    case Nil
    then show ?thesis using n(2) calculation(1) by simp
  next
    case (Cons v ws)
    have "pv x \<noteq> v" "pv x \<notin> set ws" using d Cons unfolding px by (cases us rule: rev_cases; auto)+
    then show ?thesis using n(2) calculation(1) Cons by (simp add: chain_append chain_upd)
  qed
  moreover have "chain (pv(nx x := pv x)) h (rev (us @ vs)) h"
  proof (cases us rule: rev_cases)
    case Nil
    then show ?thesis using p(2) calculation(2) by simp
  next
    case (snoc ws u)
    have "nx x \<noteq> u" "nx x \<notin> set ws" using d snoc unfolding nxx by (cases vs; auto)+
    then show ?thesis using p(2) calculation(2) snoc by (simp add: chain_append chain_upd)
  qed
  moreover have "distinct (h # us @ vs)" using d by simp
  ultimately show ?thesis unfolding ring_def by blast
qed

lemma ring_link_front:
  assumes "ring nx pv h xs" "x \<notin> set (h # xs)"
  shows "ring (nx(x := nx h, h := x)) (pv(x := h, nx h := x)) h (x # xs)"
proof (cases xs)
  case Nil
  then show ?thesis using assms by (auto simp: ring_def)
next
  case (Cons y ys)
  then have d: "distinct (h # y # ys)" and n: "nx h = y" "chain nx y ys h" and p: "chain pv h (rev ys) y" "pv y = h"
    and x: "x \<noteq> h" "x \<noteq> y" "x \<notin> set ys"
    using assms by (auto simp: ring_def chain_append)
  have "chain (nx(x := nx h, h := x)) h (x # xs) h" using Cons d n x by (auto simp: chain_upd)
  moreover have "chain (pv(x := h, nx h := x)) h (rev (x # xs)) h" using Cons d n p x by (auto simp: chain_append chain_upd)
  ultimately show ?thesis using Cons d x by (auto simp: ring_def)
qed

section \<open>Buffers\<close>

definition nexts :: "buf list \<Rightarrow> nat \<Rightarrow> nat" where "nexts bs i = b_next (bs ! i)"

definition prevs :: "buf list \<Rightarrow> nat \<Rightarrow> nat" where "prevs bs i = b_prev (bs ! i)"

text \<open>What users of a buffer see, without locks, counts and links.\<close>

definition core :: "buf \<Rightarrow> u32 \<times> u32 \<times> u32 \<times> u8 list" where
  "core x = (b_dev x, b_blockno x, b_flags x, b_data x)"

definition use :: "buf \<Rightarrow> u32 \<times> sleeplock" where
  "use x = (b_refcnt x, b_lock x)"

definition bufs_ok :: "buf list \<Rightarrow> bool" where
  "bufs_ok bs \<longleftrightarrow> length bs = 31 \<and> (\<exists>xs. ring (nexts bs) (prevs bs) 30 xs \<and> set xs = {..<30})"

lemma nexts_upd [simp]:
  "i < length bs \<Longrightarrow> nexts (upd_buf i (\<lambda>x. x\<lparr>b_next := v\<rparr>) bs) = (nexts bs)(i := v)"
  "nexts (upd_buf i (\<lambda>x. x\<lparr>b_prev := v\<rparr>) bs) = nexts bs"
  by (rule ext, cases "i < length bs"; simp add: nexts_def prevs_def upd_buf_def nth_list_update list_update_beyond not_less)+

lemma prevs_upd [simp]:
  "i < length bs \<Longrightarrow> prevs (upd_buf i (\<lambda>x. x\<lparr>b_prev := v\<rparr>) bs) = (prevs bs)(i := v)"
  "prevs (upd_buf i (\<lambda>x. x\<lparr>b_next := v\<rparr>) bs) = prevs bs"
  by (rule ext, cases "i < length bs"; simp add: nexts_def prevs_def upd_buf_def nth_list_update list_update_beyond not_less)+

lemma core_upd [simp]:
  "core (upd_buf i (\<lambda>x. x\<lparr>b_prev := v\<rparr>) bs ! j) = core (bs ! j)"
  "core (upd_buf i (\<lambda>x. x\<lparr>b_next := v\<rparr>) bs ! j) = core (bs ! j)"
  "use (upd_buf i (\<lambda>x. x\<lparr>b_prev := v\<rparr>) bs ! j) = use (bs ! j)"
  "use (upd_buf i (\<lambda>x. x\<lparr>b_next := v\<rparr>) bs ! j) = use (bs ! j)"
  by (cases "i < length bs"; simp add: upd_buf_def nth_list_update list_update_beyond not_less core_def use_def)+


lemma ring_nx_neq: "ring nx pv h (us @ x # vs) \<Longrightarrow> nx x \<noteq> x"
  by (cases vs) (auto simp: ring_def chain_append)

lemma ring_in:
  assumes "ring nx pv h xs" "set xs = {..<h}" "i \<le> h"
  shows "nx i \<le> h" "pv i \<le> h"
proof -
  have c: "f i \<in> insert b (set ys)" if "chain f a ys b" "i \<in> insert a (set ys)" for f a ys b
    using that by (induction ys arbitrary: a) auto
  have sub: "insert h (set xs) \<subseteq> {..h}" "insert h (set (rev xs)) \<subseteq> {..h}" by (auto simp: assms(2))
  have i: "i \<in> insert h (set xs)" "i \<in> insert h (set (rev xs))" using assms(3) by (auto simp: assms(2) le_eq_less_or_eq)
  have "chain nx h xs h" "chain pv h (rev xs) h" using assms(1) by (simp_all add: ring_def)
  then have "nx i \<in> insert h (set xs)" "pv i \<in> insert h (set (rev xs))" using c i by blast+
  then show "nx i \<le> h" "pv i \<le> h" using sub by blast+
qed

lemma unlink_links:
  assumes "length bs = 31" "nexts bs b < 31" "prevs bs b < 31" "nexts bs b \<noteq> b" "b < 31"
  shows "nexts (unlink b bs) = (nexts bs)(prevs bs b := nexts bs b)"
    and "prevs (unlink b bs) = (prevs bs)(nexts bs b := prevs bs b)"
proof -
  let ?bs1 = "upd_buf (b_next (bs ! b)) (\<lambda>x. x\<lparr>b_prev := b_prev (bs ! b)\<rparr>) bs"
  have e: "b_prev (?bs1 ! b) = prevs bs b" "b_next (?bs1 ! b) = nexts bs b"
    using assms by (simp_all add: nth_upd_buf nexts_def prevs_def)
  show "nexts (unlink b bs) = (nexts bs)(prevs bs b := nexts bs b)"
    using assms by (simp add: unlink_def Let_def e flip: nexts_def prevs_def)
  show "prevs (unlink b bs) = (prevs bs)(nexts bs b := prevs bs b)"
    using assms by (simp add: unlink_def Let_def e flip: nexts_def prevs_def)
qed

lemma unlink_frame [simp]:
  "length (unlink b bs) = length bs" "core (unlink b bs ! i) = core (bs ! i)" "use (unlink b bs ! i) = use (bs ! i)"
  by (simp_all add: unlink_def Let_def)

lemma link_front_links:
  assumes "length bs = 31" "nexts bs 30 < 31" "b < 30"
  shows "nexts (link_front b bs) = (nexts bs)(b := nexts bs 30, 30 := b)"
    and "prevs (link_front b bs) = (prevs bs)(b := 30, nexts bs 30 := b)"
proof -
  let ?bs1 = "upd_buf b (\<lambda>x. x\<lparr>b_prev := 30\<rparr>) (upd_buf b (\<lambda>x. x\<lparr>b_next := b_next (bs ! 30)\<rparr>) bs)"
  have e: "b_next (?bs1 ! 30) = nexts bs 30" using assms by (simp add: nth_upd_buf nexts_def)
  show "nexts (link_front b bs) = (nexts bs)(b := nexts bs 30, 30 := b)"
    using assms by (simp add: link_front_def Let_def e flip: nexts_def)
  show "prevs (link_front b bs) = (prevs bs)(b := 30, nexts bs 30 := b)"
    using assms by (simp add: link_front_def Let_def e flip: nexts_def)
qed

lemma link_front_frame [simp]:
  "length (link_front b bs) = length bs" "core (link_front b bs ! i) = core (bs ! i)" "use (link_front b bs ! i) = use (bs ! i)"
  by (simp_all add: link_front_def Let_def)

text \<open>Moving a buffer to the front, as \<^verbatim>\<open>brelse\<close> does.\<close>

lemma move_front_ring:
  assumes "length bs = 31" "ring (nexts bs) (prevs bs) 30 (us @ b # vs)" "set (us @ b # vs) = {..<30}"
  shows "ring (nexts (link_front b (unlink b bs))) (prevs (link_front b (unlink b bs))) 30 (b # us @ vs)"
proof -
  note nb = ring_in [OF assms(2,3)]
  have b: "b < 30" using assms(3) by auto
  have u: "nexts (unlink b bs) = (nexts bs)(prevs bs b := nexts bs b)"
      "prevs (unlink b bs) = (prevs bs)(nexts bs b := prevs bs b)"
    using unlink_links [OF assms(1) _ _ ring_nx_neq [OF assms(2)]] nb [of b] b by auto
  have r: "ring (nexts (unlink b bs)) (prevs (unlink b bs)) 30 (us @ vs)"
    unfolding u by (rule ring_unlink [OF assms(2)])
  have "nexts (unlink b bs) 30 < 31" using nb [of 30] nb(1) [of b] b unfolding u by auto
  note l = link_front_links [OF _ this b]
  have "b \<notin> set (30 # us @ vs)" using assms(2) by (auto simp: ring_def)
  from ring_link_front [OF r this] show ?thesis using l assms(1) by simp
qed

lemma move_front_ok:
  assumes "bufs_ok bs" "b < 30"
  shows "bufs_ok (link_front b (unlink b bs))"
proof -
  obtain xs where xs: "length bs = 31" "ring (nexts bs) (prevs bs) 30 xs" "set xs = {..<30}"
    using assms(1) by (auto simp: bufs_ok_def)
  then have "b \<in> set xs" using assms(2) by simp
  then obtain us vs where sp: "xs = us @ b # vs" by (meson split_list)
  then have "set (b # us @ vs) = {..<30}" using xs(3) by auto
  moreover have "ring (nexts (link_front b (unlink b bs))) (prevs (link_front b (unlink b bs))) 30 (b # us @ vs)"
    using move_front_ring [OF xs(1)] xs(2,3) unfolding sp by blast
  ultimately show ?thesis using xs(1) unfolding bufs_ok_def by (auto simp del: set_append list.set)
qed

text \<open>\<open>binit\<close> makes a ring of all buffers, the last one in front.\<close>

lemma binit_loop_ring:
  assumes "length bs = 31" "ring (nexts bs) (prevs bs) 30 xs" "\<forall>x \<in> set xs. x < b" "b + n \<le> 30"
  shows "length (binit_loop bs b n) = 31 \<and> ring (nexts (binit_loop bs b n)) (prevs (binit_loop bs b n)) 30 (rev [b..<b + n] @ xs)"
  using assms
proof (induction n arbitrary: bs b xs)
  case 0
  then show ?case by simp
next
  case (Suc n)
  let ?c = "upd_buf b (\<lambda>x. x\<lparr>b_lock := initsleeplock (b_lock x) ''buffer''\<rparr>) bs"
  have e: "nexts ?c = nexts bs" "prevs ?c = prevs bs"
    by (rule ext, cases "b < length bs"; simp add: nexts_def prevs_def upd_buf_def nth_list_update list_update_beyond not_less)+
  have "nexts bs 30 < 31"
    using chain_first [of "nexts bs" 30 xs 30] Suc.prems by (cases xs) (auto simp: ring_def)
  then have l: "nexts (link_front b ?c) = (nexts bs)(b := nexts bs 30, 30 := b)"
      "prevs (link_front b ?c) = (prevs bs)(b := 30, nexts bs 30 := b)"
    using link_front_links [of ?c b] Suc.prems e by auto
  have "b \<notin> set (30 # xs)" using Suc.prems(3,4) by auto
  then have "ring (nexts (link_front b ?c)) (prevs (link_front b ?c)) 30 (b # xs)"
    unfolding l by (rule ring_link_front [OF Suc.prems(2)])
  moreover have "\<forall>x \<in> set (b # xs). x < Suc b" using Suc.prems(3) by auto
  ultimately have "length (binit_loop (link_front b ?c) (Suc b) n) = 31
      \<and> ring (nexts (binit_loop (link_front b ?c) (Suc b) n)) (prevs (binit_loop (link_front b ?c) (Suc b) n)) 30
        (rev [Suc b..<Suc b + n] @ b # xs)"
    using Suc.IH [of "link_front b ?c" "b # xs" "Suc b"] Suc.prems by simp
  moreover have "rev [b..<b + Suc n] = rev [Suc b..<Suc b + n] @ [b]" by (simp add: upt_rec [of b] del: upt_Suc)
  ultimately show ?case by (simp only: binit_loop.simps append_assoc append.simps)
qed

lemma binit_ring:
  assumes "length (bcache s) = 31"
  shows "length (bcache (binit s)) = 31 \<and> ring (nexts (bcache (binit s))) (prevs (bcache (binit s))) 30 (rev [0..<30])"
proof -
  let ?bs = "upd_buf 30 (\<lambda>x. x\<lparr>b_prev := 30, b_next := 30\<rparr>) (bcache s)"
  have "ring (nexts ?bs) (prevs ?bs) 30 []" using assms by (simp add: ring_def nth_upd_buf nexts_def prevs_def)
  from binit_loop_ring [OF _ this, of 0 30] show ?thesis using assms by (simp add: binit_def)
qed

section \<open>Searching\<close>

lemma scan_next_find:
  assumes "chain (nexts bs) a xs 30" "\<forall>x \<in> set xs. x < 30" "length bs = 31" "length xs \<le> n"
  shows "scan_next n P bs (hd (xs @ [30])) = Ret (find (\<lambda>i. P (bs ! i)) xs)"
  using assms
proof (induction xs arbitrary: a n)
  case Nil
  then show ?case by (simp add: scan_next.simps)
next
  case (Cons x xs)
  then obtain m where n: "n = Suc m" by (cases n) auto
  have "nexts bs x = hd (xs @ [30])" using chain_first [of "nexts bs" x xs 30] Cons.prems(1) by simp
  then show ?case using Cons.IH [of x m] Cons.prems by (simp add: n scan_next.simps [of "Suc m"] flip: nexts_def)
qed

lemma scan_prev_find:
  assumes "chain (prevs bs) a xs 30" "\<forall>x \<in> set xs. x < 30" "length bs = 31" "length xs \<le> n"
  shows "scan_prev n P bs (hd (xs @ [30])) = Ret (find (\<lambda>i. P (bs ! i)) xs)"
  using assms
proof (induction xs arbitrary: a n)
  case Nil
  then show ?case by (simp add: scan_prev.simps)
next
  case (Cons x xs)
  then obtain m where n: "n = Suc m" by (cases n) auto
  have "prevs bs x = hd (xs @ [30])" using chain_first [of "prevs bs" x xs 30] Cons.prems(1) by simp
  then show ?case using Cons.IH [of x m] Cons.prems by (simp add: n scan_prev.simps [of "Suc m"] flip: prevs_def)
qed

lemma scans:
  assumes "bufs_ok bs"
  obtains xs where "set xs = {..<30}" "scan_next 30 P bs (b_next (bs ! 30)) = Ret (find (\<lambda>i. P (bs ! i)) xs)"
    "scan_prev 30 Q bs (b_prev (bs ! 30)) = Ret (find (\<lambda>i. Q (bs ! i)) (rev xs))"
proof -
  obtain xs where xs: "length bs = 31" "ring (nexts bs) (prevs bs) 30 xs" "set xs = {..<30}"
    using assms by (auto simp: bufs_ok_def)
  have "card (set xs) = 30" using xs(3) by simp
  moreover have "distinct xs" using xs(2) by (simp add: ring_def)
  ultimately have len: "length xs = 30" by (simp add: distinct_card)
  have c: "chain (nexts bs) 30 xs 30" "chain (prevs bs) 30 (rev xs) 30" using xs(2) by (simp_all add: ring_def)
  show thesis
  proof (rule that [OF xs(3)])
    show "scan_next 30 P bs (b_next (bs ! 30)) = Ret (find (\<lambda>i. P (bs ! i)) xs)"
      using scan_next_find [OF c(1) _ xs(1), of 30 P] chain_first [OF c(1)] xs(3) len by (simp add: nexts_def)
    show "scan_prev 30 Q bs (b_prev (bs ! 30)) = Ret (find (\<lambda>i. Q (bs ! i)) (rev xs))"
      using scan_prev_find [OF c(2) _ xs(1), of 30 Q] chain_first [OF c(2)] xs(3) len by (simp add: prevs_def)
  qed
qed

section \<open>Flags\<close>

definition valid :: "buf \<Rightarrow> bool" where "valid x \<longleftrightarrow> b_flags x AND B_VALID \<noteq> 0"
definition dirty :: "buf \<Rightarrow> bool" where "dirty x \<longleftrightarrow> b_flags x AND B_DIRTY \<noteq> 0"

lemma valid_bit: "valid x \<longleftrightarrow> bit (b_flags x) 1"
  using and_exp_eq_0_iff_not_bit [of "b_flags x" 1] by (simp add: valid_def)

lemma dirty_bit: "dirty x \<longleftrightarrow> bit (b_flags x) 2"
  using and_exp_eq_0_iff_not_bit [of "b_flags x" 2] by (simp add: dirty_def)

lemma dirty_clear: "\<not> dirty x \<longleftrightarrow> b_flags x AND 4 = 0"
  by (simp add: dirty_def)

lemma flags_bits_u32: "bit (2 :: u32) n \<longleftrightarrow> n = 1" "bit (4 :: u32) n \<longleftrightarrow> n = 2"
  using bit_exp_iff [of 1 n, where ?'a = u32] bit_exp_iff [of 2 n, where ?'a = u32] by auto

lemma flags_bits_int: "bit (2 :: int) n \<longleftrightarrow> n = 1" "bit (4 :: int) n \<longleftrightarrow> n = 2"
  using bit_exp_iff [of 1 n, where ?'a = int] bit_exp_iff [of 2 n, where ?'a = int] by auto

lemma flags_bits_nat: "bit (2 :: nat) n \<longleftrightarrow> n = 1" "bit (4 :: nat) n \<longleftrightarrow> n = 2"
  using bit_exp_iff [of 1 n, where ?'a = nat] bit_exp_iff [of 2 n, where ?'a = nat] by auto

lemmas flags_bits = flags_bits_u32 flags_bits_int flags_bits_nat

lemma flag_values: "b_flags x AND 2 = (if valid x then 2 else 0)" "b_flags x AND 4 = (if dirty x then 4 else 0)"
  by (rule bit_eqI; auto simp: bit_and_iff flags_bits valid_bit dirty_bit)+

lemma nothing_to_do: "b_flags x AND 6 = 2 \<longleftrightarrow> valid x \<and> \<not> dirty x"
proof -
  have "b_flags x AND 6 = (b_flags x AND 2) OR (b_flags x AND 4)"
    using bit.conj_disj_distrib [of "b_flags x" 2 4] by simp
  then show ?thesis by (simp add: flag_values)
qed

lemma flag_updates:
  "valid (x\<lparr>b_flags := b_flags x OR 4\<rparr>) = valid x" "dirty (x\<lparr>b_flags := b_flags x OR 4\<rparr>)"
  "valid (x\<lparr>b_flags := b_flags x OR 2\<rparr>)" "dirty (x\<lparr>b_flags := b_flags x OR 2\<rparr>) = dirty x"
  "valid (x\<lparr>b_flags := b_flags x AND NOT 4 OR 2\<rparr>)" "\<not> dirty (x\<lparr>b_flags := b_flags x AND NOT 4 OR 2\<rparr>)"
  "\<not> valid (x\<lparr>b_flags := 0\<rparr>)" "\<not> dirty (x\<lparr>b_flags := 0\<rparr>)"
  by (simp_all add: valid_bit dirty_bit bit_or_iff bit_and_iff bit_not_iff flags_bits)

section \<open>Invariant\<close>

text \<open>
  \<open>binv s L\<close>: the current process holds the buffers \<open>L\<close>, and nobody uses another one. A block is in
  one buffer at most. A dirty buffer is valid; a buffer that is valid, not dirty and not held has the
  block's content on the disk.
\<close>

definition hit :: "u32 \<Rightarrow> buf \<Rightarrow> bool" where
  "hit bn x \<longleftrightarrow> b_dev x = 1 \<and> b_blockno x = bn"

definition view :: "'a bio_st_scheme \<Rightarrow> u32 \<Rightarrow> u8 list" where
  "view s bn =
     (case find (\<lambda>i. hit bn (bcache s ! i) \<and> valid (bcache s ! i)) [0..<30] of
        Some i \<Rightarrow> b_data (bcache s ! i)
      | None \<Rightarrow> memdisk s bn)"

definition dirty_blocks :: "'a bio_st_scheme \<Rightarrow> u32 set" where
  "dirty_blocks s = {bn. \<exists>i < 30. hit bn (bcache s ! i) \<and> dirty (bcache s ! i)}"

definition uniq :: "buf list \<Rightarrow> bool" where
  "uniq bs \<longleftrightarrow> (\<forall>i < 30. \<forall>j < 30. \<forall>bn. hit bn (bs ! i) \<longrightarrow> hit bn (bs ! j) \<longrightarrow> i = j)"

definition buf_ok :: "(u32 \<Rightarrow> u8 list) \<Rightarrow> bool \<Rightarrow> buf \<Rightarrow> bool" where
  "buf_ok d heldp x \<longleftrightarrow> (dirty x \<longrightarrow> valid x \<and> b_dev x = 1) \<and> (valid x \<longrightarrow> length (b_data x) = 512)
     \<and> (\<not> heldp \<and> b_dev x = 1 \<and> valid x \<and> \<not> dirty x \<longrightarrow> b_data x = d (b_blockno x))"

definition use_ok :: "u32 \<Rightarrow> bool \<Rightarrow> buf \<Rightarrow> bool" where
  "use_ok me heldp x \<longleftrightarrow>
     (if heldp then b_refcnt x = 1 \<and> slocked (b_lock x) \<noteq> 0 \<and> sl_pid (b_lock x) = me
      else b_refcnt x = 0 \<and> slocked (b_lock x) = 0)"

definition cur_ok :: "'a proc_st_scheme \<Rightarrow> bool" where
  "cur_ok s = (case cpu_proc s (this_cpu s) of None \<Rightarrow> True | Some p \<Rightarrow> p < length (ptable s))"

definition binv :: "'a bio_st_scheme \<Rightarrow> nat set \<Rightarrow> bool" where
  "binv s L \<longleftrightarrow> bufs_ok (bcache s) \<and> L \<subseteq> {..<30} \<and> uniq (bcache s) \<and> cur_ok s
     \<and> (\<forall>bn. length (memdisk s bn) = 512)
     \<and> (\<forall>i < 30. buf_ok (memdisk s) (i \<in> L) (bcache s ! i) \<and> use_ok (curpid s) (i \<in> L) (bcache s ! i))"

lemma cur_updates [simp]:
  "curpid (s\<lparr>bcache := v\<rparr>) = curpid s" "cur_ok (s\<lparr>bcache := v\<rparr>) = cur_ok s"
  "curpid (s\<lparr>memdisk := d\<rparr>) = curpid s" "cur_ok (s\<lparr>memdisk := d\<rparr>) = cur_ok s"
  "curpid (s\<lparr>diskwrites := w\<rparr>) = curpid s" "cur_ok (s\<lparr>diskwrites := w\<rparr>) = cur_ok s"
  by (simp_all add: curpid_def cur_ok_def split: option.split)

lemma view_hit:
  assumes "uniq (bcache s)" "i < 30" "hit bn (bcache s ! i)" "valid (bcache s ! i)"
  shows "view s bn = b_data (bcache s ! i)"
proof (cases "find (\<lambda>i. hit bn (bcache s ! i) \<and> valid (bcache s ! i)) [0..<30]")
  case None
  then show ?thesis using assms by (auto simp: find_None_iff)
next
  case (Some j)
  then have "j < 30" "hit bn (bcache s ! j)" by (auto simp: find_Some_iff)
  then show ?thesis using assms Some unfolding uniq_def view_def by fastforce
qed

lemma view_miss: "(\<And>i. i < 30 \<Longrightarrow> \<not> (hit bn (bcache s ! i) \<and> valid (bcache s ! i))) \<Longrightarrow> view s bn = memdisk s bn"
  by (auto simp: view_def find_Some_iff split: option.split)

lemma view_cong:
  assumes "\<And>i. i < 30 \<Longrightarrow> core (bcache t ! i) = core (bcache s ! i)" "memdisk t = memdisk s"
  shows "view t = view s" "dirty_blocks t = dirty_blocks s"
proof -
  have c: "hit bn (bcache t ! i) = hit bn (bcache s ! i)" "valid (bcache t ! i) = valid (bcache s ! i)"
    "dirty (bcache t ! i) = dirty (bcache s ! i)" "b_data (bcache t ! i) = b_data (bcache s ! i)" if "i < 30" for i bn
    using assms(1) [OF that] by (simp_all add: core_def hit_def valid_def dirty_def)
  have "find (\<lambda>i. hit bn (bcache t ! i) \<and> valid (bcache t ! i)) [0..<30]
      = find (\<lambda>i. hit bn (bcache s ! i) \<and> valid (bcache s ! i)) [0..<30]" for bn
    using c by (intro find_cong) auto
  moreover have "i < 30" if "find P [0..<30] = Some i" for P i using that by (auto simp: find_Some_iff)
  ultimately show "view t = view s"
    using c(4) assms(2) unfolding view_def fun_eq_iff by (auto split: option.split)
  show "dirty_blocks t = dirty_blocks s" using c by (auto simp: dirty_blocks_def)
qed

text \<open>Taking hold of buffer \<open>b\<close> for block \<open>bn\<close>.\<close>

definition took :: "'a bio_st_scheme \<Rightarrow> u32 \<Rightarrow> nat \<Rightarrow> buf \<Rightarrow> bool" where
  "took s bn b x \<longleftrightarrow> hit bn x \<and> valid x \<and> b_data x = view s bn \<and> dirty x = (hit bn (bcache s ! b) \<and> dirty (bcache s ! b))
     \<and> use_ok (curpid s) True x \<and> b_next x = b_next (bcache s ! b) \<and> b_prev x = b_prev (bcache s ! b)"

lemma length_view: "binv s L \<Longrightarrow> length (view s bn) = 512"
  by (auto simp: view_def binv_def buf_ok_def find_Some_iff split: option.split)

lemma bufs_ok_upd:
  assumes "bufs_ok bs" "b < 30" "b_next x = b_next (bs ! b)" "b_prev x = b_prev (bs ! b)"
  shows "bufs_ok (bs[b := x])"
proof -
  have "length bs = 31" using assms(1) by (auto simp: bufs_ok_def)
  then have "nexts (bs[b := x]) = nexts bs" "prevs (bs[b := x]) = prevs bs"
    using assms(2-4) by (auto simp: fun_eq_iff nexts_def prevs_def nth_list_update)
  then show ?thesis using assms(1) by (simp add: bufs_ok_def)
qed

lemma took_inv:
  assumes inv: "binv s L" and b: "b < 30" "b \<notin> L" and x: "took s bn b x"
    and only: "\<And>j. j < 30 \<Longrightarrow> j \<noteq> b \<Longrightarrow> \<not> hit bn (bcache s ! j)"
    and clean: "\<not> hit bn (bcache s ! b) \<Longrightarrow> \<not> dirty (bcache s ! b)"
  defines "t \<equiv> s\<lparr>bcache := (bcache s)[b := x]\<rparr>"
  shows "binv t (insert b L) \<and> view t = view s \<and> dirty_blocks t = dirty_blocks s
    \<and> (\<not> dirty x \<longrightarrow> b_data x = memdisk s bn)"
proof -
  have len: "length (bcache s) = 31" and un: "uniq (bcache s)" using inv by (auto simp: binv_def bufs_ok_def)
  have bt: "bcache t ! b = x" "\<And>j. j \<noteq> b \<Longrightarrow> bcache t ! j = bcache s ! j" using b len by (simp_all add: t_def)
  have md: "memdisk t = memdisk s" "curpid t = curpid s" "cur_ok t = cur_ok s"
    by (simp_all add: t_def)
  have xs: "hit bn x" "valid x" "b_data x = view s bn" "dirty x = (hit bn (bcache s ! b) \<and> dirty (bcache s ! b))"
    "use_ok (curpid s) True x" "b_next x = b_next (bcache s ! b)" "b_prev x = b_prev (bcache s ! b)"
    using x by (simp_all add: took_def)
  have ok: "bufs_ok (bcache t)" unfolding t_def using inv b xs(6,7) by (simp add: binv_def bufs_ok_upd)
  have un': "uniq (bcache t)"
    unfolding uniq_def
  proof (intro allI impI)
    fix i j y assume ij: "i < 30" "j < 30" "hit y (bcache t ! i)" "hit y (bcache t ! j)"
    have other: "k = b" if "k < 30" "hit y (bcache t ! k)" "hit y x" for k
      using only [of k] bt(2) [of k] that xs(1) by (cases "k = b") (simp_all add: hit_def)
    show "i = j"
    proof (cases "hit y x")
      case True
      then show ?thesis using other ij by blast
    next
      case False
      then have "i \<noteq> b" "j \<noteq> b" using ij bt(1) by blast+
      then show ?thesis using un ij bt(2) unfolding uniq_def by simp
    qed
  qed
  have "buf_ok (memdisk s) True x"
    using xs(1-4) length_view [OF inv, of bn] inv b by (auto simp: buf_ok_def hit_def binv_def)
  then have "buf_ok (memdisk t) (i \<in> insert b L) (bcache t ! i) \<and> use_ok (curpid t) (i \<in> insert b L) (bcache t ! i)"
    if "i < 30" for i
    using inv bt md xs(5) that by (cases "i = b") (simp_all add: binv_def)
  then have 1: "binv t (insert b L)" using inv ok un' md b by (auto simp: binv_def)
  have old: "buf_ok (memdisk s) False (bcache s ! b)" using inv b by (auto simp: binv_def)
  have bnv: "view s bn = memdisk s bn" if "\<not> (hit bn (bcache s ! b) \<and> dirty (bcache s ! b))"
  proof (cases "hit bn (bcache s ! b) \<and> valid (bcache s ! b)")
    case True
    then show ?thesis using view_hit [OF un b(1)] old that by (auto simp: buf_ok_def hit_def)
  next
    case False
    then show ?thesis using only by (intro view_miss) metis
  qed
  have "view t y = view s y" for y
  proof (cases "y = bn")
    case True
    then show ?thesis using view_hit [OF un' b(1), of y] xs(1-3) bt(1) by simp
  next
    case ne: False
    show ?thesis
    proof (cases "\<exists>j < 30. j \<noteq> b \<and> hit y (bcache s ! j) \<and> valid (bcache s ! j)")
      case True
      then obtain j where "j < 30" "j \<noteq> b" "hit y (bcache s ! j)" "valid (bcache s ! j)" by blast
      then show ?thesis using view_hit [OF un', of j y] view_hit [OF un, of j y] bt(2) by simp
    next
      case False
      have "view t y = memdisk t y"
        using False bt ne xs(1) by (intro view_miss) (metis hit_def)
      moreover have "view s y = memdisk s y"
      proof (cases "hit y (bcache s ! b) \<and> valid (bcache s ! b)")
        case True
        then have "\<not> dirty (bcache s ! b)" using clean ne by (auto simp: hit_def)
        then show ?thesis using view_hit [OF un b(1)] old True by (auto simp: buf_ok_def hit_def)
      next
        case nh: False
        then show ?thesis using False by (intro view_miss) metis
      qed
      ultimately show ?thesis using md by simp
    qed
  qed
  moreover have "dirty_blocks t = dirty_blocks s"
  proof (intro set_eqI iffI)
    fix y assume "y \<in> dirty_blocks t"
    then obtain i where "i < 30" "hit y (bcache t ! i)" "dirty (bcache t ! i)" by (auto simp: dirty_blocks_def)
    then show "y \<in> dirty_blocks s" using bt xs(1,4) by (cases "i = b") (auto simp: dirty_blocks_def hit_def)
  next
    fix y assume "y \<in> dirty_blocks s"
    then obtain i where i: "i < 30" "hit y (bcache s ! i)" "dirty (bcache s ! i)" by (auto simp: dirty_blocks_def)
    have "hit y (bcache t ! i) \<and> dirty (bcache t ! i)"
      using bt xs(1,4) i clean by (cases "i = b") (auto simp: hit_def)
    then show "y \<in> dirty_blocks t" using i(1) unfolding dirty_blocks_def by blast
  qed
  ultimately show ?thesis using 1 bnv xs(3,4) by auto
qed

section \<open>Operations\<close>

lemma find_SomeD: "find P xs = Some i \<Longrightarrow> i \<in> set xs \<and> P i"
  by (induction xs) (auto split: if_splits)

lemma find_unique:
  assumes "i \<in> set xs" "P i" "\<And>j. j \<in> set xs \<Longrightarrow> P j \<Longrightarrow> j = i"
  shows "find P xs = Some i"
proof (cases "find P xs")
  case None
  then show ?thesis using assms(1,2) by (simp add: find_None_iff)
next
  case (Some j)
  then show ?thesis using assms(3) [of j] find_SomeD [OF Some] by simp
qed

lemma iderw_read:
  assumes "i < length (bcache s)" "holdingsleep (curpid s) (b_lock (bcache s ! i))" "\<not> valid (bcache s ! i)"
    "\<not> dirty (bcache s ! i)" "hit bn (bcache s ! i)" "bn < disksize s"
  shows "iderw s i = Ret (s\<lparr>bcache := (bcache s)[i := (bcache s ! i)\<lparr>b_data := memdisk s bn, b_flags := b_flags (bcache s ! i) OR 2\<rparr>]\<rparr>)"
  using assms nothing_to_do [of "bcache s ! i"]
  by (simp add: iderw_def hit_def dirty_def set_buf_def upd_buf_def Let_def not_le)

lemma iderw_write:
  assumes "i < length (bcache s)" "holdingsleep (curpid s) (b_lock (bcache s ! i))"
    "dirty (bcache s ! i)" "hit bn (bcache s ! i)" "bn < disksize s"
  shows "iderw s i = Ret (s\<lparr>memdisk := (memdisk s)(bn := b_data (bcache s ! i)),
      diskwrites := diskwrites s @ [(bn, b_data (bcache s ! i))],
      bcache := (bcache s)[i := (bcache s ! i)\<lparr>b_flags := b_flags (bcache s ! i) AND NOT 4 OR 2\<rparr>]\<rparr>)"
  using assms nothing_to_do [of "bcache s ! i"]
  by (simp add: iderw_def hit_def dirty_def set_buf_def upd_buf_def Let_def not_le)

text \<open>What \<open>bget\<close> does to its buffer, and what \<open>bread\<close> adds.\<close>

lemma bget_lock:
  assumes "binv s L" "b < 30" "b \<notin> L" "b_lock (f (bcache s ! b)) = b_lock (bcache s ! b)"
  shows "lock_buf (set_buf b f s) b = Ret (b, s\<lparr>bcache := (bcache s)[b :=
    (f (bcache s ! b))\<lparr>b_lock := (b_lock (bcache s ! b))\<lparr>slocked := 1, sl_pid := curpid s\<rparr>\<rparr>]\<rparr>)"
proof -
  have "length (bcache s) = 31" "slocked (b_lock (bcache s ! b)) = 0"
    using assms(1-3) by (auto simp: binv_def bufs_ok_def use_ok_def)
  then show ?thesis using assms by (simp add: lock_buf_def acquiresleep_def set_buf_def upd_buf_def)
qed

lemma bget_bread:
  assumes inv: "binv s L" and b: "b < 30" and bn: "bn < disksize s"
    and g: "bget s 1 bn = Ret (b, s\<lparr>bcache := (bcache s)[b := y]\<rparr>)" and y: "hit bn y" "use_ok (curpid s) True y"
      "b_next y = b_next (bcache s ! b)" "b_prev y = b_prev (bcache s ! b)"
    and d: "dirty y = (hit bn (bcache s ! b) \<and> dirty (bcache s ! b))" "dirty y \<Longrightarrow> valid y"
      "valid y \<Longrightarrow> b_data y = view s bn" "\<not> valid y \<Longrightarrow> memdisk s bn = view s bn"
  shows "\<exists>x. bread s 1 bn = Ret (b, s\<lparr>bcache := (bcache s)[b := x]\<rparr>) \<and> took s bn b x"
proof (cases "valid y")
  have len: "b < length (bcache s)" using inv b by (auto simp: binv_def bufs_ok_def)
  case True
  then have "bread s 1 bn = Ret (b, s\<lparr>bcache := (bcache s)[b := y]\<rparr>)" using g len by (simp add: bread_def valid_def)
  moreover have "took s bn b y" using y d(1,3) True by (simp add: took_def)
  ultimately show ?thesis by blast
next
  have len: "b < length (bcache s)" using inv b by (auto simp: binv_def bufs_ok_def)
  case False
  let ?t = "s\<lparr>bcache := (bcache s)[b := y]\<rparr>" and ?z = "y\<lparr>b_data := memdisk s bn, b_flags := b_flags y OR 2\<rparr>"
  have h: "holdingsleep (curpid s) (b_lock y)" using y(2) by (simp add: use_ok_def holdingsleep_def)
  have nd: "\<not> dirty y" using d(2) False by blast
  have "iderw ?t b = Ret (?t\<lparr>bcache := (bcache ?t)[b := ?z]\<rparr>)"
    using iderw_read [of b ?t bn] len h False nd y(1) bn by simp
  then have "bread s 1 bn = Ret (b, s\<lparr>bcache := (bcache s)[b := ?z]\<rparr>)"
    using g len False by (simp add: bread_def valid_def)
  moreover have "valid ?z" "dirty ?z = dirty y"
    using flag_updates(3,4) [of y] by (simp_all add: valid_def dirty_def)
  then have "took s bn b ?z" using y d(1,4) False by (simp add: took_def hit_def use_ok_def)
  ultimately show ?thesis by blast
qed

text \<open>The number of buffers that may be recycled.\<close>

definition nfree :: "'a bio_st_scheme \<Rightarrow> nat set \<Rightarrow> nat" where
  "nfree s L = card {i. i < 30 \<and> i \<notin> L \<and> \<not> dirty (bcache s ! i)}"

definition cached :: "'a bio_st_scheme \<Rightarrow> u32 \<Rightarrow> bool" where
  "cached s bn \<longleftrightarrow> (\<exists>i < 30. hit bn (bcache s ! i))"

definition bget_at :: "'a bio_st_scheme \<Rightarrow> u32 \<Rightarrow> nat list \<Rightarrow> (nat \<times> 'a bio_st_scheme) res" where
  "bget_at s bn xs =
     (case find (\<lambda>i. hit bn (bcache s ! i)) xs of
        Some b \<Rightarrow> lock_buf (set_buf b (\<lambda>x. x\<lparr>b_refcnt := b_refcnt x + 1\<rparr>) s) b
      | None \<Rightarrow>
          (case find (\<lambda>i. b_refcnt (bcache s ! i) = 0 \<and> \<not> dirty (bcache s ! i)) (rev xs) of
             Some b \<Rightarrow> lock_buf (set_buf b (\<lambda>x. x\<lparr>b_dev := 1, b_blockno := bn, b_flags := 0, b_refcnt := 1\<rparr>) s) b
           | None \<Rightarrow> Panic ''bget: no buffers''))"

lemma bget_eq:
  assumes "bufs_ok (bcache s)"
  obtains xs where "set xs = {..<30}" "bget s 1 bn = bget_at s bn xs"
proof (rule scans [OF assms, of "\<lambda>x. b_dev x = 1 \<and> b_blockno x = bn" "\<lambda>x. b_refcnt x = 0 \<and> b_flags x AND 4 = 0"])
  fix xs assume xs: "set xs = {..<30}"
    and "scan_next 30 (\<lambda>x. b_dev x = 1 \<and> b_blockno x = bn) (bcache s) (b_next (bcache s ! 30))
      = Ret (find (\<lambda>i. b_dev (bcache s ! i) = 1 \<and> b_blockno (bcache s ! i) = bn) xs)"
    "scan_prev 30 (\<lambda>x. b_refcnt x = 0 \<and> b_flags x AND 4 = 0) (bcache s) (b_prev (bcache s ! 30))
      = Ret (find (\<lambda>i. b_refcnt (bcache s ! i) = 0 \<and> b_flags (bcache s ! i) AND 4 = 0) (rev xs))"
  then have "bget s 1 bn = bget_at s bn xs"
    by (simp add: bget_def bget_at_def hit_def dirty_def split: option.split)
  then show thesis using that xs by blast
qed

lemma binv_buf:
  "binv s L \<Longrightarrow> i < 30 \<Longrightarrow> buf_ok (memdisk s) (i \<in> L) (bcache s ! i) \<and> use_ok (curpid s) (i \<in> L) (bcache s ! i)"
  by (simp add: binv_def)

lemma binv_idle:
  assumes "binv s L" "i < 30" "i \<notin> L"
  shows "buf_ok (memdisk s) False (bcache s ! i)" "b_refcnt (bcache s ! i) = 0" "slocked (b_lock (bcache s ! i)) = 0"
  using binv_buf [OF assms(1,2)] assms(3) by (simp_all add: use_ok_def)

lemma binv_held:
  assumes "binv s L" "i \<in> L"
  shows "i < 30" "buf_ok (memdisk s) True (bcache s ! i)" "b_refcnt (bcache s ! i) = 1"
    "holdingsleep (curpid s) (b_lock (bcache s ! i))"
proof -
  show i: "i < 30" using assms by (auto simp: binv_def)
  show "buf_ok (memdisk s) True (bcache s ! i)" "b_refcnt (bcache s ! i) = 1"
    "holdingsleep (curpid s) (b_lock (bcache s ! i))"
    using binv_buf [OF assms(1) i] assms(2) by (simp_all add: use_ok_def holdingsleep_def)
qed

lemma bread_took:
  assumes inv: "binv s L" and bn: "bn < disksize s" "\<And>i. i \<in> L \<Longrightarrow> \<not> hit bn (bcache s ! i)"
    and room: "cached s bn \<or> 0 < nfree s L"
  obtains b x where "b < 30" "b \<notin> L" "bread s 1 bn = Ret (b, s\<lparr>bcache := (bcache s)[b := x]\<rparr>)" "took s bn b x"
    "\<And>j. j < 30 \<Longrightarrow> j \<noteq> b \<Longrightarrow> \<not> hit bn (bcache s ! j)" "\<not> hit bn (bcache s ! b) \<Longrightarrow> \<not> dirty (bcache s ! b)"
proof -
  have ok: "bufs_ok (bcache s)" and un: "uniq (bcache s)" and len: "length (bcache s) = 31"
    using inv by (auto simp: binv_def bufs_ok_def)
  obtain xs where xs: "set xs = {..<30}" and bg: "bget s 1 bn = bget_at s bn xs" by (rule bget_eq [OF ok])
  show thesis
  proof (cases "cached s bn")
    case True
    then obtain b where b: "b < 30" "hit bn (bcache s ! b)" by (auto simp: cached_def)
    have bL: "b \<notin> L" using bn(2) b(2) by blast
    have only: "j = b" if "j < 30" "hit bn (bcache s ! j)" for j using un b that unfolding uniq_def by blast
    have "find (\<lambda>i. hit bn (bcache s ! i)) xs = Some b" 
    proof (rule find_unique)
      show "b \<in> set xs" using b(1) xs by simp
      show "j = b" if "j \<in> set xs" "hit bn (bcache s ! j)" for j using only [of j] that xs by simp
    qed (rule b(2))
    then have g: "bget s 1 bn = Ret (b, s\<lparr>bcache := (bcache s)[b := (bcache s ! b)\<lparr>b_refcnt := b_refcnt (bcache s ! b) + 1,
        b_lock := (b_lock (bcache s ! b))\<lparr>slocked := 1, sl_pid := curpid s\<rparr>\<rparr>]\<rparr>)"
      using bg bget_lock [OF inv b(1) bL, of "\<lambda>x. x\<lparr>b_refcnt := b_refcnt x + 1\<rparr>"] by (simp add: bget_at_def)
    have bo: "buf_ok (memdisk s) False (bcache s ! b)" "b_refcnt (bcache s ! b) = 0"
      using binv_idle [OF inv b(1) bL] by simp_all
    have v: "valid (bcache s ! b) \<Longrightarrow> b_data (bcache s ! b) = view s bn" using view_hit [OF un b] by simp
    have nv: "memdisk s bn = view s bn" if "\<not> valid (bcache s ! b)"
      using only that by (metis view_miss)
    let ?y = "(bcache s ! b)\<lparr>b_refcnt := b_refcnt (bcache s ! b) + 1,
        b_lock := (b_lock (bcache s ! b))\<lparr>slocked := 1, sl_pid := curpid s\<rparr>\<rparr>"
    have "hit bn ?y" "use_ok (curpid s) True ?y" "valid ?y = valid (bcache s ! b)" "dirty ?y = dirty (bcache s ! b)"
      using b(2) bo(2) by (simp_all add: hit_def use_ok_def valid_def dirty_def)
    note y = this
    have "\<exists>x. bread s 1 bn = Ret (b, s\<lparr>bcache := (bcache s)[b := x]\<rparr>) \<and> took s bn b x"
      by (rule bget_bread [OF inv b(1) bn(1) g y(1,2)]) (use v nv y(3,4) b(2) bo(1) in \<open>simp_all add: buf_ok_def\<close>)
    then obtain x where "bread s 1 bn = Ret (b, s\<lparr>bcache := (bcache s)[b := x]\<rparr>) \<and> took s bn b x" by blast
    moreover have "\<not> hit bn (bcache s ! j)" if "j < 30" "j \<noteq> b" for j using only [of j] that by blast
    ultimately show thesis using b bL by (intro that [of b x]) simp_all
  next
    case False
    then have miss: "\<not> hit bn (bcache s ! i)" if "i < 30" for i using that by (auto simp: cached_def)
    then have "find (\<lambda>i. hit bn (bcache s ! i)) xs = None" using xs by (auto simp: find_None_iff)
    moreover obtain b where b: "find (\<lambda>i. b_refcnt (bcache s ! i) = 0 \<and> \<not> dirty (bcache s ! i)) (rev xs) = Some b"
    proof -
      obtain i where "i < 30" "i \<notin> L" "\<not> dirty (bcache s ! i)"
        using room False unfolding nfree_def card_gt_0_iff by blast
      then have "i \<in> set (rev xs)" "b_refcnt (bcache s ! i) = 0" using xs binv_idle [OF inv] by simp_all
      then show thesis using that \<open>\<not> dirty (bcache s ! i)\<close>
        by (cases "find (\<lambda>i. b_refcnt (bcache s ! i) = 0 \<and> \<not> dirty (bcache s ! i)) (rev xs)") (auto simp: find_None_iff)
    qed
    ultimately have g': "bget s 1 bn
        = lock_buf (set_buf b (\<lambda>x. x\<lparr>b_dev := 1, b_blockno := bn, b_flags := 0, b_refcnt := 1\<rparr>) s) b"
      using bg by (simp add: bget_at_def)
    have b': "b < 30" "b_refcnt (bcache s ! b) = 0" "\<not> dirty (bcache s ! b)" using find_SomeD [OF b] xs by simp_all
    have bL: "b \<notin> L" using binv_held [OF inv, of b] b'(2) by auto
    have g: "bget s 1 bn = Ret (b, s\<lparr>bcache := (bcache s)[b := (bcache s ! b)\<lparr>b_dev := 1, b_blockno := bn, b_flags := 0,
        b_refcnt := 1, b_lock := (b_lock (bcache s ! b))\<lparr>slocked := 1, sl_pid := curpid s\<rparr>\<rparr>]\<rparr>)"
      unfolding g' using bget_lock [OF inv b'(1) bL, of "\<lambda>x. x\<lparr>b_dev := 1, b_blockno := bn, b_flags := 0, b_refcnt := 1\<rparr>"] by simp
    let ?y = "(bcache s ! b)\<lparr>b_dev := 1, b_blockno := bn, b_flags := 0,
        b_refcnt := 1, b_lock := (b_lock (bcache s ! b))\<lparr>slocked := 1, sl_pid := curpid s\<rparr>\<rparr>"
    have v: "view s bn = memdisk s bn" using miss by (intro view_miss) blast
    have y: "hit bn ?y" "use_ok (curpid s) True ?y" "\<not> valid ?y" "\<not> dirty ?y"
      by (simp_all add: hit_def use_ok_def valid_def dirty_def)
    have "\<exists>x. bread s 1 bn = Ret (b, s\<lparr>bcache := (bcache s)[b := x]\<rparr>) \<and> took s bn b x"
      by (rule bget_bread [OF inv b'(1) bn(1) g y(1,2)]) (use v y(3,4) miss [OF b'(1)] in simp_all)
    then obtain x where "bread s 1 bn = Ret (b, s\<lparr>bcache := (bcache s)[b := x]\<rparr>) \<and> took s bn b x" by blast
    then show thesis using b'(1,3) bL miss by (intro that [of b x]) simp_all
  qed
qed

section \<open>Contracts\<close>

text \<open>Room for another buffer, told from the blocks that are dirty.\<close>

lemma dirty_blocks_image: "binv s L \<Longrightarrow> dirty_blocks s = (\<lambda>i. b_blockno (bcache s ! i)) ` {i. i < 30 \<and> dirty (bcache s ! i)}"
  by (auto simp: dirty_blocks_def hit_def binv_def buf_ok_def)

lemma card_dirty:
  assumes "binv s L"
  shows "finite (dirty_blocks s)" "card {i. i < 30 \<and> dirty (bcache s ! i)} = card (dirty_blocks s)"
proof -
  have "inj_on (\<lambda>i. b_blockno (bcache s ! i)) {i. i < 30 \<and> dirty (bcache s ! i)}"
  proof (rule inj_onI)
    fix i j assume a: "i \<in> {i. i < 30 \<and> dirty (bcache s ! i)}" "j \<in> {i. i < 30 \<and> dirty (bcache s ! i)}"
      "b_blockno (bcache s ! i) = b_blockno (bcache s ! j)"
    then have "hit (b_blockno (bcache s ! i)) (bcache s ! i)" "hit (b_blockno (bcache s ! i)) (bcache s ! j)"
      using binv_buf [OF assms, of i] binv_buf [OF assms, of j] by (auto simp: hit_def buf_ok_def)
    then show "i = j" using assms a(1,2) unfolding binv_def uniq_def by blast
  qed
  then show "card {i. i < 30 \<and> dirty (bcache s ! i)} = card (dirty_blocks s)" "finite (dirty_blocks s)"
    unfolding dirty_blocks_image [OF assms] by (auto simp: card_image)
qed

lemma room_nfree:
  assumes "binv s L" "card L + card (dirty_blocks s) < 30"
  shows "0 < nfree s L"
proof (rule ccontr)
  assume "\<not> 0 < nfree s L"
  then have "{i. i < 30 \<and> i \<notin> L \<and> \<not> dirty (bcache s ! i)} = {}" by (simp add: nfree_def)
  then have "{..<30} \<subseteq> L \<union> {i. i < 30 \<and> dirty (bcache s ! i)}" by auto
  moreover have "finite L" using assms(1) finite_subset [of L "{..<30}"] by (auto simp: binv_def)
  ultimately have "card {..<30 :: nat} \<le> card (L \<union> {i. i < 30 \<and> dirty (bcache s ! i)})" by (intro card_mono) auto
  also have "\<dots> \<le> card L + card (dirty_blocks s)"
    using card_Un_le [of L "{i. i < 30 \<and> dirty (bcache s ! i)}"] card_dirty(2) [OF assms(1)] by simp
  finally show False using assms(2) by simp
qed

lemma dirty_cached: "bn \<in> dirty_blocks s \<Longrightarrow> cached s bn"
  by (auto simp: dirty_blocks_def cached_def)

lemma dirty_at:
  assumes "binv s L" "i < 30" "hit bn (bcache s ! i)"
  shows "dirty (bcache s ! i) \<longleftrightarrow> bn \<in> dirty_blocks s"
  using assms unfolding binv_def uniq_def dirty_blocks_def by blast

definition did_read :: "'a bio_st_scheme \<Rightarrow> nat set \<Rightarrow> u32 \<Rightarrow> nat \<Rightarrow> 'a bio_st_scheme \<Rightarrow> bool" where
  "did_read s L bn b t \<longleftrightarrow> b < 30 \<and> b \<notin> L \<and> (\<exists>c. t = s\<lparr>bcache := c\<rparr>) \<and> binv t (insert b L)
     \<and> hit bn (bcache t ! b) \<and> valid (bcache t ! b) \<and> b_data (bcache t ! b) = view s bn
     \<and> (bn \<in> dirty_blocks s \<or> b_data (bcache t ! b) = memdisk s bn)
     \<and> (\<forall>i. i \<noteq> b \<longrightarrow> bcache t ! i = bcache s ! i) \<and> view t = view s \<and> dirty_blocks t = dirty_blocks s"

lemma bread_spec:
  assumes "binv s L" "bn < disksize s" "\<And>i. i \<in> L \<Longrightarrow> \<not> hit bn (bcache s ! i)"
    "bn \<in> dirty_blocks s \<or> card L + card (dirty_blocks s) < 30"
  shows "\<exists>b t. bread s 1 bn = Ret (b, t) \<and> did_read s L bn b t"
proof -
  have "cached s bn \<or> 0 < nfree s L" using assms(4) room_nfree [OF assms(1)] dirty_cached [of bn s] by auto
  then obtain b x where b: "b < 30" "b \<notin> L"
    and br: "bread s 1 bn = Ret (b, s\<lparr>bcache := (bcache s)[b := x]\<rparr>)" and x: "took s bn b x"
    and o: "\<And>j. j < 30 \<Longrightarrow> j \<noteq> b \<Longrightarrow> \<not> hit bn (bcache s ! j)" "\<not> hit bn (bcache s ! b) \<Longrightarrow> \<not> dirty (bcache s ! b)"
    using bread_took [OF assms(1-3)] by blast
  let ?t = "s\<lparr>bcache := (bcache s)[b := x]\<rparr>"
  note ti = took_inv [OF assms(1) b x o]
  have len: "length (bcache s) = 31" using assms(1) by (auto simp: binv_def bufs_ok_def)
  have xt: "bcache ?t ! b = x" using len b(1) by simp
  have h: "hit bn x" "valid x" "b_data x = view s bn" using x by (simp_all add: took_def)
  have "dirty x = (bn \<in> dirty_blocks ?t)" using dirty_at [of ?t "insert b L" b bn] ti b(1) xt h(1) by simp
  then have "did_read s L bn b ?t" using b ti xt h unfolding did_read_def by auto
  then show ?thesis using br by blast
qed

lemma binv_len: "binv s L \<Longrightarrow> length (bcache s) = 31"
  by (simp add: binv_def bufs_ok_def)

text \<open>Changing a buffer that is held: its data, and its flags when it has been written.\<close>

lemma hold_change:
  fixes w :: "(u32 \<times> u8 list) list"
  assumes inv: "binv s L" and b: "b \<in> L" and x: "hit bn (bcache s ! b)" "valid (bcache s ! b)"
      "y = (bcache s ! b)\<lparr>b_data := d, b_flags := f\<rparr>" "valid y" "length d = 512"
    and len: "\<And>k. length (m k) = 512" and m: "\<And>k. k \<noteq> bn \<Longrightarrow> m k = memdisk s k"
  defines "t \<equiv> s\<lparr>memdisk := m, diskwrites := w, bcache := (bcache s)[b := y]\<rparr>"
  shows "binv t L" "view t = (view s)(bn := d)"
    "dirty_blocks t = (if dirty y then insert bn (dirty_blocks s) else dirty_blocks s - {bn})"
proof -
  have b30: "b < 30" using binv_held [OF inv b] by simp
  have l: "length (bcache s) = 31" and un: "uniq (bcache s)" using inv by (auto simp: binv_def bufs_ok_def)
  have bt: "bcache t ! b = y" "\<And>j. j \<noteq> b \<Longrightarrow> bcache t ! j = bcache s ! j" using b30 l by (simp_all add: t_def)
  have hy: "hit k y = hit k (bcache s ! b)" for k by (simp add: x(3) hit_def)
  have ht: "hit k (bcache t ! i) = hit k (bcache s ! i)" for k i using bt hy by (cases "i = b") simp_all
  have other: "\<not> hit bn (bcache s ! i)" if "i < 30" "i \<noteq> b" for i using un b30 x(1) that unfolding uniq_def by blast
  have un': "uniq (bcache t)" using un unfolding uniq_def ht .
  have ok: "bufs_ok (bcache t)"
    unfolding t_def using inv b30 by (simp add: binv_def bufs_ok_upd x(3))
  have "buf_ok (memdisk t) (i \<in> L) (bcache t ! i) \<and> use_ok (curpid t) (i \<in> L) (bcache t ! i)" if i: "i < 30" for i
  proof (cases "i = b")
    case True
    then show ?thesis using binv_buf [OF inv i] bt(1) b x by (simp add: buf_ok_def use_ok_def hit_def t_def)
  next
    case False
    have "b_dev (bcache s ! i) = 1 \<Longrightarrow> m (b_blockno (bcache s ! i)) = memdisk s (b_blockno (bcache s ! i))"
      using other [OF i False] by (intro m) (auto simp: hit_def)
    then show ?thesis using binv_buf [OF inv i] bt(2) [OF False] by (simp add: buf_ok_def use_ok_def t_def)
  qed
  then show "binv t L" using inv ok un' len by (auto simp: binv_def t_def)
  show "view t = (view s)(bn := d)"
  proof
    fix k
    show "view t k = ((view s)(bn := d)) k"
    proof (cases "k = bn")
      case True
      then show ?thesis using view_hit [OF un' b30, of bn] bt(1) hy x by simp
    next
      case False
      show ?thesis
      proof (cases "\<exists>i < 30. hit k (bcache s ! i) \<and> valid (bcache s ! i)")
        case True
        then obtain i where i: "i < 30" "hit k (bcache s ! i)" "valid (bcache s ! i)" by blast
        then have "i \<noteq> b" using False x(1) by (auto simp: hit_def)
        then show ?thesis using view_hit [OF un' i(1), of k] view_hit [OF un i] bt(2) i False by simp
      next
        case no: False
        have "view s k = memdisk s k" using no by (intro view_miss) blast
        moreover have "view t k = memdisk t k"
          using no bt hy x(1) False by (intro view_miss) (metis hit_def)
        ultimately show ?thesis using m [OF False] False by (simp add: t_def)
      qed
    qed
  qed
  show "dirty_blocks t = (if dirty y then insert bn (dirty_blocks s) else dirty_blocks s - {bn})"
  proof (rule set_eqI)
    fix k
    show "k \<in> dirty_blocks t \<longleftrightarrow> k \<in> (if dirty y then insert bn (dirty_blocks s) else dirty_blocks s - {bn})"
    proof (cases "k = bn")
      case True
      have "bn \<in> dirty_blocks t \<longleftrightarrow> dirty y"
      proof
        assume "bn \<in> dirty_blocks t"
        then obtain i where "i < 30" "hit bn (bcache s ! i)" "dirty (bcache t ! i)" by (auto simp: dirty_blocks_def ht)
        then show "dirty y" using other [of i] bt(1) by (cases "i = b") simp_all
      next
        assume "dirty y"
        then show "bn \<in> dirty_blocks t" using b30 x(1) bt(1) unfolding dirty_blocks_def ht by blast
      qed
      then show ?thesis using True by simp
    next
      case False
      have "hit k (bcache s ! i) \<and> dirty (bcache t ! i) \<longleftrightarrow> hit k (bcache s ! i) \<and> dirty (bcache s ! i)" for i
        using False x(1) bt(2) by (cases "i = b") (auto simp: hit_def)
      then show ?thesis using False by (simp add: dirty_blocks_def ht)
    qed
  qed
qed

lemma set_data_spec:
  assumes "binv s L" "b \<in> L" "hit bn (bcache s ! b)" "valid (bcache s ! b)" "length d = 512"
  defines "t \<equiv> set_buf b (\<lambda>x. x\<lparr>b_data := d\<rparr>) s"
  shows "binv t L" "view t = (view s)(bn := d)" "dirty_blocks t = dirty_blocks s"
    "bcache t = (bcache s)[b := (bcache s ! b)\<lparr>b_data := d\<rparr>]"
proof -
  let ?y = "(bcache s ! b)\<lparr>b_data := d, b_flags := b_flags (bcache s ! b)\<rparr>"
  have t: "t = s\<lparr>memdisk := memdisk s, diskwrites := diskwrites s, bcache := (bcache s)[b := ?y]\<rparr>"
    by (simp add: t_def set_buf_def upd_buf_def)
  have y: "valid ?y" "dirty ?y = dirty (bcache s ! b)" using assms(4) by (simp_all add: valid_def dirty_def)
  have l: "length (memdisk s k) = 512" for k using assms(1) by (simp add: binv_def)
  note h = hold_change [OF assms(1-4) refl y(1) assms(5) l refl, of "diskwrites s"]
  have "dirty (bcache s ! b) \<longleftrightarrow> bn \<in> dirty_blocks s"
    using dirty_at [OF assms(1) _ assms(3)] binv_held(1) [OF assms(1,2)] by blast
  then show "binv t L" "view t = (view s)(bn := d)" "dirty_blocks t = dirty_blocks s"
    using h y(2) unfolding t by auto
  show "bcache t = (bcache s)[b := (bcache s ! b)\<lparr>b_data := d\<rparr>]"
    by (simp add: t_def set_buf_def upd_buf_def)
qed

lemma bwrite_spec:
  assumes inv: "binv s L" and b: "b \<in> L" "hit bn (bcache s ! b)" "valid (bcache s ! b)" and bn: "bn < disksize s"
  obtains t x where "bwrite s b = Ret t" "binv t L" "view t = view s" "dirty_blocks t = dirty_blocks s - {bn}"
    "t = s\<lparr>memdisk := (memdisk s)(bn := b_data (bcache s ! b)), diskwrites := diskwrites s @ [(bn, b_data (bcache s ! b))],
      bcache := (bcache s)[b := (bcache s ! b)\<lparr>b_flags := x\<rparr>]\<rparr>"
proof -
  let ?x = "bcache s ! b"
  let ?f = "(b_flags ?x OR 4) AND NOT 4 OR 2"
  let ?y = "?x\<lparr>b_data := b_data ?x, b_flags := ?f\<rparr>"
  let ?s1 = "s\<lparr>bcache := (bcache s)[b := ?x\<lparr>b_flags := b_flags ?x OR 4\<rparr>]\<rparr>"
  let ?t = "s\<lparr>memdisk := (memdisk s)(bn := b_data ?x), diskwrites := diskwrites s @ [(bn, b_data ?x)], bcache := (bcache s)[b := ?y]\<rparr>"
  note hb = binv_held [OF inv b(1)]
  have len: "b < length (bcache s)" using binv_len [OF inv] hb(1) by simp
  have 1: "b < length (bcache ?s1)" "holdingsleep (curpid ?s1) (b_lock (bcache ?s1 ! b))" "hit bn (bcache ?s1 ! b)"
    using len hb(4) b(2) by (simp_all add: hit_def)
  have "dirty (bcache ?s1 ! b)" using len flag_updates(2) [of ?x] by simp
  from iderw_write [OF 1(1,2) this 1(3)] bn len have "iderw ?s1 b = Ret ?t" by simp
  then have w: "bwrite s b = Ret ?t" using hb(4) by (simp add: bwrite_def set_buf_def upd_buf_def)
  have y: "valid ?y" "\<not> dirty ?y"
    using flag_updates(5,6) [of "?x\<lparr>b_flags := b_flags ?x OR 4\<rparr>"] by (simp_all add: valid_def dirty_def)
  have dl: "length (b_data ?x) = 512" using hb(2) b(3) by (simp add: buf_ok_def)
  have l: "length (((memdisk s)(bn := b_data ?x)) k) = 512" for k using inv dl by (simp add: binv_def)
  have m: "((memdisk s)(bn := b_data ?x)) k = memdisk s k" if "k \<noteq> bn" for k using that by simp
  note h = hold_change [OF inv b refl y(1) dl, where m = "(memdisk s)(bn := b_data ?x)" and w = "diskwrites s @ [(bn, b_data ?x)]", OF l m]
  have "uniq (bcache s)" using inv by (simp add: binv_def)
  then have "view s bn = b_data ?x" using view_hit hb(1) b(2,3) by blast
  then have "view ?t = view s" using h(2) by (simp add: fun_upd_idem_iff)
  moreover have "dirty_blocks ?t = dirty_blocks s - {bn}" using h(3) y(2) by simp
  ultimately show thesis using that [OF w h(1), of ?f] by simp
qed

lemma wakeup1_cur:
  assumes "cur_ok s"
  shows "curpid (wakeup1 ch s) = curpid s" "cur_ok (wakeup1 ch s)"
  using assms by (auto simp: curpid_def cur_ok_def wakeup1_def wake_proc_def split: option.splits)

lemma brelse_spec:
  assumes inv: "binv s L" and b: "b \<in> L"
    and co: "dirty (bcache s ! b) \<or> b_dev (bcache s ! b) = 1 \<and> b_data (bcache s ! b) = memdisk s (b_blockno (bcache s ! b))"
  shows "\<exists>p c. let t = s\<lparr>ptable := p, bcache := c\<rparr> in brelse s b = Ret t \<and> binv t (L - {b})
    \<and> view t = view s \<and> dirty_blocks t = dirty_blocks s \<and> (\<forall>i. core (c ! i) = core (bcache s ! i))"
proof -
  let ?x = "bcache s ! b"
  let ?y = "?x\<lparr>b_lock := (b_lock ?x)\<lparr>slocked := 0, sl_pid := 0\<rparr>, b_refcnt := 0\<rparr>"
  let ?bs = "(bcache s)[b := ?y]"
  let ?bs' = "link_front b (unlink b ?bs)"
  let ?t = "s\<lparr>ptable := map (wake_proc (BufLockChan b)) (ptable s), bcache := ?bs'\<rparr>"
  note hb = binv_held [OF inv b]
  have len: "b < length (bcache s)" using binv_len [OF inv] hb(1) by simp
  have r: "brelse s b = Ret ?t"
    using len hb(3,4) by (simp add: brelse_def releasesleep_def wakeup1_def set_buf_def upd_buf_def Let_def)
  have cu: "curpid ?t = curpid s" "cur_ok ?t"
    using wakeup1_cur [of s "BufLockChan b"] inv by (simp_all add: binv_def wakeup1_def)
  have co': "core (bcache ?t ! i) = core (bcache s ! i)" for i
    using len by (cases "i = b") (simp_all add: core_def [of ?y] core_def [of ?x])
  have us: "use (bcache ?t ! i) = (if i = b then use ?y else use (bcache s ! i))" for i
    using len by simp
  have eq: "hit k (bcache ?t ! i) = hit k (bcache s ! i)" "valid (bcache ?t ! i) = valid (bcache s ! i)"
    "dirty (bcache ?t ! i) = dirty (bcache s ! i)" "b_data (bcache ?t ! i) = b_data (bcache s ! i)"
    "b_dev (bcache ?t ! i) = b_dev (bcache s ! i)" "b_blockno (bcache ?t ! i) = b_blockno (bcache s ! i)" for k i
    using co' [of i] by (simp_all add: core_def hit_def valid_def dirty_def)
  have "bufs_ok ?bs" using inv hb(1) by (intro bufs_ok_upd) (simp_all add: binv_def)
  then have ok: "bufs_ok (bcache ?t)" using move_front_ok hb(1) by simp
  have un: "uniq (bcache ?t)" using inv unfolding binv_def uniq_def eq by blast
  have "buf_ok (memdisk ?t) (i \<in> L - {b}) (bcache ?t ! i) \<and> use_ok (curpid ?t) (i \<in> L - {b}) (bcache ?t ! i)" if i: "i < 30" for i
  proof (cases "i = b")
    case True
    then show ?thesis
      using binv_buf [OF inv i] b co us [of b] eq [where i = b] unfolding cu
      by (auto simp: buf_ok_def use_ok_def use_def)
  next
    case False
    then show ?thesis
      using binv_buf [OF inv i] us [of i] eq [where i = i] unfolding cu
      by (auto simp: buf_ok_def use_ok_def use_def)
  qed
  then have "binv ?t (L - {b})" using inv ok un cu by (auto simp: binv_def)
  moreover have "view ?t = view s" "dirty_blocks ?t = dirty_blocks s" using view_cong [of ?t s] co' by simp_all
  ultimately show ?thesis using r co' by (intro exI [of _ "map (wake_proc (BufLockChan b)) (ptable s)"] exI [of _ ?bs']) (simp add: Let_def)
qed

section \<open>Start\<close>

definition zero_buf :: buf where
  "zero_buf = \<lparr>b_flags = 0, b_dev = 0, b_blockno = 0,
     b_lock = \<lparr>slocked = 0, sl_lk = \<lparr>locked = 0, lock_name = [], lock_cpu = None, pcs = replicate 10 0\<rparr>, sl_name = [], sl_pid = 0\<rparr>,
     b_refcnt = 0, b_prev = 0, b_next = 0, b_qnext = None, b_data = replicate 512 0\<rparr>"

definition idle_buf :: "buf \<Rightarrow> bool" where
  "idle_buf x \<longleftrightarrow> b_refcnt x = 0 \<and> slocked (b_lock x) = 0"

lemma idle_use: "use x = use y \<Longrightarrow> idle_buf x = idle_buf y"
  by (simp add: use_def idle_buf_def)

lemma binit_loop_buf:
  "b + n \<le> 30 \<Longrightarrow> length bs = 31 \<Longrightarrow> i < 31 \<Longrightarrow> core (binit_loop bs b n ! i) = core (bs ! i)
     \<and> (idle_buf (bs ! i) \<longrightarrow> idle_buf (binit_loop bs b n ! i))"
proof (induction n arbitrary: bs b)
  case (Suc n)
  let ?c = "upd_buf b (\<lambda>x. x\<lparr>b_lock := initsleeplock (b_lock x) ''buffer''\<rparr>) bs"
  have "core (?c ! i) = core (bs ! i)" "idle_buf (bs ! i) \<longrightarrow> idle_buf (?c ! i)"
    using Suc.prems by (simp_all add: nth_upd_buf core_def idle_buf_def initsleeplock_def)
  then show ?case
    using Suc.IH [of "Suc b" "link_front b ?c"] Suc.prems idle_use [OF link_front_frame(3) [of b ?c i]] by simp
qed simp

lemma binit_buf:
  assumes "length (bcache s) = 31" "i < 31"
  shows "core (bcache (binit s) ! i) = core (bcache s ! i)" "idle_buf (bcache s ! i) \<Longrightarrow> idle_buf (bcache (binit s) ! i)"
proof -
  let ?bs = "upd_buf 30 (\<lambda>x. x\<lparr>b_prev := 30, b_next := 30\<rparr>) (bcache s)"
  have "core (?bs ! i) = core (bcache s ! i)" "idle_buf (?bs ! i) = idle_buf (bcache s ! i)"
    using assms by (simp_all add: nth_upd_buf core_def idle_buf_def)
  then show "core (bcache (binit s) ! i) = core (bcache s ! i)" "idle_buf (bcache s ! i) \<Longrightarrow> idle_buf (bcache (binit s) ! i)"
    using binit_loop_buf [of 0 30 ?bs i] assms by (simp_all add: binit_def)
qed

lemma binit_inv:
  assumes "bcache s = replicate 31 zero_buf" "\<forall>bn. length (memdisk s bn) = 512" "cur_ok s"
  shows "binv (binit s) {} \<and> dirty_blocks (binit s) = {} \<and> view (binit s) = memdisk s"
proof -
  have len: "length (bcache s) = 31" using assms(1) by simp
  have b: "b_dev (bcache (binit s) ! i) = 0 \<and> b_flags (bcache (binit s) ! i) = 0 \<and> idle_buf (bcache (binit s) ! i)" if "i < 30" for i
    using binit_buf [OF len, of i] that assms(1) by (simp add: core_def zero_buf_def idle_buf_def)
  have nh: "\<not> hit bn (bcache (binit s) ! i)" if "i < 30" for bn i using b [OF that] by (simp add: hit_def)
  have "bufs_ok (bcache (binit s))"
    using binit_ring [OF len] unfolding bufs_ok_def by (intro conjI exI [of _ "rev [0..<30]"]) auto
  moreover have "uniq (bcache (binit s))" using nh by (auto simp: uniq_def)
  moreover have "memdisk (binit s) = memdisk s" "cur_ok (binit s)" using assms(3) by (simp_all add: binit_def)
  ultimately have "binv (binit s) {}"
    using assms(2) b by (auto simp: binv_def buf_ok_def use_ok_def valid_def dirty_def idle_buf_def)
  moreover have "dirty_blocks (binit s) = {}" using nh by (auto simp: dirty_blocks_def)
  moreover have "view (binit s) = memdisk s"
    using nh view_miss [of _ "binit s"] \<open>memdisk (binit s) = memdisk s\<close> by (auto simp: fun_eq_iff)
  ultimately show ?thesis by blast
qed

section \<open>Properties\<close>

text \<open>
  C36: \<^verbatim>\<open>binit()\<close> makes the ring of buffers and establishes the cache invariant \<open>binv\<close>: the buffers form one doubly linked
  ring through the head, no block is cached twice, no buffer is in use, and what the cache shows is the disk.
\<close>

theorem binit_establishes_invariant:
  assumes "bcache s = replicate 31 zero_buf" "\<forall>bn. length (memdisk s bn) = 512" "cpu_proc s (this_cpu s) = None"
  shows "binv (binit s) {} \<and> dirty_blocks (binit s) = {} \<and> view (binit s) = memdisk s
    \<and> ring (nexts (bcache (binit s))) (prevs (bcache (binit s))) 30 (rev [0..<30])"
  using binit_inv [OF assms(1,2)] binit_ring [of s] assms(1,3) by (simp add: cur_ok_def)

theorem binit_establishes_invariant_witness:
  "\<exists>s :: bio_st. bcache s = replicate 31 zero_buf \<and> binv (binit s) {} \<and> view (binit s) = memdisk s"
proof -
  obtain s0 :: bio_st where True by blast
  let ?s = "s0\<lparr>bcache := replicate 31 zero_buf, memdisk := \<lambda>_. replicate 512 0, cpu_proc := \<lambda>_. None\<rparr>"
  show ?thesis using binit_establishes_invariant [of ?s] by (intro exI [of _ ?s]) simp
qed

text \<open>
  C35: \<^verbatim>\<open>bread()\<close> returns a locked buffer with the current content of the block, whether it is cached or not,
  and keeps the cache invariant. The only requirement is that the block is on the disk, that the caller does not hold it already, and
  that it is dirty (thus cached) or some buffer is neither held nor dirty.
\<close>

theorem bread_current:
  assumes "binv s L" "bn < disksize s" "\<forall>i \<in> L. \<not> hit bn (bcache s ! i)"
    "bn \<in> dirty_blocks s \<or> card L + card (dirty_blocks s) < 30"
  shows "\<exists>b t. bread s 1 bn = Ret (b, t) \<and> b \<notin> L \<and> b_blockno (bcache t ! b) = bn \<and> b_data (bcache t ! b) = view s bn
    \<and> slocked (b_lock (bcache t ! b)) \<noteq> 0 \<and> binv t (insert b L) \<and> view t = view s \<and> dirty_blocks t = dirty_blocks s"
proof -
  obtain b t where "bread s 1 bn = Ret (b, t)" "did_read s L bn b t"
    using bread_spec [OF assms(1,2) _ assms(4)] assms(3) by blast
  moreover from this have "slocked (b_lock (bcache t ! b)) \<noteq> 0" using binv_held [of t "insert b L" b]
    by (simp add: did_read_def holdingsleep_def)
  ultimately show ?thesis by (intro exI [of _ b] exI [of _ t]) (simp add: did_read_def hit_def)
qed

theorem bread_current_witness:
  "\<exists>s :: bio_st. \<exists>b t. bread s 1 7 = Ret (b, t) \<and> b_data (bcache t ! b) = replicate 512 9"
proof -
  obtain s0 :: bio_st where True by blast
  let ?s = "s0\<lparr>bcache := replicate 31 zero_buf, memdisk := \<lambda>_. replicate 512 9, cpu_proc := \<lambda>_. None, disksize := 100\<rparr>"
  have i: "binv (binit ?s) {}" "dirty_blocks (binit ?s) = {}" "view (binit ?s) = memdisk ?s"
    using binit_inv [of ?s] by (simp_all add: cur_ok_def)
  have "disksize (binit ?s) = 100" by (simp add: binit_def)
  then show ?thesis using bread_current [OF i(1), of 7] i by (intro exI [of _ "binit ?s"]) auto
qed

end
