(* ===== verification/Logwrite.thy ===== *)
theory Logwrite
  imports Log Bcache
begin

text \<open>
  The loops of the log (log.c) over the buffer cache: copying a block through two buffers, writing
  the log, writing the header, installing the blocks. Each contract says that the loop returns and
  lists the disk writes it makes, in order.
\<close>

section \<open>Copying a block\<close>

text \<open>What these operations leave alone.\<close>

definition frame :: "'a bio_st_scheme \<Rightarrow> 'a bio_st_scheme \<Rightarrow> bool" where
  "frame s t \<longleftrightarrow> (\<exists>m w p c. t = s\<lparr>memdisk := m, diskwrites := w, ptable := p, bcache := c\<rparr>)"

lemma frame_all: "frame s (s\<lparr>memdisk := m, diskwrites := w, ptable := p, bcache := c\<rparr>)"
  by (auto simp: frame_def)

lemma frame_refl: "frame s s"
  using frame_all [of s "bcache s" "ptable s" "diskwrites s" "memdisk s"] by simp

lemma frame_wr: "frame s (s\<lparr>memdisk := m, diskwrites := w, bcache := c\<rparr>)"
  using frame_all [of s c "ptable s" w m] by simp

lemma frame_trans: "frame s t \<Longrightarrow> frame t u \<Longrightarrow> frame s u"
  unfolding frame_def by (elim exE) (simp, blast)

lemma frame_disksize: "frame s t \<Longrightarrow> disksize t = disksize s"
  by (auto simp: frame_def)

lemma frame_log:
  assumes "frame s t"
  shows "log_start t = log_start s" "log_dev t = log_dev s" "lh_n t = lh_n s" "lh_block t = lh_block s"
    "log_size t = log_size s" "log_outstanding t = log_outstanding s" "log_committing t = log_committing s"
  using assms by (auto simp: frame_def)

lemma frame_bufs: "t = s\<lparr>bcache := c\<rparr> \<Longrightarrow> frame s t"
  using frame_all [of s c "ptable s" "diskwrites s" "memdisk s"] by simp

lemma frame_rel: "t = s\<lparr>ptable := p, bcache := c\<rparr> \<Longrightarrow> frame s t"
  using frame_all [of s c p "diskwrites s" "memdisk s"] by simp

text \<open>Block \<open>src\<close> has been copied to block \<open>dst\<close>, on the disk as well.\<close>

definition copy_op :: "u32 \<Rightarrow> u32 \<Rightarrow> 'a bio_st_scheme \<Rightarrow> 'a bio_st_scheme \<Rightarrow> bool" where
  "copy_op src dst s t \<longleftrightarrow> binv t {} \<and> frame s t \<and> view t = (view s)(dst := view s src)
     \<and> memdisk t = (memdisk s)(dst := view s src) \<and> diskwrites t = diskwrites s @ [(dst, view s src)]
     \<and> dirty_blocks t = dirty_blocks s - {dst}"

text \<open>The end of a round of \<open>install_loop\<close> and \<open>write_log_loop\<close>: buffer \<open>i\<close> goes to block \<open>dst\<close>.\<close>

lemma copy_tail:
  fixes s :: "'a bio_st_scheme"
  assumes inv: "binv s {i, j}" and ij: "i \<noteq> j"
    and i: "hit src (bcache s ! i)" "valid (bcache s ! i)" "src \<in> dirty_blocks s \<or> b_data (bcache s ! i) = memdisk s src"
    and j: "hit dst (bcache s ! j)" "valid (bcache s ! j)" "dst < disksize s"
  shows "\<exists>t. (\<forall>F :: 'a bio_st_scheme \<Rightarrow> 'b res. bind_res (bwrite (set_buf j (\<lambda>x. x\<lparr>b_data := b_data (bcache s ! i)\<rparr>) s) j) (\<lambda>s.
      bind_res (brelse s i) (\<lambda>s. bind_res (brelse s j) F)) = F t) \<and> copy_op src dst s t"
proof -
  let ?d = "b_data (bcache s ! i)"
  have un: "uniq (bcache s)" and i30: "i < 30" and j30: "j < 30" using inv by (auto simp: binv_def)
  have len: "length (bcache s) = 31" using binv_len [OF inv] .
  have ne: "src \<noteq> dst" using un i30 j30 i(1) j(1) ij unfolding uniq_def by blast
  have v: "view s src = ?d" using view_hit [OF un i30 i(1,2)] .
  have ld: "length ?d = 512" using binv_held(2) [OF inv, of i] i(2) by (simp add: buf_ok_def)
  define s1 where "s1 = set_buf j (\<lambda>x. x\<lparr>b_data := ?d\<rparr>) s"
  note 1 = set_data_spec [OF inv _ j(1,2) ld, folded s1_def]
  have b1: "bcache s1 ! j = (bcache s ! j)\<lparr>b_data := ?d\<rparr>" "\<And>k. k \<noteq> j \<Longrightarrow> bcache s1 ! k = bcache s ! k"
    using 1(4) len j30 by auto
  have h1: "hit dst (bcache s1 ! j)" "valid (bcache s1 ! j)" using j(1,2) b1(1) by (simp_all add: hit_def valid_def)
  have f1: "frame s s1" by (rule frame_bufs) (simp add: s1_def set_buf_def)
  have md1: "memdisk s1 = memdisk s" "diskwrites s1 = diskwrites s" by (simp_all add: s1_def set_buf_def)
  obtain s2 x where 2: "bwrite s1 j = Ret s2" "binv s2 {i, j}" "view s2 = view s1" "dirty_blocks s2 = dirty_blocks s1 - {dst}"
    "s2 = s1\<lparr>memdisk := (memdisk s1)(dst := b_data (bcache s1 ! j)),
      diskwrites := diskwrites s1 @ [(dst, b_data (bcache s1 ! j))], bcache := (bcache s1)[j := (bcache s1 ! j)\<lparr>b_flags := x\<rparr>]\<rparr>"
    using bwrite_spec [OF 1(1) _ h1] j(3) frame_disksize [OF f1] by auto
  have f2: "frame s1 s2" unfolding 2(5) by (rule frame_wr)
  have md2: "memdisk s2 = (memdisk s)(dst := ?d)" "diskwrites s2 = diskwrites s @ [(dst, ?d)]"
    using 2(5) md1 b1(1) by simp_all
  have b2: "bcache s2 ! i = bcache s ! i" using 2(5) b1(2) ij by simp
  have "dirty (bcache s ! i) \<longleftrightarrow> src \<in> dirty_blocks s" using dirty_at [OF inv i30 i(1)] .
  then have co2: "dirty (bcache s2 ! i) \<or> b_dev (bcache s2 ! i) = 1 \<and> b_data (bcache s2 ! i) = memdisk s2 (b_blockno (bcache s2 ! i))"
    using i(1,3) b2 md2(1) ne by (auto simp: hit_def)
  obtain p3 c3 where 3: "let t = s2\<lparr>ptable := p3, bcache := c3\<rparr> in brelse s2 i = Ret t \<and> binv t ({i, j} - {i})
    \<and> view t = view s2 \<and> dirty_blocks t = dirty_blocks s2 \<and> (\<forall>k. core (c3 ! k) = core (bcache s2 ! k))"
    using brelse_spec [OF 2(2) _ co2] by blast
  define s3 where "s3 = s2\<lparr>ptable := p3, bcache := c3\<rparr>"
  have 3: "brelse s2 i = Ret s3" "binv s3 ({i, j} - {i})" "view s3 = view s2" "dirty_blocks s3 = dirty_blocks s2"
    "\<And>k. core (bcache s3 ! k) = core (bcache s2 ! k)" using 3 by (simp_all add: s3_def Let_def)
  have md3: "memdisk s3 = memdisk s2" "diskwrites s3 = diskwrites s2" by (simp_all add: s3_def)
  have b3: "b_dev (bcache s3 ! j) = 1" "b_data (bcache s3 ! j) = ?d" "b_blockno (bcache s3 ! j) = dst"
    using 3(5) [of j] 2(5) b1(1) len j30 h1(1) 1(4) by (auto simp: core_def hit_def)
  have "{i, j} - {i} = {j}" using ij by auto
  then have inv3: "binv s3 {j}" using 3(2) by simp
  have co3: "dirty (bcache s3 ! j) \<or> b_dev (bcache s3 ! j) = 1 \<and> b_data (bcache s3 ! j) = memdisk s3 (b_blockno (bcache s3 ! j))"
    using b3 md3(1) md2(1) by simp
  obtain p4 c4 where 4: "let t = s3\<lparr>ptable := p4, bcache := c4\<rparr> in brelse s3 j = Ret t \<and> binv t ({j} - {j})
    \<and> view t = view s3 \<and> dirty_blocks t = dirty_blocks s3 \<and> (\<forall>k. core (c4 ! k) = core (bcache s3 ! k))"
    using brelse_spec [OF inv3 _ co3] by blast
  define t where "t = s3\<lparr>ptable := p4, bcache := c4\<rparr>"
  have 4: "brelse s3 j = Ret t" "binv t ({j} - {j})" "view t = view s3" "dirty_blocks t = dirty_blocks s3"
    using 4 by (simp_all add: t_def Let_def)
  have md4: "memdisk t = memdisk s3" "diskwrites t = diskwrites s3" by (simp_all add: t_def)
  have fr: "frame s t"
    using frame_trans [OF frame_trans [OF f1 f2] frame_trans [OF frame_rel [OF s3_def] frame_rel [OF t_def]]] .
  have "\<forall>F :: 'a bio_st_scheme \<Rightarrow> 'b res. bind_res (bwrite (set_buf j (\<lambda>x. x\<lparr>b_data := ?d\<rparr>) s) j) (\<lambda>s. bind_res (brelse s i) (\<lambda>s. bind_res (brelse s j) F)) = F t"
    using 2(1) 3(1) 4(1) by (simp flip: s1_def)
  moreover have "copy_op src dst s t"
    unfolding copy_op_def using 4 3 2(3,4) 1(2,3) v fr md4 md3 md2 by simp
  ultimately show ?thesis by blast
qed

text \<open>Two blocks read one after the other.\<close>

lemma two_breads:
  assumes inv: "binv s {}" and xy: "x \<noteq> y" "x < disksize s" "y < disksize s"
    and room: "x \<in> dirty_blocks s \<or> card (dirty_blocks s) < 30" "y \<in> dirty_blocks s \<or> card (dirty_blocks s) + 1 < 30"
  shows "\<exists>i e j c. bread s 1 x = Ret (i, s\<lparr>bcache := e\<rparr>) \<and> bread (s\<lparr>bcache := e\<rparr>) 1 y = Ret (j, s\<lparr>bcache := c\<rparr>) \<and> i \<noteq> j \<and> binv (s\<lparr>bcache := c\<rparr>) {i, j}
    \<and> hit x (c ! i) \<and> valid (c ! i) \<and> (x \<in> dirty_blocks s \<or> b_data (c ! i) = memdisk s x)
    \<and> hit y (c ! j) \<and> valid (c ! j) \<and> (y \<in> dirty_blocks s \<or> b_data (c ! j) = memdisk s y)
    \<and> view (s\<lparr>bcache := c\<rparr>) = view s \<and> dirty_blocks (s\<lparr>bcache := c\<rparr>) = dirty_blocks s"
proof -
  obtain i u where i: "bread s 1 x = Ret (i, u)" "did_read s {} x i u"
    using bread_spec [OF inv xy(2)] room(1) by auto
  then obtain e where u: "u = s\<lparr>bcache := e\<rparr>" by (auto simp: did_read_def)
  have iu: "binv u {i}" "hit x (e ! i)" "valid (e ! i)" "x \<in> dirty_blocks s \<or> b_data (e ! i) = memdisk s x"
      "view u = view s" "dirty_blocks u = dirty_blocks s"
    using i(2) u unfolding did_read_def by auto
  have "\<exists>j t. bread u 1 y = Ret (j, t) \<and> did_read u {i} y j t"
    using iu u xy room(2) by (intro bread_spec) (auto simp: hit_def)
  then obtain j t where j: "bread u 1 y = Ret (j, t)" "did_read u {i} y j t" by blast
  then obtain c where t: "t = u\<lparr>bcache := c\<rparr>" by (auto simp: did_read_def)
  have ts: "t = s\<lparr>bcache := c\<rparr>" using t u by simp
  have jt: "j \<noteq> i" "binv t {i, j}" "hit y (c ! j)" "valid (c ! j)" "y \<in> dirty_blocks s \<or> b_data (c ! j) = memdisk s y"
      "c ! i = e ! i" "view t = view s" "dirty_blocks t = dirty_blocks s"
    using j(2) t u iu by (auto simp: did_read_def insert_commute)
  then show ?thesis using i(1) j(1) iu unfolding ts u by (intro exI [of _ i] exI [of _ e] exI [of _ j] exI [of _ c]) simp
qed

abbreviation log_block :: "'a log_st_scheme \<Rightarrow> nat \<Rightarrow> u32" where "log_block s k \<equiv> log_start s + of_nat k + 1"

lemma install_round:
  fixes s :: "'a log_st_scheme" and k :: nat
  defines "src \<equiv> log_block s k" and "dst \<equiv> lh_block s ! k"
  assumes log: "k < 30" "log_dev s = 1" and "binv s {}" "src \<noteq> dst" "src < disksize s" "dst < disksize s"
    "src \<in> dirty_blocks s \<or> card (dirty_blocks s) < 30" "dst \<in> dirty_blocks s \<or> card (dirty_blocks s) + 1 < 30"
  shows "\<exists>t. install_loop s k (Suc n) = install_loop t (Suc k) n \<and> copy_op src dst s t"
proof -
  obtain i e j c where b: "bread s 1 src = Ret (i, s\<lparr>bcache := e\<rparr>)" "bread (s\<lparr>bcache := e\<rparr>) 1 dst = Ret (j, s\<lparr>bcache := c\<rparr>)" and ij: "i \<noteq> j"
    and inv: "binv (s\<lparr>bcache := c\<rparr>) {i, j}" and i: "hit src (c ! i)" "valid (c ! i)" "src \<in> dirty_blocks s \<or> b_data (c ! i) = memdisk s src"
    and j: "hit dst (c ! j)" "valid (c ! j)" and v: "view (s\<lparr>bcache := c\<rparr>) = view s" "dirty_blocks (s\<lparr>bcache := c\<rparr>) = dirty_blocks s"
    using two_breads [OF assms(5-10)] by blast
  let ?s = "s\<lparr>bcache := c\<rparr>"
  obtain t where t: "\<forall>F :: 'a log_st_scheme \<Rightarrow> 'a log_st_scheme res. bind_res (bwrite (set_buf j (\<lambda>x. x\<lparr>b_data := b_data (bcache ?s ! i)\<rparr>) ?s) j) (\<lambda>s.
      bind_res (brelse s i) (\<lambda>s. bind_res (brelse s j) F)) = F t" "copy_op src dst ?s t"
    using copy_tail [OF inv ij, of src dst] i j v assms(8) by auto
  have "copy_op src dst s t"
    using t(2) v frame_trans [OF frame_bufs [OF refl, where s = s and c = c], of t] by (simp add: copy_op_def)
  moreover have "install_loop s k (Suc n) = install_loop t (Suc k) n"
    using b t(1) log by (simp add: src_def dst_def)
  ultimately show ?thesis by blast
qed

lemma write_log_round:
  fixes s :: "'a log_st_scheme" and k :: nat
  defines "dst \<equiv> log_block s k" and "src \<equiv> lh_block s ! k"
  assumes log: "k < 30" "log_dev s = 1" and "binv s {}" "dst \<noteq> src" "dst < disksize s" "src < disksize s"
    "dst \<in> dirty_blocks s \<or> card (dirty_blocks s) < 30" "src \<in> dirty_blocks s \<or> card (dirty_blocks s) + 1 < 30"
  shows "\<exists>t. write_log_loop s k (Suc n) = write_log_loop t (Suc k) n \<and> copy_op src dst s t"
proof -
  obtain j e i c where b: "bread s 1 dst = Ret (j, s\<lparr>bcache := e\<rparr>)" "bread (s\<lparr>bcache := e\<rparr>) 1 src = Ret (i, s\<lparr>bcache := c\<rparr>)" and ij: "j \<noteq> i"
    and inv: "binv (s\<lparr>bcache := c\<rparr>) {j, i}" and j: "hit dst (c ! j)" "valid (c ! j)"
    and i: "hit src (c ! i)" "valid (c ! i)" "src \<in> dirty_blocks s \<or> b_data (c ! i) = memdisk s src"
    and v: "view (s\<lparr>bcache := c\<rparr>) = view s" "dirty_blocks (s\<lparr>bcache := c\<rparr>) = dirty_blocks s"
    using two_breads [OF assms(5-10)] by blast
  let ?s = "s\<lparr>bcache := c\<rparr>"
  have inv': "binv ?s {i, j}" using inv by (simp add: insert_commute)
  obtain t where t: "\<forall>F :: 'a log_st_scheme \<Rightarrow> 'a log_st_scheme res. bind_res (bwrite (set_buf j (\<lambda>x. x\<lparr>b_data := b_data (bcache ?s ! i)\<rparr>) ?s) j) (\<lambda>s.
      bind_res (brelse s i) (\<lambda>s. bind_res (brelse s j) F)) = F t" "copy_op src dst ?s t"
    using copy_tail [OF inv' ij [symmetric], of src dst] i j v assms(7) by auto
  have "copy_op src dst s t"
    using t(2) v frame_trans [OF frame_bufs [OF refl, where s = s and c = c], of t] by (simp add: copy_op_def)
  moreover have "write_log_loop s k (Suc n) = write_log_loop t (Suc k) n"
    using b t(1) log by (simp add: src_def dst_def)
  ultimately show ?thesis by blast
qed

section \<open>The loops\<close>

definition apply_writes :: "(u32 \<Rightarrow> u8 list) \<Rightarrow> (u32 \<times> u8 list) list \<Rightarrow> u32 \<Rightarrow> u8 list" where
  "apply_writes m ws = foldl (\<lambda>m (a, d). m(a := d)) m ws"

lemma apply_writes_simps [simp]:
  "apply_writes m [] = m" "apply_writes m ((a, d) # ws) = apply_writes (m(a := d)) ws"
  "apply_writes m (vs @ ws) = apply_writes (apply_writes m vs) ws"
  by (simp_all add: apply_writes_def)

lemma apply_writes_other: "a \<notin> fst ` set ws \<Longrightarrow> apply_writes m ws a = m a"
  by (induction ws arbitrary: m) auto

lemma apply_writes_map:
  assumes "k \<in> set ks" "inj_on f (set ks)"
  shows "apply_writes m (map (\<lambda>k. (f k, g k)) ks) (f k) = g k"
  using assms
proof (induction ks arbitrary: m)
  case (Cons l ks)
  show ?case
  proof (cases "k \<in> set ks")
    case True
    then show ?thesis using Cons by simp
  next
    case False
    then have "k = l" using Cons.prems(1) by simp
    then have "f k \<notin> fst ` set (map (\<lambda>k. (f k, g k)) ks)" using False Cons.prems(2) by (auto simp: inj_on_def)
    then show ?thesis using \<open>k = l\<close> by (simp add: apply_writes_other)
  qed
qed simp

definition wrote :: "(u32 \<times> u8 list) list \<Rightarrow> 'a bio_st_scheme \<Rightarrow> 'a bio_st_scheme \<Rightarrow> bool" where
  "wrote ws s t \<longleftrightarrow> binv t {} \<and> frame s t \<and> view t = apply_writes (view s) ws \<and> memdisk t = apply_writes (memdisk s) ws
     \<and> diskwrites t = diskwrites s @ ws"

lemma wrote_trans: "wrote vs s t \<Longrightarrow> wrote ws t u \<Longrightarrow> wrote (vs @ ws) s u"
  using frame_trans by (fastforce simp: wrote_def)

lemma copy_wrote: "copy_op src dst s t \<Longrightarrow> wrote [(dst, view s src)] s t"
  by (simp add: copy_op_def wrote_def)

definition log_area :: "'a log_st_scheme \<Rightarrow> nat \<Rightarrow> nat \<Rightarrow> bool" where
  "log_area s i n \<longleftrightarrow> log_dev s = 1 \<and> i + n \<le> 30
     \<and> (\<forall>k \<in> {i..<i + n}. log_block s k < disksize s \<and> lh_block s ! k < disksize s)
     \<and> (\<forall>k \<in> {i..<i + n}. \<forall>l \<in> {i..<i + n}. log_block s k \<noteq> lh_block s ! l)"

lemma log_area_frame: "frame s t \<Longrightarrow> log_area s i n \<Longrightarrow> log_area t i n"
  using frame_log [of s t] frame_disksize [of s t] by (simp add: log_area_def)

lemma log_area_Suc: "log_area s i (Suc n) \<Longrightarrow> log_area s (Suc i) n"
  by (auto simp: log_area_def)

definition install_room :: "'a log_st_scheme \<Rightarrow> nat \<Rightarrow> nat \<Rightarrow> bool" where
  "install_room s i n \<longleftrightarrow> card (dirty_blocks s) + 1 < 30
     \<or> card (dirty_blocks s) < 30 \<and> (\<forall>k \<in> {i..<i + n}. lh_block s ! k \<in> dirty_blocks s) \<and> inj_on (\<lambda>k. lh_block s ! k) {i..<i + n}"

lemma install_room_Suc:
  assumes "install_room s i (Suc n)" "dirty_blocks t = dirty_blocks s - {lh_block s ! i}" "lh_block t = lh_block s" "finite (dirty_blocks s)"
  shows "install_room t (Suc i) n"
proof -
  have le: "card (dirty_blocks t) \<le> card (dirty_blocks s)" unfolding assms(2) by (intro card_mono assms(4)) auto
  show ?thesis
  proof (cases "card (dirty_blocks s) + 1 < 30")
    case True
    then show ?thesis using le by (simp add: install_room_def)
  next
    case False
    then have c: "card (dirty_blocks s) < 30" "\<forall>k \<in> {i..<i + Suc n}. lh_block s ! k \<in> dirty_blocks s"
        "inj_on (\<lambda>k. lh_block s ! k) {i..<i + Suc n}"
      using assms(1) by (auto simp: install_room_def)
    have "\<forall>k \<in> {Suc i..<Suc i + n}. lh_block s ! k \<in> dirty_blocks t"
    proof
      fix k assume k: "k \<in> {Suc i..<Suc i + n}"
      then have "lh_block s ! k \<noteq> lh_block s ! i" using inj_onD [OF c(3), of k i] by auto
      then show "lh_block s ! k \<in> dirty_blocks t" using c(2) k by (auto simp: assms(2))
    qed
    moreover have "inj_on (\<lambda>k. lh_block s ! k) {Suc i..<Suc i + n}" using c(3) by (rule inj_on_subset) auto
    ultimately show ?thesis using c(1) le assms(3) by (simp add: install_room_def)
  qed
qed

lemma install_loop_spec:
  assumes "binv s {}" "log_area s i n" "install_room s i n"
  shows "\<exists>t. install_loop s i n = Ret t \<and> wrote (map (\<lambda>k. (lh_block s ! k, view s (log_block s k))) [i..<i + n]) s t
    \<and> dirty_blocks t = dirty_blocks s - (\<lambda>k. lh_block s ! k) ` {i..<i + n}"
  using assms
proof (induction n arbitrary: s i)
  case 0
  then show ?case by (auto simp: wrote_def frame_refl)
next
  case (Suc n)
  let ?a = "log_block s i" and ?b = "lh_block s ! i"
  have a: "log_dev s = 1" "i < 30" "?a < disksize s" "?b < disksize s" "?a \<noteq> ?b"
    using Suc.prems(2) by (auto simp: log_area_def)
  have r: "?a \<in> dirty_blocks s \<or> card (dirty_blocks s) < 30" "?b \<in> dirty_blocks s \<or> card (dirty_blocks s) + 1 < 30"
    using Suc.prems(3) by (auto simp: install_room_def)
  obtain u where u: "install_loop s i (Suc n) = install_loop u (Suc i) n" "copy_op ?a ?b s u"
    using install_round [OF a(2,1) Suc.prems(1) a(5,3,4) r] by blast
  have fr: "frame s u" "dirty_blocks u = dirty_blocks s - {?b}" "binv u {}" "view u = (view s)(?b := view s ?a)"
    using u(2) by (simp_all add: copy_op_def)
  note fl = frame_log [OF fr(1)]
  have "log_area u (Suc i) n" using log_area_Suc [OF Suc.prems(2)] log_area_frame [OF fr(1)] by blast
  moreover have "install_room u (Suc i) n"
    using install_room_Suc [OF Suc.prems(3) fr(2) fl(4)] card_dirty(1) [OF Suc.prems(1)] by simp
  ultimately obtain t where t: "install_loop u (Suc i) n = Ret t"
      "wrote (map (\<lambda>k. (lh_block u ! k, view u (log_block u k))) [Suc i..<Suc i + n]) u t"
      "dirty_blocks t = dirty_blocks u - (\<lambda>k. lh_block u ! k) ` {Suc i..<Suc i + n}"
    using Suc.IH [OF fr(3)] by blast
  have "log_block s k \<noteq> ?b" if "k \<in> set [Suc i..<Suc i + n]" for k
  proof -
    have "k \<in> {i..<i + Suc n}" "i \<in> {i..<i + Suc n}" using that by auto
    then show ?thesis using Suc.prems(2) unfolding log_area_def by blast
  qed
  then have eq: "map (\<lambda>k. (lh_block u ! k, view u (log_block u k))) [Suc i..<Suc i + n]
      = map (\<lambda>k. (lh_block s ! k, view s (log_block s k))) [Suc i..<Suc i + n]"
    using fl(1,4) fr(4) by (intro map_cong) simp_all
  then have "wrote ((?b, view s ?a) # map (\<lambda>k. (lh_block s ! k, view s (log_block s k))) [Suc i..<Suc i + n]) s t"
    using wrote_trans [OF copy_wrote [OF u(2)] t(2)] unfolding eq by (simp only: append.simps)
  moreover have "[i..<i + Suc n] = i # [Suc i..<Suc i + n]" by (simp add: upt_rec)
  moreover have "(\<lambda>k. lh_block s ! k) ` {i..<i + Suc n} = insert ?b ((\<lambda>k. lh_block s ! k) ` {Suc i..<Suc i + n})"
    by (simp add: atLeastLessThanSuc_atLeastAtMost atLeastAtMost_insertL flip: image_insert)
  then have "dirty_blocks t = dirty_blocks s - (\<lambda>k. lh_block s ! k) ` {i..<i + Suc n}"
    unfolding t(3) fr(2) fl(4) by blast
  ultimately show ?case using u(1) t(1) by (intro exI [of _ t]) (simp del: upt_Suc)
qed

text \<open>The loop of \<open>write_log\<close>. The log's own blocks are never dirty.\<close>

definition log_clean :: "'a log_st_scheme \<Rightarrow> nat \<Rightarrow> nat \<Rightarrow> bool" where
  "log_clean s i n \<longleftrightarrow> card (dirty_blocks s) < 30
     \<and> (\<forall>k \<in> {i..<i + n}. lh_block s ! k \<in> dirty_blocks s \<and> log_block s k \<notin> dirty_blocks s)"

lemma write_log_loop_spec:
  assumes "binv s {}" "log_area s i n" "log_clean s i n"
  shows "\<exists>t. write_log_loop s i n = Ret t \<and> wrote (map (\<lambda>k. (log_block s k, view s (lh_block s ! k))) [i..<i + n]) s t
    \<and> dirty_blocks t = dirty_blocks s"
  using assms
proof (induction n arbitrary: s i)
  case 0
  then show ?case by (auto simp: wrote_def frame_refl)
next
  case (Suc n)
  let ?a = "log_block s i" and ?b = "lh_block s ! i"
  have a: "log_dev s = 1" "i < 30" "?a < disksize s" "?b < disksize s" "?a \<noteq> ?b"
    using Suc.prems(2) by (auto simp: log_area_def)
  have r: "?a \<in> dirty_blocks s \<or> card (dirty_blocks s) < 30" "?b \<in> dirty_blocks s \<or> card (dirty_blocks s) + 1 < 30"
      "?a \<notin> dirty_blocks s"
    using Suc.prems(3) by (auto simp: log_clean_def)
  obtain u where u: "write_log_loop s i (Suc n) = write_log_loop u (Suc i) n" "copy_op ?b ?a s u"
    using write_log_round [OF a(2,1) Suc.prems(1) a(5,3,4) r(1,2)] by blast
  have fr: "frame s u" "dirty_blocks u = dirty_blocks s" "binv u {}" "view u = (view s)(?a := view s ?b)"
    using u(2) r(3) by (simp_all add: copy_op_def)
  note fl = frame_log [OF fr(1)]
  have "log_area u (Suc i) n" using log_area_Suc [OF Suc.prems(2)] log_area_frame [OF fr(1)] by blast
  moreover have "log_clean u (Suc i) n" using Suc.prems(3) fr(2) fl(1,4) by (auto simp: log_clean_def)
  ultimately obtain t where t: "write_log_loop u (Suc i) n = Ret t"
      "wrote (map (\<lambda>k. (log_block u k, view u (lh_block u ! k))) [Suc i..<Suc i + n]) u t"
      "dirty_blocks t = dirty_blocks u"
    using Suc.IH [OF fr(3)] by blast
  have "lh_block s ! k \<noteq> ?a" if "k \<in> set [Suc i..<Suc i + n]" for k
  proof -
    have "k \<in> {i..<i + Suc n}" "i \<in> {i..<i + Suc n}" using that by auto
    then show ?thesis using Suc.prems(2) unfolding log_area_def by metis
  qed
  then have eq: "map (\<lambda>k. (log_block u k, view u (lh_block u ! k))) [Suc i..<Suc i + n]
      = map (\<lambda>k. (log_block s k, view s (lh_block s ! k))) [Suc i..<Suc i + n]"
    using fl(1,4) fr(4) by (intro map_cong) simp_all
  then have "wrote ((?a, view s ?b) # map (\<lambda>k. (log_block s k, view s (lh_block s ! k))) [Suc i..<Suc i + n]) s t"
    using wrote_trans [OF copy_wrote [OF u(2)] t(2)] unfolding eq by (simp only: append.simps)
  moreover have "[i..<i + Suc n] = i # [Suc i..<Suc i + n]" by (simp add: upt_rec)
  ultimately show ?case using u(1) t(1,3) fr(2) by (intro exI [of _ t]) (simp del: upt_Suc)
qed

section \<open>The header\<close>

lemma write_head_loop_spec:
  assumes "length bs = 512" "i + n \<le> 30"
  shows "\<exists>hb. write_head_loop bs blks i n = Ret hb \<and> length hb = 512
    \<and> (\<forall>k \<in> {i..<i + n}. get32 hb (4 + 4 * k) = blks ! k) \<and> (\<forall>p. p + 4 \<le> 4 + 4 * i \<longrightarrow> get32 hb p = get32 bs p)"
  using assms
proof (induction n arbitrary: bs i)
  case (Suc n)
  let ?bs = "put32 bs (4 + 4 * i) (blks ! i)"
  obtain hb where hb: "write_head_loop ?bs blks (Suc i) n = Ret hb" "length hb = 512"
      "\<forall>k \<in> {Suc i..<Suc i + n}. get32 hb (4 + 4 * k) = blks ! k" "\<forall>p. p + 4 \<le> 4 + 4 * Suc i \<longrightarrow> get32 hb p = get32 ?bs p"
    using Suc.IH [of ?bs "Suc i"] Suc.prems by auto
  have "get32 hb (4 + 4 * i) = blks ! i" using hb(4) Suc.prems by simp
  moreover have "{i..<i + Suc n} = insert i {Suc i..<Suc i + n}" by auto
  ultimately have "\<forall>k \<in> {i..<i + Suc n}. get32 hb (4 + 4 * k) = blks ! k" using hb(3) by simp
  moreover have "\<forall>p. p + 4 \<le> 4 + 4 * i \<longrightarrow> get32 hb p = get32 bs p" using hb(4) by (auto simp: get32_put32_other)
  ultimately show ?case using hb(1,2) Suc.prems by simp
qed simp

text \<open>A header block that lists \<open>n\<close> blocks.\<close>

definition header :: "u8 list \<Rightarrow> u32 \<Rightarrow> u32 list \<Rightarrow> bool" where
  "header hb n blks \<longleftrightarrow> length hb = 512 \<and> get32 hb 0 = n \<and> (\<forall>k < nat (sint n). get32 hb (4 + 4 * k) = blks ! k)"

lemma write_head_spec:
  assumes inv: "binv s {}" and log: "log_dev s = 1" "log_start s < disksize s" "sint (lh_n s) \<le> 30"
    and room: "card (dirty_blocks s) < 30" "log_start s \<notin> dirty_blocks s"
  shows "\<exists>t hb. write_head s = Ret t \<and> wrote [(log_start s, hb)] s t \<and> dirty_blocks t = dirty_blocks s
    \<and> header hb (lh_n s) (lh_block s)"
proof -
  obtain b u where b: "bread s 1 (log_start s) = Ret (b, u)" "did_read s {} (log_start s) b u"
    using bread_spec [OF inv log(2)] room by auto
  then obtain c where u: "u = s\<lparr>bcache := c\<rparr>" by (auto simp: did_read_def)
  have r: "binv u {b}" "hit (log_start s) (c ! b)" "valid (c ! b)" "b_data (c ! b) = view s (log_start s)"
      "view u = view s" "dirty_blocks u = dirty_blocks s"
    using b(2) u by (auto simp: did_read_def)
  have "length (put32 (b_data (c ! b)) 0 (lh_n s)) = 512" using length_view [OF inv] r(4) by simp
  then obtain hb where hb: "write_head_loop (put32 (b_data (c ! b)) 0 (lh_n s)) (lh_block s) 0 (nat (sint (lh_n s))) = Ret hb"
      "length hb = 512" "\<forall>k \<in> {0..<nat (sint (lh_n s))}. get32 hb (4 + 4 * k) = lh_block s ! k"
      "get32 hb 0 = get32 (put32 (b_data (c ! b)) 0 (lh_n s)) 0"
    using write_head_loop_spec [of "put32 (b_data (c ! b)) 0 (lh_n s)" 0 "nat (sint (lh_n s))" "lh_block s"] log(3) by (auto simp: nat_le_iff)
  have hdr: "header hb (lh_n s) (lh_block s)"
    using hb length_view [OF inv] r(4) by (auto simp: header_def)
  define v where "v = set_buf b (\<lambda>x. x\<lparr>b_data := hb\<rparr>) u"
  have hu: "hit (log_start s) (bcache u ! b)" "valid (bcache u ! b)" using r(2,3) u by simp_all
  note 1 = set_data_spec [OF r(1) _ hu hb(2), folded v_def]
  have b30: "b < 30" "length c = 31" using b(2) binv_len [OF r(1)] u by (simp_all add: did_read_def)
  have vb: "bcache v ! b = (c ! b)\<lparr>b_data := hb\<rparr>" using 1(4) u b30 by simp
  have hv: "hit (log_start s) (bcache v ! b)" "valid (bcache v ! b)" using r(2,3) vb by (simp_all add: hit_def valid_def)
  have md: "memdisk v = memdisk s" "diskwrites v = diskwrites s" "disksize v = disksize s"
    by (simp_all add: v_def set_buf_def u)
  obtain w x where w: "bwrite v b = Ret w" "binv w {b}" "view w = view v" "dirty_blocks w = dirty_blocks v - {log_start s}"
    "w = v\<lparr>memdisk := (memdisk v)(log_start s := b_data (bcache v ! b)),
      diskwrites := diskwrites v @ [(log_start s, b_data (bcache v ! b))], bcache := (bcache v)[b := (bcache v ! b)\<lparr>b_flags := x\<rparr>]\<rparr>"
    using bwrite_spec [OF 1(1) _ hv] log(2) md(3) by auto
  have wb: "bcache w ! b = (c ! b)\<lparr>b_data := hb, b_flags := x\<rparr>"
    using w(5) vb b30 1(4) u by simp
  have "b_dev (bcache w ! b) = 1 \<and> b_data (bcache w ! b) = memdisk w (b_blockno (bcache w ! b))"
    using wb w(5) vb r(2) by (simp add: hit_def)
  then obtain p e where t: "let t = w\<lparr>ptable := p, bcache := e\<rparr> in brelse w b = Ret t \<and> binv t ({b} - {b})
    \<and> view t = view w \<and> dirty_blocks t = dirty_blocks w \<and> (\<forall>k. core (e ! k) = core (bcache w ! k))"
    using brelse_spec [OF w(2), of b] by blast
  let ?t = "w\<lparr>ptable := p, bcache := e\<rparr>"
  have "write_head s = Ret ?t"
    using b(1) hb(1) w(1) t log(1) u by (simp add: write_head_def v_def Let_def)
  moreover have "frame s ?t"
  proof -
    have "frame s v" by (rule frame_bufs [where c = "bcache v"]) (simp add: v_def set_buf_def u)
    moreover have "frame v w" unfolding w(5) by (rule frame_wr)
    ultimately show ?thesis using frame_trans frame_rel [OF refl] by blast
  qed
  moreover have "binv ?t {}" "view ?t = (view s)(log_start s := hb)" "dirty_blocks ?t = dirty_blocks s - {log_start s}"
    using t w(3,4) 1(2,3) r(5,6) by (simp_all add: Let_def)
  moreover have "memdisk ?t = (memdisk s)(log_start s := hb)" "diskwrites ?t = diskwrites s @ [(log_start s, hb)]"
    using w(5) md vb by simp_all
  ultimately show ?thesis using hdr room(2) by (intro exI [of _ ?t] exI [of _ hb]) (simp add: wrote_def)
qed

end
