(* ===== verification/Recovery.thy ===== *)
theory Recovery
  imports Logwrite
begin

text \<open>
  Commit and recovery of the log as a whole: what \<^verbatim>\<open>commit\<close> writes, in which order, and what
  \<^verbatim>\<open>recover_from_log\<close> makes of any prefix of those writes.
\<close>

section \<open>Commit\<close>

lemma lh_updates [simp]:
  "view (s\<lparr>lh_n := v\<rparr>) = view s" "dirty_blocks (s\<lparr>lh_n := v\<rparr>) = dirty_blocks s" "binv (s\<lparr>lh_n := v\<rparr>) L = binv s L"
  "view (s\<lparr>lh_block := w\<rparr>) = view s" "dirty_blocks (s\<lparr>lh_block := w\<rparr>) = dirty_blocks s" "binv (s\<lparr>lh_block := w\<rparr>) L = binv s L"
  by (simp_all add: fun_eq_iff view_def dirty_blocks_def binv_def curpid_def cur_ok_def cong: option.case_cong)

lemma sint_small: "n \<le> 30 \<Longrightarrow> sint (of_nat n :: u32) = int n"
  by (simp add: sint_of_nat)

lemma log_block_inj: "k < 30 \<Longrightarrow> l < 30 \<Longrightarrow> log_block s k = log_block s l \<longleftrightarrow> k = l"
proof -
  assume "k < 30" "l < 30"
  then have "unat (of_nat k :: u32) = k" "unat (of_nat l :: u32) = l" by (simp_all add: unat_of_nat)
  then show ?thesis by (metis add_diff_cancel_left' add_diff_cancel_right')
qed

lemma log_block_start: "k < 30 \<Longrightarrow> log_block s k \<noteq> log_start s"
proof
  assume "k < 30" "log_block s k = log_start s"
  then have "of_nat (Suc k) = (0 :: u32)" by (simp add: add.assoc add.commute)
  then have "unat (of_nat (Suc k) :: u32) = 0" by (simp only: unat_0)
  then show False using \<open>k < 30\<close> by (simp add: unat_of_nat del: of_nat_Suc)
qed

text \<open>
  A transaction of \<open>n\<close> blocks is ready to commit: its blocks are the dirty ones, each named once in the
  header, and none lies in the log.
\<close>

definition log_blocks :: "'a log_st_scheme \<Rightarrow> nat \<Rightarrow> u32 set" where
  "log_blocks s n = insert (log_start s) ((\<lambda>k. log_block s k) ` {..<n})"

definition tx_ready :: "'a log_st_scheme \<Rightarrow> nat \<Rightarrow> bool" where
  "tx_ready s n \<longleftrightarrow> binv s {} \<and> log_dev s = 1 \<and> lh_n s = of_nat n \<and> 0 < n \<and> n \<le> 29
     \<and> inj_on (\<lambda>k. lh_block s ! k) {..<n} \<and> dirty_blocks s = (\<lambda>k. lh_block s ! k) ` {..<n}
     \<and> (\<forall>b \<in> log_blocks s n. b < disksize s \<and> b \<notin> dirty_blocks s) \<and> (\<forall>b \<in> dirty_blocks s. b < disksize s)"

definition tx_writes :: "'a log_st_scheme \<Rightarrow> nat \<Rightarrow> u8 list \<Rightarrow> u8 list \<Rightarrow> (u32 \<times> u8 list) list" where
  "tx_writes s n h1 h2 = map (\<lambda>k. (log_block s k, view s (lh_block s ! k))) [0..<n] @ [(log_start s, h1)]
     @ map (\<lambda>k. (lh_block s ! k, view s (lh_block s ! k))) [0..<n] @ [(log_start s, h2)]"

lemma tx_readyD:
  assumes "tx_ready s n"
  shows "binv s {}" "log_area s 0 n" "log_clean s 0 n" "card (dirty_blocks s) < 30" "nat (sint (lh_n s)) = n"
    "0 <s lh_n s" "log_start s \<notin> dirty_blocks s" "log_start s < disksize s" "log_dev s = 1" "n \<le> 29"
proof -
  have n: "n \<le> 30" and ln: "lh_n s = of_nat n" using assms by (simp_all add: tx_ready_def)
  have si: "sint (lh_n s) = int n" unfolding ln using sint_small [OF n] .
  show "nat (sint (lh_n s)) = n" "0 <s lh_n s" using si assms by (simp_all add: word_sless_alt tx_ready_def)
  have "card (dirty_blocks s) \<le> card {..<n}" using assms unfolding tx_ready_def by (metis card_image_le finite_lessThan)
  then show c: "card (dirty_blocks s) < 30" using assms by (simp add: tx_ready_def)
  show "binv s {}" "log_start s \<notin> dirty_blocks s" "log_start s < disksize s" "log_dev s = 1" "n \<le> 29"
    using assms unfolding tx_ready_def log_blocks_def by blast+
  have lb: "log_block s k < disksize s \<and> log_block s k \<notin> dirty_blocks s" if "k < n" for k
    using assms that by (auto simp: tx_ready_def log_blocks_def)
  have hb: "lh_block s ! k \<in> dirty_blocks s \<and> lh_block s ! k < disksize s" if "k < n" for k
    using assms that by (auto simp: tx_ready_def)
  show "log_area s 0 n" using lb hb assms n unfolding log_area_def tx_ready_def by (auto, metis hb lb)
  show "log_clean s 0 n" using lb hb c by (simp add: log_clean_def)
qed

lemma apply_log_all:
  assumes "n \<le> 29" "l < n"
  shows "apply_writes m (map (\<lambda>k. (log_block s k, g k)) [0..<n]) (log_block s l) = g l"
proof -
  have "inj_on (\<lambda>k. log_block s k) (set [0..<n])"
  proof (rule inj_onI)
    fix x y assume "x \<in> set [0..<n]" "y \<in> set [0..<n]" "log_block s x = log_block s y"
    then show "x = y" using assms log_block_inj [of x y s] by simp
  qed
  from apply_writes_map [OF _ this] show ?thesis using assms by simp
qed

lemma commit_spec:
  assumes rdy: "tx_ready s n"
  shows "\<exists>t h1 h2. commit s = Ret t \<and> header h1 (of_nat n) (lh_block s) \<and> header h2 0 (lh_block s)
    \<and> diskwrites t = diskwrites s @ tx_writes s n h1 h2 \<and> memdisk t = apply_writes (memdisk s) (tx_writes s n h1 h2)
    \<and> dirty_blocks t = {} \<and> binv t {} \<and> lh_n t = 0"
proof -
  note d = tx_readyD [OF rdy]
  obtain s1 where 1: "write_log s = Ret s1" "wrote (map (\<lambda>k. (log_block s k, view s (lh_block s ! k))) [0..<n]) s s1"
      "dirty_blocks s1 = dirty_blocks s"
    using write_log_loop_spec [OF d(1-3)] d(5) by (auto simp: write_log_def)
  have f1: "frame s s1" "binv s1 {}" using 1(2) by (simp_all add: wrote_def)
  note l1 = frame_log [OF f1(1)] frame_disksize [OF f1(1)]
  have v1: "view s1 (log_block s k) = view s (lh_block s ! k)" if "k < n" for k
    using 1(2) apply_log_all [OF d(10) that] by (simp add: wrote_def)
  have n30: "sint (lh_n s) \<le> 30" using d(5,10) by linarith
  obtain s2 h1 where 2: "write_head s1 = Ret s2" "wrote [(log_start s, h1)] s1 s2" "dirty_blocks s2 = dirty_blocks s"
      "header h1 (lh_n s) (lh_block s)"
    using write_head_spec [OF f1(2)] l1 d 1(3) n30 by auto
  have f2: "frame s s2" "binv s2 {}" using 2(2) frame_trans [OF f1(1)] by (simp_all add: wrote_def)
  note l2 = frame_log [OF f2(1)] frame_disksize [OF f2(1)]
  have v2: "view s2 (log_block s k) = view s (lh_block s ! k)" if "k < n" for k
    using 2(2) v1 [OF that] log_block_start [of k s] that d(10) by (simp add: wrote_def)
  have room: "install_room s2 0 n"
    using rdy d(4) 2(3) l2(4) by (auto simp: install_room_def tx_ready_def atLeast0LessThan)
  obtain s3 where 3: "install_trans s2 = Ret s3"
      "wrote (map (\<lambda>k. (lh_block s2 ! k, view s2 (log_block s2 k))) [0..<n]) s2 s3"
      "dirty_blocks s3 = dirty_blocks s2 - (\<lambda>k. lh_block s2 ! k) ` {0..<n}"
    using install_loop_spec [OF f2(2) log_area_frame [OF f2(1) d(2)] room] l2(3) d(5) by (auto simp: install_trans_def)
  have ws3: "map (\<lambda>k. (lh_block s2 ! k, view s2 (log_block s2 k))) [0..<n] = map (\<lambda>k. (lh_block s ! k, view s (lh_block s ! k))) [0..<n]"
    using l2 v2 by simp
  have f3: "frame s s3" "binv s3 {}" using 3(2) frame_trans [OF f2(1)] by (simp_all add: wrote_def)
  note l3 = frame_log [OF f3(1)] frame_disksize [OF f3(1)]
  have dirty3: "dirty_blocks s3 = {}" using 3(3) 2(3) l2(4) rdy by (simp add: tx_ready_def atLeast0LessThan)
  let ?s4 = "s3\<lparr>lh_n := 0\<rparr>"
  obtain t h2 where 4: "write_head ?s4 = Ret t" "wrote [(log_start s, h2)] ?s4 t" "dirty_blocks t = {}" "header h2 0 (lh_block s)"
    using write_head_spec [of ?s4] f3(2) dirty3 l3 d by auto
  have "commit s = Ret t" using 1(1) 2(1) 3(1) 4(1) d(6) by (simp add: commit_def)
  moreover have "lh_n t = 0" "binv t {}" using 4(2) frame_log(3) [of ?s4 t] by (auto simp: wrote_def)
  moreover have "diskwrites t = diskwrites s @ tx_writes s n h1 h2" "memdisk t = apply_writes (memdisk s) (tx_writes s n h1 h2)"
    using 1(2) 2(2) 3(2) 4(2) unfolding ws3 by (simp_all add: wrote_def tx_writes_def)
  moreover have "header h1 (of_nat n) (lh_block s)" using 2(4) rdy by (simp add: tx_ready_def)
  ultimately show ?thesis using 4(3,4) by blast
qed

section \<open>Recovery\<close>

lemma view_clean: "binv s {} \<Longrightarrow> bn \<notin> dirty_blocks s \<Longrightarrow> view s bn = memdisk s bn"
  by (auto simp: view_def binv_def buf_ok_def find_Some_iff dirty_blocks_def hit_def split: option.split)

lemma read_head_loop_spec:
  "i + n \<le> 30 \<Longrightarrow> length blks = 30 \<Longrightarrow>
   \<exists>bl. read_head_loop hb blks i n = Ret bl \<and> length bl = 30 \<and> (\<forall>k \<in> {i..<i + n}. bl ! k = get32 hb (4 + 4 * k))
     \<and> (\<forall>k < i. bl ! k = blks ! k)"
proof (induction n arbitrary: i blks)
  case (Suc n)
  let ?b = "blks[i := get32 hb (4 + 4 * i)]"
  obtain bl where bl: "read_head_loop hb ?b (Suc i) n = Ret bl" "length bl = 30"
      "\<forall>k \<in> {Suc i..<Suc i + n}. bl ! k = get32 hb (4 + 4 * k)" "\<forall>k < Suc i. bl ! k = ?b ! k"
    using Suc.IH [of "Suc i" ?b] Suc.prems by auto
  have "bl ! i = get32 hb (4 + 4 * i)" using bl(4) Suc.prems by simp
  moreover have "{i..<i + Suc n} = insert i {Suc i..<Suc i + n}" by auto
  ultimately show ?case using bl Suc.prems by simp
qed simp

text \<open>The state right after boot: a cache that agrees with the disk, and the place of the log read from the superblock.\<close>

definition log_booted :: "'a log_st_scheme \<Rightarrow> bool" where
  "log_booted r \<longleftrightarrow> binv r {} \<and> dirty_blocks r = {} \<and> log_dev r = 1 \<and> log_start r < disksize r \<and> length (lh_block r) = 30"

lemma read_head_spec:
  assumes r: "log_booted r" and n: "header (memdisk r (log_start r)) (of_nat n) blks" "n \<le> 30"
  shows "\<exists>t. read_head r = Ret t \<and> binv t {} \<and> dirty_blocks t = {} \<and> view t = memdisk r \<and> memdisk t = memdisk r
    \<and> log_dev t = 1 \<and> log_start t = log_start r \<and> disksize t = disksize r \<and> nat (sint (lh_n t)) = n
    \<and> (\<forall>k < n. lh_block t ! k = blks ! k)"
proof -
  note rd = r [unfolded log_booted_def]
  have vm: "view r = memdisk r" using view_clean [of r] rd by auto
  have sn: "nat (sint (of_nat n :: u32)) = n" using sint_small [OF n(2)] by simp
  obtain b u where b: "bread r 1 (log_start r) = Ret (b, u)" "did_read r {} (log_start r) b u"
    using bread_spec [of r "{}" "log_start r"] rd by auto
  then obtain c where u: "u = r\<lparr>bcache := c\<rparr>" by (auto simp: did_read_def)
  have d: "binv u {b}" "hit (log_start r) (c ! b)" "b_data (c ! b) = memdisk r (log_start r)"
      "view u = memdisk r" "dirty_blocks u = {}"
    using b(2) u vm rd by (auto simp: did_read_def)
  obtain bl where bl: "read_head_loop (memdisk r (log_start r)) (lh_block r) 0 n = Ret bl"
      "\<forall>k \<in> {0..<0 + n}. bl ! k = get32 (memdisk r (log_start r)) (4 + 4 * k)"
    using read_head_loop_spec [of 0 n "lh_block r" "memdisk r (log_start r)"] n(2) rd by auto
  let ?w = "u\<lparr>lh_n := of_nat n, lh_block := bl\<rparr>"
  have "b_dev (bcache ?w ! b) = 1 \<and> b_data (bcache ?w ! b) = memdisk ?w (b_blockno (bcache ?w ! b))"
    using d(2,3) u by (simp add: hit_def)
  then obtain p e where t: "let t = ?w\<lparr>ptable := p, bcache := e\<rparr> in brelse ?w b = Ret t \<and> binv t ({b} - {b})
    \<and> view t = view ?w \<and> dirty_blocks t = dirty_blocks ?w \<and> (\<forall>k. core (e ! k) = core (bcache ?w ! k))"
    using brelse_spec [of ?w "{b}" b] d(1) by auto
  let ?t = "?w\<lparr>ptable := p, bcache := e\<rparr>"
  have "get32 (memdisk r (log_start r)) 0 = of_nat n" using n(1) by (simp add: header_def)
  then have "read_head r = Ret ?t"
    using b(1) bl(1) t rd d(3) sn by (simp add: read_head_def Let_def u)
  moreover have "binv ?t {}" "dirty_blocks ?t = {}" "view ?t = memdisk r"
    using t d(4,5) by (simp_all add: Let_def)
  moreover have "\<forall>k < n. bl ! k = blks ! k" using bl(2) n(1) sn by (auto simp: header_def)
  ultimately show ?thesis using u rd sn by (intro exI [of _ ?t]) simp
qed

text \<open>
  \<open>n\<close> logged blocks with their home addresses \<open>blks\<close> lie where recovery may copy them: on the disk, with
  no home inside the log.
\<close>

definition log_placed :: "'a log_st_scheme \<Rightarrow> nat \<Rightarrow> u32 list \<Rightarrow> bool" where
  "log_placed r n blks \<longleftrightarrow> (\<forall>k < n. log_block r k < disksize r \<and> blks ! k < disksize r)
     \<and> (\<forall>k < n. \<forall>l < n. log_block r k \<noteq> blks ! l)"

lemma recover_spec:
  assumes r: "log_booted r" and n: "header (memdisk r (log_start r)) (of_nat n) blks" "n \<le> 30" "log_placed r n blks"
  shows "\<exists>t h. recover_from_log r = Ret t
    \<and> memdisk t = apply_writes (memdisk r) (map (\<lambda>k. (blks ! k, memdisk r (log_block r k))) [0..<n] @ [(log_start r, h)])"
proof -
  obtain s where s: "read_head r = Ret s" "binv s {}" "dirty_blocks s = {}" "view s = memdisk r" "memdisk s = memdisk r"
      "log_dev s = 1" "log_start s = log_start r" "disksize s = disksize r" "nat (sint (lh_n s)) = n"
      "\<forall>k < n. lh_block s ! k = blks ! k"
    using read_head_spec [OF r n(1,2)] by blast
  have area: "log_area s 0 n" using n(2,3) s(6-8,10) by (simp add: log_area_def log_placed_def)
  have room: "install_room s 0 n" using s(3) by (simp add: install_room_def)
  obtain u where u: "install_trans s = Ret u"
      "wrote (map (\<lambda>k. (lh_block s ! k, view s (log_block s k))) [0..<n]) s u"
      "dirty_blocks u = dirty_blocks s - (\<lambda>k. lh_block s ! k) ` {0..<n}"
    using install_loop_spec [OF s(2) area room] s(9) by (auto simp: install_trans_def)
  have ws: "map (\<lambda>k. (lh_block s ! k, view s (log_block s k))) [0..<n] = map (\<lambda>k. (blks ! k, memdisk r (log_block r k))) [0..<n]"
    using s(4,7,10) by simp
  have f: "frame s u" "binv u {}" using u(2) by (simp_all add: wrote_def)
  let ?v = "u\<lparr>lh_n := 0\<rparr>"
  obtain t h where t: "write_head ?v = Ret t" "wrote [(log_start r, h)] ?v t"
    using write_head_spec [of ?v] f(2) u(3) s(3,6-8) frame_log [OF f(1)] frame_disksize [OF f(1)] r
    by (auto simp: log_booted_def)
  have "recover_from_log r = Ret t" using s(1) u(1) t(1) by (simp add: recover_from_log_def)
  moreover have "memdisk t = apply_writes (memdisk r) (map (\<lambda>k. (blks ! k, memdisk r (log_block r k))) [0..<n] @ [(log_start r, h)])"
    using u(2) t(2) s(5) unfolding ws by (simp add: wrote_def)
  ultimately show ?thesis by blast
qed

section \<open>Atomicity of a commit\<close>

text \<open>The disk after a prefix of the writes of a commit, by phase.\<close>

lemma apply_log_part:
  assumes "bn \<notin> log_blocks s n"
  shows "apply_writes m (take k (map (\<lambda>k. (log_block s k, g k)) [0..<n])) bn = m bn"
  using assms set_take_subset [of k "map (\<lambda>k. (log_block s k, g k)) [0..<n]"]
  by (intro apply_writes_other) (auto simp: log_blocks_def)

lemma apply_log_start: 
  assumes "n \<le> 29"
  shows "apply_writes m (take k (map (\<lambda>k. (log_block s k, g k)) [0..<n])) (log_start s) = m (log_start s)"
  using assms log_block_start [of _ s] set_take_subset [of k "map (\<lambda>k. (log_block s k, g k)) [0..<n]"]
  by (intro apply_writes_other) fastforce

lemma apply_home_part:
  assumes "bn \<notin> f ` {..<n}"
  shows "apply_writes m (take k (map (\<lambda>k. (f k, g k)) [0..<n])) bn = m bn"
  using assms set_take_subset [of k "map (\<lambda>k. (f k, g k)) [0..<n]"]
  by (intro apply_writes_other) fastforce

text \<open>Writing the value \<open>v\<close> prescribes at each address leaves only values of \<open>m\<close> and \<open>v\<close>.\<close>

lemma apply_same: "m bn = v bn \<or> bn \<in> f ` set ks \<Longrightarrow> apply_writes m (map (\<lambda>k. (f k, v (f k))) ks) bn = v bn"
  by (induction ks arbitrary: m) auto

definition same_log :: "'a log_st_scheme \<Rightarrow> 'b log_st_scheme \<Rightarrow> bool" where
  "same_log s r \<longleftrightarrow> log_start r = log_start s \<and> disksize r = disksize s"

lemma recover_empty:
  assumes "log_booted r" "get32 (memdisk r (log_start r)) 0 = 0"
  shows "\<exists>u. recover_from_log r = Ret u \<and> (\<forall>bn. bn \<noteq> log_start r \<longrightarrow> memdisk u bn = memdisk r bn)"
proof -
  have "length (memdisk r (log_start r)) = 512" using assms(1) by (simp add: log_booted_def binv_def)
  then have "header (memdisk r (log_start r)) (of_nat 0) []" using assms(2) by (simp add: header_def)
  from recover_spec [OF assms(1) this] show ?thesis by (auto simp: log_placed_def)
qed

lemma recover_before:
  assumes rdy: "tx_ready s n" and r: "log_booted r" "same_log s r" and old: "get32 (memdisk s (log_start s)) 0 = 0"
    and md: "memdisk r = apply_writes (memdisk s) (take k (map (\<lambda>k. (log_block s k, view s (lh_block s ! k))) [0..<n]))"
  shows "\<exists>u. recover_from_log r = Ret u \<and> (\<forall>bn. bn \<notin> log_blocks s n \<longrightarrow> memdisk u bn = memdisk s bn)"
proof -
  have ls: "log_start r = log_start s" using r(2) by (simp add: same_log_def)
  have "get32 (memdisk r (log_start r)) 0 = 0"
    using old tx_readyD(10) [OF rdy] by (simp add: ls md apply_log_start)
  from recover_empty [OF r(1) this] obtain u where u: "recover_from_log r = Ret u"
    "\<forall>bn. bn \<noteq> log_start s \<longrightarrow> memdisk u bn = memdisk r bn" by (auto simp: ls)
  have "memdisk u bn = memdisk s bn" if "bn \<notin> log_blocks s n" for bn
  proof -
    have "bn \<noteq> log_start s" using that by (auto simp: log_blocks_def)
    then show ?thesis using u(2) apply_log_part [OF that] by (simp add: md)
  qed
  then show ?thesis using u(1) by blast
qed

lemma tx_homes:
  assumes "tx_ready s n"
  shows "l < n \<Longrightarrow> lh_block s ! l \<notin> log_blocks s n" "l < n \<Longrightarrow> lh_block s ! l < disksize s"
    "bn \<notin> (\<lambda>k. lh_block s ! k) ` {..<n} \<Longrightarrow> view s bn = memdisk s bn"
    "l < n \<Longrightarrow> log_block s l < disksize s"
    "log_start s \<notin> (\<lambda>k. lh_block s ! k) ` {..<n}" "l < n \<Longrightarrow> log_block s l \<notin> (\<lambda>k. lh_block s ! k) ` {..<n}"
proof -
  have d: "dirty_blocks s = (\<lambda>k. lh_block s ! k) ` {..<n}" using assms by (simp add: tx_ready_def)
  show "log_start s \<notin> (\<lambda>k. lh_block s ! k) ` {..<n}" "l < n \<Longrightarrow> log_block s l \<notin> (\<lambda>k. lh_block s ! k) ` {..<n}"
    using assms unfolding d [symmetric] tx_ready_def log_blocks_def by blast+
  show "l < n \<Longrightarrow> lh_block s ! l \<notin> log_blocks s n" "l < n \<Longrightarrow> lh_block s ! l < disksize s" "l < n \<Longrightarrow> log_block s l < disksize s"
    using assms unfolding tx_ready_def log_blocks_def by blast+
  show "bn \<notin> (\<lambda>k. lh_block s ! k) ` {..<n} \<Longrightarrow> view s bn = memdisk s bn"
    using assms view_clean [of s bn] by (simp add: tx_ready_def)
qed

lemma crash_disk:
  assumes rdy: "tx_ready s n"
    and md: "d = apply_writes (memdisk s) (map (\<lambda>k. (log_block s k, view s (lh_block s ! k))) [0..<n] @ [(log_start s, h1)]
      @ take k (map (\<lambda>k. (lh_block s ! k, view s (lh_block s ! k))) [0..<n]))"
  shows "d (log_start s) = h1" "l < n \<Longrightarrow> d (log_block s l) = view s (lh_block s ! l)"
    "bn \<notin> log_blocks s n \<Longrightarrow> bn \<notin> (\<lambda>k. lh_block s ! k) ` {..<n} \<Longrightarrow> d bn = view s bn"
proof -
  note h = tx_homes [OF rdy] and n = tx_readyD(10) [OF rdy]
  show "d (log_start s) = h1" using h(5) by (simp add: md apply_home_part)
  show "d (log_block s l) = view s (lh_block s ! l)" if "l < n"
  proof -
    have "log_block s l \<notin> (\<lambda>k. lh_block s ! k) ` {..<n}" "log_block s l \<noteq> log_start s"
      using h(6) log_block_start [of l s] that n by simp_all
    then show ?thesis using apply_log_all [OF n that] by (simp add: md apply_home_part)
  qed
  show "d bn = view s bn" if "bn \<notin> log_blocks s n" "bn \<notin> (\<lambda>k. lh_block s ! k) ` {..<n}"
  proof -
    have "bn \<noteq> log_start s" using that(1) by (auto simp: log_blocks_def)
    then show ?thesis using that h(3) apply_log_part [OF that(1), where k = n] by (simp add: md apply_home_part)
  qed
qed

lemma recover_during:
  assumes rdy: "tx_ready s n" and r: "log_booted r" "same_log s r" and h1: "header h1 (of_nat n) (lh_block s)"
    and md: "memdisk r = apply_writes (memdisk s) (map (\<lambda>k. (log_block s k, view s (lh_block s ! k))) [0..<n] @ [(log_start s, h1)]
      @ take k (map (\<lambda>k. (lh_block s ! k, view s (lh_block s ! k))) [0..<n]))"
  shows "\<exists>u. recover_from_log r = Ret u \<and> (\<forall>bn. bn \<notin> log_blocks s n \<longrightarrow> memdisk u bn = view s bn)"
proof -
  note d = crash_disk [OF rdy md] and h = tx_homes [OF rdy]
  have ls: "log_start r = log_start s" "disksize r = disksize s" using r(2) by (simp_all add: same_log_def)
  have "log_placed r n (lh_block s)"
    using h(2,4,6) unfolding log_placed_def ls by blast
  moreover have "header (memdisk r (log_start r)) (of_nat n) (lh_block s)" using h1 d(1) ls(1) by simp
  ultimately obtain u h where u: "recover_from_log r = Ret u"
    "memdisk u = apply_writes (memdisk r) (map (\<lambda>k. (lh_block s ! k, memdisk r (log_block r k))) [0..<n] @ [(log_start r, h)])"
    using recover_spec [OF r(1), of n "lh_block s"] tx_readyD(10) [OF rdy] by auto
  have ws: "map (\<lambda>k. (lh_block s ! k, memdisk r (log_block r k))) [0..<n] = map (\<lambda>k. (lh_block s ! k, view s (lh_block s ! k))) [0..<n]"
    using d(2) by (simp add: ls)
  have "memdisk u bn = view s bn" if "bn \<notin> log_blocks s n" for bn
  proof -
    have "bn \<noteq> log_start s" using that by (auto simp: log_blocks_def)
    moreover have "apply_writes (memdisk r) (map (\<lambda>k. (lh_block s ! k, view s (lh_block s ! k))) [0..<n]) bn = view s bn"
      using d(3) [OF that] by (intro apply_same) (auto simp: atLeast0LessThan)
    ultimately show ?thesis using u(2) [unfolded ws] by (simp add: ls)
  qed
  then show ?thesis using u(1) by blast
qed

lemma tx_disk:
  assumes rdy: "tx_ready s n" and bn: "bn \<notin> log_blocks s n"
  shows "apply_writes (memdisk s) (tx_writes s n h1 h2) bn = view s bn"
proof -
  let ?d = "apply_writes (memdisk s) (map (\<lambda>k. (log_block s k, view s (lh_block s ! k))) [0..<n] @ [(log_start s, h1)]
      @ take 0 (map (\<lambda>k. (lh_block s ! k, view s (lh_block s ! k))) [0..<n]))"
  have "bn \<noteq> log_start s" using bn by (auto simp: log_blocks_def)
  moreover have "apply_writes ?d (map (\<lambda>k. (lh_block s ! k, view s (lh_block s ! k))) [0..<n]) bn = view s bn"
    using crash_disk(3) [OF rdy refl bn, where k = 0 and ?h1.0 = h1] by (intro apply_same) (auto simp: atLeast0LessThan)
  ultimately show ?thesis by (simp add: tx_writes_def)
qed

lemma recover_after:
  assumes rdy: "tx_ready s n" and r: "log_booted r" "same_log s r" and h2: "header h2 0 (lh_block s)"
    and md: "memdisk r = apply_writes (memdisk s) (tx_writes s n h1 h2)"
  shows "\<exists>u. recover_from_log r = Ret u \<and> (\<forall>bn. bn \<notin> log_blocks s n \<longrightarrow> memdisk u bn = view s bn)"
proof -
  have ls: "log_start r = log_start s" using r(2) by (simp add: same_log_def)
  have dr: "memdisk r bn = view s bn" if "bn \<notin> log_blocks s n" for bn using tx_disk [OF rdy that] md by simp
  have "get32 (memdisk r (log_start r)) 0 = 0" using h2 by (simp add: md tx_writes_def ls header_def)
  from recover_empty [OF r(1) this] show ?thesis using dr by (auto simp: ls log_blocks_def)
qed

section \<open>Properties\<close>

lemma log_demo:
  fixes s0 :: log_st
  assumes "s1 = s0\<lparr>bcache := replicate 31 zero_buf, memdisk := \<lambda>_. replicate 512 0, cpu_proc := \<lambda>_. None, disksize := 100,
      log_start := 2, log_dev := 1, lh_n := 1, lh_block := replicate 30 50\<rparr>"
    and "x = (bcache (binit s1) ! 0)\<lparr>b_flags := 6, b_dev := 1, b_blockno := 50, b_data := replicate 512 9\<rparr>"
    and "s = binit s1\<lparr>bcache := (bcache (binit s1))[0 := x]\<rparr>"
  shows "tx_ready s 1" "view s 50 = replicate 512 9" "log_start s = 2 \<and> disksize s = 100"
    "memdisk s = (\<lambda>_. replicate 512 0)"
proof -
  have i: "binv (binit s1) {}" "dirty_blocks (binit s1) = {}" using binit_inv [of s1] assms(1) by (simp_all add: cur_ok_def)
  have f: "log_dev (binit s1) = 1" "log_start (binit s1) = 2" "disksize (binit s1) = 100" "lh_block (binit s1) = replicate 30 50"
      "lh_n (binit s1) = 1" "memdisk (binit s1) = (\<lambda>_. replicate 512 0)"
    using assms(1) by (simp_all add: binit_def)
  show "log_start s = 2 \<and> disksize s = 100" "memdisk s = (\<lambda>_. replicate 512 0)"
    using f assms(3) by simp_all
  have len: "length (bcache (binit s1)) = 31" using binv_len [OF i(1)] .
  have b: "b_dev (bcache (binit s1) ! k) = 0 \<and> idle_buf (bcache (binit s1) ! k) \<and> b_flags (bcache (binit s1) ! k) = 0" if "k < 30" for k
    using binit_buf [of s1 k] that assms(1) by (simp add: core_def zero_buf_def idle_buf_def)
  have bs: "bcache s ! k = (if k = 0 then x else bcache (binit s1) ! k)" if "k < 30" for k
    using that len assms(3) by (simp add: nth_list_update)
  have hx: "hit bn x \<longleftrightarrow> bn = 50" "valid x" "dirty x" "idle_buf x" for bn
    using b [of 0] by (auto simp: assms(2) hit_def valid_def dirty_def idle_buf_def)
  have nh: "\<not> hit bn (bcache (binit s1) ! k)" if "k < 30" for bn k using b [OF that] by (simp add: hit_def)
  have un: "uniq (bcache s)" using nh by (auto simp: uniq_def bs)
  have "bufs_ok (bcache s)"
    using i(1) assms(2,3) bufs_ok_upd [of "bcache (binit s1)" 0 x] by (simp add: binv_def)
  moreover have "cur_ok s" "memdisk s = memdisk (binit s1)" using i(1) assms(3) by (simp_all add: binv_def)
  moreover have "buf_ok (memdisk s) False (bcache s ! k) \<and> use_ok (curpid s) False (bcache s ! k)" if k: "k < 30" for k
    using b [OF k] hx bs [OF k] by (auto simp: buf_ok_def use_ok_def idle_buf_def assms(2) valid_def dirty_def)
  ultimately have inv: "binv s {}" using un i(1) by (simp add: binv_def)
  have d: "dirty_blocks s = {50}"
  proof -
    have "(\<exists>k < 30. hit bn (bcache s ! k) \<and> dirty (bcache s ! k)) \<longleftrightarrow> bn = 50" for bn
      using nh hx bs by (metis zero_less_numeral)
    then show ?thesis by (auto simp: dirty_blocks_def)
  qed
  show "view s 50 = replicate 512 9"
    using view_hit [OF un, of 0 50] hx bs [of 0] by (simp add: assms(2))
  show "tx_ready s 1" using inv d f assms(3) by (auto simp: tx_ready_def log_blocks_def lessThan_Suc)
qed

lemma log_demo_boot:
  fixes s0 :: log_st
  assumes "\<forall>bn. length (m bn) = 512"
    and "r = s0\<lparr>bcache := replicate 31 zero_buf, memdisk := m, cpu_proc := \<lambda>_. None, disksize := 100,
      log_start := 2, log_dev := 1, lh_block := replicate 30 0\<rparr>"
  shows "log_booted (binit r)" "log_start (binit r) = 2 \<and> disksize (binit r) = 100" "memdisk (binit r) = m"
  using binit_inv [of r] assms by (simp_all add: cur_ok_def log_booted_def) (simp_all add: binit_def)

text \<open>
  C1: the log makes a transaction atomic. If the machine stops after any number \<open>k\<close> of the disk writes that
  \<^verbatim>\<open>commit()\<close> makes, and boots again from the disk those writes left, \<^verbatim>\<open>recover_from_log()\<close> returns and every block outside the log then holds its content from before the
  commit, or every one holds its content after it.
\<close>

theorem log_crash_atomic:
  assumes "tx_ready s n" "commit s = Ret t" "get32 (memdisk s (log_start s)) 0 = 0"
    and "log_booted r" "same_log s r"
    and "memdisk r = apply_writes (memdisk s) (take k (drop (length (diskwrites s)) (diskwrites t)))"
  shows "\<exists>u. recover_from_log r = Ret u \<and> ((\<forall>bn. bn \<notin> log_blocks s n \<longrightarrow> memdisk u bn = memdisk s bn)
    \<or> (\<forall>bn. bn \<notin> log_blocks s n \<longrightarrow> memdisk u bn = view s bn))"
proof -
  obtain h1 h2 where h: "header h1 (of_nat n) (lh_block s)" "header h2 0 (lh_block s)"
      "diskwrites t = diskwrites s @ tx_writes s n h1 h2"
    using commit_spec [OF assms(1)] assms(2) by auto
  have md: "memdisk r = apply_writes (memdisk s) (take k (tx_writes s n h1 h2))" using assms(6) h(3) by simp
  consider "k \<le> n" | "n < k" "k \<le> 2 * n + 1" | "2 * n + 1 < k" by linarith
  then show ?thesis
  proof cases
    case 1
    then show ?thesis using recover_before [OF assms(1,4,5,3), of k] md by (auto simp: tx_writes_def)
  next
    case 2
    then have "memdisk r = apply_writes (memdisk s) (map (\<lambda>k. (log_block s k, view s (lh_block s ! k))) [0..<n] @ [(log_start s, h1)]
        @ take (k - n - 1) (map (\<lambda>k. (lh_block s ! k, view s (lh_block s ! k))) [0..<n]))"
      using md by (simp add: tx_writes_def take_Cons' Suc_diff_le)
    then show ?thesis using recover_during [OF assms(1,4,5) h(1)] by blast
  next
    case 3
    then have "take k (tx_writes s n h1 h2) = tx_writes s n h1 h2" by (simp add: tx_writes_def)
    then show ?thesis using recover_after [OF assms(1,4,5) h(2)] md by auto
  qed
qed

theorem log_crash_atomic_witness:
  "\<exists>(s :: log_st) (r :: log_st) t u. commit s = Ret t \<and> memdisk s 50 = replicate 512 0 \<and> view s 50 = replicate 512 9
     \<and> memdisk r = apply_writes (memdisk s) (take 2 (drop (length (diskwrites s)) (diskwrites t)))
     \<and> recover_from_log r = Ret u \<and> memdisk u 50 \<in> {memdisk s 50, view s 50}"
proof -
  obtain s0 :: log_st where True by blast
  obtain s :: log_st where s: "tx_ready s 1" "view s 50 = replicate 512 9" "log_start s = 2 \<and> disksize s = 100"
    "memdisk s = (\<lambda>_. replicate 512 0)" using log_demo [OF refl refl refl] by blast
  obtain t h1 h2 where t: "commit s = Ret t" "diskwrites t = diskwrites s @ tx_writes s 1 h1 h2" "length h1 = 512"
    using commit_spec [OF s(1)] by (auto simp: header_def)
  let ?m = "apply_writes (memdisk s) (take 2 (drop (length (diskwrites s)) (diskwrites t)))"
  have v: "length (view s bn) = 512" for bn using length_view tx_readyD(1) [OF s(1)] by blast
  have "\<forall>bn. length (?m bn) = 512" using s(4) t(2,3) v by (simp add: tx_writes_def numeral_2_eq_2)
  then obtain r :: log_st where r: "log_booted r" "log_start r = 2 \<and> disksize r = 100" "memdisk r = ?m"
    using log_demo_boot [OF _ refl] by blast
  have z: "get32 (memdisk s (log_start s)) 0 = 0" by (simp add: s(4) get32_def)
  have sl: "same_log s r" using r(2) s(3) by (simp add: same_log_def)
  have nl: "50 \<notin> log_blocks s 1" using s(3) by (simp add: log_blocks_def lessThan_Suc)
  obtain u where "recover_from_log r = Ret u" "memdisk u 50 = memdisk s 50 \<or> memdisk u 50 = view s 50"
    using log_crash_atomic [OF s(1) t(1) z r(1) sl r(3)] nl by auto
  then show ?thesis using s(2,4) t(1) r(3) by (intro exI [of _ s] exI [of _ r] exI [of _ t] exI [of _ u]) simp
qed

text \<open>
  C34: \<^verbatim>\<open>commit()\<close> of a transaction of up to 29 blocks returns with every block of the cache on the disk, an empty header and a clean cache. It
  first writes the blocks to the log, then the header that names them, then the blocks to their places and last the empty header.
\<close>

theorem commit_installs:
  assumes "tx_ready s n"
  shows "\<exists>t h1 h2. commit s = Ret t \<and> diskwrites t = diskwrites s @ tx_writes s n h1 h2 \<and> header h1 (of_nat n) (lh_block s)
    \<and> get32 (memdisk t (log_start s)) 0 = 0 \<and> lh_n t = 0 \<and> dirty_blocks t = {} \<and> binv t {}
    \<and> (\<forall>bn. bn \<notin> log_blocks s n \<longrightarrow> memdisk t bn = view s bn)"
proof -
  obtain t h1 h2 where t: "commit s = Ret t" "header h1 (of_nat n) (lh_block s)" "header h2 0 (lh_block s)"
      "diskwrites t = diskwrites s @ tx_writes s n h1 h2" "memdisk t = apply_writes (memdisk s) (tx_writes s n h1 h2)"
      "dirty_blocks t = {}" "binv t {}" "lh_n t = 0"
    using commit_spec [OF assms] by blast
  moreover have "get32 (memdisk t (log_start s)) 0 = 0" using t(3,5) by (simp add: tx_writes_def header_def)
  moreover have "\<forall>bn. bn \<notin> log_blocks s n \<longrightarrow> memdisk t bn = view s bn" using tx_disk [OF assms] t(5) by simp
  ultimately show ?thesis by blast
qed

theorem commit_installs_witness:
  "\<exists>(s :: log_st) t. memdisk s 50 = replicate 512 0 \<and> commit s = Ret t \<and> memdisk t 50 = replicate 512 9 \<and> dirty_blocks t = {}"
proof -
  obtain s :: log_st where s: "tx_ready s 1" "view s 50 = replicate 512 9" "log_start s = 2 \<and> disksize s = 100"
    "memdisk s = (\<lambda>_. replicate 512 0)" using log_demo [OF refl refl refl] by blast
  have "50 \<notin> log_blocks s 1" using s(3) by (simp add: log_blocks_def lessThan_Suc)
  then obtain t where "commit s = Ret t" "dirty_blocks t = {}" "memdisk t 50 = view s 50" using commit_installs [OF s(1)] by blast
  then show ?thesis using s(2,4) by (intro exI [of _ s] exI [of _ t]) simp
qed

end
