(* ===== verification/Ulib.thy ===== *)
theory Ulib
  imports Mem
begin

text \<open>
  The user library: ulib.c and printf.c. A C string that is only read is the list of its bytes before
  the terminating null; \<open>ch\<close> reads the byte a pointer into it points to. Routines that write work on
  byte memory. What system calls return is an argument, what they write is part of the result.
\<close>

definition ch :: "u8 list \<Rightarrow> u8" where
  "ch s = (case s of [] \<Rightarrow> 0 | c # _ \<Rightarrow> c)"

lemma ch_simps [simp]: "ch [] = 0" "ch (c # s) = c"
  by (simp_all add: ch_def)

section \<open>Strings\<close>

fun ustrcpy :: "memory \<Rightarrow> u32 \<Rightarrow> u8 list \<Rightarrow> memory" where
  "ustrcpy m s [] = m(s := 0)"
| "ustrcpy m s (c # t) = ustrcpy (m(s := c)) (s + 1) t"

fun ustrcmp :: "u8 list \<Rightarrow> u8 list \<Rightarrow> u32" where
  "ustrcmp [] q = - ucast (ch q)"
| "ustrcmp (c # p) q = (if c = ch q then ustrcmp p (tl q) else ucast c - ucast (ch q))"

definition ustrlen :: "u8 list \<Rightarrow> u32" where
  "ustrlen s = of_nat (length s)"

definition umemset :: "memory \<Rightarrow> u32 \<Rightarrow> u32 \<Rightarrow> u32 \<Rightarrow> memory" where
  "umemset m dst c n = stosb m dst (ucast c) (unat n)"

text \<open>The index at which \<^verbatim>\<open>strchr\<close> finds a character.\<close>

fun strchr_at :: "u8 list \<Rightarrow> u8 \<Rightarrow> nat option" where
  "strchr_at [] c = None"
| "strchr_at (x # xs) c = (if x = 0 then None else if x = c then Some 0 else map_option Suc (strchr_at xs c))"

fun atoi_loop :: "u32 \<Rightarrow> u8 list \<Rightarrow> u32" where
  "atoi_loop n [] = n"
| "atoi_loop n (c # s) = (if 0x30 \<le> c \<and> c \<le> 0x39 then atoi_loop (n * 10 + ucast c - 0x30) s else n)"

definition atoi :: "u8 list \<Rightarrow> u32" where
  "atoi s = atoi_loop 0 s"

text \<open>\<^verbatim>\<open>memmove\<close> of the user library always copies upwards.\<close>

fun umemmove_loop :: "memory \<Rightarrow> u32 \<Rightarrow> u32 \<Rightarrow> nat \<Rightarrow> memory" where
  "umemmove_loop m dst src 0 = m"
| "umemmove_loop m dst src (Suc n) = umemmove_loop (m(dst := m src)) (dst + 1) (src + 1) n"

definition umemmove :: "memory \<Rightarrow> u32 \<Rightarrow> u32 \<Rightarrow> u32 \<Rightarrow> memory" where
  "umemmove m vdst vsrc n = umemmove_loop m vdst vsrc (nat (sint n))"

text \<open>
  \<^verbatim>\<open>gets\<close>: the results of the reads of one byte each are an argument, none where the read returned less
  than one byte. The result is the line in the buffer.
\<close>

fun gets_loop :: "u8 list \<Rightarrow> u32 \<Rightarrow> u8 option list \<Rightarrow> u8 list" where
  "gets_loop line lim [] = line"
| "gets_loop line lim (r # rs) =
     (if of_nat (length line) + 1 <s lim
      then (case r of
          None \<Rightarrow> line
        | Some c \<Rightarrow> if c = 0x0A \<or> c = 0x0D then line @ [c] else gets_loop (line @ [c]) lim rs)
      else line)"

definition gets :: "memory \<Rightarrow> u32 \<Rightarrow> u32 \<Rightarrow> u8 option list \<Rightarrow> memory" where
  "gets m buf lim rs = ustrcpy m buf (gets_loop [] lim rs)"

text \<open>\<^verbatim>\<open>stat\<close>: \<open>fd\<close> is what \<^verbatim>\<open>open\<close> returned and \<open>r\<close> what \<^verbatim>\<open>fstat\<close> returned; the second component is the file that is closed.\<close>

definition ustat :: "u32 \<Rightarrow> u32 \<Rightarrow> u32 \<times> u32 option" where
  "ustat fd r = (if fd <s 0 then (- 1, None) else (r, Some fd))"

section \<open>Formatted output\<close>

definition udigit :: "u32 \<Rightarrow> u8" where
  "udigit d = (if d < 10 then 0x30 + ucast d else 0x41 + ucast (d - 10))"

function udigits :: "u32 \<Rightarrow> u32 \<Rightarrow> u8 list" where
  "udigits base x =
     (if base < 2 then [] else udigit (x mod base) # (if x div base \<noteq> 0 then udigits base (x div base) else []))"
  by pat_completeness auto
termination
proof (relation "measure (\<lambda>(base, x). unat x)", goal_cases)
  case (2 base x)
  then have b: "2 \<le> unat base" by (simp add: word_less_nat_alt)
  have "0 < unat (x div base)" using 2 by (simp add: unat_gt_0)
  then have x: "0 < unat x" by (metis div_0 not_gr_zero unat_div)
  have "unat x div unat base < unat x" using b x by (intro div_less_dividend) auto
  then show ?case by (simp add: unat_div)
qed simp

declare udigits.simps [simp del]

text \<open>
  \<^verbatim>\<open>printint\<close> fills \<^verbatim>\<open>buf[16]\<close> from the low digit on and prints it backwards. It is called with base 10
  and 16 only; a base below 2 would not end.
\<close>

definition uprintint :: "u32 \<Rightarrow> u32 \<Rightarrow> bool \<Rightarrow> u8 list" where
  "uprintint xx base sg =
     (let neg = (sg \<and> xx <s 0); x = (if neg then - xx else xx); buf = udigits base x
      in rev (if neg then buf @ [0x2D] else buf))"

text \<open>
  \<open>str_of\<close> gives the string at an address of the program. Each argument on the stack is a word; reading
  one that was not passed is a \<open>Fault\<close>. The flag is \<^verbatim>\<open>state\<close>.
\<close>

fun uprintf_loop :: "(u32 \<Rightarrow> u8 list) \<Rightarrow> bool \<Rightarrow> u8 list \<Rightarrow> u32 list \<Rightarrow> u8 list res" where
  "uprintf_loop str_of pc [] ap = Ret []"
| "uprintf_loop str_of False (c # fmt) ap =
     (if c = 0x25 then uprintf_loop str_of True fmt ap
      else bind_res (uprintf_loop str_of False fmt ap) (\<lambda>out. Ret (c # out)))"
| "uprintf_loop str_of True (c # fmt) ap =
     (if c = 0x64 then
        (case ap of [] \<Rightarrow> Fault | x # ap \<Rightarrow>
           bind_res (uprintf_loop str_of False fmt ap) (\<lambda>out. Ret (uprintint x 10 True @ out)))
      else if c = 0x78 \<or> c = 0x70 then
        (case ap of [] \<Rightarrow> Fault | x # ap \<Rightarrow>
           bind_res (uprintf_loop str_of False fmt ap) (\<lambda>out. Ret (uprintint x 16 False @ out)))
      else if c = 0x73 then
        (case ap of [] \<Rightarrow> Fault | x # ap \<Rightarrow>
           bind_res (uprintf_loop str_of False fmt ap) (\<lambda>out.
             Ret ((if x = 0 then [0x28, 0x6E, 0x75, 0x6C, 0x6C, 0x29] else str_of x) @ out)))
      else if c = 0x63 then
        (case ap of [] \<Rightarrow> Fault | x # ap \<Rightarrow>
           bind_res (uprintf_loop str_of False fmt ap) (\<lambda>out. Ret (ucast x # out)))
      else if c = 0x25 then bind_res (uprintf_loop str_of False fmt ap) (\<lambda>out. Ret (c # out))
      else bind_res (uprintf_loop str_of False fmt ap) (\<lambda>out. Ret (0x25 # c # out)))"

definition uprintf :: "(u32 \<Rightarrow> u8 list) \<Rightarrow> u8 list \<Rightarrow> u32 list \<Rightarrow> u8 list res" where
  "uprintf str_of fmt ap = uprintf_loop str_of False fmt ap"

section \<open>Searching\<close>

lemma strchr_at_less: "strchr_at s c = Some i \<Longrightarrow> i < length s"
  by (induction s arbitrary: i) (auto split: if_splits)

lemma strchr_at_Some:
  "strchr_at p c = Some q \<longleftrightarrow> q < length p \<and> p ! q = c \<and> c \<noteq> 0 \<and> 0 \<notin> set (take q p) \<and> c \<notin> set (take q p)"
proof (induction p arbitrary: q)
  case (Cons x xs)
  then show ?case by (cases q) auto
qed simp

lemma strchr_at_None: "0 \<notin> set p \<Longrightarrow> strchr_at p c = None \<longleftrightarrow> c \<notin> set p"
  by (induction p) auto

section \<open>Numbers\<close>

lemma udigits_length:
  assumes "2 \<le> base" "unat x < unat base ^ Suc n"
  shows "length (udigits base x) \<le> Suc n"
  using assms(2)
proof (induction n arbitrary: x)
  case 0
  then have "x div base = 0" by (simp add: word_unat_eq_iff unat_div)
  then show ?case using assms(1) by (subst udigits.simps) simp
next
  case (Suc n)
  have "0 < unat base" using assms(1) by (simp add: word_le_nat_alt)
  then have "unat (x div base) < unat base ^ Suc n"
    using Suc.prems by (simp add: unat_div less_mult_imp_div_less mult.commute)
  from Suc.IH [OF this] show ?case using assms(1) by (subst udigits.simps) simp
qed

lemma udigit10: "(d :: u32) < 10 \<Longrightarrow> 0x30 \<le> udigit d \<and> udigit d \<le> 0x39 \<and> ucast (udigit d) = d + 0x30"
proof -
  assume "d < 10"
  then have "d = 0 \<or> d = 1 \<or> d = 2 \<or> d = 3 \<or> d = 4 \<or> d = 5 \<or> d = 6 \<or> d = 7 \<or> d = 8 \<or> d = 9"
    by (auto simp: word_less_nat_alt word_unat_eq_iff)
  then show ?thesis by (elim disjE) (simp_all add: udigit_def)
qed

lemma mod10: "(x :: u32) mod 10 < 10"
  by (simp add: word_less_nat_alt unat_mod)

lemma div_mod10: "x div 10 * 10 + x mod 10 = (x :: u32)"
  by (rule div_mult_mod_eq)

lemma atoi_digits: "atoi_loop 0 (rev (udigits 10 x) @ s) = atoi_loop x s"
proof (induction "10 :: u32" x arbitrary: s rule: udigits.induct)
  case (1 x)
  note d = udigit10 [OF mod10 [of x]]
  let ?s = "udigit (x mod 10) # s"
  have "atoi_loop 0 (rev (udigits 10 x) @ s)
      = atoi_loop 0 (rev (if x div 10 \<noteq> 0 then udigits 10 (x div 10) else []) @ ?s)"
    by (subst udigits.simps) simp
  also have "\<dots> = atoi_loop (x div 10) ?s"
    using 1 [of ?s] by (cases "x div 10 = 0") simp_all
  also have "\<dots> = atoi_loop (x div 10 * 10 + x mod 10) s" using d by (simp add: add.assoc)
  finally show ?case by (simp only: div_mod10)
qed

section \<open>Properties\<close>

text \<open>
  \<^verbatim>\<open>printint()\<close> of printf.c never writes past its buffer of sixteen bytes: a number takes at most ten decimal digits and a sign, or
  eight hexadecimal digits.
\<close>

lemma printint_fits_buffer:
  "length (uprintint x 10 sg) \<le> 11 \<and> length (uprintint x 16 False) \<le> 8"
proof
  have "length (udigits 10 y) \<le> 10" for y
    using udigits_length [of 10 y 9] unat_lt32 [of y] by simp
  from this [of x] this [of "- x"] show "length (uprintint x 10 sg) \<le> 11" by (simp add: uprintint_def Let_def)
  show "length (uprintint x 16 False) \<le> 8"
    using udigits_length [of 16 x 7] unat_lt32 [of x] by (simp add: uprintint_def)
qed

text \<open>
  \<^verbatim>\<open>atoi()\<close> reads back what \<^verbatim>\<open>printf("%d")\<close> prints for a number that is not negative.
\<close>

lemma atoi_printint:
  assumes "0 \<le>s x"
  shows "atoi (uprintint x 10 True) = x"
  using assms atoi_digits [of x "[]"] by (auto simp: uprintint_def atoi_def word_sless_alt word_sle_eq)

lemma atoi_printint_witness: "(0 :: u32) \<le>s 1234 \<and> atoi (uprintint 1234 10 True) = 1234"
  using atoi_printint [of 1234] by (simp add: word_sle_eq)

end
