(* ===== verification/Grep.thy ===== *)
theory Grep
  imports Ulib
begin

text \<open>
  The regular expression matcher and the line filter of grep.c. A C string is the list of its bytes
  before the terminating null. The matcher is shown
  equivalent to the language of the pattern.
\<close>

section \<open>The matcher\<close>

function matchhere :: "u8 list \<Rightarrow> u8 list \<Rightarrow> bool" and matchstar :: "u8 \<Rightarrow> u8 list \<Rightarrow> u8 list \<Rightarrow> bool" where
  "matchhere re str =
     (case re of
        [] \<Rightarrow> True
      | c # re' \<Rightarrow>
          if ch re' = 42 then matchstar c (tl re') str
          else if c = 36 \<and> re' = [] then str = []
          else (case str of [] \<Rightarrow> False | t # ts \<Rightarrow> (c = 46 \<or> c = t) \<and> matchhere re' ts))"
| "matchstar c re str =
     (matchhere re str
      \<or> (case str of [] \<Rightarrow> False | t # ts \<Rightarrow> (t = c \<or> c = 46) \<and> matchstar c re ts))"
  by pat_completeness auto
termination
proof (relation "measure (case_sum (\<lambda>(re, str). 2 * (length re + length str)) (\<lambda>(c, re, str). Suc (2 * (length re + length str))))",
    goal_cases)
  case (2 re str c re')
  then show ?case by (cases re') auto
qed auto

declare matchhere.simps [simp del] matchstar.simps [simp del]

fun match_from :: "u8 list \<Rightarrow> u8 list \<Rightarrow> bool" where
  "match_from re str = (matchhere re str \<or> (case str of [] \<Rightarrow> False | _ # ts \<Rightarrow> match_from re ts))"

declare match_from.simps [simp del]

definition match :: "u8 list \<Rightarrow> u8 list \<Rightarrow> bool" where
  "match re str = (if ch re = 94 then matchhere (tl re) str else match_from re str)"

section \<open>The filter\<close>

text \<open>
  \<open>grep\<close> keeps up to 1023 bytes in \<^verbatim>\<open>buf\<close>. The successive results of \<^verbatim>\<open>read\<close> are an argument, the empty one standing
  for end of file or an error; more bytes than were asked for overflow the buffer.
\<close>

function grep_lines :: "u8 list \<Rightarrow> u8 list \<Rightarrow> u8 list list \<times> u8 list" where
  "grep_lines pattern p =
     (case strchr_at p 10 of
        None \<Rightarrow> ([], p)
      | Some q \<Rightarrow>
          let (out, rest) = grep_lines pattern (drop (q + 1) p)
          in ((if match pattern (take q p) then [take (q + 1) p] else []) @ out, rest))"
  by pat_completeness auto
termination
  by (relation "measure (\<lambda>(pattern, p). length p)") (auto dest: strchr_at_less)

declare grep_lines.simps [simp del]

fun grep :: "u8 list \<Rightarrow> u8 list \<Rightarrow> u8 list list \<Rightarrow> u8 list list res" where
  "grep pattern buf [] = Ret []"
| "grep pattern buf (r # rs) =
     (if r = [] then Ret []
      else if 1023 < length buf + length r then Fault
      else let (out, p) = grep_lines pattern (buf @ r);
               buf' = (if length p = length (buf @ r) then [] else p)
           in bind_res (grep pattern buf' rs) (\<lambda>out'. Ret (out @ out')))"

section \<open>The language of a pattern\<close>

datatype item = One "u8 set" | Many "u8 set"

definition atom :: "u8 \<Rightarrow> u8 set" where
  "atom c = (if c = 46 then UNIV else {c})"

fun items :: "u8 list \<Rightarrow> item list" where
  "items [] = []"
| "items [c] = (if c = 36 then [] else [One (atom c)])"
| "items (c # d # re) = (if d = 42 then Many (atom c) # items re else One (atom c) # items (d # re))"

fun at_end :: "u8 list \<Rightarrow> bool" where
  "at_end [] = False"
| "at_end [c] = (c = 36)"
| "at_end (c # d # re) = (if d = 42 then at_end re else at_end (d # re))"

fun lang :: "item list \<Rightarrow> u8 list set" where
  "lang [] = {[]}"
| "lang (One a # es) = {t # w |t w. t \<in> a \<and> w \<in> lang es}"
| "lang (Many a # es) = {u @ w |u w. set u \<subseteq> a \<and> w \<in> lang es}"

definition starts :: "item list \<Rightarrow> bool \<Rightarrow> u8 list \<Rightarrow> bool" where
  "starts es e str \<longleftrightarrow> (\<exists>u v. str = u @ v \<and> u \<in> lang es \<and> (e \<longrightarrow> v = []))"

lemma starts_Nil: "starts [] e str \<longleftrightarrow> e \<longrightarrow> str = []"
  by (auto simp: starts_def)

lemma starts_One: "starts (One a # es) e str \<longleftrightarrow> (\<exists>t ts. str = t # ts \<and> t \<in> a \<and> starts es e ts)"
proof
  assume "starts (One a # es) e str"
  then obtain x v where x: "str = x @ v" "x \<in> lang (One a # es)" "e \<longrightarrow> v = []" unfolding starts_def by blast
  then obtain t w where "x = t # w" "t \<in> a" "w \<in> lang es" by auto
  then show "\<exists>t ts. str = t # ts \<and> t \<in> a \<and> starts es e ts"
    using x unfolding starts_def by (intro exI [of _ t] exI [of _ "w @ v"]) auto
next
  assume "\<exists>t ts. str = t # ts \<and> t \<in> a \<and> starts es e ts"
  then obtain t w v where "str = (t # w) @ v" "t \<in> a" "w \<in> lang es" "e \<longrightarrow> v = []" unfolding starts_def by auto
  then show "starts (One a # es) e str" unfolding starts_def by (intro exI [of _ "t # w"] exI [of _ v]) simp
qed

lemma starts_Many_split: "starts (Many a # es) e str \<longleftrightarrow> (\<exists>u v. str = u @ v \<and> set u \<subseteq> a \<and> starts es e v)"
proof
  assume "starts (Many a # es) e str"
  then obtain x v where x: "str = x @ v" "x \<in> lang (Many a # es)" "e \<longrightarrow> v = []" unfolding starts_def by blast
  then obtain u w where "x = u @ w" "set u \<subseteq> a" "w \<in> lang es" by auto
  moreover from this have "starts es e (w @ v)" using x(3) unfolding starts_def by blast
  ultimately show "\<exists>u v. str = u @ v \<and> set u \<subseteq> a \<and> starts es e v"
    using x(1) by (intro exI [of _ u] exI [of _ "w @ v"]) simp
next
  assume "\<exists>u v. str = u @ v \<and> set u \<subseteq> a \<and> starts es e v"
  then obtain u x where u: "str = u @ x" "set u \<subseteq> a" "starts es e x" by blast
  then obtain w v where "x = w @ v" "w \<in> lang es" "e \<longrightarrow> v = []" unfolding starts_def by blast
  moreover from this have "u @ w \<in> lang (Many a # es)" using u(2) by auto
  ultimately show "starts (Many a # es) e str" using u(1) unfolding starts_def by (intro exI [of _ "u @ w"] exI [of _ v]) simp
qed

lemma starts_Many:
  "starts (Many a # es) e str \<longleftrightarrow> starts es e str \<or> (\<exists>t ts. str = t # ts \<and> t \<in> a \<and> starts (Many a # es) e ts)"
proof
  assume "starts (Many a # es) e str"
  then obtain u v where u: "str = u @ v" "set u \<subseteq> a" "starts es e v" by (auto simp: starts_Many_split)
  then show "starts es e str \<or> (\<exists>t ts. str = t # ts \<and> t \<in> a \<and> starts (Many a # es) e ts)"
    by (cases u) (auto simp: starts_Many_split)
next
  assume "starts es e str \<or> (\<exists>t ts. str = t # ts \<and> t \<in> a \<and> starts (Many a # es) e ts)"
  then show "starts (Many a # es) e str"
  proof
    assume "starts es e str"
    then show ?thesis unfolding starts_Many_split by (intro exI [of _ "[]"] exI [of _ str]) simp
  next
    assume "\<exists>t ts. str = t # ts \<and> t \<in> a \<and> starts (Many a # es) e ts"
    then obtain t ts u v where "str = t # ts" "t \<in> a" "ts = u @ v" "set u \<subseteq> a" "starts es e v"
      unfolding starts_Many_split by blast
    then have "str = (t # u) @ v" "set (t # u) \<subseteq> a" "starts es e v" by simp_all
    then show ?thesis unfolding starts_Many_split by blast
  qed
qed

lemma match_correct:
  "matchhere re str \<longleftrightarrow> starts (items re) (at_end re) str"
  "matchstar c re str \<longleftrightarrow> starts (Many (atom c) # items re) (at_end re) str"
proof (induction re str and c re str rule: matchhere_matchstar.induct)
  case (1 re str)
  show ?case
  proof (cases re rule: items.cases)
    case 1
    then show ?thesis by (simp add: matchhere.simps starts_Nil)
  next
    case (2 c)
    then show ?thesis
      using "1.IH"(2) [of c "[]"]
      by (subst matchhere.simps) (auto simp: starts_Nil starts_One atom_def split: list.split)
  next
    case (3 c d re')
    then show ?thesis
      using "1.IH"(1) [of c "d # re'"] "1.IH"(2) [of c "d # re'"]
      by (subst matchhere.simps) (auto simp: starts_One atom_def split: list.split)
  qed
next
  case (2 c re str)
  then show ?case
    by (subst matchstar.simps, subst starts_Many) (auto simp: atom_def split: list.split)
qed

lemma match_from_suffix: "match_from re str \<longleftrightarrow> (\<exists>p q. str = p @ q \<and> matchhere re q)"
proof (induction str)
  case Nil
  then show ?case by (simp add: match_from.simps)
next
  case (Cons t ts)
  have "match_from re (t # ts) \<longleftrightarrow> matchhere re (t # ts) \<or> match_from re ts" by (subst match_from.simps) simp
  also have "\<dots> \<longleftrightarrow> (\<exists>p q. t # ts = p @ q \<and> matchhere re q)"
  proof
    assume "matchhere re (t # ts) \<or> match_from re ts"
    then show "\<exists>p q. t # ts = p @ q \<and> matchhere re q"
      using Cons.IH by (metis append_Cons append_Nil)
  next
    assume "\<exists>p q. t # ts = p @ q \<and> matchhere re q"
    then obtain p q where "t # ts = p @ q" "matchhere re q" by blast
    then show "matchhere re (t # ts) \<or> match_from re ts" using Cons.IH by (cases p) auto
  qed
  finally show ?case .
qed

section \<open>Lines\<close>

text \<open>The complete lines of an input, without their newlines, and what follows the last newline.\<close>

fun split_lines :: "u8 list \<Rightarrow> u8 list list \<times> u8 list" where
  "split_lines [] = ([], [])"
| "split_lines (x # xs) =
     (let (ls, r) = split_lines xs in
      if x = 10 then ([] # ls, r) else (case ls of [] \<Rightarrow> ([], x # r) | l # ls \<Rightarrow> ((x # l) # ls, r)))"

lemma split_lines_line: "10 \<notin> set a \<Longrightarrow> split_lines (a @ 10 # b) = (a # fst (split_lines b), snd (split_lines b))"
  by (induction a) (auto split: prod.split)

lemma split_lines_rest: "10 \<notin> set a \<Longrightarrow> split_lines a = ([], a)"
  by (induction a) auto

lemma strchr_at_split:
  assumes "strchr_at p 10 = Some q"
  shows "p = take q p @ 10 # drop (q + 1) p" "10 \<notin> set (take q p)" "take (q + 1) p = take q p @ [10]"
  using assms id_take_nth_drop [of q p] by (simp_all add: strchr_at_Some take_Suc_conv_app_nth)

definition matching :: "u8 list \<Rightarrow> u8 list list \<Rightarrow> u8 list list" where
  "matching pattern ls = map (\<lambda>l. l @ [10]) (filter (match pattern) ls)"

lemma grep_lines_split:
  "0 \<notin> set p \<Longrightarrow> grep_lines pattern p = (matching pattern (fst (split_lines p)), snd (split_lines p))"
proof (induction pattern p rule: grep_lines.induct)
  case (1 pattern p)
  show ?case
  proof (cases "strchr_at p 10")
    case None
    then show ?thesis
      using 1(2) strchr_at_None [of p 10] by (subst grep_lines.simps) (simp add: split_lines_rest matching_def)
  next
    case (Some q)
    note q = strchr_at_split [OF Some]
    have "0 \<notin> set (drop (q + 1) p)" using 1(2) by (meson in_set_dropD)
    note ih = 1(1) [OF Some this]
    have "split_lines p = (take q p # fst (split_lines (drop (q + 1) p)), snd (split_lines (drop (q + 1) p)))"
      using split_lines_line [OF q(2), of "drop (q + 1) p"] q(1) by simp
    then show ?thesis using Some ih q(3) by (subst grep_lines.simps) (simp add: matching_def)
  qed
qed

lemma split_lines_append:
  "split_lines (a @ b) = (fst (split_lines a) @ fst (split_lines (snd (split_lines a) @ b)), snd (split_lines (snd (split_lines a) @ b)))"
proof (induction a)
  case (Cons x xs)
  obtain ls r where s: "split_lines xs = (ls, r)" by fastforce
  obtain ms t where u: "split_lines (r @ b) = (ms, t)" by fastforce
  show ?case
  proof (cases ls)
    case Nil
    then show ?thesis using Cons s u by (simp split: prod.split)
  next
    case c: (Cons l ks)
    then show ?thesis using Cons s u by (simp split: prod.split)
  qed
qed simp

lemma split_lines_set: "set (snd (split_lines a)) \<subseteq> set a"
  by (induction a) (auto split: prod.split list.split)

lemma split_lines_short: "10 \<in> set a \<Longrightarrow> length (snd (split_lines a)) < length a"
proof (induction a)
  case (Cons x xs)
  obtain ls r where s: "split_lines xs = (ls, r)" by fastforce
  have "length r \<le> length xs"
    using Cons.IH split_lines_rest [of xs] s by (cases "10 \<in> set xs") auto
  moreover have "ls \<noteq> []" if n: "10 \<in> set xs"
  proof -
    obtain u v where "xs = u @ 10 # v" "10 \<notin> set u" using split_list_first [OF n] by blast
    then show ?thesis using split_lines_line s by (metis fst_conv list.distinct(1))
  qed
  ultimately show ?case using Cons s by (auto split: list.split)
qed simp

text \<open>\<open>read\<close> never returns more than the room left in the buffer after the unfinished line it keeps.\<close>

fun reads_fit :: "u8 list \<Rightarrow> u8 list list \<Rightarrow> bool" where
  "reads_fit buf [] = True"
| "reads_fit buf (r # rs) = (length buf + length r \<le> 1023 \<and> reads_fit (snd (split_lines (buf @ r))) rs)"

lemma split_lines_no_newline: "10 \<notin> set (snd (split_lines a))"
  by (induction a) (auto split: prod.split list.split)

lemma grep_correct:
  assumes "reads_fit buf rs" "\<forall>r \<in> set rs. 10 \<in> set r \<and> 0 \<notin> set r" "0 \<notin> set buf" "10 \<notin> set buf"
  shows "grep pattern buf rs = Ret (matching pattern (fst (split_lines (buf @ concat rs))))"
  using assms
proof (induction rs arbitrary: buf)
  case Nil
  then show ?case by (simp add: split_lines_rest matching_def)
next
  case (Cons r rs)
  let ?s = "split_lines (buf @ r)"
  have z: "0 \<notin> set (buf @ r)" and nl: "10 \<in> set (buf @ r)" and ne: "r \<noteq> []" using Cons.prems by auto
  have z': "0 \<notin> set (snd ?s)" using z split_lines_set [of "buf @ r"] by auto
  have "grep pattern (snd ?s) rs = Ret (matching pattern (fst (split_lines (snd ?s @ concat rs))))"
    using Cons.IH [of "snd ?s"] Cons.prems z' split_lines_no_newline [of "buf @ r"] by simp
  moreover have "length (snd ?s) \<noteq> length (buf @ r)" using split_lines_short [OF nl] by simp
  ultimately have "grep pattern buf (r # rs) = Ret (matching pattern (fst ?s) @ matching pattern (fst (split_lines (snd ?s @ concat rs))))"
    using Cons.prems(1) ne grep_lines_split [OF z, of pattern] by simp
  also have "\<dots> = Ret (matching pattern (fst (split_lines ((buf @ r) @ concat rs))))"
    by (subst split_lines_append [of "buf @ r"]) (simp add: matching_def)
  finally show ?case by simp
qed

section \<open>Properties\<close>

text \<open>
  C12: the matcher of grep implements the language of the pattern: \<^verbatim>\<open>match(re, text)\<close> holds exactly if some substring of
  the text, at its start if the pattern begins with \<^verbatim>\<open>^\<close> and at its end if it ends with \<^verbatim>\<open>$\<close>, belongs to the
  concatenation of the pattern's atoms, each atom followed by \<^verbatim>\<open>*\<close> repeated any number of times.
\<close>

theorem grep_match_equivalence:
  "match re str \<longleftrightarrow>
     (if ch re = 94 then starts (items (tl re)) (at_end (tl re)) str
      else \<exists>p q. str = p @ q \<and> starts (items re) (at_end re) q)"
  by (simp add: match_def match_from_suffix match_correct(1))

text \<open>
  C38: grep writes exactly the matching lines of its input, in order, each with its newline, if every
  \<^verbatim>\<open>read()\<close> returns at least one newline. How the reads cut the input into pieces does not matter then.
\<close>

theorem grep_prints_matching_lines:
  assumes "reads_fit [] rs" "\<forall>r \<in> set rs. 10 \<in> set r \<and> 0 \<notin> set r"
  shows "grep pattern [] rs = Ret (map (\<lambda>l. l @ [10]) (filter (match pattern) (fst (split_lines (concat rs)))))"
  using grep_correct [OF assms] by (simp add: matching_def)

theorem grep_prints_matching_lines_witness:
  "grep [97, 98] [] [[97, 98, 10, 97], [98, 98, 10], [98, 97, 10]] = Ret [[97, 98, 10], [97, 98, 98, 10]]"
proof -
  have m: "match [97, 98] [97, 98]" "match [97, 98] [97, 98, 98]" "\<not> match [97, 98] [98, 97]"
    by (simp_all add: match_def match_from.simps matchhere.simps)
  show ?thesis
    using grep_prints_matching_lines [of "[[97, 98, 10, 97], [98, 98, 10], [98, 97, 10]]" "[97, 98]"] m by simp
qed

text \<open>
  A read that returns no newline is discarded together with the unfinished line, although the buffer has
  room left: a line that arrives in two pieces is lost.
\<close>

lemma grep_loses_pieces:
  assumes "r \<noteq> []" "length r \<le> 1023" "10 \<notin> set r" "0 \<notin> set r"
  shows "grep pattern [] (r # rs) = grep pattern [] rs"
  using assms grep_lines_split [of r pattern] split_lines_rest [of r] by (cases "grep pattern [] rs") (simp_all add: matching_def)

end
