(* ===== verification/Sh.thy ===== *)
theory Sh
  imports Ulib
begin

text \<open>
  The command parser of the shell (sh.c). A pointer into the command buffer is the list of bytes from
  there to the end of the string; the byte at the end itself is the terminating null. A token is the
  pair of the pointers \<^verbatim>\<open>q\<close> and \<^verbatim>\<open>eq\<close>. A message of the shell's \<^verbatim>\<open>panic\<close> is a \<open>Panic\<close>.
\<close>

type_synonym ptr = "u8 list"
type_synonym token = "ptr \<times> ptr"

datatype 't cmd =
    EXEC "'t list"
  | REDIR "'t cmd" 't u32 u32
  | PIPE "'t cmd" "'t cmd"
  | LIST "'t cmd" "'t cmd"
  | BACK "'t cmd"

abbreviation (input) MAXARGS :: nat where "MAXARGS \<equiv> 10"

definition whitespace :: "u8 list" where
  "whitespace = [0x20, 0x09, 0x0D, 0x0A, 0x0B]"

definition symbols :: "u8 list" where
  "symbols = [0x3C, 0x7C, 0x3E, 0x26, 0x3B, 0x28, 0x29]"

section \<open>Tokens\<close>

definition among :: "u8 list \<Rightarrow> u8 \<Rightarrow> bool" where
  "among cs c \<longleftrightarrow> strchr_at cs c \<noteq> None"

definition skip_white :: "ptr \<Rightarrow> ptr" where
  "skip_white s = dropWhile (among whitespace) s"

definition skip_word :: "ptr \<Rightarrow> ptr" where
  "skip_word s = dropWhile (\<lambda>c. \<not> among whitespace c \<and> \<not> among symbols c) s"

text \<open>The result: the kind of the token, its start and end, and the new position.\<close>

definition gettoken :: "ptr \<Rightarrow> u8 \<times> ptr \<times> ptr \<times> ptr" where
  "gettoken s =
     (let q = skip_white s;
          c = ch q;
          (r, eq) =
            (if c = 0 then (0, q)
             else if c \<in> {0x7C, 0x28, 0x29, 0x3B, 0x26, 0x3C} then (c, tl q)
             else if c = 0x3E then (if ch (tl q) = 0x3E then (0x2B, tl (tl q)) else (0x3E, tl q))
             else (0x61, skip_word q))
      in (r, q, eq, skip_white eq))"

definition peek :: "ptr \<Rightarrow> u8 list \<Rightarrow> bool \<times> ptr" where
  "peek s toks = (let s = skip_white s in (ch s \<noteq> 0 \<and> among toks (ch s), s))"

lemma length_skip: "length (skip_white s) \<le> length s" "length (skip_word s) \<le> length s"
  by (simp_all add: skip_white_def skip_word_def length_dropWhile_le)

lemma skip_word_less:
  assumes "s \<noteq> []" "\<not> among whitespace (ch s)" "\<not> among symbols (ch s)"
  shows "length (skip_word s) < length s"
  using assms length_dropWhile_le [of _ "tl s"] by (cases s) (auto simp: skip_word_def le_imp_less_Suc)

lemma skip_white_head: "skip_white s \<noteq> [] \<Longrightarrow> \<not> among whitespace (ch (skip_white s))"
  using hd_dropWhile [of "among whitespace" s] by (cases "skip_white s") (auto simp: skip_white_def)

lemma gettoken_less:
  assumes "gettoken s = (r, q, eq, s')" "r \<noteq> 0"
  shows "length s' < length s"
proof -
  let ?q = "skip_white s"
  have r: "r = fst (gettoken s)" "s' = snd (snd (snd (gettoken s)))" using assms(1) by simp_all
  have ne: "?q \<noteq> []" using assms(2) r(1) by (auto simp: gettoken_def Let_def)
  have "\<exists>e. s' = skip_white e \<and> length e < length ?q"
  proof (cases "ch ?q \<in> {0x7C, 0x28, 0x29, 0x3B, 0x26, 0x3C}")
    case True
    then show ?thesis using r(2) ne by (auto simp: gettoken_def Let_def intro!: exI [of _ "tl ?q"])
  next
    case False
    show ?thesis
    proof (cases "ch ?q = 0x3E")
      case True
      have "length (tl (tl ?q)) < length ?q" "length (tl ?q) < length ?q" using ne by (cases ?q; simp)+
      then show ?thesis using r(2) True by (auto simp: gettoken_def Let_def)
    next
      case False2: False
      have c: "ch ?q \<noteq> 0" using assms(2) r(1) by (auto simp: gettoken_def Let_def)
      have "\<not> among symbols (ch ?q)"
        using False False2 c by (auto simp: among_def symbols_def split: if_splits)
      then have "length (skip_word ?q) < length ?q" using ne skip_white_head [OF ne] by (intro skip_word_less)
      then show ?thesis using r(2) False False2 c by (auto simp: gettoken_def Let_def)
    qed
  qed
  then show ?thesis using length_skip(1) by (metis le_less_trans less_le_trans)
qed

lemma gettoken_le: "gettoken s = (r, q, eq, s') \<Longrightarrow> length s' \<le> length s"
  using gettoken_less [of s r q eq s'] length_skip
  by (cases "r = 0") (auto simp: gettoken_def Let_def split: if_splits intro: order_trans)

lemma peek_le: "peek s toks = (b, s') \<Longrightarrow> length s' \<le> length s"
  using length_skip(1) by (auto simp: peek_def Let_def)

section \<open>Redirections\<close>

function redir_loop :: "ptr \<Rightarrow> ((token \<times> u32 \<times> u32) list \<times> ptr) res" where
  "redir_loop s =
     (case peek s [0x3C, 0x3E] of (b, s1) \<Rightarrow>
      if \<not> b then Ret ([], s1)
      else case gettoken s1 of (tok, _, _, s2) \<Rightarrow>
        case gettoken s2 of (tok2, q, eq, s3) \<Rightarrow>
        if tok2 \<noteq> 0x61 then Panic ''missing file for redirection''
        else bind_res (redir_loop s3) (\<lambda>(rs, s4).
          Ret ((if tok = 0x3C then ((q, eq), O_RDONLY, 0) else ((q, eq), O_WRONLY OR O_CREATE, 1)) # rs, s4)))"
  by pat_completeness auto
termination
proof (relation "measure length", goal_cases)
  case (2 s b s1 tok y1 q1 y2 eq1 s2 tok2 y3 q y4 eq s3)
  then have "length s3 < length s2" "length s2 \<le> length s1" "length s1 \<le> length s"
    using gettoken_less [of s2 tok2 q eq s3] gettoken_le [of s1 tok q1 eq1 s2] peek_le [of s "[0x3C, 0x3E]" b s1] by auto
  then show ?case by simp
qed simp

declare redir_loop.simps [simp del]

definition redircmd :: "token cmd \<Rightarrow> token \<times> u32 \<times> u32 \<Rightarrow> token cmd" where
  "redircmd c = (\<lambda>(file, mode, fd). REDIR c file mode fd)"

definition parseredirs :: "token cmd \<Rightarrow> ptr \<Rightarrow> (token cmd \<times> ptr) res" where
  "parseredirs c s = bind_res (redir_loop s) (\<lambda>(rs, s). Ret (foldl redircmd c rs, s))"

lemma redir_loop_le: "redir_loop s = Ret (rs, s') \<Longrightarrow> length s' \<le> length s"
proof (induction s arbitrary: rs s' rule: redir_loop.induct)
  case (1 s)
  obtain b s1 where p: "peek s [0x3C, 0x3E] = (b, s1)" by fastforce
  show ?case
  proof (cases b)
    case False
    then show ?thesis using 1(2) p peek_le [OF p] by (subst (asm) redir_loop.simps) simp
  next
    case True
    obtain t1 q1 e1 s2 where g1: "gettoken s1 = (t1, q1, e1, s2)" by (cases "gettoken s1") auto
    obtain t2 q e s3 where g2: "gettoken s2 = (t2, q, e, s3)" by (cases "gettoken s2") auto
    from 1(2) True p g1 g2 obtain ts where "t2 = 0x61" "redir_loop s3 = Ret (ts, s')"
      by (subst (asm) redir_loop.simps) (auto split: if_splits)
    then have "length s' \<le> length s3" using 1(1) [OF p [symmetric] _ g1 [symmetric] refl refl g2 [symmetric] refl refl] True by simp
    then show ?thesis using peek_le [OF p] gettoken_le [OF g1] gettoken_le [OF g2] by simp
  qed
qed

section \<open>Commands\<close>

text \<open>
  The loop of \<^verbatim>\<open>parseexec\<close>. The pointer \<^verbatim>\<open>cmd\<close> keeps filling the arguments of the innermost node
  while \<^verbatim>\<open>ret\<close> wraps redirections around it, so both are collected and put together at the end.
\<close>

function exec_args :: "ptr \<Rightarrow> token list \<Rightarrow> (token \<times> u32 \<times> u32) list \<Rightarrow> (token list \<times> (token \<times> u32 \<times> u32) list \<times> ptr) res" where
  "exec_args s args rs =
     (case peek s [0x7C, 0x29, 0x26, 0x3B] of (b, s1) \<Rightarrow>
      if b then Ret (args, rs, s1)
      else case gettoken s1 of (tok, q, eq, s2) \<Rightarrow>
        if tok = 0 then Ret (args, rs, s2)
        else if tok \<noteq> 0x61 then Panic ''syntax''
        else if MAXARGS \<le> length args + 1 then Panic ''too many args''
        else bind_res (redir_loop s2) (\<lambda>(rs', s3). exec_args s3 (args @ [(q, eq)]) (rs @ rs')))"
  by pat_completeness auto
termination
proof (relation "measure (\<lambda>(s, args, rs). length s)", goal_cases)
  case (2 s args rs b s1 tok y1 q y2 eq s2 r rs' s3)
  then have "length s3 \<le> length s2" "length s2 < length s1" "length s1 \<le> length s"
    using redir_loop_le [of s2 rs' s3] gettoken_less [of s1 tok q eq s2] peek_le [of s "[0x7C, 0x29, 0x26, 0x3B]" b s1] by auto
  then show ?case by simp
qed simp

declare exec_args.simps [simp del]

lemma skip_white_idem [simp]: "skip_white (skip_white s) = skip_white s"
  by (simp add: skip_white_def)

lemma peek_gettoken:
  assumes "peek s toks = (True, s1)" "gettoken s1 = (tok, q, eq, s2)"
  shows "tok \<noteq> 0" "length s2 < length s"
proof -
  have "ch (skip_white s1) \<noteq> 0" using assms(1) by (auto simp: peek_def Let_def)
  then show t: "tok \<noteq> 0" using assms(2) by (auto simp: gettoken_def Let_def split: if_splits)
  show "length s2 < length s" using gettoken_less [OF assms(2) t] peek_le [OF assms(1)] by simp
qed

function back_loop :: "ptr \<Rightarrow> token cmd \<Rightarrow> token cmd \<times> ptr" where
  "back_loop s c =
     (case peek s [0x26] of (b, s1) \<Rightarrow>
      if \<not> b then (c, s1)
      else case gettoken s1 of (tok, _, _, s2) \<Rightarrow> back_loop s2 (BACK c))"
  by pat_completeness auto
termination
proof (relation "measure (\<lambda>(s, c). length s)", goal_cases)
  case (2 s c b s1 tok y1 q y2 eq s2)
  then show ?case using peek_gettoken [of s "[0x26]" s1 tok q eq s2] by auto
qed simp

declare back_loop.simps [simp del]

lemma back_loop_le: "back_loop s c = (c', s') \<Longrightarrow> length s' \<le> length s"
proof (induction s c arbitrary: c' s' rule: back_loop.induct)
  case (1 s c)
  obtain b s1 where p: "peek s [0x26] = (b, s1)" by fastforce
  obtain tok q eq s2 where g: "gettoken s1 = (tok, q, eq, s2)" by (cases "gettoken s1") auto
  show ?case
  proof (cases b)
    case False
    then show ?thesis using 1(2) p peek_le [OF p] by (subst (asm) back_loop.simps) simp
  next
    case True
    then have "back_loop s2 (BACK c) = (c', s')" using 1(2) p g by (subst (asm) back_loop.simps) simp
    then have "length s' \<le> length s2" using 1(1) [OF p [symmetric] _ g [symmetric] refl refl] True by simp
    then show ?thesis using peek_le [OF p] gettoken_le [OF g] by simp
  qed
qed

text \<open>
  The recursive descent. Each call takes one unit of fuel; \<open>Diverge\<close> stands for a parser that has not
  returned within it. \<open>parseblock\<close> is called by \<open>parseexec\<close> when it sees an opening parenthesis.
\<close>

fun parseline :: "nat \<Rightarrow> ptr \<Rightarrow> (token cmd \<times> ptr) res"
  and parsepipe :: "nat \<Rightarrow> ptr \<Rightarrow> (token cmd \<times> ptr) res"
  and parseexec :: "nat \<Rightarrow> ptr \<Rightarrow> (token cmd \<times> ptr) res"
  and parseblock :: "nat \<Rightarrow> ptr \<Rightarrow> (token cmd \<times> ptr) res" where
  "parseline 0 s = Diverge"
| "parseline (Suc n) s =
     bind_res (parsepipe n s) (\<lambda>(c, s).
       case back_loop s c of (c, s) \<Rightarrow>
       case peek s [0x3B] of (b, s) \<Rightarrow>
       if \<not> b then Ret (c, s)
       else case gettoken s of (_, _, _, s) \<Rightarrow> bind_res (parseline n s) (\<lambda>(r, s). Ret (LIST c r, s)))"
| "parsepipe 0 s = Diverge"
| "parsepipe (Suc n) s =
     bind_res (parseexec n s) (\<lambda>(c, s).
       case peek s [0x7C] of (b, s) \<Rightarrow>
       if \<not> b then Ret (c, s)
       else case gettoken s of (_, _, _, s) \<Rightarrow> bind_res (parsepipe n s) (\<lambda>(r, s). Ret (PIPE c r, s)))"
| "parseexec 0 s = Diverge"
| "parseexec (Suc n) s =
     (case peek s [0x28] of (b, s) \<Rightarrow>
      if b then parseblock n s
      else bind_res (redir_loop s) (\<lambda>(rs, s).
        bind_res (exec_args s [] rs) (\<lambda>(args, rs, s). Ret (foldl redircmd (EXEC args) rs, s))))"
| "parseblock 0 s = Diverge"
| "parseblock (Suc n) s =
     (case peek s [0x28] of (b, s) \<Rightarrow>
      if \<not> b then Panic ''parseblock''
      else case gettoken s of (_, _, _, s) \<Rightarrow>
        bind_res (parseline n s) (\<lambda>(c, s).
          case peek s [0x29] of (b, s) \<Rightarrow>
          if \<not> b then Panic ''syntax - missing )''
          else case gettoken s of (_, _, _, s) \<Rightarrow> parseredirs c s))"

text \<open>
  \<open>nulterminate\<close> writes a null behind every token. \<open>n\<close> is the length of the string, so \<open>n - length eq\<close> is
  the index of \<open>eq\<close> in the buffer.
\<close>

definition nul_at :: "nat \<Rightarrow> ptr \<Rightarrow> u8 list \<Rightarrow> u8 list" where
  "nul_at n eq buf = buf[n - length eq := 0]"

fun nulterminate :: "nat \<Rightarrow> token cmd \<Rightarrow> u8 list \<Rightarrow> u8 list" where
  "nulterminate n (EXEC args) buf = foldl (\<lambda>buf (q, eq). nul_at n eq buf) buf args"
| "nulterminate n (REDIR c (q, eq) mode fd) buf = nul_at n eq (nulterminate n c buf)"
| "nulterminate n (PIPE l r) buf = nulterminate n r (nulterminate n l buf)"
| "nulterminate n (LIST l r) buf = nulterminate n r (nulterminate n l buf)"
| "nulterminate n (BACK c) buf = nulterminate n c buf"

definition parsecmd :: "u8 list \<Rightarrow> (token cmd \<times> u8 list) res" where
  "parsecmd s =
     bind_res (parseline (4 * length s + 4) s) (\<lambda>(c, r).
       case peek r [] of (_, r) \<Rightarrow>
       if r \<noteq> [] then Panic ''syntax'' else Ret (c, nulterminate (length s) c (s @ [0])))"

section \<open>The parser returns\<close>

definition returns :: "ptr \<Rightarrow> ('a \<times> ptr) res \<Rightarrow> bool" where
  "returns s r \<longleftrightarrow> (\<exists>c s'. r = Ret (c, s') \<and> length s' \<le> length s) \<or> (\<exists>msg. r = Panic msg)"

lemma returns_bind:
  assumes "returns s r" "\<And>c s'. length s' \<le> length s \<Longrightarrow> returns s (f (c, s'))"
  shows "returns s (bind_res r f)"
  using assms(1) unfolding returns_def [of s r]
proof (elim disjE exE conjE)
  fix c s' assume "r = Ret (c, s')" "length s' \<le> length s"
  then show ?thesis using assms(2) [of s' c] by simp
qed (simp add: returns_def)

lemma returns_Ret: "length s' \<le> length s \<Longrightarrow> returns s (Ret (c, s'))"
  by (simp add: returns_def)

lemma returns_Panic [simp]: "returns s (Panic msg)"
  by (simp add: returns_def)

lemma returns_le: "returns s' r \<Longrightarrow> length s' \<le> length s \<Longrightarrow> returns s r"
  by (auto simp: returns_def)

lemma redir_loop_returns: "returns s (redir_loop s)"
proof (induction s rule: redir_loop.induct)
  case (1 s)
  obtain b s1 where p: "peek s [0x3C, 0x3E] = (b, s1)" by fastforce
  obtain t1 q1 e1 s2 where g1: "gettoken s1 = (t1, q1, e1, s2)" by (cases "gettoken s1") auto
  obtain t2 q e s3 where g2: "gettoken s2 = (t2, q, e, s3)" by (cases "gettoken s2") auto
  have le: "length s1 \<le> length s" "length s3 \<le> length s" using peek_le [OF p] gettoken_le [OF g1] gettoken_le [OF g2] by simp_all
  show ?case
  proof (cases "b \<and> t2 = 0x61")
    case True
    then have "returns s3 (redir_loop s3)" using 1 [OF p [symmetric] _ g1 [symmetric] refl refl g2 [symmetric] refl refl] by simp
    from returns_le [OF this le(2)] show ?thesis
      using p g1 g2 True by (subst redir_loop.simps) (auto intro!: returns_bind returns_Ret)
  next
    case False
    then show ?thesis using p g1 g2 le(1) by (subst redir_loop.simps) (auto intro!: returns_Ret)
  qed
qed

lemma exec_args_returns:
  "(\<exists>a r s'. exec_args s args rs = Ret (a, r, s') \<and> length s' \<le> length s) \<or> (\<exists>msg. exec_args s args rs = Panic msg)"
proof (induction s args rs rule: exec_args.induct)
  case (1 s args rs)
  obtain b s1 where p: "peek s [0x7C, 0x29, 0x26, 0x3B] = (b, s1)" by fastforce
  obtain t q e s2 where g: "gettoken s1 = (t, q, e, s2)" by (cases "gettoken s1") auto
  have le: "length s1 \<le> length s" "length s2 \<le> length s" using peek_le [OF p] gettoken_le [OF g] by simp_all
  show ?case
  proof (cases "b \<or> t \<noteq> 0x61 \<or> MAXARGS \<le> length args + 1")
    case True
    then show ?thesis using p g le by (subst exec_args.simps) (auto simp: exec_args.simps)
  next
    case False
    consider (ok) rs' s3 where "redir_loop s2 = Ret (rs', s3)" "length s3 \<le> length s2" | (panic) msg where "redir_loop s2 = Panic msg"
      using redir_loop_returns [of s2] by (auto simp: returns_def)
    then show ?thesis
    proof cases
      case ok
      have "exec_args s args rs = exec_args s3 (args @ [(q, e)]) (rs @ rs')"
        using p g False ok(1) by (subst exec_args.simps) simp
      moreover have "t \<noteq> 0" "t = 0x61" using False by auto
      ultimately show ?thesis
        using 1 [OF p [symmetric] _ g [symmetric] refl refl _ _ _ ok(1) refl] False ok(2) le by auto
    next
      case panic
      then show ?thesis using p g False by (subst exec_args.simps) simp
    qed
  qed
qed

text \<open>What follows a command: the operator, consumed as a token, and another command.\<close>

lemma operand_returns:
  assumes "\<And>s. length s < length s0 \<Longrightarrow> returns s (f s)" "length s \<le> length s0"
  shows "returns s0 (case peek s toks of (b, s) \<Rightarrow> if \<not> b then Ret (c, s)
    else case gettoken s of (_, _, _, s) \<Rightarrow> bind_res (f s) (\<lambda>(r, s). Ret (g r, s)))"
proof -
  obtain b s1 where p: "peek s toks = (b, s1)" by fastforce
  obtain t q e s2 where g: "gettoken s1 = (t, q, e, s2)" by (cases "gettoken s1") auto
  show ?thesis
  proof (cases b)
    case True
    then have "length s2 < length s0" using peek_gettoken(2) [of s toks s1] p g assms(2) by auto
    then show ?thesis
      using assms(1) [of s2] p g True by (auto intro!: returns_bind returns_Ret intro: returns_le)
  next
    case False
    then show ?thesis using p peek_le [OF p] assms(2) by (auto intro: returns_Ret)
  qed
qed

lemma parse_returns:
  "\<forall>s. (4 * length s + 4 \<le> n \<longrightarrow> returns s (parseline n s)) \<and> (4 * length s + 3 \<le> n \<longrightarrow> returns s (parsepipe n s))
     \<and> (4 * length s + 2 \<le> n \<longrightarrow> returns s (parseexec n s)) \<and> (4 * length s + 1 \<le> n \<longrightarrow> returns s (parseblock n s))"
proof (induction n)
  case (Suc n)
  note line = Suc.IH [rule_format, THEN conjunct1, rule_format]
    and pipe = Suc.IH [rule_format, THEN conjunct2, THEN conjunct1, rule_format]
    and exec = Suc.IH [rule_format, THEN conjunct2, THEN conjunct2, THEN conjunct1, rule_format]
    and block = Suc.IH [rule_format, THEN conjunct2, THEN conjunct2, THEN conjunct2, rule_format]
  show ?case
  proof (intro allI conjI impI)
    fix s :: ptr assume n: "4 * length s + 4 \<le> Suc n"
    show "returns s (parseline (Suc n) s)"
      unfolding parseline.simps
    proof (rule returns_bind)
      show "returns s (parsepipe n s)" using pipe n by simp
      fix c :: "token cmd" and s' :: ptr assume le: "length s' \<le> length s"
      obtain c' s'' where b: "back_loop s' c = (c', s'')" by fastforce
      then have "length s'' \<le> length s" using back_loop_le [OF b] le by simp
      then show "returns s (case (c, s') of (c, s) \<Rightarrow> case back_loop s c of (c, s) \<Rightarrow> case peek s [0x3B] of (b, s) \<Rightarrow>
          if \<not> b then Ret (c, s) else case gettoken s of (_, _, _, s) \<Rightarrow> bind_res (parseline n s) (\<lambda>(r, s). Ret (LIST c r, s)))"
        using operand_returns [where f = "parseline n" and g = "LIST c'" and ?s0.0 = s and s = s'' and toks = "[0x3B]" and c = c'] line n b by simp
    qed
  next
    fix s :: ptr assume n: "4 * length s + 3 \<le> Suc n"
    show "returns s (parsepipe (Suc n) s)"
      unfolding parsepipe.simps
    proof (rule returns_bind)
      show "returns s (parseexec n s)" using exec n by simp
      fix c :: "token cmd" and s' :: ptr assume le: "length s' \<le> length s"
      then show "returns s (case (c, s') of (c, s) \<Rightarrow> case peek s [0x7C] of (b, s) \<Rightarrow>
          if \<not> b then Ret (c, s) else case gettoken s of (_, _, _, s) \<Rightarrow> bind_res (parsepipe n s) (\<lambda>(r, s). Ret (PIPE c r, s)))"
        using operand_returns [where f = "parsepipe n" and g = "PIPE c" and ?s0.0 = s and s = s' and toks = "[0x7C]" and c = c] pipe n by simp
    qed
  next
    fix s :: ptr assume n: "4 * length s + 2 \<le> Suc n"
    obtain b s1 where p: "peek s [0x28] = (b, s1)" by fastforce
    have "returns s1 (parseblock n s1)" using block [of s1] n peek_le [OF p] by simp
    moreover have "returns s1 (bind_res (redir_loop s1) (\<lambda>(rs, s). bind_res (exec_args s [] rs) (\<lambda>(args, rs, s). Ret (foldl redircmd (EXEC args) rs, s))))"
    proof (rule returns_bind [OF redir_loop_returns])
      fix rs :: "(token \<times> u32 \<times> u32) list" and s' :: ptr assume "length s' \<le> length s1"
      then show "returns s1 (case (rs, s') of (rs, s) \<Rightarrow> bind_res (exec_args s [] rs) (\<lambda>(args, rs, s). Ret (foldl redircmd (EXEC args) rs, s)))"
        using exec_args_returns [of s' "[]" rs] by (auto simp: returns_def)
    qed
    ultimately show "returns s (parseexec (Suc n) s)" using p by (auto intro: returns_le [OF _ peek_le [OF p]])
  next
    fix s :: ptr assume n: "4 * length s + 1 \<le> Suc n"
    obtain b s1 where p: "peek s [0x28] = (b, s1)" by fastforce
    obtain t q e s2 where g: "gettoken s1 = (t, q, e, s2)" by (cases "gettoken s1") auto
    show "returns s (parseblock (Suc n) s)"
    proof (cases b)
      case True
      then have le: "length s2 < length s" using peek_gettoken(2) [of s "[0x28]" s1] p g by auto
      then have "returns s (parseline n s2)" using returns_le [OF line [of s2], of s] n by simp
      then have "returns s (bind_res (parseline n s2) (\<lambda>(c, s). case peek s [0x29] of (b, s) \<Rightarrow>
          if \<not> b then Panic ''syntax - missing )'' else case gettoken s of (_, _, _, s) \<Rightarrow> parseredirs c s))"
      proof (rule returns_bind)
        fix c :: "token cmd" and s' :: ptr assume s': "length s' \<le> length s"
        obtain b s3 where p: "peek s' [0x29] = (b, s3)" by fastforce
        obtain t q e s4 where g: "gettoken s3 = (t, q, e, s4)" by (cases "gettoken s3") auto
        have "length s4 \<le> length s" using peek_le [OF p] gettoken_le [OF g] s' by simp
        then have "returns s (parseredirs c s4)"
          unfolding parseredirs_def using redir_loop_returns [of s4] by (auto simp: returns_def)
        then show "returns s (case (c, s') of (c, s) \<Rightarrow> case peek s [0x29] of (b, s) \<Rightarrow>
            if \<not> b then Panic ''syntax - missing )'' else case gettoken s of (_, _, _, s) \<Rightarrow> parseredirs c s)"
          using p g by simp
      qed
      then show ?thesis using p g True by simp
    next
      case False
      then show ?thesis using p by simp
    qed
  qed
qed simp

section \<open>Property\<close>

text \<open>
  C37: the shell's parser returns for every input: \<^verbatim>\<open>parsecmd()\<close> yields a command or one of the parser's error messages. It
  never runs forever and never reads outside the string.
\<close>

theorem parsecmd_returns: "(\<exists>c buf. parsecmd s = Ret (c, buf)) \<or> (\<exists>msg. parsecmd s = Panic msg)"
proof -
  have "returns s (parseline (4 * length s + 4) s)" using parse_returns [of "4 * length s + 4"] by simp
  then show ?thesis unfolding returns_def
  proof (elim disjE exE conjE)
    fix c r assume "parseline (4 * length s + 4) s = Ret (c, r)"
    then show ?thesis by (cases "peek r []") (simp add: parsecmd_def)
  qed (simp add: parsecmd_def)
qed

end
