(* ===== verification/Shtext.thy ===== *)
theory Shtext
  imports Sh
begin

text \<open>
  The shell's parser against a printer: the text of a command, with parentheses where its structure needs
  them, is parsed back to that command.
\<close>

section \<open>Printing commands\<close>

text \<open>The canonical text of a command, every token followed by a blank.\<close>

definition paren :: "bool \<Rightarrow> u8 list \<Rightarrow> u8 list" where
  "paren b x = (if b then [0x28, 0x20] @ x @ [0x29, 0x20] else x)"

fun text_of :: "nat \<Rightarrow> u8 list cmd \<Rightarrow> u8 list" where
  "text_of lv (EXEC ws) = concat (map (\<lambda>w. w @ [0x20]) ws)"
| "text_of lv (REDIR t f m d) = text_of 0 t @ [if d = 0 then 0x3C else 0x3E, 0x20] @ f @ [0x20]"
| "text_of lv (PIPE l r) = paren (lv < 1) (text_of 0 l @ [0x7C, 0x20] @ text_of 1 r)"
| "text_of lv (BACK t) = paren (lv < 2) (text_of 2 t @ [0x26, 0x20])"
| "text_of lv (LIST l r) = paren (lv < 3) (text_of 2 l @ [0x3B, 0x20] @ text_of 3 r)"

text \<open>Words are what the tokenizer takes as one; redirections have the modes the parser gives them.\<close>

definition word_ok :: "u8 list \<Rightarrow> bool" where
  "word_ok w \<longleftrightarrow> w \<noteq> [] \<and> 0 \<notin> set w \<and> (\<forall>c \<in> set w. c \<notin> set whitespace \<and> c \<notin> set symbols)"

definition redir_ok :: "u8 list \<times> u32 \<times> u32 \<Rightarrow> bool" where
  "redir_ok = (\<lambda>(f, m, d). word_ok f \<and> (m = O_RDONLY \<and> d = 0 \<or> m = O_WRONLY OR O_CREATE \<and> d = 1))"

fun cmd_ok :: "u8 list cmd \<Rightarrow> bool" where
  "cmd_ok (EXEC ws) \<longleftrightarrow> length ws < MAXARGS \<and> (\<forall>w \<in> set ws. word_ok w)"
| "cmd_ok (REDIR t f m d) \<longleftrightarrow> cmd_ok t \<and> redir_ok (f, m, d)"
| "cmd_ok (PIPE l r) \<longleftrightarrow> cmd_ok l \<and> cmd_ok r"
| "cmd_ok (LIST l r) \<longleftrightarrow> cmd_ok l \<and> cmd_ok r"
| "cmd_ok (BACK t) \<longleftrightarrow> cmd_ok t"

definition tok_str :: "token \<Rightarrow> u8 list" where
  "tok_str = (\<lambda>(q, eq). take (length q - length eq) q)"

definition redir_str :: "token \<times> u32 \<times> u32 \<Rightarrow> u8 list \<times> u32 \<times> u32" where
  "redir_str = (\<lambda>(t, x). (tok_str t, x))"

lemma among_set: "0 \<notin> set cs \<Longrightarrow> among cs c \<longleftrightarrow> c \<in> set cs"
  using strchr_at_None [of cs c] by (simp add: among_def)

lemma among_white [simp]: "among whitespace c \<longleftrightarrow> c \<in> set whitespace"
  by (rule among_set) (simp add: whitespace_def)

lemma among_symbols [simp]: "among symbols c \<longleftrightarrow> c \<in> set symbols"
  by (rule among_set) (simp add: symbols_def)

text \<open>A text that starts with a token or is empty.\<close>

definition clean :: "ptr \<Rightarrow> bool" where
  "clean s \<longleftrightarrow> s = [] \<or> ch s \<notin> set whitespace"

lemma skip_clean: "clean s \<Longrightarrow> skip_white s = s"
  by (cases s) (auto simp: clean_def skip_white_def)

lemma skip_blank: "clean s \<Longrightarrow> skip_white (0x20 # s) = s"
proof -
  assume c: "clean s"
  have "among whitespace 0x20" by (simp, simp add: whitespace_def)
  then show ?thesis using skip_clean [OF c] by (simp add: skip_white_def)
qed

lemma peek_clean: "clean s \<Longrightarrow> 0 \<notin> set toks \<Longrightarrow> peek s toks = (s \<noteq> [] \<and> ch s \<noteq> 0 \<and> ch s \<in> set toks, s)"
  by (auto simp: peek_def skip_clean among_set Let_def)

lemma gettoken_word:
  assumes "word_ok w" "clean k"
  shows "gettoken (w @ 0x20 # k) = (0x61, w @ 0x20 # k, 0x20 # k, k)" "clean (w @ 0x20 # k)"
    "ch (w @ 0x20 # k) \<notin> set symbols" "ch (w @ 0x20 # k) \<noteq> 0"
proof -
  obtain c cs where w: "w = c # cs" using assms(1) by (cases w) (auto simp: word_ok_def)
  have c: "c \<notin> set whitespace" "c \<notin> set symbols" "c \<noteq> 0" using assms(1) w by (auto simp: word_ok_def)
  show cl: "clean (w @ 0x20 # k)" "ch (w @ 0x20 # k) \<notin> set symbols" "ch (w @ 0x20 # k) \<noteq> 0"
    using c w by (simp_all add: clean_def)
  have "\<forall>x \<in> set w. \<not> among whitespace x \<and> \<not> among symbols x" using assms(1) by (simp add: word_ok_def)
  moreover have "0x20 \<in> set whitespace" by (simp add: whitespace_def)
  ultimately have "skip_word (w @ 0x20 # k) = 0x20 # k" by (simp add: skip_word_def dropWhile_append2)
  moreover have "c \<noteq> 0x7C" "c \<noteq> 0x28" "c \<noteq> 0x29" "c \<noteq> 0x3B" "c \<noteq> 0x26" "c \<noteq> 0x3C" "c \<noteq> 0x3E"
    using c(2) by (simp_all add: symbols_def)
  ultimately show "gettoken (w @ 0x20 # k) = (0x61, w @ 0x20 # k, 0x20 # k, k)"
    using skip_clean [OF cl(1)] skip_blank [OF assms(2)] w c(3) by (simp add: gettoken_def Let_def)
qed

lemma gettoken_symbol:
  assumes "c \<in> {0x7C, 0x28, 0x29, 0x3B, 0x26, 0x3C, 0x3E}" "clean k"
  shows "gettoken (c # 0x20 # k) = (c, c # 0x20 # k, 0x20 # k, k)" "clean (c # 0x20 # k)"
proof -
  show cl: "clean (c # 0x20 # k)" using assms(1) by (auto simp: clean_def whitespace_def)
  show "gettoken (c # 0x20 # k) = (c, c # 0x20 # k, 0x20 # k, k)"
    using assms skip_clean [OF cl] skip_blank [OF assms(2)] by (auto simp: gettoken_def Let_def)
qed

lemma tok_str_word: "tok_str (w @ 0x20 # k, 0x20 # k) = w"
  by (simp add: tok_str_def)

definition redirs_text :: "(u8 list \<times> u32 \<times> u32) list \<Rightarrow> u8 list" where
  "redirs_text rs = concat (map (\<lambda>(f, m, d). [if d = 0 then 0x3C else 0x3E, 0x20] @ f @ [0x20]) rs)"

definition words_text :: "u8 list list \<Rightarrow> u8 list" where
  "words_text ws = concat (map (\<lambda>w. w @ [0x20]) ws)"

lemma clean_symbol [simp]:
  "clean (0x28 # s)" "clean (0x29 # s)" "clean (0x7C # s)" "clean (0x26 # s)" "clean (0x3B # s)" "clean (0x3C # s)" "clean (0x3E # s)"
  by (simp_all add: clean_def whitespace_def)

lemma clean_redirs: "clean k \<Longrightarrow> clean (redirs_text rs @ k)"
  by (cases rs) (simp_all add: redirs_text_def clean_def whitespace_def split: prod.split)

lemma clean_words:
  assumes "\<forall>w \<in> set ws. word_ok w" "clean k"
  shows "clean (words_text ws @ k)"
proof (cases ws)
  case Nil
  then show ?thesis using assms(2) by (simp add: words_text_def)
next
  case (Cons w vs)
  then obtain c cs where "w = c # cs" "c \<notin> set whitespace" using assms(1) by (cases w) (auto simp: word_ok_def)
  then show ?thesis using Cons by (simp add: words_text_def clean_def)
qed

lemma redir_loop_text:
  assumes "\<forall>x \<in> set rs. redir_ok x" "clean k" "ch k \<notin> {0x3C, 0x3E}"
  shows "\<exists>ts. redir_loop (redirs_text rs @ k) = Ret (ts, k) \<and> map redir_str ts = rs"
  using assms(1)
proof (induction rs)
  case Nil
  then show ?case using peek_clean [OF assms(2), of "[0x3C, 0x3E]"] assms(3)
    by (subst redir_loop.simps) (auto simp: redirs_text_def)
next
  case (Cons x rs)
  obtain f m d where x: "x = (f, m, d)" by (cases x)
  let ?k = "redirs_text rs @ k"
  let ?c = "if d = 0 then 0x3C else 0x3E :: u8"
  have ck: "clean ?k" using clean_redirs [OF assms(2)] .
  have f: "word_ok f" using Cons.prems x by (simp add: redir_ok_def)
  note w = gettoken_word [OF f ck]
  have g: "gettoken (?c # 0x20 # f @ 0x20 # ?k) = (?c, ?c # 0x20 # f @ 0x20 # ?k, 0x20 # f @ 0x20 # ?k, f @ 0x20 # ?k)"
    "clean (?c # 0x20 # f @ 0x20 # ?k)" by (rule gettoken_symbol; simp add: w(2))+
  obtain ts where ts: "redir_loop ?k = Ret (ts, k)" "map redir_str ts = rs"
    using Cons.IH Cons.prems by (meson list.set_intros(2))
  have e: "redirs_text (x # rs) @ k = ?c # 0x20 # f @ 0x20 # ?k" by (simp add: redirs_text_def x)
  have "peek (?c # 0x20 # f @ 0x20 # ?k) [0x3C, 0x3E] = (True, ?c # 0x20 # f @ 0x20 # ?k)"
    using peek_clean [OF g(2), of "[0x3C, 0x3E]"] by simp
  then have "redir_loop (redirs_text (x # rs) @ k) = Ret ((if ?c = 0x3C then ((f @ 0x20 # ?k, 0x20 # ?k), O_RDONLY, 0)
      else ((f @ 0x20 # ?k, 0x20 # ?k), O_WRONLY OR O_CREATE, 1)) # ts, k)"
    unfolding e using g(1) w(1) ts(1) by (subst redir_loop.simps) simp
  then show ?case using Cons.prems x ts(2) by (auto simp: tok_str_word redir_ok_def redir_str_def)
qed

text \<open>What may follow a command.\<close>

definition stop :: "u8 set \<Rightarrow> ptr \<Rightarrow> bool" where
  "stop cs k \<longleftrightarrow> clean k \<and> (k = [] \<or> ch k \<in> cs)"

lemma stop_mono: "stop cs k \<Longrightarrow> cs \<subseteq> ds \<Longrightarrow> stop ds k"
  by (auto simp: stop_def)

lemma stop_clean: "stop cs k \<Longrightarrow> clean k"
  by (simp add: stop_def)

lemma peek_stop:
  assumes "stop cs k" "0 \<notin> cs" "0 \<notin> set toks"
  shows "peek k toks = (k \<noteq> [] \<and> ch k \<in> set toks, k)"
  using assms peek_clean [OF stop_clean [OF assms(1)], of toks] by (auto simp: stop_def)

lemma stop_symbol: "c \<in> cs \<Longrightarrow> c \<in> {0x7C, 0x28, 0x29, 0x3B, 0x26, 0x3C, 0x3E} \<Longrightarrow> stop cs (c # 0x20 # k)"
  by (auto simp: stop_def clean_def whitespace_def)

abbreviation (input) exec_stop :: "u8 set" where "exec_stop \<equiv> {0x7C, 0x29, 0x26, 0x3B}"
abbreviation (input) pipe_stop :: "u8 set" where "pipe_stop \<equiv> {0x29, 0x26, 0x3B}"
abbreviation (input) line_stop :: "u8 set" where "line_stop \<equiv> {0x29}"

lemma exec_args_stop:
  assumes "stop exec_stop k"
  shows "exec_args k args rs = Ret (args, rs, k)"
proof (cases "k = []")
  case True
  have "gettoken [] = (0, [], [], [])" by (simp add: gettoken_def skip_white_def)
  then show ?thesis
    using True peek_stop [OF assms, of "[0x7C, 0x29, 0x26, 0x3B]"] by (subst exec_args.simps) simp
next
  case False
  then have "ch k \<in> exec_stop" using assms by (simp add: stop_def)
  then show ?thesis
    using False peek_stop [OF assms, of "[0x7C, 0x29, 0x26, 0x3B]"] by (subst exec_args.simps) auto
qed

lemma redir_loop_none: "clean k \<Longrightarrow> ch k \<notin> {0x3C, 0x3E} \<Longrightarrow> redir_loop k = Ret ([], k)"
  using redir_loop_text [of "[]" k] by (simp add: redirs_text_def)

lemma stop_no_redir: "stop exec_stop k \<Longrightarrow> ch k \<notin> {0x3C, 0x3E}"
  by (cases k) (auto simp: stop_def)

lemma words_text_simps: "words_text [] = []" "words_text (w # ws) = w @ 0x20 # words_text ws"
  by (simp_all add: words_text_def)

lemma exec_args_word:
  assumes "word_ok w" "clean k" "length args + 1 < MAXARGS" "redir_loop k = Ret (ts, k')"
  shows "exec_args (w @ 0x20 # k) args rs = exec_args k' (args @ [(w @ 0x20 # k, 0x20 # k)]) (rs @ ts)"
proof -
  note w = gettoken_word [OF assms(1,2)]
  have "ch (w @ 0x20 # k) \<notin> {0x7C, 0x29, 0x26, 0x3B}" using w(3) by (auto simp: symbols_def)
  then have "peek (w @ 0x20 # k) [0x7C, 0x29, 0x26, 0x3B] = (False, w @ 0x20 # k)"
    using peek_clean [OF w(2), of "[0x7C, 0x29, 0x26, 0x3B]"] by simp
  then show ?thesis using w(1) assms(3,4) by (subst exec_args.simps) simp
qed

lemma exec_args_text:
  assumes "\<forall>w \<in> set ws. word_ok w" "ws \<noteq> []" "length args + length ws < MAXARGS" "\<forall>x \<in> set rs. redir_ok x" "stop exec_stop k"
  shows "\<exists>ts us. exec_args (words_text ws @ redirs_text rs @ k) args us0 = Ret (args @ ts, us0 @ us, k)
    \<and> map tok_str ts = ws \<and> map redir_str us = rs"
  using assms(1-3)
proof (induction ws arbitrary: args us0)
  case (Cons w ws)
  let ?k = "words_text ws @ redirs_text rs @ k"
  let ?t = "(w @ 0x20 # ?k, 0x20 # ?k)"
  have w: "word_ok w" "length args + 1 < MAXARGS" using Cons.prems by auto
  have cr: "clean (redirs_text rs @ k)" using clean_redirs stop_clean [OF assms(5)] .
  have ck: "clean ?k" using Cons.prems(1) cr by (intro clean_words) simp_all
  show ?case
  proof (cases ws)
    case Nil
    obtain us where us: "redir_loop (redirs_text rs @ k) = Ret (us, k)" "map redir_str us = rs"
      using redir_loop_text [OF assms(4) stop_clean [OF assms(5)] stop_no_redir [OF assms(5)]] by blast
    have "exec_args (w @ 0x20 # redirs_text rs @ k) args us0 = Ret (args @ [(w @ 0x20 # redirs_text rs @ k, 0x20 # redirs_text rs @ k)], us0 @ us, k)"
      using exec_args_word [OF w(1) cr w(2) us(1)] exec_args_stop [OF assms(5)] by simp
    then show ?thesis using Nil us(2) by (auto simp: words_text_simps tok_str_word)
  next
    case c: (Cons v vs)
    have "ch ?k \<notin> {0x3C, 0x3E}"
    proof -
      have "word_ok v" using Cons.prems(1) c by simp
      then show ?thesis
        using gettoken_word(3) [of v "[]"] by (cases v) (auto simp: c words_text_simps word_ok_def clean_def symbols_def)
    qed
    then have "exec_args (w @ 0x20 # ?k) args us0 = exec_args ?k (args @ [?t]) (us0 @ [])"
      by (intro exec_args_word [OF w(1) ck w(2)] redir_loop_none [OF ck])
    moreover have pre: "\<forall>w \<in> set ws. word_ok w" "ws \<noteq> []" "length (args @ [?t]) + length ws < MAXARGS"
      using Cons.prems c by simp_all
    moreover obtain ts us where "exec_args ?k (args @ [?t]) us0 = Ret ((args @ [?t]) @ ts, us0 @ us, k)"
        "map tok_str ts = ws" "map redir_str us = rs"
      using Cons.IH [OF pre] by blast
    ultimately show ?thesis
      by (intro exI [of _ "?t # ts"] exI [of _ us]) (simp add: words_text_simps tok_str_word)
  qed
qed simp

section \<open>Parsing the text of a command\<close>

definition uredir :: "u8 list cmd \<Rightarrow> u8 list \<times> u32 \<times> u32 \<Rightarrow> u8 list cmd" where
  "uredir c = (\<lambda>(f, m, d). REDIR c f m d)"

lemma map_foldl_redir:
  "map_cmd tok_str (foldl redircmd c us) = foldl uredir (map_cmd tok_str c) (map redir_str us)"
  by (induction us arbitrary: c) (auto simp: redircmd_def uredir_def redir_str_def)

text \<open>
  The four levels of the grammar. \<open>parses_exec t\<close> allows for redirections after the text of \<open>t\<close>, which
  the parser takes together with it; \<open>parses_back t\<close> leaves the ampersands after it to \<open>back_loop\<close>.
\<close>

definition parses_exec :: "u8 list cmd \<Rightarrow> bool" where
  "parses_exec t \<longleftrightarrow> (\<forall>rs k n. (\<forall>x \<in> set rs. redir_ok x) \<longrightarrow> stop exec_stop k \<longrightarrow>
     4 * length (text_of 0 t @ redirs_text rs @ k) + 2 \<le> n \<longrightarrow>
     (\<exists>c. parseexec n (text_of 0 t @ redirs_text rs @ k) = Ret (c, k) \<and> map_cmd tok_str c = foldl uredir t rs))"

definition parses_pipe :: "u8 list cmd \<Rightarrow> bool" where
  "parses_pipe t \<longleftrightarrow> (\<forall>k n. stop pipe_stop k \<longrightarrow> 4 * length (text_of 1 t @ k) + 3 \<le> n \<longrightarrow>
     (\<exists>c. parsepipe n (text_of 1 t @ k) = Ret (c, k) \<and> map_cmd tok_str c = t))"

definition parses_back :: "u8 list cmd \<Rightarrow> bool" where
  "parses_back t \<longleftrightarrow> (\<forall>k n. stop pipe_stop k \<longrightarrow> 4 * length (text_of 2 t @ k) + 3 \<le> n \<longrightarrow>
     (\<exists>c0 s0 c. parsepipe n (text_of 2 t @ k) = Ret (c0, s0) \<and> back_loop s0 c0 = back_loop k c \<and> map_cmd tok_str c = t))"

definition parses_line :: "u8 list cmd \<Rightarrow> bool" where
  "parses_line t \<longleftrightarrow> (\<forall>k n. stop line_stop k \<longrightarrow> 4 * length (text_of 3 t @ k) + 4 \<le> n \<longrightarrow>
     (\<exists>c. parseline n (text_of 3 t @ k) = Ret (c, k) \<and> map_cmd tok_str c = t))"

lemma clean_text: "cmd_ok t \<Longrightarrow> clean k \<Longrightarrow> clean (text_of lv t @ k)"
proof (induction t arbitrary: lv k)
  case (EXEC ws)
  then show ?case using clean_words [of ws k] by (simp add: words_text_def)
next
  case (REDIR t f m d)
  then show ?case by (cases "d = 0") simp_all
next
  case (PIPE l r)
  then show ?case by (cases "lv < 1") (simp_all add: paren_def)
next
  case (LIST l r)
  then show ?case by (cases "lv < 3") (simp_all add: paren_def)
next
  case (BACK t)
  then show ?case by (cases "lv < 2") (simp_all add: paren_def)
qed

lemma parses_exec_EXEC:
  assumes "cmd_ok (EXEC ws)"
  shows "parses_exec (EXEC ws)"
  unfolding parses_exec_def
proof (intro allI impI)
  fix rs k n
  assume rs: "\<forall>x \<in> set rs. redir_ok x" and k: "stop exec_stop k"
    and "4 * length (text_of 0 (EXEC ws) @ redirs_text rs @ k) + 2 \<le> n"
  then obtain n' where n: "n = Suc n'" by (cases n) auto
  let ?s = "words_text ws @ redirs_text rs @ k"
  have ws: "\<forall>w \<in> set ws. word_ok w" "length ws < MAXARGS" using assms by simp_all
  have cr: "clean (redirs_text rs @ k)" using clean_redirs stop_clean [OF k] .
  have cs: "clean ?s" using clean_words [OF ws(1) cr] .
  have head: "ch ?s \<noteq> 0x28 \<and> (ws \<noteq> [] \<longrightarrow> ch ?s \<notin> {0x3C, 0x3E})"
  proof (cases ws)
    case Nil
    then show ?thesis using k by (cases rs; cases k) (auto simp: words_text_def redirs_text_def stop_def split: prod.split)
  next
    case (Cons w vs)
    then have "word_ok w" using ws by simp
    then show ?thesis
      using gettoken_word(3) [of w "[]"] Cons by (cases w) (auto simp: words_text_simps word_ok_def clean_def symbols_def)
  qed
  have "\<exists>us0 s1. redir_loop ?s = Ret (us0, s1) \<and> (\<exists>ts us. exec_args s1 [] us0 = Ret (ts, us, k)
      \<and> map tok_str ts = ws \<and> map redir_str us = rs)"
  proof (cases "ws = []")
    case True
    obtain us where "redir_loop (redirs_text rs @ k) = Ret (us, k)" "map redir_str us = rs"
      using redir_loop_text [OF rs stop_clean [OF k] stop_no_redir [OF k]] by blast
    then show ?thesis using True exec_args_stop [OF k, of "[]" us] by (auto simp: words_text_simps)
  next
    case False
    then have "redir_loop ?s = Ret ([], ?s)" using head cs by (intro redir_loop_none) simp_all
    moreover obtain ts us where "exec_args ?s [] [] = Ret ([] @ ts, [] @ us, k)" "map tok_str ts = ws" "map redir_str us = rs"
      using exec_args_text [OF ws(1) False _ rs k, of "[]" "[]"] ws(2) by auto
    ultimately show ?thesis by (intro exI [of _ "[]"] exI [of _ ?s]) auto
  qed
  then obtain us0 s1 ts us where r: "redir_loop ?s = Ret (us0, s1)" "exec_args s1 [] us0 = Ret (ts, us, k)"
      "map tok_str ts = ws" "map redir_str us = rs" by blast
  have "peek ?s [0x28] = (False, ?s)" using peek_clean [OF cs, of "[0x28]"] head by simp
  then have "parseexec n ?s = Ret (foldl redircmd (EXEC ts) us, k)" using n r by simp
  then show "\<exists>c. parseexec n (text_of 0 (EXEC ws) @ redirs_text rs @ k) = Ret (c, k) \<and> map_cmd tok_str c = foldl uredir (EXEC ws) rs"
    using r(3,4) by (auto simp: words_text_def map_foldl_redir)
qed

lemma parses_exec_REDIR:
  assumes "parses_exec t" "redir_ok (f, m, d)"
  shows "parses_exec (REDIR t f m d)"
  unfolding parses_exec_def
proof (intro allI impI)
  fix rs k n
  assume rs: "\<forall>x \<in> set rs. redir_ok x" and k: "stop exec_stop k"
    and n: "4 * length (text_of 0 (REDIR t f m d) @ redirs_text rs @ k) + 2 \<le> n"
  have e: "text_of 0 (REDIR t f m d) @ redirs_text rs @ k = text_of 0 t @ redirs_text ((f, m, d) # rs) @ k"
    by (simp add: redirs_text_def)
  have "\<forall>x \<in> set ((f, m, d) # rs). redir_ok x" using rs assms(2) by simp
  then obtain c where "parseexec n (text_of 0 t @ redirs_text ((f, m, d) # rs) @ k) = Ret (c, k)"
      "map_cmd tok_str c = foldl uredir t ((f, m, d) # rs)"
    using assms(1) k n unfolding parses_exec_def e by blast
  then show "\<exists>c. parseexec n (text_of 0 (REDIR t f m d) @ redirs_text rs @ k) = Ret (c, k)
      \<and> map_cmd tok_str c = foldl uredir (REDIR t f m d) rs"
    unfolding e by (simp add: uredir_def)
qed

lemma parses_execD:
  assumes "parses_exec t" "stop exec_stop k" "4 * length (text_of 0 t @ k) + 2 \<le> n"
  obtains c where "parseexec n (text_of 0 t @ k) = Ret (c, k)" "map_cmd tok_str c = t"
  using assms(1) [unfolded parses_exec_def, rule_format, of "[]" k n] assms(2,3) by (auto simp: redirs_text_def)

lemma exec_to_pipe:
  assumes "parses_exec t" "text_of 1 t = text_of 0 t"
  shows "parses_pipe t"
  unfolding parses_pipe_def assms(2)
proof (intro allI impI)
  fix k n assume k: "stop pipe_stop k" and n: "4 * length (text_of 0 t @ k) + 3 \<le> n"
  then obtain n' where n': "n = Suc n'" "4 * length (text_of 0 t @ k) + 2 \<le> n'" by (cases n) auto
  have "stop exec_stop k" using k by (rule stop_mono) auto
  then obtain c where c: "parseexec n' (text_of 0 t @ k) = Ret (c, k)" "map_cmd tok_str c = t" using parses_execD [OF assms(1)] n'(2) by blast
  have "peek k [0x7C] = (False, k)" using peek_stop [OF k, of "[0x7C]"] k by (auto simp: stop_def)
  then show "\<exists>c. parsepipe n (text_of 0 t @ k) = Ret (c, k) \<and> map_cmd tok_str c = t" using c n'(1) by simp
qed

lemma parses_pipe_PIPE:
  assumes "parses_exec l" "parses_pipe r" "cmd_ok r"
  shows "parses_pipe (PIPE l r)"
  unfolding parses_pipe_def
proof (intro allI impI)
  fix k n assume k: "stop pipe_stop k" and n: "4 * length (text_of 1 (PIPE l r) @ k) + 3 \<le> n"
  let ?k = "text_of 1 r @ k"
  have e: "text_of 1 (PIPE l r) @ k = text_of 0 l @ 0x7C # 0x20 # ?k" by (simp add: paren_def)
  obtain n' where n': "n = Suc n'" "4 * length (text_of 0 l @ 0x7C # 0x20 # ?k) + 2 \<le> n'" "4 * length ?k + 3 \<le> n'"
    using n unfolding e by (cases n) auto
  obtain c where c: "parseexec n' (text_of 0 l @ 0x7C # 0x20 # ?k) = Ret (c, 0x7C # 0x20 # ?k)" "map_cmd tok_str c = l"
    using parses_execD [OF assms(1) _ n'(2)] stop_symbol [of "0x7C" exec_stop ?k] by auto
  obtain d where d: "parsepipe n' ?k = Ret (d, k)" "map_cmd tok_str d = r"
    using assms(2) k n'(3) unfolding parses_pipe_def by blast
  have "clean ?k" using clean_text [OF assms(3) stop_clean [OF k]] .
  then have "gettoken (0x7C # 0x20 # ?k) = (0x7C, 0x7C # 0x20 # ?k, 0x20 # ?k, ?k)" by (intro gettoken_symbol) simp_all
  moreover have "peek (0x7C # 0x20 # ?k) [0x7C] = (True, 0x7C # 0x20 # ?k)" by (subst peek_clean) simp_all
  ultimately have "parsepipe n (text_of 1 (PIPE l r) @ k) = Ret (PIPE c d, k)" unfolding e using c(1) d(1) n'(1) by simp
  then show "\<exists>c. parsepipe n (text_of 1 (PIPE l r) @ k) = Ret (c, k) \<and> map_cmd tok_str c = PIPE l r"
    using c(2) d(2) by auto
qed

lemma pipe_to_back: "parses_pipe t \<Longrightarrow> text_of 2 t = text_of 1 t \<Longrightarrow> parses_back t"
  unfolding parses_pipe_def parses_back_def by metis

lemma parses_back_BACK:
  assumes "parses_back t"
  shows "parses_back (BACK t)"
  unfolding parses_back_def
proof (intro allI impI)
  fix k n assume k: "stop pipe_stop k" and n: "4 * length (text_of 2 (BACK t) @ k) + 3 \<le> n"
  have e: "text_of 2 (BACK t) @ k = text_of 2 t @ 0x26 # 0x20 # k" by (simp add: paren_def)
  obtain c0 s0 c where c: "parsepipe n (text_of 2 t @ 0x26 # 0x20 # k) = Ret (c0, s0)"
      "back_loop s0 c0 = back_loop (0x26 # 0x20 # k) c" "map_cmd tok_str c = t"
    using assms n stop_symbol [of "0x26" pipe_stop k] unfolding parses_back_def e by blast
  have "gettoken (0x26 # 0x20 # k) = (0x26, 0x26 # 0x20 # k, 0x20 # k, k)" using stop_clean [OF k] by (intro gettoken_symbol) simp_all
  moreover have "peek (0x26 # 0x20 # k) [0x26] = (True, 0x26 # 0x20 # k)" by (subst peek_clean) simp_all
  ultimately have "back_loop (0x26 # 0x20 # k) c = back_loop k (BACK c)" by (subst back_loop.simps) simp
  then show "\<exists>c0 s0 c. parsepipe n (text_of 2 (BACK t) @ k) = Ret (c0, s0) \<and> back_loop s0 c0 = back_loop k c \<and> map_cmd tok_str c = BACK t"
    unfolding e using c by (intro exI [of _ c0] exI [of _ s0] exI [of _ "BACK c"]) simp
qed

lemma back_loop_stop: "stop {0x29, 0x3B} k \<Longrightarrow> back_loop k c = (c, k)"
  using peek_stop [of "{0x29, 0x3B}" k "[0x26]"] by (subst back_loop.simps) (auto simp: stop_def)

lemma back_to_line:
  assumes "parses_back t" "text_of 3 t = text_of 2 t"
  shows "parses_line t"
  unfolding parses_line_def assms(2)
proof (intro allI impI)
  fix k n assume k: "stop line_stop k" and n: "4 * length (text_of 2 t @ k) + 4 \<le> n"
  obtain n' where n': "n = Suc n'" "4 * length (text_of 2 t @ k) + 3 \<le> n'" using n by (cases n) auto
  have "stop pipe_stop k" "stop {0x29, 0x3B} k" by (rule stop_mono [OF k]; auto)+
  then obtain c0 s0 c where c: "parsepipe n' (text_of 2 t @ k) = Ret (c0, s0)" "back_loop s0 c0 = (c, k)" "map_cmd tok_str c = t"
    using assms(1) n'(2) back_loop_stop unfolding parses_back_def by metis
  have "peek k [0x3B] = (False, k)" using peek_stop [OF k, of "[0x3B]"] k by (auto simp: stop_def)
  then show "\<exists>c. parseline n (text_of 2 t @ k) = Ret (c, k) \<and> map_cmd tok_str c = t" using c n'(1) by simp
qed

lemma parses_line_LIST:
  assumes "parses_back l" "parses_line r" "cmd_ok r"
  shows "parses_line (LIST l r)"
  unfolding parses_line_def
proof (intro allI impI)
  fix k n assume k: "stop line_stop k" and n: "4 * length (text_of 3 (LIST l r) @ k) + 4 \<le> n"
  let ?k = "text_of 3 r @ k"
  have e: "text_of 3 (LIST l r) @ k = text_of 2 l @ 0x3B # 0x20 # ?k" by (simp add: paren_def)
  obtain n' where n': "n = Suc n'" "4 * length (text_of 2 l @ 0x3B # 0x20 # ?k) + 3 \<le> n'" "4 * length ?k + 4 \<le> n'"
    using n unfolding e by (cases n) auto
  have st: "stop pipe_stop (0x3B # 0x20 # ?k)" "stop {0x29, 0x3B} (0x3B # 0x20 # ?k)" by (simp_all add: stop_symbol)
  obtain c0 s0 c where c: "parsepipe n' (text_of 2 l @ 0x3B # 0x20 # ?k) = Ret (c0, s0)"
      "back_loop s0 c0 = (c, 0x3B # 0x20 # ?k)" "map_cmd tok_str c = l"
    using assms(1) n'(2) st(1) back_loop_stop [OF st(2)] unfolding parses_back_def by metis
  obtain d where d: "parseline n' ?k = Ret (d, k)" "map_cmd tok_str d = r"
    using assms(2) k n'(3) unfolding parses_line_def by blast
  have "clean ?k" using clean_text [OF assms(3) stop_clean [OF k]] .
  then have "gettoken (0x3B # 0x20 # ?k) = (0x3B, 0x3B # 0x20 # ?k, 0x20 # ?k, ?k)" by (intro gettoken_symbol) simp_all
  moreover have "peek (0x3B # 0x20 # ?k) [0x3B] = (True, 0x3B # 0x20 # ?k)" by (subst peek_clean) simp_all
  ultimately have "parseline n (text_of 3 (LIST l r) @ k) = Ret (LIST c d, k)" unfolding e using c(1,2) d(1) n'(1) by simp
  then show "\<exists>c. parseline n (text_of 3 (LIST l r) @ k) = Ret (c, k) \<and> map_cmd tok_str c = LIST l r"
    using c(3) d(2) by auto
qed

lemma line_to_exec:
  assumes "parses_line t" "cmd_ok t" "text_of 0 t = paren True (text_of 3 t)"
  shows "parses_exec t"
  unfolding parses_exec_def assms(3)
proof (intro allI impI)
  fix rs k n
  assume rs: "\<forall>x \<in> set rs. redir_ok x" and k: "stop exec_stop k"
    and n: "4 * length (paren True (text_of 3 t) @ redirs_text rs @ k) + 2 \<le> n"
  let ?r = "redirs_text rs @ k"
  let ?k = "0x29 # 0x20 # ?r"
  let ?l = "text_of 3 t @ ?k"
  have e: "paren True (text_of 3 t) @ ?r = 0x28 # 0x20 # ?l" by (simp add: paren_def)
  obtain n' where n': "n = Suc (Suc n')" "4 * length ?l + 4 \<le> n'" using n unfolding e by (cases n; cases "n - 1") auto
  obtain c where c: "parseline n' ?l = Ret (c, ?k)" "map_cmd tok_str c = t"
    using assms(1) n'(2) stop_symbol [of "0x29" line_stop ?r] unfolding parses_line_def by blast
  obtain us where us: "redir_loop ?r = Ret (us, k)" "map redir_str us = rs"
    using redir_loop_text [OF rs stop_clean [OF k] stop_no_redir [OF k]] by blast
  have "clean ?r" using clean_redirs stop_clean [OF k] .
  then have g1: "gettoken ?k = (0x29, ?k, 0x20 # ?r, ?r)" by (intro gettoken_symbol) simp_all
  have "clean ?l" using clean_text [OF assms(2), of ?k] by simp
  then have g2: "gettoken (0x28 # 0x20 # ?l) = (0x28, 0x28 # 0x20 # ?l, 0x20 # ?l, ?l)" by (intro gettoken_symbol) simp_all
  have p: "peek (0x28 # 0x20 # ?l) [0x28] = (True, 0x28 # 0x20 # ?l)" "peek ?k [0x29] = (True, ?k)" by (subst peek_clean; simp)+
  have "parseexec n (0x28 # 0x20 # ?l) = Ret (foldl redircmd c us, k)"
    using p g1 g2 c(1) us(1) n'(1) by (simp add: parseredirs_def)
  then show "\<exists>c. parseexec n (paren True (text_of 3 t) @ redirs_text rs @ k) = Ret (c, k) \<and> map_cmd tok_str c = foldl uredir t rs"
    unfolding e using c(2) us(2) by (auto simp: map_foldl_redir)
qed

lemma from_exec:
  assumes "parses_exec t" "text_of 1 t = text_of 0 t" "text_of 2 t = text_of 1 t" "text_of 3 t = text_of 2 t"
  shows "parses_exec t \<and> parses_pipe t \<and> parses_back t \<and> parses_line t"
  using back_to_line [OF pipe_to_back [OF exec_to_pipe [OF assms(1,2)] assms(3)] assms(4)] pipe_to_back [OF exec_to_pipe [OF assms(1,2)] assms(3)]
    exec_to_pipe [OF assms(1,2)] assms(1) by blast

lemma parses_all: "cmd_ok t \<Longrightarrow> parses_exec t \<and> parses_pipe t \<and> parses_back t \<and> parses_line t"
proof (induction t)
  case (EXEC ws)
  then have "parses_exec (EXEC ws)" by (rule parses_exec_EXEC)
  then show ?case using from_exec [of "EXEC ws"] by simp
next
  case (REDIR t f m d)
  then have "parses_exec (REDIR t f m d)" by (intro parses_exec_REDIR) simp_all
  then show ?case using from_exec [of "REDIR t f m d"] by simp
next
  case (PIPE l r)
  then have "parses_pipe (PIPE l r)" by (intro parses_pipe_PIPE) simp_all
  moreover from this have "parses_back (PIPE l r)" by (rule pipe_to_back) (simp add: paren_def)
  moreover from this have "parses_line (PIPE l r)" by (rule back_to_line) (simp add: paren_def)
  moreover from this have "parses_exec (PIPE l r)" using PIPE.prems by (intro line_to_exec) (simp_all add: paren_def)
  ultimately show ?case by blast
next
  case (LIST l r)
  then have l: "parses_line (LIST l r)" by (intro parses_line_LIST) simp_all
  then have "parses_exec (LIST l r)" using LIST.prems by (intro line_to_exec) (simp_all add: paren_def)
  moreover from this have "parses_pipe (LIST l r)" by (rule exec_to_pipe) (simp add: paren_def)
  moreover from this have "parses_back (LIST l r)" by (rule pipe_to_back) (simp add: paren_def)
  ultimately show ?case using l by blast
next
  case (BACK t)
  then have b: "parses_back (BACK t)" by (intro parses_back_BACK) simp_all
  then have l: "parses_line (BACK t)" by (rule back_to_line) (simp add: paren_def)
  then have "parses_exec (BACK t)" using BACK.prems by (intro line_to_exec) (simp_all add: paren_def)
  moreover from this have "parses_pipe (BACK t)" by (rule exec_to_pipe) (simp add: paren_def)
  ultimately show ?case using l b by blast
qed

section \<open>Property\<close>

text \<open>
  C11: the shell parses the text of a command back to that command. For every tree of lists, pipes, background
  commands, redirections and simple commands of at most nine words, \<^verbatim>\<open>parsecmd()\<close> of its text, with parentheses
  where precedence needs them, returns that tree.
\<close>

theorem parsecmd_text_of:
  assumes "cmd_ok t"
  shows "\<exists>c buf. parsecmd (text_of 3 t) = Ret (c, buf) \<and> map_cmd tok_str c = t"
proof -
  have "stop line_stop []" by (simp add: stop_def clean_def)
  then obtain c where c: "parseline (4 * length (text_of 3 t) + 4) (text_of 3 t @ []) = Ret (c, [])" "map_cmd tok_str c = t"
    using parses_all [OF assms] unfolding parses_line_def by (metis append_Nil2 order_refl)
  have "peek [] [] = (False, [])" by (simp add: peek_def skip_white_def)
  then show ?thesis using c by (simp add: parsecmd_def)
qed

theorem parsecmd_text_of_witness:
  "\<exists>c buf. parsecmd [0x6C, 0x73, 0x20, 0x7C, 0x20, 0x77, 0x63, 0x20, 0x3E, 0x20, 0x66, 0x20, 0x26, 0x20] = Ret (c, buf)
     \<and> map_cmd tok_str c = BACK (PIPE (EXEC [[0x6C, 0x73]]) (REDIR (EXEC [[0x77, 0x63]]) [0x66] 0x201 1))"
proof -
  let ?t = "BACK (PIPE (EXEC [[0x6C, 0x73]]) (REDIR (EXEC [[0x77, 0x63]]) [0x66] 0x201 1))"
  have "cmd_ok ?t" by (simp add: word_ok_def redir_ok_def whitespace_def symbols_def)
  from parsecmd_text_of [OF this] show ?thesis by (simp add: paren_def)
qed

end
