(* ===== verification/Mp.thy ===== *)
theory Mp
  imports Proc
begin

text \<open>
  The multiprocessor tables of the BIOS (mp.c, mp.h) and the interrupt controllers (lapic.c, ioapic.c,
  picirq.c). The registers of the I/O APIC are a map; writes to the local APIC and to ports are recorded
  in order. What a device answers is an argument. \<open>ncpu\<close> is the length of \<open>apicids\<close>.
\<close>

record mp_st = proc_st +
  lapic :: u32
  ioapicid :: u8
  ioregs :: "u32 \<Rightarrow> u32"
  lapic_writes :: "(u32 \<times> u32) list"
  port_writes :: "(u16 \<times> u8) list"

abbreviation (input) NCPU :: nat where "NCPU \<equiv> 8"
abbreviation (input) MPPROC :: u8 where "MPPROC \<equiv> 0"
abbreviation (input) MPBUS :: u8 where "MPBUS \<equiv> 1"
abbreviation (input) MPIOAPIC :: u8 where "MPIOAPIC \<equiv> 2"
abbreviation (input) MPIOINTR :: u8 where "MPIOINTR \<equiv> 3"
abbreviation (input) MPLINTR :: u8 where "MPLINTR \<equiv> 4"

definition outb :: "u16 \<Rightarrow> u8 \<Rightarrow> 'a mp_st_scheme \<Rightarrow> 'a mp_st_scheme" where
  "outb port v s = s\<lparr>port_writes := port_writes s @ [(port, v)]\<rparr>"

section \<open>Structures in memory\<close>

definition load16 :: "memory \<Rightarrow> u32 \<Rightarrow> u16" where
  "load16 m a = ucast (m a) OR push_bit 8 (ucast (m (a + 1)))"

definition mp_physaddr :: "memory \<Rightarrow> u32 \<Rightarrow> u32" where "mp_physaddr m p = load32 m (p + 4)"
definition mp_imcrp :: "memory \<Rightarrow> u32 \<Rightarrow> u8" where "mp_imcrp m p = m (p + 12)"
definition conf_length :: "memory \<Rightarrow> u32 \<Rightarrow> u16" where "conf_length m p = load16 m (p + 4)"
definition conf_version :: "memory \<Rightarrow> u32 \<Rightarrow> u8" where "conf_version m p = m (p + 6)"
definition conf_lapicaddr :: "memory \<Rightarrow> u32 \<Rightarrow> u32" where "conf_lapicaddr m p = load32 m (p + 36)"

fun sum_loop :: "memory \<Rightarrow> u32 \<Rightarrow> nat \<Rightarrow> u32 \<Rightarrow> u32" where
  "sum_loop m addr 0 acc = acc"
| "sum_loop m addr (Suc n) acc = sum_loop m (addr + 1) n (acc + ucast (m addr))"

definition sum :: "memory \<Rightarrow> u32 \<Rightarrow> nat \<Rightarrow> u8" where
  "sum m addr len = ucast (sum_loop m addr len 0)"

section \<open>Searching\<close>

definition is_mp :: "memory \<Rightarrow> u32 \<Rightarrow> bool" where
  "is_mp m p \<longleftrightarrow> bytes_at m p 4 = [0x5F, 0x4D, 0x50, 0x5F] \<and> sum m p 16 = 0"

function mpsearch1_loop :: "memory \<Rightarrow> u32 \<Rightarrow> u32 \<Rightarrow> u32 res" where
  "mpsearch1_loop m p e =
     (if p < e
      then if is_mp m p then Ret p
        else if p + 16 \<le> p then Fault
        else mpsearch1_loop m (p + 16) e
      else Ret 0)"
  by pat_completeness auto
termination
  by (relation "measure (\<lambda>(m, p, e). 2 ^ 32 - unat p)") (auto simp: not_le word_less_nat_alt unat_lt32 diff_less_mono2)

declare mpsearch1_loop.simps [simp del]

definition mpsearch1 :: "memory \<Rightarrow> u32 \<Rightarrow> u32 \<Rightarrow> u32 res" where
  "mpsearch1 m a len = (let addr = P2V a in mpsearch1_loop m addr (addr + len))"

definition mpsearch :: "memory \<Rightarrow> u32 res" where
  "mpsearch m =
     (let bda = P2V 0x400;
          p = push_bit 4 (push_bit 8 (ucast (m (bda + 0x0F))) OR ucast (m (bda + 0x0E)))
      in bind_res
           (if p \<noteq> 0 then mpsearch1 m p 1024
            else let p = (push_bit 8 (ucast (m (bda + 0x14))) OR ucast (m (bda + 0x13))) * 1024
                 in mpsearch1 m (p - 1024) 1024)
           (\<lambda>mp. if mp \<noteq> 0 then Ret mp else mpsearch1 m 0xF0000 0x10000))"

definition mpconfig :: "memory \<Rightarrow> (u32 \<times> u32) option res" where
  "mpconfig m =
     bind_res (mpsearch m) (\<lambda>mp.
       if mp = 0 \<or> mp_physaddr m mp = 0 then Ret None
       else let conf = P2V (mp_physaddr m mp) in
         if bytes_at m conf 4 \<noteq> [0x50, 0x43, 0x4D, 0x50] then Ret None
         else if conf_version m conf \<noteq> 1 \<and> conf_version m conf \<noteq> 4 then Ret None
         else if sum m conf (unat (conf_length m conf)) \<noteq> 0 then Ret None
         else Ret (Some (conf, mp)))"

text \<open>
  The loop over the entries of the table. An entry of unknown type sets \<^verbatim>\<open>ismp\<close> and leaves the
  \<^verbatim>\<open>switch\<close>, but not the loop, and \<^verbatim>\<open>p\<close> stays where it is: the loop never ends. So \<^verbatim>\<open>ismp\<close> is still
  1 whenever the loop is left.
\<close>

function mpinit_loop :: "u32 \<Rightarrow> u32 \<Rightarrow> 'a mp_st_scheme \<Rightarrow> 'a mp_st_scheme res" where
  "mpinit_loop p e s =
     (if p < e
      then let t = mem s p in
        if t = MPPROC
        then if p + 20 \<le> p then Fault
          else mpinit_loop (p + 20) e (if length (apicids s) < NCPU then s\<lparr>apicids := apicids s @ [mem s (p + 1)]\<rparr> else s)
        else if t = MPIOAPIC
        then if p + 8 \<le> p then Fault else mpinit_loop (p + 8) e (s\<lparr>ioapicid := mem s (p + 1)\<rparr>)
        else if t = MPBUS \<or> t = MPIOINTR \<or> t = MPLINTR
        then if p + 8 \<le> p then Fault else mpinit_loop (p + 8) e s
        else Diverge
      else Ret s)"
  by pat_completeness auto
termination
  by (relation "measure (\<lambda>(p, e, s). 2 ^ 32 - unat p)") (auto simp: not_le word_less_nat_alt unat_lt32 diff_less_mono2)

declare mpinit_loop.simps [simp del]

definition mpinit :: "'a mp_st_scheme \<Rightarrow> u8 \<Rightarrow> 'a mp_st_scheme res" where
  "mpinit s imcr =
     bind_res (mpconfig (mem s)) (\<lambda>r. case r of
        None \<Rightarrow> Panic ''Expect to run on an SMP''
      | Some (conf, mp) \<Rightarrow>
          bind_res (mpinit_loop (conf + 44) (conf + ucast (conf_length (mem s) conf))
              (s\<lparr>lapic := conf_lapicaddr (mem s) conf\<rparr>)) (\<lambda>s.
            Ret (if mp_imcrp (mem s) mp \<noteq> 0 then outb 0x23 (imcr OR 1) (outb 0x22 0x70 s) else s)))"

section \<open>I/O APIC\<close>

definition ioapicread :: "'a mp_st_scheme \<Rightarrow> u32 \<Rightarrow> u32" where
  "ioapicread s reg = ioregs s reg"

definition ioapicwrite :: "u32 \<Rightarrow> u32 \<Rightarrow> 'a mp_st_scheme \<Rightarrow> 'a mp_st_scheme" where
  "ioapicwrite reg data s = s\<lparr>ioregs := (ioregs s)(reg := data)\<rparr>"

fun ioapicinit_loop :: "u32 \<Rightarrow> nat \<Rightarrow> 'a mp_st_scheme \<Rightarrow> 'a mp_st_scheme" where
  "ioapicinit_loop i 0 s = s"
| "ioapicinit_loop i (Suc n) s =
     ioapicinit_loop (i + 1) n (ioapicwrite (0x10 + 2 * i + 1) 0 (ioapicwrite (0x10 + 2 * i) (0x10000 OR (T_IRQ0 + i)) s))"

definition ioapicinit :: "'a mp_st_scheme \<Rightarrow> 'a mp_st_scheme" where
  "ioapicinit s =
     (let maxintr = drop_bit 16 (ioapicread s 1) AND 0xFF
      in ioapicinit_loop 0 (Suc (unat maxintr)) s)"

definition ioapicenable :: "u32 \<Rightarrow> u32 \<Rightarrow> 'a mp_st_scheme \<Rightarrow> 'a mp_st_scheme" where
  "ioapicenable irq cpunum s =
     ioapicwrite (0x10 + 2 * irq + 1) (push_bit 24 cpunum) (ioapicwrite (0x10 + 2 * irq) (T_IRQ0 + irq) s)"

definition picinit :: "'a mp_st_scheme \<Rightarrow> 'a mp_st_scheme" where
  "picinit s = outb 0xA1 0xFF (outb 0x21 0xFF s)"

section \<open>Local APIC\<close>

text \<open>Register indices as in lapic.c: the offset divided by four.\<close>

definition lapicw :: "u32 \<Rightarrow> u32 \<Rightarrow> 'a mp_st_scheme \<Rightarrow> 'a mp_st_scheme" where
  "lapicw index v s = s\<lparr>lapic_writes := lapic_writes s @ [(index, v)]\<rparr>"

text \<open>\<open>ver\<close> is the version register. The wait for delivery of the last command is over at once or never.\<close>

definition lapicinit :: "u32 \<Rightarrow> bool \<Rightarrow> 'a mp_st_scheme \<Rightarrow> 'a mp_st_scheme res" where
  "lapicinit ver delivered s =
     (if lapic s = 0 then Ret s
      else let s = lapicw 0x3C (0x100 OR (T_IRQ0 + 31)) s;
               s = lapicw 0xF8 0xB s;
               s = lapicw 0xC8 (0x20000 OR (T_IRQ0 + 0)) s;
               s = lapicw 0xE0 10000000 s;
               s = lapicw 0xD4 0x10000 s;
               s = lapicw 0xD8 0x10000 s;
               s = (if (drop_bit 16 ver AND 0xFF) \<ge> 4 then lapicw 0xD0 0x10000 s else s);
               s = lapicw 0xDC (T_IRQ0 + 19) s;
               s = lapicw 0xA0 0 s;
               s = lapicw 0xA0 0 s;
               s = lapicw 0x2C 0 s;
               s = lapicw 0xC4 0 s;
               s = lapicw 0xC0 (0x80000 OR 0x500 OR 0x8000) s
           in if delivered then Ret (lapicw 0x20 0 s) else Diverge)"

definition lapicid :: "u32 \<Rightarrow> 'a mp_st_scheme \<Rightarrow> u32" where
  "lapicid idreg s = (if lapic s = 0 then 0 else drop_bit 24 idreg)"

definition lapiceoi :: "'a mp_st_scheme \<Rightarrow> 'a mp_st_scheme" where
  "lapiceoi s = (if lapic s \<noteq> 0 then lapicw 0x2C 0 s else s)"

definition lapicstartap :: "u8 \<Rightarrow> u32 \<Rightarrow> 'a mp_st_scheme \<Rightarrow> 'a mp_st_scheme" where
  "lapicstartap apicid addr s =
     (let s = outb 0x71 0x0A (outb 0x70 0xF s);
          wrv = P2V (push_bit 4 0x40 OR 0x67);
          v = ucast (drop_bit 4 addr) :: u16;
          s = s\<lparr>mem := (mem s)(wrv := 0, wrv + 1 := 0, wrv + 2 := ucast v, wrv + 3 := ucast (drop_bit 8 v))\<rparr>;
          s = lapicw 0xC4 (push_bit 24 (ucast apicid)) s;
          s = lapicw 0xC0 (0x500 OR 0x8000 OR 0x4000) s;
          s = lapicw 0xC0 (0x500 OR 0x8000) s;
          s = lapicw 0xC0 (0x600 OR drop_bit 12 addr) (lapicw 0xC4 (push_bit 24 (ucast apicid)) s)
      in lapicw 0xC0 (0x600 OR drop_bit 12 addr) (lapicw 0xC4 (push_bit 24 (ucast apicid)) s))"

section \<open>Real-time clock\<close>

record rtcdate =
  second :: u32
  minute :: u32
  hour :: u32
  day :: u32
  month :: u32
  year :: u32

text \<open>One round of reading the clock: the registers twice, and status A between the two.\<close>

fun cmos_sample :: "(rtcdate \<times> u8 \<times> rtcdate) list \<Rightarrow> rtcdate res" where
  "cmos_sample [] = Diverge"
| "cmos_sample ((t1, stata, t2) # rs) =
     (if stata AND 0x80 \<noteq> 0 then cmos_sample rs else if t1 = t2 then Ret t1 else cmos_sample rs)"

definition conv_bcd :: "u32 \<Rightarrow> u32" where
  "conv_bcd x = drop_bit 4 x * 10 + (x AND 0xF)"

definition cmostime :: "u8 \<Rightarrow> (rtcdate \<times> u8 \<times> rtcdate) list \<Rightarrow> rtcdate res" where
  "cmostime sb rs =
     bind_res (cmos_sample rs) (\<lambda>t1.
       let t1 = (if sb AND 4 = 0
           then \<lparr>second = conv_bcd (second t1), minute = conv_bcd (minute t1), hour = conv_bcd (hour t1),
             day = conv_bcd (day t1), month = conv_bcd (month t1), year = conv_bcd (year t1)\<rparr>
           else t1)
       in Ret (t1\<lparr>year := year t1 + 2000\<rparr>))"

section \<open>Tables\<close>

text \<open>
  \<open>laid m p e es q\<close>: the entries \<open>es\<close> (type and id) of the table that ends at \<open>e\<close> lie in memory one after
  the other from \<open>p\<close> on, up to \<open>q\<close>.
\<close>

definition entry_size :: "u8 \<Rightarrow> u32" where
  "entry_size t = (if t = MPPROC then 20 else 8)"

fun laid :: "memory \<Rightarrow> u32 \<Rightarrow> u32 \<Rightarrow> (u8 \<times> u8) list \<Rightarrow> u32 \<Rightarrow> bool" where
  "laid m p e [] q \<longleftrightarrow> q = p"
| "laid m p e ((t, i) # es) q \<longleftrightarrow> p < e \<and> m p = t \<and> m (p + 1) = i \<and> t \<le> 4 \<and> p < p + entry_size t
     \<and> laid m (p + entry_size t) e es q"

definition add_entry :: "'a mp_st_scheme \<Rightarrow> u8 \<times> u8 \<Rightarrow> 'a mp_st_scheme" where
  "add_entry s = (\<lambda>(t, i).
     if t = MPPROC then if length (apicids s) < NCPU then s\<lparr>apicids := apicids s @ [i]\<rparr> else s
     else if t = MPIOAPIC then s\<lparr>ioapicid := i\<rparr> else s)"

lemma add_entry_frame [simp]:
  "mem (add_entry s x) = mem s" "lapic (add_entry s x) = lapic s"
  by (simp_all add: add_entry_def split: prod.split)

lemma foldl_add_entry_frame [simp]:
  "mem (foldl add_entry s es) = mem s" "lapic (foldl add_entry s es) = lapic s"
  by (induction es arbitrary: s) simp_all

lemma le4_cases: "(t :: u8) \<le> 4 \<Longrightarrow> t = 0 \<or> t = 1 \<or> t = 2 \<or> t = 3 \<or> t = 4"
  by (auto simp: word_le_nat_alt word_unat_eq_iff)


lemma mpinit_loop_unknown:
  assumes "q < e" "4 < mem s q"
  shows "mpinit_loop q e s = Diverge"
  using assms by (subst mpinit_loop.simps) (auto simp: Let_def)

lemma mpinit_loop_entries: "laid (mem s) p e es q \<Longrightarrow> mpinit_loop p e s = mpinit_loop q e (foldl add_entry s es)"
proof (induction es arbitrary: s p)
  case (Cons x es)
  obtain t i where x: "x = (t, i)" by fastforce
  have l: "p < e" "mem s p = t" "mem s (p + 1) = i" "t \<le> 4" "p < p + entry_size t"
      "laid (mem (add_entry s x)) (p + entry_size t) e es q"
    using Cons.prems x by simp_all
  have "mpinit_loop p e s = mpinit_loop (p + entry_size t) e (add_entry s x)"
    using le4_cases [OF l(4)] l(1-3) l(5) [folded not_le] unfolding mpinit_loop.simps [of p e s] x
    by (elim disjE) (auto simp: add_entry_def entry_size_def)
  also have "\<dots> = mpinit_loop q e (foldl add_entry (add_entry s x) es)" by (rule Cons.IH [OF l(6)])
  finally show ?case by simp
qed simp


text \<open>A table with one entry of type \<open>t\<close>.\<close>

definition mp_demo :: "u8 \<Rightarrow> u8 \<Rightarrow> u8 \<Rightarrow> memory" where
  "mp_demo t l c = (\<lambda>_. 0)(0x8000040F := 0x90, 0x80090000 := 0x5F, 0x80090001 := 0x4D, 0x80090002 := 0x50, 0x80090003 := 0x5F,
     0x80090004 := 0x10, 0x80090006 := 0x09, 0x8009000A := 0x8C,
     0x80090010 := 0x50, 0x80090011 := 0x43, 0x80090012 := 0x4D, 0x80090013 := 0x50, 0x80090014 := l, 0x80090016 := 1,
     0x80090017 := c, 0x8009003C := t, 0x8009003D := 3)"


lemma sum_loop_numeral [simp]:
  "sum_loop m a (numeral k) acc = sum_loop m (a + 1) (pred_numeral k) (acc + ucast (m a))"
  by (simp add: numeral_eq_Suc)

lemma mp_demo_search: "mpsearch (mp_demo t l c) = Ret 0x80090000"
  by (simp add: mpsearch_def mpsearch1_def mpsearch1_loop.simps is_mp_def mp_demo_def sum_def bytes_at_def P2V_def upt_rec)

lemma mp_demo_conf:
  "mpconfig (mp_demo 0 64 140) = Ret (Some (0x80090010, 0x80090000))"
  "mpconfig (mp_demo 5 52 147) = Ret (Some (0x80090010, 0x80090000))"
  unfolding mpconfig_def mp_demo_search
  by (simp_all add: mp_demo_def sum_def bytes_at_def P2V_def upt_rec mp_physaddr_def load32_def conf_version_def conf_length_def load16_def)

section \<open>Properties\<close>



text \<open>
  An entry of unknown type in the table makes \<^verbatim>\<open>mpinit()\<close> run forever; the panic meant for this case is never reached.
\<close>

lemma mpinit_unknown_entry_diverges:
  assumes "mpconfig (mem s) = Ret (Some (conf, mp))"
    and "laid (mem s) (conf + 44) (conf + ucast (conf_length (mem s) conf)) es q" "q < conf + ucast (conf_length (mem s) conf)"
    and "mem s q > 4"
  shows "mpinit s imcr = Diverge"
proof -
  let ?s = "s\<lparr>lapic := conf_lapicaddr (mem s) conf\<rparr>"
  let ?e = "conf + ucast (conf_length (mem s) conf)"
  have "mpinit_loop (conf + 44) ?e ?s = mpinit_loop q ?e (foldl add_entry ?s es)"
    using assms(2) by (intro mpinit_loop_entries) simp
  also have "\<dots> = Diverge" using assms(3,4) by (intro mpinit_loop_unknown) simp_all
  finally show ?thesis using assms(1) by (simp add: mpinit_def)
qed

lemma mpinit_unknown_entry_diverges_witness:
  "\<exists>s :: mp_st. mem s = mp_demo 5 52 147 \<and> mpinit s 0 = Diverge"
proof -
  obtain s0 :: mp_st where True by blast
  let ?s = "s0\<lparr>mem := mp_demo 5 52 147\<rparr>"
  have c: "mpconfig (mem ?s) = Ret (Some (0x80090010, 0x80090000))" by (simp add: mp_demo_conf)
  have l: "laid (mem ?s) (0x80090010 + 44) (0x80090010 + ucast (conf_length (mem ?s) 0x80090010)) [] 0x8009003C" by simp
  have "mpinit ?s 0 = Diverge"
    using mpinit_unknown_entry_diverges [OF c l, of 0] by (simp add: mp_demo_def conf_length_def load16_def)
  then show ?thesis by (intro exI [of _ ?s]) simp
qed

end
