(* ===== verification/Fs.thy ===== *)
theory Fs
  imports Log
begin

text \<open>
  Blocks, inodes and their content (fs.c). A \<^verbatim>\<open>struct inode *\<close> is an index into the inode cache,
  null is \<open>None\<close>. \<^verbatim>\<open>icache.lock\<close> makes the bookkeeping of references atomic. \<open>readi\<close> returns the
  bytes that the code copies to \<^verbatim>\<open>dst\<close>, \<open>writei\<close> takes the bytes at \<^verbatim>\<open>src\<close>, so that the callers decide
  whether they are in user memory or on the kernel stack.
\<close>

abbreviation (input) NINODE :: nat where "NINODE \<equiv> 50"
abbreviation (input) NDEV :: nat where "NDEV \<equiv> 10"
abbreviation (input) NDIRECT :: nat where "NDIRECT \<equiv> 12"
abbreviation (input) NINDIRECT :: nat where "NINDIRECT \<equiv> 128"
abbreviation (input) MAXFILE :: nat where "MAXFILE \<equiv> 140"
abbreviation (input) BPB :: nat where "BPB \<equiv> 4096"
abbreviation (input) IPB :: u32 where "IPB \<equiv> 8"
abbreviation (input) ROOTDEV :: u32 where "ROOTDEV \<equiv> 1"
abbreviation (input) ROOTINO :: u32 where "ROOTINO \<equiv> 1"
abbreviation (input) T_DIR :: u16 where "T_DIR \<equiv> 1"
abbreviation (input) T_FILE :: u16 where "T_FILE \<equiv> 2"
abbreviation (input) T_DEV :: u16 where "T_DEV \<equiv> 3"

section \<open>State\<close>

record inode =
  i_dev :: u32
  i_inum :: u32
  i_ref :: u32
  i_lock :: sleeplock
  i_valid :: u32
  i_type :: u16
  i_major :: u16
  i_minor :: u16
  i_nlink :: u16
  i_size :: u32
  i_addrs :: "u32 list"

record fs_st = log_st +
  icache :: "inode list"
  sb :: superblock

definition set_inode :: "nat \<Rightarrow> (inode \<Rightarrow> inode) \<Rightarrow> 'a fs_st_scheme \<Rightarrow> 'a fs_st_scheme" where
  "set_inode i f s = s\<lparr>icache := (icache s)[i := f (icache s ! i)]\<rparr>"

definition IBLOCK :: "u32 \<Rightarrow> superblock \<Rightarrow> u32" where
  "IBLOCK i b = i div IPB + sb_inodestart b"

definition BBLOCK :: "u32 \<Rightarrow> superblock \<Rightarrow> u32" where
  "BBLOCK n b = n div of_nat BPB + sb_bmapstart b"

section \<open>Blocks\<close>

definition bzero :: "'a fs_st_scheme \<Rightarrow> u32 \<Rightarrow> u32 \<Rightarrow> 'a fs_st_scheme res" where
  "bzero s dev bno =
     bind_res (bread s dev bno) (\<lambda>(bp, s).
       bind_res (log_write (set_buf bp (\<lambda>x. x\<lparr>b_data := replicate BSIZE 0\<rparr>) s) bp) (\<lambda>s. brelse s bp))"

text \<open>The search of one bitmap block: \<open>bi\<close> counts the bits of the block that starts at block number \<open>b\<close>.\<close>

fun find_free_bit :: "u8 list \<Rightarrow> nat \<Rightarrow> u32 \<Rightarrow> nat \<Rightarrow> nat \<Rightarrow> nat option" where
  "find_free_bit bs b nb bi 0 = None"
| "find_free_bit bs b nb bi (Suc n) =
     (if \<not> of_nat (b + bi) < nb then None
      else if bs ! (bi div 8) AND push_bit (bi mod 8) 1 = 0 then Some bi
      else find_free_bit bs b nb (Suc bi) n)"

definition set_bit_at :: "nat \<Rightarrow> u8 list \<Rightarrow> u8 list" where
  "set_bit_at bi bs = bs[bi div 8 := bs ! (bi div 8) OR push_bit (bi mod 8) 1]"

definition clear_bit_at :: "nat \<Rightarrow> u8 list \<Rightarrow> u8 list" where
  "clear_bit_at bi bs = bs[bi div 8 := bs ! (bi div 8) AND NOT (push_bit (bi mod 8) 1)]"

fun balloc_loop :: "'a fs_st_scheme \<Rightarrow> u32 \<Rightarrow> nat \<Rightarrow> nat \<Rightarrow> (u32 \<times> 'a fs_st_scheme) res" where
  "balloc_loop s dev b 0 = Panic ''balloc: out of blocks''"
| "balloc_loop s dev b (Suc n) =
     bind_res (bread s dev (BBLOCK (of_nat b) (sb s))) (\<lambda>(bp, s).
       case find_free_bit (b_data (bcache s ! bp)) b (sb_size (sb s)) 0 BPB of
         Some bi \<Rightarrow>
           bind_res (log_write (set_buf bp (\<lambda>x. x\<lparr>b_data := set_bit_at bi (b_data x)\<rparr>) s) bp) (\<lambda>s.
             bind_res (brelse s bp) (\<lambda>s.
               bind_res (bzero s dev (of_nat (b + bi))) (\<lambda>s. Ret (of_nat (b + bi), s))))
       | None \<Rightarrow> bind_res (brelse s bp) (\<lambda>s. balloc_loop s dev (b + BPB) n))"

definition balloc :: "'a fs_st_scheme \<Rightarrow> u32 \<Rightarrow> (u32 \<times> 'a fs_st_scheme) res" where
  "balloc s dev = balloc_loop s dev 0 ((unat (sb_size (sb s)) + 4095) div BPB)"

definition bfree :: "'a fs_st_scheme \<Rightarrow> u32 \<Rightarrow> u32 \<Rightarrow> 'a fs_st_scheme res" where
  "bfree s dev b =
     bind_res (bread s dev (BBLOCK b (sb s))) (\<lambda>(bp, s).
       let bi = unat b mod BPB; d = b_data (bcache s ! bp) in
       if d ! (bi div 8) AND push_bit (bi mod 8) 1 = 0 then Panic ''freeing free block''
       else bind_res (log_write (set_buf bp (\<lambda>x. x\<lparr>b_data := clear_bit_at bi d\<rparr>) s) bp) (\<lambda>s. brelse s bp))"

section \<open>Inodes\<close>

definition iinit :: "'a fs_st_scheme \<Rightarrow> u32 \<Rightarrow> 'a fs_st_scheme res" where
  "iinit s dev =
     (let s = s\<lparr>icache := map (\<lambda>ip. ip\<lparr>i_lock := initsleeplock (i_lock ip) ''inode''\<rparr>) (icache s)\<rparr> in
      bind_res (readsb s dev) (\<lambda>(b, s). Ret (s\<lparr>sb := b\<rparr>)))"

fun find_inode :: "inode list \<Rightarrow> u32 \<Rightarrow> u32 \<Rightarrow> nat \<Rightarrow> nat option" where
  "find_inode [] dev inum i = None"
| "find_inode (ip # ips) dev inum i =
     (if 0 <s i_ref ip \<and> i_dev ip = dev \<and> i_inum ip = inum then Some i else find_inode ips dev inum (Suc i))"

fun find_empty :: "inode list \<Rightarrow> nat \<Rightarrow> nat option" where
  "find_empty [] i = None"
| "find_empty (ip # ips) i = (if i_ref ip = 0 then Some i else find_empty ips (Suc i))"

definition iget :: "'a fs_st_scheme \<Rightarrow> u32 \<Rightarrow> u32 \<Rightarrow> (nat \<times> 'a fs_st_scheme) res" where
  "iget s dev inum =
     (case find_inode (icache s) dev inum 0 of
        Some ip \<Rightarrow> Ret (ip, set_inode ip (\<lambda>x. x\<lparr>i_ref := i_ref x + 1\<rparr>) s)
      | None \<Rightarrow>
          (case find_empty (icache s) 0 of
             None \<Rightarrow> Panic ''iget: no inodes''
           | Some ip \<Rightarrow> Ret (ip, set_inode ip (\<lambda>x. x\<lparr>i_dev := dev, i_inum := inum, i_ref := 1, i_valid := 0\<rparr>) s)))"

definition idup :: "'a fs_st_scheme \<Rightarrow> nat \<Rightarrow> nat \<times> 'a fs_st_scheme" where
  "idup s ip = (ip, set_inode ip (\<lambda>x. x\<lparr>i_ref := i_ref x + 1\<rparr>) s)"

definition zero_dinode :: dinode where
  "zero_dinode = \<lparr>d_type = 0, d_major = 0, d_minor = 0, d_nlink = 0, d_size = 0, d_addrs = replicate 13 0\<rparr>"

text \<open>Offset of an inode in its block: \<^verbatim>\<open>(struct dinode*)bp->data + inum%IPB\<close>.\<close>

definition dip_off :: "u32 \<Rightarrow> nat" where
  "dip_off inum = 64 * unat (inum mod IPB)"

fun ialloc_loop :: "'a fs_st_scheme \<Rightarrow> u32 \<Rightarrow> u16 \<Rightarrow> nat \<Rightarrow> nat \<Rightarrow> (nat \<times> 'a fs_st_scheme) res" where
  "ialloc_loop s dev type inum 0 = Panic ''ialloc: no inodes''"
| "ialloc_loop s dev type inum (Suc n) =
     bind_res (bread s dev (IBLOCK (of_nat inum) (sb s))) (\<lambda>(bp, s).
       let k = dip_off (of_nat inum); d = b_data (bcache s ! bp) in
       if d_type (get_dinode d k) = 0
       then bind_res (log_write (set_buf bp (\<lambda>x. x\<lparr>b_data := put_dinode d k (zero_dinode\<lparr>d_type := type\<rparr>)\<rparr>) s) bp) (\<lambda>s.
         bind_res (brelse s bp) (\<lambda>s. iget s dev (of_nat inum)))
       else bind_res (brelse s bp) (\<lambda>s. ialloc_loop s dev type (Suc inum) n))"

definition ialloc :: "'a fs_st_scheme \<Rightarrow> u32 \<Rightarrow> u16 \<Rightarrow> (nat \<times> 'a fs_st_scheme) res" where
  "ialloc s dev type = ialloc_loop s dev type 1 (unat (sb_ninodes (sb s)) - 1)"

definition inode_image :: "inode \<Rightarrow> dinode" where
  "inode_image ip = \<lparr>d_type = i_type ip, d_major = i_major ip, d_minor = i_minor ip, d_nlink = i_nlink ip,
     d_size = i_size ip, d_addrs = i_addrs ip\<rparr>"

definition iupdate :: "'a fs_st_scheme \<Rightarrow> nat \<Rightarrow> 'a fs_st_scheme res" where
  "iupdate s ip =
     (let i = icache s ! ip in
      bind_res (bread s (i_dev i) (IBLOCK (i_inum i) (sb s))) (\<lambda>(bp, s).
        let s = set_buf bp (\<lambda>x. x\<lparr>b_data := put_dinode (b_data x) (dip_off (i_inum i)) (inode_image i)\<rparr>) s in
        bind_res (log_write s bp) (\<lambda>s. brelse s bp)))"

definition ilock :: "'a fs_st_scheme \<Rightarrow> nat option \<Rightarrow> 'a fs_st_scheme res" where
  "ilock s ipo =
     (case ipo of
        None \<Rightarrow> Panic ''ilock''
      | Some ip \<Rightarrow>
          if i_ref (icache s ! ip) <s 1 then Panic ''ilock''
          else bind_res (acquiresleep (curpid s) (i_lock (icache s ! ip))) (\<lambda>lk.
            let s = set_inode ip (\<lambda>x. x\<lparr>i_lock := lk\<rparr>) s; i = icache s ! ip in
            if i_valid i = 0
            then bind_res (bread s (i_dev i) (IBLOCK (i_inum i) (sb s))) (\<lambda>(bp, s).
              let d = get_dinode (b_data (bcache s ! bp)) (dip_off (i_inum i));
                  s = set_inode ip (\<lambda>x. x\<lparr>i_type := d_type d, i_major := d_major d, i_minor := d_minor d,
                        i_nlink := d_nlink d, i_size := d_size d, i_addrs := d_addrs d\<rparr>) s
              in bind_res (brelse s bp) (\<lambda>s.
                let s = set_inode ip (\<lambda>x. x\<lparr>i_valid := 1\<rparr>) s in
                if i_type (icache s ! ip) = 0 then Panic ''ilock: no type'' else Ret s))
            else Ret s))"

definition iunlock :: "'a fs_st_scheme \<Rightarrow> nat option \<Rightarrow> 'a fs_st_scheme res" where
  "iunlock s ipo =
     (case ipo of
        None \<Rightarrow> Panic ''iunlock''
      | Some ip \<Rightarrow>
          if \<not> holdingsleep (curpid s) (i_lock (icache s ! ip)) \<or> i_ref (icache s ! ip) <s 1 then Panic ''iunlock''
          else let (lk, s) = releasesleep (InodeLockChan ip) (i_lock (icache s ! ip)) s
               in Ret (set_inode ip (\<lambda>x. x\<lparr>i_lock := lk\<rparr>) s))"

section \<open>Content\<close>

definition bmap :: "'a fs_st_scheme \<Rightarrow> nat \<Rightarrow> u32 \<Rightarrow> (u32 \<times> 'a fs_st_scheme) res" where
  "bmap s ip bn =
     (let dev = i_dev (icache s ! ip) in
      if bn < of_nat NDIRECT
      then let addr = i_addrs (icache s ! ip) ! unat bn in
        if addr = 0
        then bind_res (balloc s dev) (\<lambda>(addr, s).
          Ret (addr, set_inode ip (\<lambda>x. x\<lparr>i_addrs := (i_addrs x)[unat bn := addr]\<rparr>) s))
        else Ret (addr, s)
      else let bn = bn - of_nat NDIRECT in
        if bn < of_nat NINDIRECT
        then let addr = i_addrs (icache s ! ip) ! NDIRECT in
          bind_res (if addr = 0
              then bind_res (balloc s dev) (\<lambda>(addr, s).
                Ret (addr, set_inode ip (\<lambda>x. x\<lparr>i_addrs := (i_addrs x)[NDIRECT := addr]\<rparr>) s))
              else Ret (addr, s)) (\<lambda>(addr, s).
            bind_res (bread s dev addr) (\<lambda>(bp, s).
              let addr = get32 (b_data (bcache s ! bp)) (4 * unat bn) in
              bind_res (if addr = 0
                  then bind_res (balloc s dev) (\<lambda>(addr, s).
                    bind_res (log_write (set_buf bp (\<lambda>x. x\<lparr>b_data := put32 (b_data x) (4 * unat bn) addr\<rparr>) s) bp)
                      (\<lambda>s. Ret (addr, s)))
                  else Ret (addr, s)) (\<lambda>(addr, s).
                bind_res (brelse s bp) (\<lambda>s. Ret (addr, s)))))
        else Panic ''bmap: out of range'')"

fun itrunc_direct :: "'a fs_st_scheme \<Rightarrow> nat \<Rightarrow> nat \<Rightarrow> nat \<Rightarrow> 'a fs_st_scheme res" where
  "itrunc_direct s ip i 0 = Ret s"
| "itrunc_direct s ip i (Suc n) =
     (let a = i_addrs (icache s ! ip) ! i in
      if a \<noteq> 0
      then bind_res (bfree s (i_dev (icache s ! ip)) a) (\<lambda>s.
        itrunc_direct (set_inode ip (\<lambda>x. x\<lparr>i_addrs := (i_addrs x)[i := 0]\<rparr>) s) ip (Suc i) n)
      else itrunc_direct s ip (Suc i) n)"

fun itrunc_indirect :: "'a fs_st_scheme \<Rightarrow> nat \<Rightarrow> nat \<Rightarrow> nat \<Rightarrow> nat \<Rightarrow> 'a fs_st_scheme res" where
  "itrunc_indirect s ip bp j 0 = Ret s"
| "itrunc_indirect s ip bp j (Suc n) =
     (let a = get32 (b_data (bcache s ! bp)) (4 * j) in
      if a \<noteq> 0
      then bind_res (bfree s (i_dev (icache s ! ip)) a) (\<lambda>s. itrunc_indirect s ip bp (Suc j) n)
      else itrunc_indirect s ip bp (Suc j) n)"

definition itrunc :: "'a fs_st_scheme \<Rightarrow> nat \<Rightarrow> 'a fs_st_scheme res" where
  "itrunc s ip =
     bind_res (itrunc_direct s ip 0 NDIRECT) (\<lambda>s.
       let a = i_addrs (icache s ! ip) ! NDIRECT; dev = i_dev (icache s ! ip) in
       bind_res (if a \<noteq> 0
           then bind_res (bread s dev a) (\<lambda>(bp, s).
             bind_res (itrunc_indirect s ip bp 0 NINDIRECT) (\<lambda>s.
               bind_res (brelse s bp) (\<lambda>s.
                 bind_res (bfree s dev a) (\<lambda>s.
                   Ret (set_inode ip (\<lambda>x. x\<lparr>i_addrs := (i_addrs x)[NDIRECT := 0]\<rparr>) s)))))
           else Ret s) (\<lambda>s.
         iupdate (set_inode ip (\<lambda>x. x\<lparr>i_size := 0\<rparr>) s) ip))"

definition iput :: "'a fs_st_scheme \<Rightarrow> nat \<Rightarrow> 'a fs_st_scheme res" where
  "iput s ip =
     bind_res (acquiresleep (curpid s) (i_lock (icache s ! ip))) (\<lambda>lk.
       let s = set_inode ip (\<lambda>x. x\<lparr>i_lock := lk\<rparr>) s; i = icache s ! ip in
       bind_res (if i_valid i \<noteq> 0 \<and> i_nlink i = 0 \<and> i_ref i = 1
           then bind_res (itrunc s ip) (\<lambda>s.
             bind_res (iupdate (set_inode ip (\<lambda>x. x\<lparr>i_type := 0\<rparr>) s) ip) (\<lambda>s.
               Ret (set_inode ip (\<lambda>x. x\<lparr>i_valid := 0\<rparr>) s)))
           else Ret s) (\<lambda>s.
         let (lk, s) = releasesleep (InodeLockChan ip) (i_lock (icache s ! ip)) s;
             s = set_inode ip (\<lambda>x. x\<lparr>i_lock := lk\<rparr>) s
         in Ret (set_inode ip (\<lambda>x. x\<lparr>i_ref := i_ref x - 1\<rparr>) s)))"

definition iunlockput :: "'a fs_st_scheme \<Rightarrow> nat \<Rightarrow> 'a fs_st_scheme res" where
  "iunlockput s ip = bind_res (iunlock s (Some ip)) (\<lambda>s. iput s ip)"

record stat =
  st_type :: u16
  st_dev :: u32
  st_ino :: u32
  st_nlink :: u16
  st_size :: u32

definition stati :: "inode \<Rightarrow> stat" where
  "stati ip = \<lparr>st_type = i_type ip, st_dev = i_dev ip, st_ino = i_inum ip, st_nlink = i_nlink ip, st_size = i_size ip\<rparr>"

section \<open>Reading and writing\<close>

text \<open>
  The device table \<^verbatim>\<open>devsw\<close> is an argument: the functions it holds belong to the device drivers.
\<close>

record 'a devsw =
  dev_read :: "'a \<Rightarrow> nat \<Rightarrow> u32 \<Rightarrow> (u32 \<times> u8 list \<times> 'a) res"
  dev_write :: "'a \<Rightarrow> nat \<Rightarrow> u8 list \<Rightarrow> u32 \<Rightarrow> (u32 \<times> 'a) res"

type_synonym 'a devtab = "u16 \<Rightarrow> 'a devsw option"

definition no_devices :: "'a devtab" where
  "no_devices = (\<lambda>_. None)"

definition find_dev :: "'a devtab \<Rightarrow> u16 \<Rightarrow> 'a devsw option" where
  "find_dev tab major = (if major <s 0 \<or> of_nat NDEV <=s major then None else tab major)"

text \<open>One round of the loops copies \<open>io_chunk off r\<close> of the \<open>r\<close> bytes left, up to the end of a block.\<close>

definition io_chunk :: "u32 \<Rightarrow> u32 \<Rightarrow> u32" where
  "io_chunk off r = min r (of_nat BSIZE - off mod of_nat BSIZE)"

lemma io_chunk_pos: "0 < r \<Longrightarrow> 0 < io_chunk off r"
proof -
  assume r: "0 < r"
  have "off mod 512 < (512 :: u32)"
    by (simp add: word_less_nat_alt unat_mod)
  then have "0 < 512 - off mod (512 :: u32)" by (simp add: word_neq_0_conv [symmetric])
  then show ?thesis using r by (simp add: io_chunk_def min_def)
qed

lemma io_chunk_le: "io_chunk off r \<le> r"
  by (simp add: io_chunk_def)

lemma unat_io_chunk_less: "0 < r \<Longrightarrow> unat (r - io_chunk off r) < unat r"
proof -
  assume r: "0 < r"
  have "unat (r - io_chunk off r) = unat r - unat (io_chunk off r)" by (rule unat_sub) (rule io_chunk_le)
  moreover have "0 < unat (io_chunk off r)" using io_chunk_pos [OF r] by (simp add: word_less_nat_alt)
  moreover have "0 < unat r" using r by (simp add: word_less_nat_alt)
  ultimately show ?thesis by simp
qed

function readi_loop :: "'a fs_st_scheme \<Rightarrow> nat \<Rightarrow> u32 \<Rightarrow> u32 \<Rightarrow> u8 list \<Rightarrow> (u8 list \<times> 'a fs_st_scheme) res" where
  "readi_loop s ip off r acc =
     (if 0 < r
      then bind_res (bmap s ip (off div of_nat BSIZE)) (\<lambda>(addr, s).
        bind_res (bread s (i_dev (icache s ! ip)) addr) (\<lambda>(bp, s).
          let m = io_chunk off r;
              xs = take (unat m) (drop (unat (off mod of_nat BSIZE)) (b_data (bcache s ! bp)))
          in bind_res (brelse s bp) (\<lambda>s. readi_loop s ip (off + m) (r - m) (acc @ xs))))
      else Ret (acc, s))"
  by pat_completeness auto
termination
  by (relation "measure (\<lambda>(s, ip, off, r, acc). unat r)") (auto simp: unat_io_chunk_less)

declare readi_loop.simps [simp del]

definition readi ::
  "'a fs_st_scheme devtab \<Rightarrow> 'a fs_st_scheme \<Rightarrow> nat \<Rightarrow> u32 \<Rightarrow> u32 \<Rightarrow> (u32 \<times> u8 list \<times> 'a fs_st_scheme) res" where
  "readi devs s ip off n =
     (let i = icache s ! ip in
      if i_type i = T_DEV
      then case find_dev devs (i_major i) of None \<Rightarrow> Ret (- 1, [], s) | Some d \<Rightarrow> dev_read d s ip n
      else if off > i_size i \<or> off + n < off then Ret (- 1, [], s)
      else let n = (if off + n > i_size i then i_size i - off else n) in
        bind_res (readi_loop s ip off n []) (\<lambda>(xs, s). Ret (n, xs, s)))"

function writei_loop :: "'a fs_st_scheme \<Rightarrow> nat \<Rightarrow> u8 list \<Rightarrow> u32 \<Rightarrow> u32 \<Rightarrow> (u32 \<times> 'a fs_st_scheme) res" where
  "writei_loop s ip src off r =
     (if 0 < r
      then bind_res (bmap s ip (off div of_nat BSIZE)) (\<lambda>(addr, s).
        bind_res (bread s (i_dev (icache s ! ip)) addr) (\<lambda>(bp, s).
          let m = io_chunk off r;
              s = set_buf bp (\<lambda>x. x\<lparr>b_data := splice (b_data x) (unat (off mod of_nat BSIZE)) (take (unat m) src)\<rparr>) s
          in bind_res (log_write s bp) (\<lambda>s.
            bind_res (brelse s bp) (\<lambda>s. writei_loop s ip (drop (unat m) src) (off + m) (r - m)))))
      else Ret (off, s))"
  by pat_completeness auto
termination
  by (relation "measure (\<lambda>(s, ip, src, off, r). unat r)") (auto simp: unat_io_chunk_less)

declare writei_loop.simps [simp del]

definition writei ::
  "'a fs_st_scheme devtab \<Rightarrow> 'a fs_st_scheme \<Rightarrow> nat \<Rightarrow> u8 list \<Rightarrow> u32 \<Rightarrow> u32 \<Rightarrow> (u32 \<times> 'a fs_st_scheme) res" where
  "writei devs s ip src off n =
     (let i = icache s ! ip in
      if i_type i = T_DEV
      then case find_dev devs (i_major i) of None \<Rightarrow> Ret (- 1, s) | Some d \<Rightarrow> dev_write d s ip src n
      else if off > i_size i \<or> off + n < off then Ret (- 1, s)
      else if off + n > of_nat (MAXFILE * BSIZE) then Ret (- 1, s)
      else bind_res (writei_loop s ip src off n) (\<lambda>(off, s).
        if 0 < n \<and> off > i_size (icache s ! ip)
        then bind_res (iupdate (set_inode ip (\<lambda>x. x\<lparr>i_size := off\<rparr>) s) ip) (\<lambda>s. Ret (n, s))
        else Ret (n, s)))"

end
