(* ===== verification/Dir.thy ===== *)
theory Dir
  imports Fs
begin

text \<open>
  Directories and path names (fs.c). A path is the list of its bytes without the terminator. An
  element name is the 14-byte array the code uses, not terminated when all 14 bytes are in use.
  Directory inodes are not devices, so \<open>readi\<close> and \<open>writei\<close> are called with an empty device table.
\<close>

abbreviation (input) DIRSIZ :: nat where "DIRSIZ \<equiv> 14"
abbreviation (input) slash :: u8 where "slash \<equiv> 0x2F"

section \<open>Names\<close>

text \<open>A C string as a list: reading at its end finds the terminator.\<close>

definition cat :: "u8 list \<Rightarrow> nat \<Rightarrow> u8" where
  "cat xs i = (if i < length xs then xs ! i else 0)"

fun strncmp_bytes :: "nat \<Rightarrow> u8 list \<Rightarrow> u8 list \<Rightarrow> nat \<Rightarrow> u32" where
  "strncmp_bytes 0 p q i = 0"
| "strncmp_bytes (Suc n) p q i =
     (if cat p i \<noteq> 0 \<and> cat p i = cat q i then strncmp_bytes n p q (Suc i)
      else ucast (cat p i) - ucast (cat q i))"

definition namecmp :: "u8 list \<Rightarrow> u8 list \<Rightarrow> u32" where
  "namecmp s t = strncmp_bytes DIRSIZ s t 0"

text \<open>\<^verbatim>\<open>strncpy\<close> into an array of \<open>n\<close> bytes: the string up to its terminator, padded with zeros.\<close>

definition strncpy_bytes :: "nat \<Rightarrow> u8 list \<Rightarrow> u8 list" where
  "strncpy_bytes n t = (let u = take n (takeWhile (\<lambda>c. c \<noteq> 0) t) in u @ replicate (n - length u) 0)"

section \<open>Directory entries\<close>

record dirent =
  de_inum :: u16
  de_name :: "u8 list"

definition get_dirent :: "u8 list \<Rightarrow> dirent" where
  "get_dirent bs = \<lparr>de_inum = get16 bs 0, de_name = take DIRSIZ (drop 2 bs)\<rparr>"

definition put_dirent :: "dirent \<Rightarrow> u8 list" where
  "put_dirent de = [ucast (de_inum de), ucast (drop_bit 8 (de_inum de))] @ de_name de"

text \<open>The loops over a directory go through its entries, 16 bytes each, while the offset is below its size.\<close>

definition dir_slots :: "u32 \<Rightarrow> nat" where
  "dir_slots nbytes = (unat nbytes + 15) div 16"

fun dirlookup_loop :: "'a fs_st_scheme \<Rightarrow> nat \<Rightarrow> u8 list \<Rightarrow> u32 \<Rightarrow> nat \<Rightarrow> ((nat \<times> u32) option \<times> 'a fs_st_scheme) res" where
  "dirlookup_loop s dp name off 0 = Ret (None, s)"
| "dirlookup_loop s dp name off (Suc n) =
     bind_res (readi no_devices s dp off 16) (\<lambda>(r, bs, s).
       if r \<noteq> 16 then Panic ''dirlookup read''
       else let de = get_dirent bs in
         if de_inum de = 0 then dirlookup_loop s dp name (off + 16) n
         else if namecmp name (de_name de) = 0
         then bind_res (iget s (i_dev (icache s ! dp)) (ucast (de_inum de))) (\<lambda>(ip, s). Ret (Some (ip, off), s))
         else dirlookup_loop s dp name (off + 16) n)"

definition dirlookup :: "'a fs_st_scheme \<Rightarrow> nat \<Rightarrow> u8 list \<Rightarrow> ((nat \<times> u32) option \<times> 'a fs_st_scheme) res" where
  "dirlookup s dp name =
     (if i_type (icache s ! dp) \<noteq> T_DIR then Panic ''dirlookup not DIR''
      else dirlookup_loop s dp name 0 (dir_slots (i_size (icache s ! dp))))"

fun find_slot :: "'a fs_st_scheme \<Rightarrow> nat \<Rightarrow> u32 \<Rightarrow> nat \<Rightarrow> (u32 \<times> 'a fs_st_scheme) res" where
  "find_slot s dp off 0 = Ret (off, s)"
| "find_slot s dp off (Suc n) =
     bind_res (readi no_devices s dp off 16) (\<lambda>(r, bs, s).
       if r \<noteq> 16 then Panic ''dirlink read''
       else if de_inum (get_dirent bs) = 0 then Ret (off, s)
       else find_slot s dp (off + 16) n)"

definition dirlink :: "'a fs_st_scheme \<Rightarrow> nat \<Rightarrow> u8 list \<Rightarrow> u32 \<Rightarrow> (u32 \<times> 'a fs_st_scheme) res" where
  "dirlink s dp name inum =
     bind_res (dirlookup s dp name) (\<lambda>(r, s).
       case r of
         Some (ip, _) \<Rightarrow> bind_res (iput s ip) (\<lambda>s. Ret (- 1, s))
       | None \<Rightarrow>
           bind_res (find_slot s dp 0 (dir_slots (i_size (icache s ! dp)))) (\<lambda>(off, s).
             let de = \<lparr>de_inum = ucast inum, de_name = strncpy_bytes DIRSIZ name\<rparr> in
             bind_res (writei no_devices s dp (put_dirent de) off 16) (\<lambda>(r, s).
               if r \<noteq> 16 then Panic ''dirlink'' else Ret (0, s))))"

section \<open>Paths\<close>

definition skipelem :: "u8 list \<Rightarrow> u8 list \<Rightarrow> (u8 list \<times> u8 list) option" where
  "skipelem path name =
     (let path = dropWhile (\<lambda>c. c = slash) path in
      if path = [] then None
      else let elem = takeWhile (\<lambda>c. c \<noteq> slash) path;
               path = dropWhile (\<lambda>c. c \<noteq> slash) path;
               name = (if length elem \<ge> DIRSIZ then splice name 0 (take DIRSIZ elem) else splice name 0 (elem @ [0]))
           in Some (dropWhile (\<lambda>c. c = slash) path, name))"

lemma dropWhile_elem_shorter:
  assumes "dropWhile P xs \<noteq> []"
  shows "length (dropWhile P (dropWhile (\<lambda>c. \<not> P c) (dropWhile P xs))) < length xs"
proof -
  obtain c r where c: "dropWhile P xs = c # r" using assms by (cases "dropWhile P xs") auto
  then have "\<not> P c" by (metis assms hd_dropWhile list.sel(1))
  then have "dropWhile (\<lambda>c. \<not> P c) (c # r) = dropWhile (\<lambda>c. \<not> P c) r" by simp
  then have "length (dropWhile P (dropWhile (\<lambda>c. \<not> P c) (dropWhile P xs))) \<le> length r"
    unfolding c by (metis length_dropWhile_le le_trans)
  also have "\<dots> < length (dropWhile P xs)" unfolding c by simp
  also have "\<dots> \<le> length xs" by (rule length_dropWhile_le)
  finally show ?thesis .
qed

lemma skipelem_shorter: "skipelem path name = Some (path', name') \<Longrightarrow> length path' < length path"
  using dropWhile_elem_shorter [of "\<lambda>c. c = slash" path] by (simp add: skipelem_def Let_def split: if_splits)

text \<open>The loop of \<^verbatim>\<open>namex\<close> starts with the inode \<open>ip\<close>; the final name is returned with the result.\<close>

function namex_loop ::
  "'a fs_st_scheme \<Rightarrow> nat \<Rightarrow> u8 list \<Rightarrow> bool \<Rightarrow> u8 list \<Rightarrow> (nat option \<times> u8 list \<times> 'a fs_st_scheme) res" where
  "namex_loop s ip path nameiparent name =
     (case skipelem path name of
        None \<Rightarrow>
          if nameiparent then bind_res (iput s ip) (\<lambda>s. Ret (None, name, s)) else Ret (Some ip, name, s)
      | Some (path', name') \<Rightarrow>
          bind_res (ilock s (Some ip)) (\<lambda>s.
            if i_type (icache s ! ip) \<noteq> T_DIR then bind_res (iunlockput s ip) (\<lambda>s. Ret (None, name', s))
            else if nameiparent \<and> path' = [] then bind_res (iunlock s (Some ip)) (\<lambda>s. Ret (Some ip, name', s))
            else bind_res (dirlookup s ip name') (\<lambda>(r, s).
              case r of
                None \<Rightarrow> bind_res (iunlockput s ip) (\<lambda>s. Ret (None, name', s))
              | Some (nxt, _) \<Rightarrow> bind_res (iunlockput s ip) (\<lambda>s. namex_loop s nxt path' nameiparent name'))))"
  by pat_completeness auto
termination
  by (relation "measure (\<lambda>(s, ip, path, np, name). length path)") (auto dest: skipelem_shorter)

declare namex_loop.simps [simp del]

definition namex ::
  "'a fs_st_scheme \<Rightarrow> u8 list \<Rightarrow> bool \<Rightarrow> u8 list \<Rightarrow> (nat option \<times> u8 list \<times> 'a fs_st_scheme) res" where
  "namex s path nameiparent name =
     bind_res (if path \<noteq> [] \<and> hd path = slash then iget s ROOTDEV ROOTINO
         else case cpu_proc s (this_cpu s) of
           None \<Rightarrow> Fault
         | Some p \<Rightarrow> (case cwd (ptable s ! p) of None \<Rightarrow> Fault | Some d \<Rightarrow> Ret (idup s d))) (\<lambda>(ip, s).
       namex_loop s ip path nameiparent name)"

definition namei :: "'a fs_st_scheme \<Rightarrow> u8 list \<Rightarrow> (nat option \<times> 'a fs_st_scheme) res" where
  "namei s path = bind_res (namex s path False (replicate DIRSIZ 0)) (\<lambda>(ip, name, s). Ret (ip, s))"

definition nameiparent :: "'a fs_st_scheme \<Rightarrow> u8 list \<Rightarrow> u8 list \<Rightarrow> (nat option \<times> u8 list \<times> 'a fs_st_scheme) res" where
  "nameiparent s path name = namex s path True name"

end
