(* ===== verification/Console.thy ===== *)
theory Console
  imports Dir
begin

text \<open>
  The console (console.c): formatted output, the screen, line editing of the keyboard input and the
  console device. The screen memory \<^verbatim>\<open>crt\<close> and the cursor register of the display controller are
  part of the state, and \<open>uart_out\<close> collects the bytes given to the serial port. \<^verbatim>\<open>cons.lock\<close>
  makes each operation atomic.
\<close>

abbreviation (input) BACKSPACE :: u32 where "BACKSPACE \<equiv> 0x100"
abbreviation (input) INPUT_BUF :: u32 where "INPUT_BUF \<equiv> 128"
abbreviation (input) newline :: u32 where "newline \<equiv> 0x0A"
abbreviation (input) ctrl_D :: u32 where "ctrl_D \<equiv> 0x04"
abbreviation (input) ctrl_H :: u32 where "ctrl_H \<equiv> 0x08"
abbreviation (input) ctrl_P :: u32 where "ctrl_P \<equiv> 0x10"
abbreviation (input) ctrl_U :: u32 where "ctrl_U \<equiv> 0x15"

record cons_st = fs_st +
  panicked :: bool
  crt :: "int \<Rightarrow> u16"
  crt_pos :: int
  uart_out :: "u8 list"
  in_buf :: "u8 list"
  in_r :: u32
  in_w :: u32
  in_e :: u32

section \<open>Output\<close>

text \<open>\<open>crt_pos\<close> is the 16-bit cursor register. Cells are written by their index in \<^verbatim>\<open>crt\<close>.\<close>

definition cgaputc :: "'a cons_st_scheme \<Rightarrow> u32 \<Rightarrow> 'a cons_st_scheme res" where
  "cgaputc s c =
     (let pos = crt_pos s;
          (m, pos) = (if c = newline then (crt s, pos + (80 - pos mod 80))
                      else if c = BACKSPACE then (crt s, if pos > 0 then pos - 1 else pos)
                      else ((crt s)(pos := ucast (c AND 0xFF) OR 0x0700), pos + 1))
      in if pos < 0 \<or> pos > 25 * 80 then Panic ''pos under/overflow''
         else let (m, pos) = (if pos div 80 \<ge> 24
                    then (let m1 = (\<lambda>i. if 0 \<le> i \<and> i < 23 * 80 then m (i + 80) else m i); pos = pos - 80
                          in (\<lambda>i. if pos \<le> i \<and> i < 24 * 80 then 0 else m1 i, pos))
                    else (m, pos))
              in Ret (s\<lparr>crt_pos := pos, crt := m(pos := 0x20 OR 0x0700)\<rparr>))"

definition uartputc :: "'a cons_st_scheme \<Rightarrow> u32 \<Rightarrow> 'a cons_st_scheme" where
  "uartputc s c = s\<lparr>uart_out := uart_out s @ [ucast c]\<rparr>"

definition consputc :: "'a cons_st_scheme \<Rightarrow> u32 \<Rightarrow> 'a cons_st_scheme res" where
  "consputc s c =
     (if panicked s then Diverge
      else let s = (if c = BACKSPACE then uartputc (uartputc (uartputc s 8) 0x20) 8 else uartputc s c)
           in cgaputc s c)"

fun consputs :: "'a cons_st_scheme \<Rightarrow> u32 list \<Rightarrow> 'a cons_st_scheme res" where
  "consputs s [] = Ret s"
| "consputs s (c # cs) = bind_res (consputc s c) (\<lambda>s. consputs s cs)"

text \<open>\<^verbatim>\<open>printint\<close> fills a buffer from the low digit on and prints it backwards.\<close>

definition digit :: "u32 \<Rightarrow> u32" where
  "digit d = (if d < 10 then 0x30 + d else 0x61 + (d - 10))"

function int_digits :: "u32 \<Rightarrow> u32 \<Rightarrow> u32 list" where
  "int_digits base x =
     (if base < 2 then [] else digit (x mod base) # (if x div base \<noteq> 0 then int_digits base (x div base) else []))"
  by pat_completeness auto
termination
proof (relation "measure (\<lambda>(base, x). unat x)", goal_cases)
  case (2 base x)
  then have b: "2 \<le> unat base" by (simp add: word_less_nat_alt)
  have "0 < unat (x div base)" using 2 by (simp add: unat_gt_0)
  then have x: "0 < unat x" by (metis div_0 not_gr_zero unat_div)
  have "unat x div unat base < unat x" using b x by (intro div_less_dividend) auto
  then show ?case by (simp add: unat_div)
qed simp

declare int_digits.simps [simp del]

definition printint_chars :: "u32 \<Rightarrow> u32 \<Rightarrow> bool \<Rightarrow> u32 list" where
  "printint_chars xx base sg =
     (let neg = (sg \<and> xx <s 0); x = (if neg then - xx else xx); buf = int_digits base x
      in rev (if neg then buf @ [0x2D] else buf))"

definition printint :: "'a cons_st_scheme \<Rightarrow> u32 \<Rightarrow> u32 \<Rightarrow> bool \<Rightarrow> 'a cons_st_scheme res" where
  "printint s xx base sg = consputs s (printint_chars xx base sg)"

text \<open>
  The arguments of \<^verbatim>\<open>cprintf\<close>: numbers, and strings by their bytes or null. Reading an argument
  that was not passed, or one of the other kind, is a \<open>Fault\<close>.
\<close>

datatype fmt_arg = Num u32 | Str "u8 list option"

fun cprintf_loop :: "'a cons_st_scheme \<Rightarrow> u8 list \<Rightarrow> fmt_arg list \<Rightarrow> 'a cons_st_scheme res" where
  "cprintf_loop s [] as = Ret s"
| "cprintf_loop s [c] as = (if c = 0x25 then Ret s else consputc s (ucast c))"
| "cprintf_loop s (c # d # fmt) as =
     (if c \<noteq> 0x25 then bind_res (consputc s (ucast c)) (\<lambda>s. cprintf_loop s (d # fmt) as)
      else if d = 0x64
      then (case as of Num x # as \<Rightarrow> bind_res (printint s x 10 True) (\<lambda>s. cprintf_loop s fmt as) | _ \<Rightarrow> Fault)
      else if d = 0x78 \<or> d = 0x70
      then (case as of Num x # as \<Rightarrow> bind_res (printint s x 16 False) (\<lambda>s. cprintf_loop s fmt as) | _ \<Rightarrow> Fault)
      else if d = 0x73
      then (case as of
          Str t # as \<Rightarrow>
            bind_res (consputs s (map ucast (case t of None \<Rightarrow> [0x28, 0x6E, 0x75, 0x6C, 0x6C, 0x29] | Some t \<Rightarrow> t)))
              (\<lambda>s. cprintf_loop s fmt as)
        | _ \<Rightarrow> Fault)
      else if d = 0x25 then bind_res (consputc s 0x25) (\<lambda>s. cprintf_loop s fmt as)
      else bind_res (consputc s 0x25) (\<lambda>s. bind_res (consputc s (ucast d)) (\<lambda>s. cprintf_loop s fmt as)))"

definition cprintf :: "'a cons_st_scheme \<Rightarrow> u8 list option \<Rightarrow> fmt_arg list \<Rightarrow> 'a cons_st_scheme res" where
  "cprintf s fmt as = (case fmt of None \<Rightarrow> Panic ''null fmt'' | Some f \<Rightarrow> cprintf_loop s f as)"

section \<open>Input\<close>

definition in_at :: "'a cons_st_scheme \<Rightarrow> u32 \<Rightarrow> u8" where
  "in_at s i = in_buf s ! unat (i mod INPUT_BUF)"

function kill_line :: "'a cons_st_scheme \<Rightarrow> u32 \<Rightarrow> nat \<Rightarrow> u32 \<times> nat" where
  "kill_line s e n =
     (if e \<noteq> in_w s \<and> in_at s (e - 1) \<noteq> ucast newline then kill_line s (e - 1) (Suc n) else (e, n))"
  by pat_completeness auto
termination
proof (relation "measure (\<lambda>(s, e, n). unat (e - in_w s))", goal_cases)
  case (2 s e n)
  then have nz: "e - in_w s \<noteq> 0" by simp
  have "e - 1 - in_w s = e - in_w s - 1" by simp
  then have "unat (e - 1 - in_w s) = unat (e - in_w s) - 1" using unat_minus_one [OF nz] by (simp only:)
  moreover have "0 < unat (e - in_w s)" using nz unat_gt_0 [of "e - in_w s"] by blast
  ultimately show ?case by simp
qed simp

declare kill_line.simps [simp del]

text \<open>One character: \<open>dump\<close> is the flag \<^verbatim>\<open>doprocdump\<close>.\<close>

definition console_char :: "'a cons_st_scheme \<Rightarrow> u32 \<Rightarrow> bool \<Rightarrow> (bool \<times> 'a cons_st_scheme) res" where
  "console_char s c dump =
     (if c = ctrl_P then Ret (True, s)
      else if c = ctrl_U
      then let (e, n) = kill_line s (in_e s) 0 in
        bind_res (consputs (s\<lparr>in_e := e\<rparr>) (replicate n BACKSPACE)) (\<lambda>s. Ret (dump, s))
      else if c = ctrl_H \<or> c = 0x7F
      then (if in_e s \<noteq> in_w s
            then bind_res (consputc (s\<lparr>in_e := in_e s - 1\<rparr>) BACKSPACE) (\<lambda>s. Ret (dump, s))
            else Ret (dump, s))
      else if c \<noteq> 0 \<and> in_e s - in_r s < INPUT_BUF
      then let c = (if c = 0x0D then newline else c);
               s = s\<lparr>in_buf := (in_buf s)[unat (in_e s mod INPUT_BUF) := ucast c], in_e := in_e s + 1\<rparr>
           in bind_res (consputc s c) (\<lambda>s.
             if c = newline \<or> c = ctrl_D \<or> in_e s = in_r s + INPUT_BUF
             then Ret (dump, wakeup1 ConsChan (s\<lparr>in_w := in_e s\<rparr>))
             else Ret (dump, s))
      else Ret (dump, s))"

text \<open>The characters that \<^verbatim>\<open>getc\<close> delivers before it has none. The result says whether to call \<open>procdump\<close>.\<close>

fun consoleintr :: "'a cons_st_scheme \<Rightarrow> u32 list \<Rightarrow> bool \<Rightarrow> (bool \<times> 'a cons_st_scheme) res" where
  "consoleintr s [] dump = Ret (dump, s)"
| "consoleintr s (c # cs) dump = bind_res (console_char s c dump) (\<lambda>(dump, s). consoleintr s cs dump)"

section \<open>The device\<close>

definition curkilled :: "'a proc_st_scheme \<Rightarrow> bool" where
  "curkilled s = (case cpu_proc s (this_cpu s) of None \<Rightarrow> False | Some p \<Rightarrow> killed (ptable s ! p) \<noteq> 0)"

text \<open>\<open>got\<close> is whether a byte has been delivered already (\<^verbatim>\<open>n < target\<close>); \<open>None\<close> is the killed reader.\<close>

fun consoleread_loop :: "'a cons_st_scheme \<Rightarrow> nat \<Rightarrow> u8 list \<Rightarrow> (u8 list option \<times> 'a cons_st_scheme) res" where
  "consoleread_loop s 0 acc = Ret (Some acc, s)"
| "consoleread_loop s (Suc n) acc =
     (if in_r s = in_w s then (if curkilled s then Ret (None, s) else Block)
      else let c = in_at s (in_r s); s = s\<lparr>in_r := in_r s + 1\<rparr> in
        if c = ucast ctrl_D
        then Ret (Some acc, if acc \<noteq> [] then s\<lparr>in_r := in_r s - 1\<rparr> else s)
        else if c = ucast newline then Ret (Some (acc @ [c]), s)
        else consoleread_loop s n (acc @ [c]))"

definition consoleread :: "'a cons_st_scheme \<Rightarrow> nat \<Rightarrow> u32 \<Rightarrow> (u32 \<times> u8 list \<times> 'a cons_st_scheme) res" where
  "consoleread s ip n =
     bind_res (iunlock s (Some ip)) (\<lambda>s.
       bind_res (consoleread_loop s (nat (sint n)) []) (\<lambda>(r, s).
         bind_res (ilock s (Some ip)) (\<lambda>s.
           case r of None \<Rightarrow> Ret (- 1, [], s) | Some xs \<Rightarrow> Ret (of_nat (length xs), xs, s))))"

definition consolewrite :: "'a cons_st_scheme \<Rightarrow> nat \<Rightarrow> u8 list \<Rightarrow> u32 \<Rightarrow> (u32 \<times> 'a cons_st_scheme) res" where
  "consolewrite s ip buf n =
     bind_res (iunlock s (Some ip)) (\<lambda>s.
       bind_res (consputs s (map ucast (take (nat (sint n)) buf))) (\<lambda>s.
         bind_res (ilock s (Some ip)) (\<lambda>s. Ret (n, s))))"

text \<open>The device table after \<^verbatim>\<open>consoleinit\<close>: the console has major number 1.\<close>

definition consoleinit :: "'a cons_st_scheme devtab" where
  "consoleinit = (\<lambda>major. if major = 1 then Some \<lparr>dev_read = consoleread, dev_write = consolewrite\<rparr> else None)"

end
