(* ===== verification/Pipe.thy ===== *)
theory Pipe
  imports Console
begin

text \<open>
  Pipes (pipe.c). A pipe lives in a page of its own; the state maps the page address to the pipe.
  The two counters \<^verbatim>\<open>nread\<close> and \<^verbatim>\<open>nwrite\<close> run freely and wrap at 32 bits, the buffer index is the
  counter modulo 512. \<^verbatim>\<open>p->lock\<close> makes each stretch between two sleeps atomic: an operation either
  ends, or goes to sleep after some bytes (\<open>PSleep\<close>) and continues from there when it is woken.
\<close>

abbreviation (input) PIPESIZE :: u32 where "PIPESIZE \<equiv> 512"

record pipe =
  p_data :: "u8 list"
  p_nread :: u32
  p_nwrite :: u32
  p_readopen :: u32
  p_writeopen :: u32

datatype fdtype = FD_NONE | FD_PIPE | FD_INODE

record file_obj =
  f_type :: fdtype
  f_ref :: u32
  f_readable :: u8
  f_writable :: u8
  f_pipe :: u32
  f_ip :: nat
  f_off :: u32

record file_st = cons_st +
  ftable :: "file_obj list"
  pipes :: "u32 \<Rightarrow> pipe"

definition set_pipe :: "u32 \<Rightarrow> pipe \<Rightarrow> 'a file_st_scheme \<Rightarrow> 'a file_st_scheme" where
  "set_pipe a p s = s\<lparr>pipes := (pipes s)(a := p)\<rparr>"

section \<open>Operations\<close>

definition pipeclose :: "'a file_st_scheme \<Rightarrow> u32 \<Rightarrow> u8 \<Rightarrow> 'a file_st_scheme res" where
  "pipeclose s a writable =
     (let s = (if writable \<noteq> 0
               then wakeup1 (PipeReadChan a) (set_pipe a ((pipes s a)\<lparr>p_writeopen := 0\<rparr>) s)
               else wakeup1 (PipeWriteChan a) (set_pipe a ((pipes s a)\<lparr>p_readopen := 0\<rparr>) s))
      in if p_readopen (pipes s a) = 0 \<and> p_writeopen (pipes s a) = 0 then kfree s a else Ret s)"

definition pipe_put :: "pipe \<Rightarrow> u8 \<Rightarrow> pipe" where
  "pipe_put p c = p\<lparr>p_data := (p_data p)[unat (p_nwrite p mod PIPESIZE) := c], p_nwrite := p_nwrite p + 1\<rparr>"

definition pipe_get :: "pipe \<Rightarrow> u8 \<times> pipe" where
  "pipe_get p = (p_data p ! unat (p_nread p mod PIPESIZE), p\<lparr>p_nread := p_nread p + 1\<rparr>)"

datatype pipe_io = PDone u32 | PSleep nat

text \<open>\<open>i\<close> counts the bytes written so far.\<close>

fun pipewrite_loop :: "'a file_st_scheme \<Rightarrow> u32 \<Rightarrow> u8 list \<Rightarrow> nat \<Rightarrow> pipe_io \<times> 'a file_st_scheme" where
  "pipewrite_loop s a [] i = (PDone (of_nat i), wakeup1 (PipeReadChan a) s)"
| "pipewrite_loop s a (c # cs) i =
     (if p_nwrite (pipes s a) = p_nread (pipes s a) + PIPESIZE
      then if p_readopen (pipes s a) = 0 \<or> curkilled s then (PDone (- 1), s)
           else (PSleep i, wakeup1 (PipeReadChan a) s)
      else pipewrite_loop (set_pipe a (pipe_put (pipes s a) c) s) a cs (Suc i))"

definition pipewrite :: "'a file_st_scheme \<Rightarrow> u32 \<Rightarrow> u8 list \<Rightarrow> pipe_io \<times> 'a file_st_scheme" where
  "pipewrite s a src = pipewrite_loop s a src 0"

fun pipe_take :: "pipe \<Rightarrow> nat \<Rightarrow> u8 list \<times> pipe" where
  "pipe_take p 0 = ([], p)"
| "pipe_take p (Suc n) =
     (if p_nread p = p_nwrite p then ([], p)
      else let (c, p) = pipe_get p; (cs, p) = pipe_take p n in (c # cs, p))"

definition piperead :: "'a file_st_scheme \<Rightarrow> u32 \<Rightarrow> u32 \<Rightarrow> pipe_io \<times> u8 list \<times> 'a file_st_scheme" where
  "piperead s a n =
     (let p = pipes s a in
      if p_nread p = p_nwrite p \<and> p_writeopen p \<noteq> 0
      then (if curkilled s then (PDone (- 1), [], s) else (PSleep 0, [], s))
      else let (xs, p) = pipe_take p (nat (sint n))
           in (PDone (of_nat (length xs)), xs, wakeup1 (PipeWriteChan a) (set_pipe a p s)))"

section \<open>The buffer as a queue\<close>

text \<open>The bytes in the buffer, oldest first, and the invariant of the counters.\<close>

definition pipe_len :: "pipe \<Rightarrow> nat" where
  "pipe_len p = unat (p_nwrite p - p_nread p)"

definition pipe_queue :: "pipe \<Rightarrow> u8 list" where
  "pipe_queue p = map (\<lambda>i. p_data p ! unat ((p_nread p + of_nat i) mod PIPESIZE)) [0..<pipe_len p]"

definition pipe_ok :: "pipe \<Rightarrow> bool" where
  "pipe_ok p \<longleftrightarrow> length (p_data p) = 512 \<and> pipe_len p \<le> 512"

lemma unat_mod_512: "unat ((x :: u32) mod 512) = unat x mod 512"
  by (simp add: unat_mod)

lemma unat_add_mod_512: "unat ((x + y :: u32) mod 512) = (unat x + unat y) mod 512"
proof -
  have "(unat x + unat y) mod 4294967296 mod 512 = (unat x + unat y) mod 512"
    by (rule mod_mod_cancel) (simp add: dvd_def)
  then show ?thesis by (simp add: unat_mod unat_word_ariths)
qed

lemma pipe_index:
  "i < 512 \<Longrightarrow> unat ((x + of_nat i :: u32) mod 512) = (unat x + i) mod 512"
  using unat_add_mod_512 [of x "of_nat i"] by (simp add: unat_of_nat)

lemma pipe_full: "pipe_ok p \<Longrightarrow> p_nwrite p = p_nread p + PIPESIZE \<longleftrightarrow> pipe_len p = 512"
proof -
  assume "pipe_ok p"
  have "p_nwrite p = p_nread p + PIPESIZE \<longleftrightarrow> p_nwrite p - p_nread p = 512" by (simp add: algebra_simps)
  also have "\<dots> \<longleftrightarrow> unat (p_nwrite p - p_nread p) = unat (512 :: u32)" by (simp only: word_unat_eq_iff)
  finally show ?thesis by (simp add: pipe_len_def)
qed

lemma pipe_empty: "p_nread p = p_nwrite p \<longleftrightarrow> pipe_len p = 0"
  by (auto simp: pipe_len_def unat_eq_0)

lemma length_pipe_queue [simp]: "length (pipe_queue p) = pipe_len p"
  by (simp add: pipe_queue_def)

lemma nth_pipe_queue:
  "pipe_ok p \<Longrightarrow> i < pipe_len p \<Longrightarrow> pipe_queue p ! i = p_data p ! ((unat (p_nread p) + i) mod 512)"
  using pipe_index [of i "p_nread p"] by (simp add: pipe_queue_def pipe_ok_def)

lemma pipe_put_len:
  assumes "pipe_ok p" "pipe_len p < 512"
  shows "pipe_len (pipe_put p c) = Suc (pipe_len p)"
proof -
  have "p_nwrite (pipe_put p c) - p_nread (pipe_put p c) = (p_nwrite p - p_nread p) + 1" by (simp add: pipe_put_def)
  moreover have "unat ((p_nwrite p - p_nread p) + 1) = unat (p_nwrite p - p_nread p) + 1"
    using assms(2) by (subst unat_add32) (simp_all add: pipe_len_def)
  ultimately show ?thesis by (simp add: pipe_len_def)
qed

lemma pipe_nwrite: "p_nwrite p = p_nread p + of_nat (pipe_len p)"
  by (simp add: pipe_len_def)

lemma pipe_put_queue:
  assumes ok: "pipe_ok p" and l: "pipe_len p < 512"
  shows "pipe_queue (pipe_put p c) = pipe_queue p @ [c]" "pipe_ok (pipe_put p c)"
proof -
  note pl = pipe_put_len [OF ok l]
  show ok': "pipe_ok (pipe_put p c)" using ok l pl by (simp add: pipe_ok_def) (simp add: pipe_put_def)
  have w: "unat (p_nwrite p mod PIPESIZE) = (unat (p_nread p) + pipe_len p) mod 512"
    using pipe_index [OF l, of "p_nread p"] by (simp add: pipe_nwrite)
  show "pipe_queue (pipe_put p c) = pipe_queue p @ [c]"
  proof (rule nth_equalityI)
    fix i assume "i < length (pipe_queue (pipe_put p c))"
    then have i: "i < Suc (pipe_len p)" by (simp add: pl)
    have q: "pipe_queue (pipe_put p c) ! i = ((p_data p)[(unat (p_nread p) + pipe_len p) mod 512 := c]) ! ((unat (p_nread p) + i) mod 512)"
      using nth_pipe_queue [OF ok'] i by (simp add: pl) (simp add: pipe_put_def w)
    show "pipe_queue (pipe_put p c) ! i = (pipe_queue p @ [c]) ! i"
    proof (cases "i = pipe_len p")
      case True
      then show ?thesis using q ok by (simp add: nth_append pipe_ok_def)
    next
      case False
      then have "(unat (p_nread p) + pipe_len p) mod 512 \<noteq> (unat (p_nread p) + i) mod 512"
        using mod_add_inj [of "pipe_len p" 512 i] i l by auto
      then show ?thesis using q False i nth_pipe_queue [OF ok] by (simp add: nth_append)
    qed
  qed (simp add: pl)
qed

lemma pipe_get_queue:
  assumes ok: "pipe_ok p" and l: "0 < pipe_len p" and g: "pipe_get p = (c, p')"
  shows "pipe_queue p = c # pipe_queue p'" "pipe_ok p'" "pipe_len p = Suc (pipe_len p')" "p_nwrite p' = p_nwrite p"
proof -
  have p': "p' = p\<lparr>p_nread := p_nread p + 1\<rparr>" and c: "c = p_data p ! (unat (p_nread p) mod 512)"
    using g by (auto simp: pipe_get_def unat_mod_512)
  have "p_nwrite p' - p_nread p' = (p_nwrite p - p_nread p) - 1" by (simp add: p')
  moreover have "p_nwrite p - p_nread p \<noteq> 0" using l by (auto simp: pipe_len_def)
  ultimately have "unat (p_nwrite p' - p_nread p') = unat (p_nwrite p - p_nread p) - 1"
    using unat_minus_one by (simp only:)
  then show len: "pipe_len p = Suc (pipe_len p')" using l by (simp add: pipe_len_def)
  then show ok': "pipe_ok p'" using ok by (simp add: pipe_ok_def p')
  show "p_nwrite p' = p_nwrite p" by (simp add: p')
  show "pipe_queue p = c # pipe_queue p'"
  proof (rule nth_equalityI)
    fix i assume i: "i < length (pipe_queue p)"
    have r: "(unat (p_nread p + 1) + j) mod 512 = (unat (p_nread p) + Suc j) mod 512" for j
      using unat_add_mod_512 [of "p_nread p" 1] by (simp add: unat_mod_512) (metis mod_add_left_eq add_Suc)
    show "pipe_queue p ! i = (c # pipe_queue p') ! i"
    proof (cases i)
      case 0
      then show ?thesis using i nth_pipe_queue [OF ok] by (simp add: c)
    next
      case (Suc j)
      have "pipe_queue p' ! j = p_data p ! ((unat (p_nread p + 1) + j) mod 512)"
        using nth_pipe_queue [OF ok', of j] i Suc len by (simp add: p')
      then show ?thesis using Suc i nth_pipe_queue [OF ok, of i] by (simp add: r)
    qed
  qed (simp add: len)
qed

lemma pipe_take_queue:
  "pipe_ok p \<Longrightarrow> pipe_take p n = (xs, p') \<Longrightarrow>
   xs = take n (pipe_queue p) \<and> pipe_queue p' = drop n (pipe_queue p) \<and> pipe_ok p'"
proof (induction n arbitrary: p xs p')
  case (Suc n)
  show ?case
  proof (cases "p_nread p = p_nwrite p")
    case True
    then have "pipe_queue p = []" using pipe_empty [of p] by (simp add: pipe_queue_def)
    then show ?thesis using True Suc.prems by simp
  next
    case False
    obtain c p1 where g: "pipe_get p = (c, p1)" by fastforce
    obtain ys p2 where t: "pipe_take p1 n = (ys, p2)" by fastforce
    have l: "0 < pipe_len p" using False pipe_empty [of p] by simp
    note g' = pipe_get_queue [OF Suc.prems(1) l g]
    show ?thesis using Suc.IH [OF g'(2) t] Suc.prems(2) False g t by (simp add: g'(1))
  qed
qed simp

lemma set_pipe_sel [simp]: "pipes (set_pipe a p s) a = p" "pipes (wakeup1 ch s) = pipes s"
  "curkilled (set_pipe a p s) = curkilled s"
  by (simp_all add: set_pipe_def wakeup1_def curkilled_def split: option.split)

lemma pipewrite_loop_queue:
  "pipe_ok (pipes s a) \<Longrightarrow> pipewrite_loop s a cs i = (r, s') \<Longrightarrow>
   pipe_ok (pipes s' a) \<and> pipe_queue (pipes s' a) = pipe_queue (pipes s a) @ take (512 - pipe_len (pipes s a)) cs
   \<and> (r = (if length cs \<le> 512 - pipe_len (pipes s a) then PDone (of_nat (i + length cs))
           else if p_readopen (pipes s a) = 0 \<or> curkilled s then PDone (- 1)
           else PSleep (i + (512 - pipe_len (pipes s a)))))"
proof (induction s a cs i rule: pipewrite_loop.induct)
  case (1 s a i)
  then show ?case by auto
next
  case (2 s a c cs i)
  show ?case
  proof (cases "p_nwrite (pipes s a) = p_nread (pipes s a) + PIPESIZE")
    case True
    then have "pipe_len (pipes s a) = 512" using pipe_full [OF "2.prems"(1)] by simp
    then show ?thesis using True "2.prems" by (auto split: if_splits)
  next
    case False
    then have l: "pipe_len (pipes s a) < 512"
      using pipe_full [OF "2.prems"(1)] "2.prems"(1) by (simp add: pipe_ok_def)
    let ?s = "set_pipe a (pipe_put (pipes s a) c) s"
    note pq = pipe_put_queue [OF "2.prems"(1) l, of c] pipe_put_len [OF "2.prems"(1) l, of c]
    have "pipewrite_loop ?s a cs (Suc i) = (r, s')" using False "2.prems"(2) by simp
    from "2.IH" [OF False _ this] pq(2)
    have ih: "pipe_ok (pipes s' a) \<and> pipe_queue (pipes s' a) = pipe_queue (pipe_put (pipes s a) c) @ take (512 - pipe_len (pipe_put (pipes s a) c)) cs
     \<and> (r = (if length cs \<le> 512 - pipe_len (pipe_put (pipes s a) c) then PDone (of_nat (Suc i + length cs))
           else if p_readopen (pipe_put (pipes s a) c) = 0 \<or> curkilled s then PDone (- 1)
           else PSleep (Suc i + (512 - pipe_len (pipe_put (pipes s a) c)))))" by simp
    have "512 - pipe_len (pipes s a) = Suc (512 - Suc (pipe_len (pipes s a)))" using l by simp
    then show ?thesis using ih pq l by (auto simp: pipe_put_def)
  qed
qed

section \<open>First in, first out\<close>

text \<open>A bounded queue of bytes as its users see it.\<close>

datatype queue_event = Put "u8 list" | Get nat

locale byte_queue =
  fixes put :: "'s \<Rightarrow> u8 list \<Rightarrow> 's"
    and get :: "'s \<Rightarrow> nat \<Rightarrow> u8 list \<times> 's"
    and contents :: "'s \<Rightarrow> u8 list"
    and inv :: "'s \<Rightarrow> bool"
    and cap :: nat
  assumes inv_cap: "inv s \<Longrightarrow> length (contents s) \<le> cap"
    and put_appends: "inv s \<Longrightarrow> inv (put s xs) \<and> contents (put s xs) = contents s @ take (cap - length (contents s)) xs"
    and get_removes: "inv s \<Longrightarrow> get s n = (ys, s') \<Longrightarrow> inv s' \<and> ys = take n (contents s) \<and> contents s' = drop n (contents s)"
begin

text \<open>A run collects the bytes accepted and the bytes delivered.\<close>

fun run_queue :: "queue_event list \<Rightarrow> 's \<Rightarrow> u8 list \<times> u8 list \<times> 's" where
  "run_queue [] s = ([], [], s)"
| "run_queue (Put xs # es) s =
     (let s1 = put s xs; (w, r, s2) = run_queue es s1 in (take (cap - length (contents s)) xs @ w, r, s2))"
| "run_queue (Get n # es) s =
     (let (ys, s1) = get s n; (w, r, s2) = run_queue es s1 in (w, ys @ r, s2))"

lemma run_queue_fifo:
  "inv s \<Longrightarrow> run_queue es s = (w, r, s') \<Longrightarrow> inv s' \<and> contents s @ w = r @ contents s' \<and> length (contents s') \<le> cap"
proof (induction es s arbitrary: w r s' rule: run_queue.induct)
  case (1 s)
  then show ?case using inv_cap by simp
next
  case (2 xs es s)
  obtain w1 r1 s1 where e: "run_queue es (put s xs) = (w1, r1, s1)" by (cases "run_queue es (put s xs)") auto
  then show ?case using 2 put_appends [OF "2.prems"(1), of xs] by auto
next
  case (3 n es s)
  obtain ys s1 where g: "get s n = (ys, s1)" by fastforce
  obtain w1 r1 s2 where e: "run_queue es s1 = (w1, r1, s2)" by (cases "run_queue es s1") auto
  note gr = get_removes [OF "3.prems"(1) g]
  have ih: "inv s2 \<and> contents s1 @ w1 = r1 @ contents s2 \<and> length (contents s2) \<le> cap"
    using "3.IH" [OF g [symmetric] _ _ e] gr by blast
  then have "contents s @ w1 = (ys @ r1) @ contents s2" using gr by (metis append_assoc append_take_drop_id)
  moreover have "w = w1" "r = ys @ r1" "s' = s2" using "3.prems"(2) g e by auto
  ultimately show ?case using ih by simp
qed

end

text \<open>The pipe at address \<open>a\<close> as such a queue.\<close>

definition pipe_put_at :: "u32 \<Rightarrow> file_st \<Rightarrow> u8 list \<Rightarrow> file_st" where
  "pipe_put_at a s xs = snd (pipewrite s a xs)"

definition pipe_get_at :: "u32 \<Rightarrow> file_st \<Rightarrow> nat \<Rightarrow> u8 list \<times> file_st" where
  "pipe_get_at a s n = snd (piperead s a (of_nat (min n 512)))"

lemma sint_min_512: "nat (sint (of_nat (min n 512) :: u32)) = min n 512"
  by (simp add: sint_uint signed_take_bit_int_eq_self uint_nat unat_of_nat)

interpretation pq: byte_queue "pipe_put_at a" "pipe_get_at a" "\<lambda>s. pipe_queue (pipes s a)" "\<lambda>s. pipe_ok (pipes s a)" 512 for a
proof (unfold_locales, goal_cases)
  case (1 s)
  then show ?case by (simp add: pipe_ok_def)
next
  case (2 s xs)
  then show ?case using pipewrite_loop_queue [of s a xs 0] by (cases "pipewrite_loop s a xs 0") (simp add: pipe_put_at_def pipewrite_def)
next
  case (3 s n ys s')
  obtain zs p where t: "pipe_take (pipes s a) (min n 512) = (zs, p)" by fastforce
  have m: "take (min n 512) (pipe_queue (pipes s a)) = take n (pipe_queue (pipes s a))"
    "drop (min n 512) (pipe_queue (pipes s a)) = drop n (pipe_queue (pipes s a))"
    using 3(1) by (auto simp: pipe_ok_def min_def)
  show ?case
  proof (cases "p_nread (pipes s a) = p_nwrite (pipes s a) \<and> p_writeopen (pipes s a) \<noteq> 0")
    case True
    then have "pipe_queue (pipes s a) = []" using pipe_empty [of "pipes s a"] by (simp add: pipe_queue_def)
    then show ?thesis using 3 True by (auto simp: pipe_get_at_def piperead_def Let_def split: if_splits)
  next
    case False
    then have "ys = zs" "pipes s' a = p"
      using 3(2) t by (auto simp: pipe_get_at_def piperead_def Let_def sint_min_512)
    then show ?thesis using pipe_take_queue [OF 3(1) t] m by simp
  qed
qed

section \<open>Properties\<close>

definition pipe_demo :: "u32 \<Rightarrow> pipe" where
  "pipe_demo n = \<lparr>p_data = replicate 512 0, p_nread = n, p_nwrite = n, p_readopen = 1, p_writeopen = 1\<rparr>"

lemma pipe_demo_ok: "pipe_ok (pipe_demo n)" "pipe_queue (pipe_demo n) = []"
  by (simp_all add: pipe_demo_def pipe_ok_def pipe_len_def pipe_queue_def)

text \<open>
  C33: a pipe is a first-in first-out queue of at most 512 bytes. Whatever the sequence of
  \<^verbatim>\<open>pipewrite()\<close> and \<^verbatim>\<open>piperead()\<close> calls, the bytes that were in the pipe followed by the bytes accepted are
  the bytes delivered followed by the bytes still in it; the counters may wrap around on the way.
\<close>

theorem pipe_fifo:
  assumes "pipe_ok (pipes s a)" "pq.run_queue a es s = (w, r, s')"
  shows "pipe_queue (pipes s a) @ w = r @ pipe_queue (pipes s' a) \<and> pipe_ok (pipes s' a)"
  using pq.run_queue_fifo [OF assms] by simp

theorem pipe_fifo_witness:
  "\<exists>s :: file_st. \<exists>w r s'. pipe_ok (pipes s 0x80400000) \<and> p_nwrite (pipes s 0x80400000) = - 1
     \<and> pq.run_queue 0x80400000 [Put [1, 2, 3], Get 2] s = (w, r, s') \<and> w = r @ pipe_queue (pipes s' 0x80400000)"
proof -
  obtain s0 :: file_st where True by blast
  let ?s = "s0\<lparr>pipes := (\<lambda>_. pipe_demo (- 1))\<rparr>"
  obtain w r s' where e: "pq.run_queue 0x80400000 [Put [1, 2, 3], Get 2] ?s = (w, r, s')"
    by (cases "pq.run_queue 0x80400000 [Put [1, 2, 3], Get 2] ?s") auto
  have ok: "pipe_ok (pipes ?s 0x80400000)" by (simp add: pipe_demo_ok)
  have "p_nwrite (pipes ?s 0x80400000) = - 1" by (simp add: pipe_demo_def)
  moreover have "w = r @ pipe_queue (pipes s' 0x80400000)" using pipe_fifo [OF ok e] by (simp add: pipe_demo_ok)
  ultimately show ?thesis using e ok by (intro exI [of _ ?s] exI [of _ w] exI [of _ r] exI [of _ s']) (simp only:)
qed

text \<open>
  \<^verbatim>\<open>pipewrite()\<close> stores as many bytes as fit. It returns the number of bytes when all fit; otherwise
  it fails if no reader is left or the writer was killed, and else sleeps with the pipe full.
\<close>

lemma pipewrite_result:
  assumes "pipe_ok (pipes s a)" "pipewrite s a xs = (r, s')"
  shows "pipe_queue (pipes s' a) = pipe_queue (pipes s a) @ take (512 - pipe_len (pipes s a)) xs
    \<and> r = (if length xs \<le> 512 - pipe_len (pipes s a) then PDone (of_nat (length xs))
          else if p_readopen (pipes s a) = 0 \<or> curkilled s then PDone (- 1)
          else PSleep (512 - pipe_len (pipes s a)))"
  using pipewrite_loop_queue [OF assms(1), of xs 0 r s'] assms(2) by (simp add: pipewrite_def)

end
