(* ===== verification/File.thy ===== *)
theory File
  imports Pipe
begin

text \<open>
  Open files (file.c). A \<^verbatim>\<open>struct file *\<close> is an index into the file table. \<^verbatim>\<open>ftable.lock\<close> makes the
  reference counting atomic. \<open>fileread\<close> returns the bytes that the code copies to the caller's
  buffer and \<open>filewrite\<close> takes the bytes at it. A pipe operation that goes to sleep is \<open>Block\<close> here.
\<close>

abbreviation (input) NFILE :: nat where "NFILE \<equiv> 100"

definition set_file :: "nat \<Rightarrow> (file_obj \<Rightarrow> file_obj) \<Rightarrow> 'a file_st_scheme \<Rightarrow> 'a file_st_scheme" where
  "set_file f g s = s\<lparr>ftable := (ftable s)[f := g (ftable s ! f)]\<rparr>"

fun find_file :: "file_obj list \<Rightarrow> nat \<Rightarrow> nat option" where
  "find_file [] i = None"
| "find_file (f # fs) i = (if f_ref f = 0 then Some i else find_file fs (Suc i))"

definition filealloc :: "'a file_st_scheme \<Rightarrow> nat option \<times> 'a file_st_scheme" where
  "filealloc s =
     (case find_file (ftable s) 0 of
        None \<Rightarrow> (None, s)
      | Some f \<Rightarrow> (Some f, set_file f (\<lambda>x. x\<lparr>f_ref := 1\<rparr>) s))"

definition filedup :: "'a file_st_scheme \<Rightarrow> nat \<Rightarrow> (nat \<times> 'a file_st_scheme) res" where
  "filedup s f =
     (if f_ref (ftable s ! f) <s 1 then Panic ''filedup''
      else Ret (f, set_file f (\<lambda>x. x\<lparr>f_ref := f_ref x + 1\<rparr>) s))"

definition fileclose :: "'a file_st_scheme \<Rightarrow> nat \<Rightarrow> 'a file_st_scheme res" where
  "fileclose s f =
     (if f_ref (ftable s ! f) <s 1 then Panic ''fileclose''
      else let s = set_file f (\<lambda>x. x\<lparr>f_ref := f_ref x - 1\<rparr>) s in
        if 0 <s f_ref (ftable s ! f) then Ret s
        else let ff = ftable s ! f; s = set_file f (\<lambda>x. x\<lparr>f_ref := 0, f_type := FD_NONE\<rparr>) s in
          case f_type ff of
            FD_PIPE \<Rightarrow> pipeclose s (f_pipe ff) (f_writable ff)
          | FD_INODE \<Rightarrow>
              bind_res (begin_op s) (\<lambda>s. bind_res (iput s (f_ip ff)) (\<lambda>s. end_op s))
          | FD_NONE \<Rightarrow> Ret s)"

definition filestat :: "'a file_st_scheme \<Rightarrow> nat \<Rightarrow> (stat option \<times> 'a file_st_scheme) res" where
  "filestat s f =
     (let ff = ftable s ! f in
      if f_type ff = FD_INODE
      then bind_res (ilock s (Some (f_ip ff))) (\<lambda>s.
        let st = stati (icache s ! f_ip ff) in
        bind_res (iunlock s (Some (f_ip ff))) (\<lambda>s. Ret (Some st, s)))
      else Ret (None, s))"

definition fileread :: "'a file_st_scheme \<Rightarrow> nat \<Rightarrow> u32 \<Rightarrow> (u32 \<times> u8 list \<times> 'a file_st_scheme) res" where
  "fileread s f n =
     (let ff = ftable s ! f in
      if f_readable ff = 0 then Ret (- 1, [], s)
      else if f_type ff = FD_PIPE
      then (case piperead s (f_pipe ff) n of
          (PDone r, xs, s) \<Rightarrow> Ret (r, xs, s)
        | (PSleep _, _, _) \<Rightarrow> Block)
      else if f_type ff = FD_INODE
      then bind_res (ilock s (Some (f_ip ff))) (\<lambda>s.
        bind_res (readi consoleinit s (f_ip ff) (f_off ff) n) (\<lambda>(r, xs, s).
          let s = (if 0 <s r then set_file f (\<lambda>x. x\<lparr>f_off := f_off x + r\<rparr>) s else s) in
          bind_res (iunlock s (Some (f_ip ff))) (\<lambda>s. Ret (r, xs, s))))
      else Panic ''fileread'')"

text \<open>
  Writing an inode goes in pieces of at most 1536 bytes, one transaction each. The loop is on the
  number \<open>r\<close> of bytes left; its result says whether it came to the end.
\<close>

abbreviation (input) max_write :: nat where "max_write \<equiv> 1536"

function filewrite_loop :: "'a file_st_scheme \<Rightarrow> nat \<Rightarrow> u8 list \<Rightarrow> nat \<Rightarrow> (bool \<times> 'a file_st_scheme) res" where
  "filewrite_loop s f src r =
     (if r = 0 then Ret (True, s)
      else let n1 = min r max_write; ip = f_ip (ftable s ! f) in
        bind_res (begin_op s) (\<lambda>s.
          bind_res (ilock s (Some ip)) (\<lambda>s.
            bind_res (writei consoleinit s ip (take n1 src) (f_off (ftable s ! f)) (of_nat n1)) (\<lambda>(w, s).
              let s = (if 0 <s w then set_file f (\<lambda>x. x\<lparr>f_off := f_off x + w\<rparr>) s else s) in
              bind_res (iunlock s (Some ip)) (\<lambda>s.
                bind_res (end_op s) (\<lambda>s.
                  if w <s 0 then Ret (False, s)
                  else if w \<noteq> of_nat n1 then Panic ''short filewrite''
                  else filewrite_loop s f (drop n1 src) (r - n1)))))))"
  by pat_completeness auto
termination
  by (relation "measure (\<lambda>(s, f, src, r). r)") auto

declare filewrite_loop.simps [simp del]

definition filewrite :: "'a file_st_scheme \<Rightarrow> nat \<Rightarrow> u8 list \<Rightarrow> u32 \<Rightarrow> (u32 \<times> 'a file_st_scheme) res" where
  "filewrite s f src n =
     (let ff = ftable s ! f in
      if f_writable ff = 0 then Ret (- 1, s)
      else if f_type ff = FD_PIPE
      then (case pipewrite s (f_pipe ff) (take (nat (sint n)) src) of
          (PDone r, s) \<Rightarrow> Ret (if r = - 1 then - 1 else n, s)
        | (PSleep _, _) \<Rightarrow> Block)
      else if f_type ff = FD_INODE
      then bind_res (filewrite_loop s f src (nat (sint n))) (\<lambda>(all, s).
        Ret (if all \<and> 0 <=s n then n else - 1, s))
      else Panic ''filewrite'')"

section \<open>Making a pipe\<close>

text \<open>The clean-up at the label \<^verbatim>\<open>bad\<close>; the pipe's page was not allocated then.\<close>

definition pipealloc_bad :: "nat option \<Rightarrow> nat option \<Rightarrow> 'a file_st_scheme \<Rightarrow> 'a file_st_scheme res" where
  "pipealloc_bad f0 f1 s =
     bind_res (case f0 of None \<Rightarrow> Ret s | Some f \<Rightarrow> fileclose s f) (\<lambda>s.
       case f1 of None \<Rightarrow> Ret s | Some f \<Rightarrow> fileclose s f)"

definition pipealloc :: "'a file_st_scheme \<Rightarrow> ((nat \<times> nat) option \<times> 'a file_st_scheme) res" where
  "pipealloc s =
     (case filealloc s of
        (None, s) \<Rightarrow> bind_res (pipealloc_bad None None s) (\<lambda>s. Ret (None, s))
      | (Some f0, s) \<Rightarrow>
          (case filealloc s of
             (None, s) \<Rightarrow> bind_res (pipealloc_bad (Some f0) None s) (\<lambda>s. Ret (None, s))
           | (Some f1, s) \<Rightarrow>
               let (p, s) = kalloc s in
               if p = 0 then bind_res (pipealloc_bad (Some f0) (Some f1) s) (\<lambda>s. Ret (None, s))
               else let s = set_pipe p ((pipes s p)\<lparr>p_readopen := 1, p_writeopen := 1, p_nwrite := 0, p_nread := 0\<rparr>) s;
                        s = set_file f0 (\<lambda>x. x\<lparr>f_type := FD_PIPE, f_readable := 1, f_writable := 0, f_pipe := p\<rparr>) s;
                        s = set_file f1 (\<lambda>x. x\<lparr>f_type := FD_PIPE, f_readable := 0, f_writable := 1, f_pipe := p\<rparr>) s
                    in Ret (Some (f0, f1), s)))"

end
