(* ===== verification/Fork.thy ===== *)
theory Fork
  imports File Wmap Exitwait
begin

text \<open>
  Life and death of processes (proc.c): the first process, \<^verbatim>\<open>fork\<close> with the inheritance of memory
  mappings, \<^verbatim>\<open>exit\<close>, and the helper functions for mappings, which nothing calls. \<open>kern_st\<close>
  is the state of the whole kernel. Output to the console is left out.
\<close>

record kern_st = file_st +
  forkret_first :: bool
  ticks :: u32

section \<open>The first process\<close>

text \<open>\<^verbatim>\<open>safestrcpy\<close> into an array: at most \<open>n - 1\<close> bytes, a terminator where the pointer has arrived.\<close>

definition safestrcpy_bytes :: "u8 list \<Rightarrow> u8 list \<Rightarrow> u8 list" where
  "safestrcpy_bytes dst t =
     (let n = length dst; u = takeWhile (\<lambda>c. c \<noteq> 0) t in
      if n = 0 then dst
      else if length u < n - 1 then splice dst 0 (u @ [0, 0])
      else splice dst 0 (take (n - 1) u @ [0]))"

definition user_tf :: trapframe where
  "user_tf = zero_tf\<lparr>tf_cs := 0x1B, tf_ds := 0x23, tf_es := 0x23, tf_ss := 0x23, tf_eflags := 0x200, tf_esp := PGSIZE, tf_eip := 0\<rparr>"

text \<open>\<open>icode\<close> and \<open>icode_size\<close> are the linker symbols of initcode.S.\<close>

definition userinit :: "'a kern_st_scheme \<Rightarrow> u32 \<Rightarrow> u32 \<Rightarrow> 'a kern_st_scheme res" where
  "userinit s icode icode_size =
     bind_res (allocproc s) (\<lambda>(po, s).
       let s = s\<lparr>initproc := po\<rparr> in
       case po of
         None \<Rightarrow> Fault
       | Some p \<Rightarrow>
         bind_res (setupkvm s) (\<lambda>(d, s).
           let s = upd_proc p (\<lambda>q. q\<lparr>pgdir := d\<rparr>) s in
           if d = 0 then Panic ''userinit: out of memory?''
           else bind_res (inituvm s d icode icode_size) (\<lambda>s.
             let s = upd_proc p (\<lambda>q. q\<lparr>sz := PGSIZE, tf := user_tf,
                   pname := safestrcpy_bytes (pname q) [0x69, 0x6E, 0x69, 0x74, 0x63, 0x6F, 0x64, 0x65]\<rparr>) s
             in bind_res (namei s [slash]) (\<lambda>(d, s).
               let s = upd_proc p (\<lambda>q. q\<lparr>cwd := d\<rparr>) s in
               bind_res (pt_acquire s) (\<lambda>s.
                 pt_release (upd_proc p (\<lambda>q. q\<lparr>pstate := RUNNABLE\<rparr>) s))))))"

definition forkret :: "'a kern_st_scheme \<Rightarrow> 'a kern_st_scheme res" where
  "forkret s =
     bind_res (pt_release s) (\<lambda>s.
       if forkret_first s
       then bind_res (iinit (s\<lparr>forkret_first := False\<rparr>) ROOTDEV) (\<lambda>s. initlog s ROOTDEV)
       else Ret s)"

section \<open>Inheriting mappings\<close>

text \<open>
  The loops over the pages of a mapping. \<^verbatim>\<open>walkpgdir\<close> returns null where the parent has no page
  table, and the code reads the entry without a test.
\<close>

function fork_private :: "'a kmem_st_scheme \<Rightarrow> u32 \<Rightarrow> u32 \<Rightarrow> u32 \<Rightarrow> u32 \<Rightarrow> 'a kmem_st_scheme res" where
  "fork_private s pdir cdir va mend =
     (if va < mend
      then let (pg, s) = kalloc s in
        if pg = 0 then Panic ''kalloc''
        else let (pte, s) = walkpgdir s pdir va False in
          if pte = 0 then Fault
          else let s = s\<lparr>mem := memmove (mem s) pg (P2V (PTE_ADDR (load32 (mem s) pte))) PGSIZE\<rparr> in
            bind_res (mappages s cdir va PGSIZE (V2P pg) (PTE_W OR PTE_U)) (\<lambda>(r, s).
              bind_res (if r \<noteq> 0 then kfree s pg else Ret s) (\<lambda>s.
                if va + PGSIZE \<le> va then Diverge else fork_private s pdir cdir (va + PGSIZE) mend))
      else Ret s)"
  by pat_completeness auto
termination
  by (relation "measure (\<lambda>(s, pdir, cdir, va, mend). 2 ^ 32 - unat va)")
     (auto simp: not_le word_less_nat_alt unat_lt32 diff_less_mono2)

declare fork_private.simps [simp del]

function fork_shared :: "'a kmem_st_scheme \<Rightarrow> u32 \<Rightarrow> u32 \<Rightarrow> u32 \<Rightarrow> u32 \<Rightarrow> 'a kmem_st_scheme res" where
  "fork_shared s pdir cdir va mend =
     (if va < mend
      then let (pte, s) = walkpgdir s pdir va False in
        if pte = 0 then Fault
        else let pa = PTE_ADDR (load32 (mem s) pte) in
          bind_res (mappages s cdir va PGSIZE pa (PTE_W OR PTE_U)) (\<lambda>(r, s).
            bind_res (if r \<noteq> 0 then kfree s pa else Ret s) (\<lambda>s.
              if va + PGSIZE \<le> va then Diverge else fork_shared s pdir cdir (va + PGSIZE) mend))
      else Ret s)"
  by pat_completeness auto
termination
  by (relation "measure (\<lambda>(s, pdir, cdir, va, mend). 2 ^ 32 - unat va)")
     (auto simp: not_le word_less_nat_alt unat_lt32 diff_less_mono2)

declare fork_shared.simps [simp del]

definition inherit_block :: "proc \<Rightarrow> nat \<Rightarrow> proc \<Rightarrow> proc" where
  "inherit_block par i q =
     q\<lparr>arr := (arr q)[i := arr par ! i],
       winfo := (winfo q)\<lparr>wi_addr := (wi_addr (winfo q))[i := wi_addr (winfo par) ! i],
         leftmostLoadedAddr := (leftmostLoadedAddr (winfo q))[i := leftmostLoadedAddr (winfo par) ! i],
         wi_length := (wi_length (winfo q))[i := wi_length (winfo par) ! i],
         n_loaded_pages := (n_loaded_pages (winfo q))[i := n_loaded_pages (winfo par) ! i],
         total_mmaps := total_mmaps (winfo q) + 1\<rparr>\<rparr>"

fun fork_mappings :: "'a proc_st_scheme \<Rightarrow> nat \<Rightarrow> nat \<Rightarrow> nat \<Rightarrow> nat \<Rightarrow> 'a proc_st_scheme res" where
  "fork_mappings s cur np i 0 = Ret s"
| "fork_mappings s cur np i (Suc n) =
     (let par = ptable s ! cur; b = arr par ! i in
      if mb_valid b = 0 then fork_mappings s cur np (Suc i) n
      else if mb_flags b AND MAP_PRIVATE \<noteq> 0
      then let s = upd_proc np (inherit_block par i) s in
        bind_res (fork_private s (pgdir par) (pgdir (ptable s ! np)) (mb_start b) (mb_end b)) (\<lambda>s.
          fork_mappings s cur np (Suc i) n)
      else if mb_flags b AND MAP_SHARED \<noteq> 0
      then let s = upd_proc np (inherit_block par i) s in
        bind_res (fork_shared s (pgdir par) (pgdir (ptable s ! np)) (mb_start b) (mb_end b)) (\<lambda>s.
          fork_mappings s cur np (Suc i) n)
      else fork_mappings s cur np (Suc i) n)"

fun dup_files :: "'a file_st_scheme \<Rightarrow> nat \<Rightarrow> nat \<Rightarrow> nat \<Rightarrow> nat \<Rightarrow> 'a file_st_scheme res" where
  "dup_files s cur np i 0 = Ret s"
| "dup_files s cur np i (Suc n) =
     (case ofile (ptable s ! cur) ! i of
        None \<Rightarrow> dup_files s cur np (Suc i) n
      | Some f \<Rightarrow>
          bind_res (filedup s f) (\<lambda>(f, s).
            dup_files (upd_proc np (\<lambda>q. q\<lparr>ofile := (ofile q)[i := Some f]\<rparr>) s) cur np (Suc i) n))"

definition fork :: "'a kern_st_scheme \<Rightarrow> (u32 \<times> 'a kern_st_scheme) res" where
  "fork s =
     bind_res (myproc s) (\<lambda>(co, s).
       case co of
         None \<Rightarrow> Fault
       | Some cur \<Rightarrow>
         bind_res (allocproc s) (\<lambda>(no, s).
           case no of
             None \<Rightarrow> Ret (- 1, s)
           | Some np \<Rightarrow>
             bind_res (copyuvm s (pgdir (ptable s ! cur)) (sz (ptable s ! cur))) (\<lambda>(d, s).
               let s = upd_proc np (\<lambda>q. q\<lparr>pgdir := d\<rparr>) s in
               if d = 0
               then bind_res (kfree s (kstack (ptable s ! np))) (\<lambda>s.
                 Ret (- 1, upd_proc np (\<lambda>q. q\<lparr>kstack := 0, pstate := UNUSED\<rparr>) s))
               else let par = ptable s ! cur;
                        s = upd_proc np (\<lambda>q. q\<lparr>sz := sz par, parent := Some cur, tf := (tf par)\<lparr>tf_eax := 0\<rparr>\<rparr>) s
                    in bind_res (dup_files s cur np 0 16) (\<lambda>s.
                      case cwd (ptable s ! cur) of
                        None \<Rightarrow> Fault
                      | Some d \<Rightarrow>
                        let (d, s) = idup s d;
                            s = upd_proc np (\<lambda>q. q\<lparr>cwd := Some d, pname := safestrcpy_bytes (pname q) (pname (ptable s ! cur))\<rparr>) s
                        in bind_res (fork_mappings s cur np 0 16) (\<lambda>s.
                          let k = pid (ptable s ! np) in
                          bind_res (pt_acquire s) (\<lambda>s.
                            bind_res (pt_release (upd_proc np (\<lambda>q. q\<lparr>pstate := RUNNABLE\<rparr>) s)) (\<lambda>s. Ret (k, s))))))))"

section \<open>Exit\<close>

fun close_files :: "'a kern_st_scheme \<Rightarrow> nat \<Rightarrow> nat \<Rightarrow> nat \<Rightarrow> 'a kern_st_scheme res" where
  "close_files s cur i 0 = Ret s"
| "close_files s cur i (Suc n) =
     (case ofile (ptable s ! cur) ! i of
        None \<Rightarrow> close_files s cur (Suc i) n
      | Some f \<Rightarrow>
          bind_res (fileclose s f) (\<lambda>s.
            close_files (upd_proc cur (\<lambda>q. q\<lparr>ofile := (ofile q)[i := None]\<rparr>) s) cur (Suc i) n))"

text \<open>
  The result is the state in which \<^verbatim>\<open>exit\<close> has switched to the scheduler; \<open>exit_out\<close> and \<^verbatim>\<open>wait\<close> are in theory
  \<open>Exitwait\<close>.
\<close>

definition exit :: "'a kern_st_scheme \<Rightarrow> 'a kern_st_scheme res" where
  "exit s =
     bind_res (myproc s) (\<lambda>(co, s).
       if co = initproc s then Panic ''init exiting''
       else case co of
         None \<Rightarrow> Fault
       | Some cur \<Rightarrow>
         bind_res (close_files s cur 0 16) (\<lambda>s.
           bind_res (begin_op s) (\<lambda>s.
             case cwd (ptable s ! cur) of
               None \<Rightarrow> Fault
             | Some d \<Rightarrow>
               bind_res (iput s d) (\<lambda>s.
                 bind_res (end_op s) (\<lambda>s.
                   let s = upd_proc cur (\<lambda>q. q\<lparr>cwd := None\<rparr>) s in
                   exit_out s cur)))))"

section \<open>Helpers for mappings\<close>

definition increment_mapping_ref_count :: "mem_block \<Rightarrow> mem_block" where
  "increment_mapping_ref_count b = b\<lparr>mb_ref := mb_ref b + 1\<rparr>"

function duplicate_private_mapping :: "'a kmem_st_scheme \<Rightarrow> u32 \<Rightarrow> u32 \<Rightarrow> u32 \<Rightarrow> u32 \<Rightarrow> 'a kmem_st_scheme res" where
  "duplicate_private_mapping s pdir cdir va mend =
     (if va < mend
      then let (pte, s) = walkpgdir s pdir va False; (pg, s) = kalloc s in
        if pte = 0 \<or> pg = 0 then Fault
        else let e = load32 (mem s) pte;
                 s = s\<lparr>mem := memmove (mem s) pg (P2V (PTE_ADDR e)) PGSIZE\<rparr>
             in bind_res (mappages s cdir va PGSIZE (V2P pg) (PTE_FLAGS (load32 (mem s) pte))) (\<lambda>(_, s).
               if va + PGSIZE \<le> va then Diverge else duplicate_private_mapping s pdir cdir (va + PGSIZE) mend)
      else Ret s)"
  by pat_completeness auto
termination
  by (relation "measure (\<lambda>(s, pdir, cdir, va, mend). 2 ^ 32 - unat va)")
     (auto simp: not_le word_less_nat_alt unat_lt32 diff_less_mono2)

function add_shared_mapping :: "'a kmem_st_scheme \<Rightarrow> u32 \<Rightarrow> u32 \<Rightarrow> u32 \<Rightarrow> u32 \<Rightarrow> 'a kmem_st_scheme res" where
  "add_shared_mapping s pdir cdir va mend =
     (if va < mend
      then let (pte, s) = walkpgdir s pdir va False in
        if pte = 0 then Fault
        else let e = load32 (mem s) pte in
          bind_res (mappages s cdir va PGSIZE (PTE_ADDR e) (PTE_FLAGS e)) (\<lambda>(_, s).
            if va + PGSIZE \<le> va then Diverge else add_shared_mapping s pdir cdir (va + PGSIZE) mend)
      else Ret s)"
  by pat_completeness auto
termination
  by (relation "measure (\<lambda>(s, pdir, cdir, va, mend). 2 ^ 32 - unat va)")
     (auto simp: not_le word_less_nat_alt unat_lt32 diff_less_mono2)

function free_physical_pages :: "'a kmem_st_scheme \<Rightarrow> u32 \<Rightarrow> u32 \<Rightarrow> u32 \<Rightarrow> 'a kmem_st_scheme res" where
  "free_physical_pages s dir va mend =
     (if va < mend
      then let (pte, s) = walkpgdir s dir va False in
        if pte = 0 \<or> load32 (mem s) pte AND PTE_P = 0
        then (if va + PGSIZE \<le> va then Diverge else free_physical_pages s dir (va + PGSIZE) mend)
        else bind_res (kfree s (P2V (PTE_ADDR (load32 (mem s) pte)))) (\<lambda>s.
          let s = s\<lparr>mem := store32 (mem s) pte 0\<rparr> in
          if va + PGSIZE \<le> va then Diverge else free_physical_pages s dir (va + PGSIZE) mend)
      else Ret s)"
  by pat_completeness auto
termination
  by (relation "measure (\<lambda>(s, dir, va, mend). 2 ^ 32 - unat va)")
     (auto simp: not_le word_less_nat_alt unat_lt32 diff_less_mono2)

declare duplicate_private_mapping.simps [simp del] add_shared_mapping.simps [simp del] free_physical_pages.simps [simp del]

definition cleanup_shared_mapping :: "'a kmem_st_scheme \<Rightarrow> u32 \<Rightarrow> mem_block \<Rightarrow> (mem_block \<times> 'a kmem_st_scheme) res" where
  "cleanup_shared_mapping s dir b =
     (let b = b\<lparr>mb_ref := mb_ref b - 1\<rparr> in
      if mb_ref b = 0 then bind_res (free_physical_pages s dir (mb_start b) (mb_end b)) (\<lambda>s. Ret (b, s))
      else Ret (b, s))"

text \<open>A null pointer in \<^verbatim>\<open>arr\<close> is a zero in \<open>arr_ptr\<close>.\<close>

fun cleanup_blocks :: "'a proc_st_scheme \<Rightarrow> nat \<Rightarrow> nat \<Rightarrow> nat \<Rightarrow> 'a proc_st_scheme res" where
  "cleanup_blocks s p i 0 = Ret s"
| "cleanup_blocks s p i (Suc n) =
     (if 16 \<le> i then Fault
      else let q = ptable s ! p; b = arr q ! i in
        if arr_ptr q ! i = 0 then cleanup_blocks s p (Suc i) n
        else bind_res (if mb_flags b AND MAP_SHARED \<noteq> 0 then cleanup_shared_mapping s (pgdir q) b
            else if mb_flags b AND MAP_PRIVATE \<noteq> 0
            then bind_res (free_physical_pages s (pgdir q) (mb_start b) (mb_end b)) (\<lambda>s. Ret (b, s))
            else Ret (b, s)) (\<lambda>(b, s).
          bind_res (kfree (upd_proc p (\<lambda>q. q\<lparr>arr := (arr q)[i := b]\<rparr>) s) (arr_ptr q ! i)) (\<lambda>s.
            cleanup_blocks (upd_proc p (\<lambda>q. q\<lparr>arr_ptr := (arr_ptr q)[i := 0]\<rparr>) s) p (Suc i) n)))"

definition cleanup_wmapinfo :: "'a proc_st_scheme \<Rightarrow> nat \<Rightarrow> 'a proc_st_scheme res" where
  "cleanup_wmapinfo s p =
     bind_res (cleanup_blocks s p 0 (nat (sint (total_mmaps (winfo (ptable s ! p)))))) (\<lambda>s.
       Ret (upd_proc p (\<lambda>q. q\<lparr>winfo := (winfo q)\<lparr>total_mmaps := 0\<rparr>\<rparr>) s))"

end
