(* ===== verification/Syscall.thy ===== *)
theory Syscall
  imports Fork
begin

text \<open>
  System call arguments (syscall.c) and the process system calls (sysproc.c). Kernel code reads and
  writes user memory through the page table in \<^verbatim>\<open>cr3\<close>; an access to a page that is not there is
  \<open>Fault\<close>, since the model does not restart the kernel after a page fault of its own. The current
  process is the one of the executing CPU. A system call either returns or leaves its process
  switched out. An argument that could not be fetched is \<open>None\<close>.
\<close>

abbreviation (input) NOFILE :: nat where "NOFILE \<equiv> 16"
abbreviation (input) MAXARG :: nat where "MAXARG \<equiv> 32"

section \<open>User memory\<close>

definition user_pte :: "'a vm_st_scheme \<Rightarrow> u32 \<Rightarrow> u32 option" where
  "user_pte s va =
     (let (pte, _) = walkpgdir s (P2V (cr3 s)) va False in
      if pte = 0 then None
      else let e = load32 (mem s) pte in if e AND PTE_P = 0 then None else Some e)"

definition user_addr :: "'a vm_st_scheme \<Rightarrow> u32 \<Rightarrow> u32 option" where
  "user_addr s va = map_option (\<lambda>e. P2V (PTE_ADDR e) + (va AND 0xFFF)) (user_pte s va)"

definition user_load :: "'a vm_st_scheme \<Rightarrow> u32 \<Rightarrow> u8 res" where
  "user_load s va = (case user_addr s va of None \<Rightarrow> Fault | Some a \<Rightarrow> Ret (mem s a))"

definition user_store :: "'a vm_st_scheme \<Rightarrow> u32 \<Rightarrow> u8 \<Rightarrow> 'a vm_st_scheme res" where
  "user_store s va c =
     (case user_pte s va of
        None \<Rightarrow> Fault
      | Some e \<Rightarrow> if e AND PTE_W = 0 then Fault else Ret (s\<lparr>mem := (mem s)(P2V (PTE_ADDR e) + (va AND 0xFFF) := c)\<rparr>))"

fun user_loads :: "'a vm_st_scheme \<Rightarrow> u32 \<Rightarrow> nat \<Rightarrow> u8 list res" where
  "user_loads s va 0 = Ret []"
| "user_loads s va (Suc n) = bind_res (user_load s va) (\<lambda>c. bind_res (user_loads s (va + 1) n) (\<lambda>cs. Ret (c # cs)))"

fun user_stores :: "'a vm_st_scheme \<Rightarrow> u32 \<Rightarrow> u8 list \<Rightarrow> 'a vm_st_scheme res" where
  "user_stores s va [] = Ret s"
| "user_stores s va (c # cs) = bind_res (user_store s va c) (\<lambda>s. user_stores s (va + 1) cs)"

definition word_bytes :: "u32 \<Rightarrow> u8 list" where
  "word_bytes v = [ucast v, ucast (drop_bit 8 v), ucast (drop_bit 16 v), ucast (drop_bit 24 v)]"

section \<open>Arguments\<close>

definition curproc :: "'a proc_st_scheme \<Rightarrow> nat res" where
  "curproc s = (case cpu_proc s (this_cpu s) of None \<Rightarrow> Fault | Some p \<Rightarrow> Ret p)"

definition fetchint :: "'a proc_st_scheme \<Rightarrow> u32 \<Rightarrow> u32 option res" where
  "fetchint s addr =
     bind_res (curproc s) (\<lambda>p.
       if addr \<ge> sz (ptable s ! p) \<or> addr + 4 > sz (ptable s ! p) then Ret None
       else bind_res (user_loads s addr 4) (\<lambda>bs. Ret (Some (get32 bs 0))))"

text \<open>The string at \<open>addr\<close> if its terminator comes within \<open>n\<close> bytes.\<close>

fun fetchstr_loop :: "'a vm_st_scheme \<Rightarrow> u32 \<Rightarrow> nat \<Rightarrow> u8 list option res" where
  "fetchstr_loop s a 0 = Ret None"
| "fetchstr_loop s a (Suc n) =
     bind_res (user_load s a) (\<lambda>c.
       if c = 0 then Ret (Some [])
       else bind_res (fetchstr_loop s (a + 1) n) (\<lambda>r. Ret (map_option (\<lambda>cs. c # cs) r)))"

definition fetchstr :: "'a proc_st_scheme \<Rightarrow> u32 \<Rightarrow> u8 list option res" where
  "fetchstr s addr =
     bind_res (curproc s) (\<lambda>p.
       if addr \<ge> sz (ptable s ! p) then Ret None
       else fetchstr_loop s addr (unat (sz (ptable s ! p) - addr)))"

definition argint :: "'a proc_st_scheme \<Rightarrow> nat \<Rightarrow> u32 option res" where
  "argint s n = bind_res (curproc s) (\<lambda>p. fetchint s (tf_esp (tf (ptable s ! p)) + 4 + 4 * of_nat n))"

definition argptr :: "'a proc_st_scheme \<Rightarrow> nat \<Rightarrow> u32 \<Rightarrow> u32 option res" where
  "argptr s n nbytes =
     bind_res (argint s n) (\<lambda>r.
       case r of
         None \<Rightarrow> Ret None
       | Some i \<Rightarrow>
           bind_res (curproc s) (\<lambda>p.
             if nbytes <s 0 \<or> i \<ge> sz (ptable s ! p) \<or> i + nbytes > sz (ptable s ! p) then Ret None else Ret (Some i)))"

definition argstr :: "'a proc_st_scheme \<Rightarrow> nat \<Rightarrow> u8 list option res" where
  "argstr s n =
     bind_res (argint s n) (\<lambda>r. case r of None \<Rightarrow> Ret None | Some addr \<Rightarrow> fetchstr s addr)"

section \<open>Process system calls\<close>

datatype 's sysres = Returned u32 's | Switched 's

definition ret_pair :: "(u32 \<times> 's) res \<Rightarrow> 's sysres res" where
  "ret_pair r = bind_res r (\<lambda>(v, s). Ret (Returned v s))"

definition sys_fork :: "'a kern_st_scheme \<Rightarrow> 'a kern_st_scheme sysres res" where
  "sys_fork s = ret_pair (fork s)"

definition sys_exit :: "'a kern_st_scheme \<Rightarrow> 'a kern_st_scheme sysres res" where
  "sys_exit s = bind_res (exit s) (\<lambda>s. Ret (Switched s))"

definition sys_wait :: "'a proc_st_scheme \<Rightarrow> 'a proc_st_scheme sysres res" where
  "sys_wait s =
     bind_res (wait s) (\<lambda>w. Ret (case w of Reaped k s \<Rightarrow> Returned k s | NoChild s \<Rightarrow> Returned (- 1) s | Sleeping _ s \<Rightarrow> Switched s))"

definition sys_kill :: "'a proc_st_scheme \<Rightarrow> 'a proc_st_scheme sysres res" where
  "sys_kill s =
     bind_res (argint s 0) (\<lambda>r. case r of None \<Rightarrow> Ret (Returned (- 1) s) | Some k \<Rightarrow> ret_pair (kill s k))"

definition sys_getpid :: "'a proc_st_scheme \<Rightarrow> 'a proc_st_scheme sysres res" where
  "sys_getpid s = bind_res (curproc s) (\<lambda>p. Ret (Returned (pid (ptable s ! p)) s))"

definition sys_sbrk :: "'a proc_st_scheme \<Rightarrow> 'a proc_st_scheme sysres res" where
  "sys_sbrk s =
     bind_res (argint s 0) (\<lambda>r.
       case r of
         None \<Rightarrow> Ret (Returned (- 1) s)
       | Some n \<Rightarrow>
           bind_res (curproc s) (\<lambda>p.
             let addr = sz (ptable s ! p) in
             bind_res (growproc s n) (\<lambda>(r, s). Ret (Returned (if r <s 0 then - 1 else addr) s))))"

text \<open>
  \<^verbatim>\<open>sys_sleep\<close> with \<open>ticks0\<close> the value of \<^verbatim>\<open>ticks\<close> when the call began: one test of its loop. The
  difference is compared with \<^verbatim>\<open>n\<close> as an unsigned number.
\<close>

definition sleep_test :: "'a kern_st_scheme \<Rightarrow> u32 \<Rightarrow> u32 \<Rightarrow> 'a kern_st_scheme sysres res" where
  "sleep_test s ticks0 n =
     (if ticks s - ticks0 < n then (if curkilled s then Ret (Returned (- 1) s) else Block)
      else Ret (Returned 0 s))"

definition sys_sleep :: "'a kern_st_scheme \<Rightarrow> 'a kern_st_scheme sysres res" where
  "sys_sleep s =
     bind_res (argint s 0) (\<lambda>r. case r of None \<Rightarrow> Ret (Returned (- 1) s) | Some n \<Rightarrow> sleep_test s (ticks s) n)"

definition sys_uptime :: "'a kern_st_scheme \<Rightarrow> 'a kern_st_scheme sysres res" where
  "sys_uptime s = Ret (Returned (ticks s) s)"

end
