(* ===== verification/Sysfile.thy ===== *)
theory Sysfile
  imports Syscall
begin

text \<open>
  The file system calls (sysfile.c). They fetch their arguments, run one transaction and report
  failure as -1. Paths are the byte lists that \<open>argstr\<close> has read; data go to and come from user
  memory.
\<close>

definition fail :: "'s \<Rightarrow> 's sysres res" where
  "fail s = Ret (Returned (- 1) s)"

definition end_fail :: "'a log_st_scheme \<Rightarrow> 'a log_st_scheme sysres res" where
  "end_fail s = bind_res (end_op s) fail"

section \<open>Descriptors\<close>

definition argfd :: "'a proc_st_scheme \<Rightarrow> nat \<Rightarrow> (nat \<times> nat) option res" where
  "argfd s n =
     bind_res (argint s n) (\<lambda>r.
       case r of
         None \<Rightarrow> Ret None
       | Some fd \<Rightarrow>
           bind_res (curproc s) (\<lambda>p.
             if fd <s 0 \<or> of_nat NOFILE <=s fd then Ret None
             else Ret (map_option (\<lambda>f. (unat fd, f)) (ofile (ptable s ! p) ! unat fd))))"

fun find_fd :: "nat option list \<Rightarrow> nat \<Rightarrow> nat option" where
  "find_fd [] i = None"
| "find_fd (x # xs) i = (if x = None then Some i else find_fd xs (Suc i))"

definition fdalloc :: "'a proc_st_scheme \<Rightarrow> nat \<Rightarrow> (nat option \<times> 'a proc_st_scheme) res" where
  "fdalloc s f =
     bind_res (curproc s) (\<lambda>p.
       case find_fd (ofile (ptable s ! p)) 0 of
         None \<Rightarrow> Ret (None, s)
       | Some fd \<Rightarrow> Ret (Some fd, upd_proc p (\<lambda>q. q\<lparr>ofile := (ofile q)[fd := Some f]\<rparr>) s))"

definition clear_fd :: "nat \<Rightarrow> 'a proc_st_scheme \<Rightarrow> 'a proc_st_scheme res" where
  "clear_fd fd s = bind_res (curproc s) (\<lambda>p. Ret (upd_proc p (\<lambda>q. q\<lparr>ofile := (ofile q)[fd := None]\<rparr>) s))"

definition sys_dup :: "'a file_st_scheme \<Rightarrow> 'a file_st_scheme sysres res" where
  "sys_dup s =
     bind_res (argfd s 0) (\<lambda>r.
       case r of
         None \<Rightarrow> fail s
       | Some (_, f) \<Rightarrow>
           bind_res (fdalloc s f) (\<lambda>(fd, s).
             case fd of
               None \<Rightarrow> fail s
             | Some fd \<Rightarrow> bind_res (filedup s f) (\<lambda>(_, s). Ret (Returned (of_nat fd) s))))"

section \<open>Reading and writing\<close>

text \<open>
  \<^verbatim>\<open>filewrite\<close> and \<^verbatim>\<open>fileread\<close> on a buffer in user memory. A file that is not open for writing is
  refused before the buffer is read.
\<close>

definition user_filewrite :: "'a file_st_scheme \<Rightarrow> nat \<Rightarrow> u32 \<Rightarrow> u32 \<Rightarrow> (u32 \<times> 'a file_st_scheme) res" where
  "user_filewrite s f va n =
     (if f_writable (ftable s ! f) = 0 then filewrite s f [] n
      else bind_res (user_loads s va (nat (sint n))) (\<lambda>src. filewrite s f src n))"

definition user_fileread :: "'a file_st_scheme \<Rightarrow> nat \<Rightarrow> u32 \<Rightarrow> u32 \<Rightarrow> (u32 \<times> 'a file_st_scheme) res" where
  "user_fileread s f va n =
     bind_res (fileread s f n) (\<lambda>(r, xs, s). bind_res (user_stores s va xs) (\<lambda>s. Ret (r, s)))"

definition sys_read :: "'a file_st_scheme \<Rightarrow> 'a file_st_scheme sysres res" where
  "sys_read s =
     bind_res (argfd s 0) (\<lambda>rf.
       case rf of
         None \<Rightarrow> fail s
       | Some (_, f) \<Rightarrow>
           bind_res (argint s 2) (\<lambda>rn.
             case rn of
               None \<Rightarrow> fail s
             | Some n \<Rightarrow>
                 bind_res (argptr s 1 n) (\<lambda>rp.
                   case rp of None \<Rightarrow> fail s | Some p \<Rightarrow> ret_pair (user_fileread s f p n))))"

definition sys_write :: "'a file_st_scheme \<Rightarrow> 'a file_st_scheme sysres res" where
  "sys_write s =
     bind_res (argfd s 0) (\<lambda>rf.
       case rf of
         None \<Rightarrow> fail s
       | Some (_, f) \<Rightarrow>
           bind_res (argint s 2) (\<lambda>rn.
             case rn of
               None \<Rightarrow> fail s
             | Some n \<Rightarrow>
                 bind_res (argptr s 1 n) (\<lambda>rp.
                   case rp of None \<Rightarrow> fail s | Some p \<Rightarrow> ret_pair (user_filewrite s f p n))))"

definition sys_close :: "'a file_st_scheme \<Rightarrow> 'a file_st_scheme sysres res" where
  "sys_close s =
     bind_res (argfd s 0) (\<lambda>r.
       case r of
         None \<Rightarrow> fail s
       | Some (fd, f) \<Rightarrow>
           bind_res (clear_fd fd s) (\<lambda>s. bind_res (fileclose s f) (\<lambda>s. Ret (Returned 0 s))))"

text \<open>The 20 bytes of a \<^verbatim>\<open>struct stat\<close> with its padding, which keeps the bytes it had.\<close>

definition stat_stores :: "'a vm_st_scheme \<Rightarrow> u32 \<Rightarrow> stat \<Rightarrow> 'a vm_st_scheme res" where
  "stat_stores s a st =
     bind_res (user_stores s (a + 4) (word_bytes (st_dev st))) (\<lambda>s.
       bind_res (user_stores s (a + 8) (word_bytes (st_ino st))) (\<lambda>s.
         bind_res (user_stores s a [ucast (st_type st), ucast (drop_bit 8 (st_type st))]) (\<lambda>s.
           bind_res (user_stores s (a + 12) [ucast (st_nlink st), ucast (drop_bit 8 (st_nlink st))]) (\<lambda>s.
             user_stores s (a + 16) (word_bytes (st_size st))))))"

definition sys_fstat :: "'a file_st_scheme \<Rightarrow> 'a file_st_scheme sysres res" where
  "sys_fstat s =
     bind_res (argfd s 0) (\<lambda>rf.
       case rf of
         None \<Rightarrow> fail s
       | Some (_, f) \<Rightarrow>
           bind_res (argptr s 1 20) (\<lambda>rp.
             case rp of
               None \<Rightarrow> fail s
             | Some a \<Rightarrow>
                 bind_res (filestat s f) (\<lambda>(st, s).
                   case st of
                     None \<Rightarrow> fail s
                   | Some st \<Rightarrow> bind_res (stat_stores s a st) (\<lambda>s. Ret (Returned 0 s)))))"

section \<open>Links\<close>

definition link_bad :: "'a fs_st_scheme \<Rightarrow> nat \<Rightarrow> 'a fs_st_scheme sysres res" where
  "link_bad s ip =
     bind_res (ilock s (Some ip)) (\<lambda>s.
       bind_res (iupdate (set_inode ip (\<lambda>x. x\<lparr>i_nlink := i_nlink x - 1\<rparr>) s) ip) (\<lambda>s.
         bind_res (iunlockput s ip) end_fail))"

definition link_paths :: "'a fs_st_scheme \<Rightarrow> u8 list \<Rightarrow> u8 list \<Rightarrow> 'a fs_st_scheme sysres res" where
  "link_paths s old new =
     bind_res (begin_op s) (\<lambda>s.
       bind_res (namei s old) (\<lambda>(ipo, s).
         case ipo of
           None \<Rightarrow> end_fail s
         | Some ip \<Rightarrow>
             bind_res (ilock s (Some ip)) (\<lambda>s.
               if i_type (icache s ! ip) = T_DIR then bind_res (iunlockput s ip) end_fail
               else bind_res (iupdate (set_inode ip (\<lambda>x. x\<lparr>i_nlink := i_nlink x + 1\<rparr>) s) ip) (\<lambda>s.
                 bind_res (iunlock s (Some ip)) (\<lambda>s.
                   bind_res (nameiparent s new (replicate DIRSIZ 0)) (\<lambda>(dpo, name, s).
                     case dpo of
                       None \<Rightarrow> link_bad s ip
                     | Some dp \<Rightarrow>
                         bind_res (ilock s (Some dp)) (\<lambda>s.
                           bind_res (if i_dev (icache s ! dp) \<noteq> i_dev (icache s ! ip) then Ret (- 1, s)
                               else dirlink s dp name (i_inum (icache s ! ip))) (\<lambda>(r, s).
                             if r <s 0 then bind_res (iunlockput s dp) (\<lambda>s. link_bad s ip)
                             else bind_res (iunlockput s dp) (\<lambda>s.
                               bind_res (iput s ip) (\<lambda>s.
                                 bind_res (end_op s) (\<lambda>s. Ret (Returned 0 s)))))))))))) "

definition sys_link :: "'a fs_st_scheme \<Rightarrow> 'a fs_st_scheme sysres res" where
  "sys_link s =
     bind_res (argstr s 0) (\<lambda>ro.
       case ro of
         None \<Rightarrow> fail s
       | Some old \<Rightarrow>
           bind_res (argstr s 1) (\<lambda>rn. case rn of None \<Rightarrow> fail s | Some new \<Rightarrow> link_paths s old new))"

fun isdirempty_loop :: "'a fs_st_scheme \<Rightarrow> nat \<Rightarrow> u32 \<Rightarrow> nat \<Rightarrow> (bool \<times> 'a fs_st_scheme) res" where
  "isdirempty_loop s dp off 0 = Ret (True, s)"
| "isdirempty_loop s dp off (Suc n) =
     bind_res (readi no_devices s dp off 16) (\<lambda>(r, bs, s).
       if r \<noteq> 16 then Panic ''isdirempty: readi''
       else if de_inum (get_dirent bs) \<noteq> 0 then Ret (False, s)
       else isdirempty_loop s dp (off + 16) n)"

definition isdirempty :: "'a fs_st_scheme \<Rightarrow> nat \<Rightarrow> (bool \<times> 'a fs_st_scheme) res" where
  "isdirempty s dp = isdirempty_loop s dp 32 (dir_slots (i_size (icache s ! dp)) - 2)"

definition unlink_bad :: "'a fs_st_scheme \<Rightarrow> nat \<Rightarrow> 'a fs_st_scheme sysres res" where
  "unlink_bad s dp = bind_res (iunlockput s dp) end_fail"

definition unlink_path :: "'a fs_st_scheme \<Rightarrow> u8 list \<Rightarrow> 'a fs_st_scheme sysres res" where
  "unlink_path s path =
     bind_res (begin_op s) (\<lambda>s.
       bind_res (nameiparent s path (replicate DIRSIZ 0)) (\<lambda>(dpo, name, s).
         case dpo of
           None \<Rightarrow> end_fail s
         | Some dp \<Rightarrow>
             bind_res (ilock s (Some dp)) (\<lambda>s.
               if namecmp name [0x2E] = 0 \<or> namecmp name [0x2E, 0x2E] = 0 then unlink_bad s dp
               else bind_res (dirlookup s dp name) (\<lambda>(r, s).
                 case r of
                   None \<Rightarrow> unlink_bad s dp
                 | Some (ip, off) \<Rightarrow>
                     bind_res (ilock s (Some ip)) (\<lambda>s.
                       if i_nlink (icache s ! ip) <s 1 then Panic ''unlink: nlink < 1''
                       else bind_res (if i_type (icache s ! ip) = T_DIR then isdirempty s ip else Ret (True, s)) (\<lambda>(empty, s).
                         if \<not> empty then bind_res (iunlockput s ip) (\<lambda>s. unlink_bad s dp)
                         else bind_res (writei no_devices s dp (replicate 16 0) off 16) (\<lambda>(w, s).
                           if w \<noteq> 16 then Panic ''unlink: writei''
                           else bind_res (if i_type (icache s ! ip) = T_DIR
                               then iupdate (set_inode dp (\<lambda>x. x\<lparr>i_nlink := i_nlink x - 1\<rparr>) s) dp else Ret s) (\<lambda>s.
                             bind_res (iunlockput s dp) (\<lambda>s.
                               bind_res (iupdate (set_inode ip (\<lambda>x. x\<lparr>i_nlink := i_nlink x - 1\<rparr>) s) ip) (\<lambda>s.
                                 bind_res (iunlockput s ip) (\<lambda>s.
                                   bind_res (end_op s) (\<lambda>s. Ret (Returned 0 s)))))))))))))"

definition sys_unlink :: "'a fs_st_scheme \<Rightarrow> 'a fs_st_scheme sysres res" where
  "sys_unlink s = bind_res (argstr s 0) (\<lambda>r. case r of None \<Rightarrow> fail s | Some path \<Rightarrow> unlink_path s path)"

section \<open>Opening files\<close>

definition make_dots :: "'a fs_st_scheme \<Rightarrow> nat \<Rightarrow> nat \<Rightarrow> 'a fs_st_scheme res" where
  "make_dots s dp ip =
     bind_res (iupdate (set_inode dp (\<lambda>x. x\<lparr>i_nlink := i_nlink x + 1\<rparr>) s) dp) (\<lambda>s.
       bind_res (dirlink s ip [0x2E] (i_inum (icache s ! ip))) (\<lambda>(r, s).
         if r <s 0 then Panic ''create dots''
         else bind_res (dirlink s ip [0x2E, 0x2E] (i_inum (icache s ! dp))) (\<lambda>(r, s).
           if r <s 0 then Panic ''create dots'' else Ret s)))"

definition create ::
  "'a fs_st_scheme \<Rightarrow> u8 list \<Rightarrow> u16 \<Rightarrow> u16 \<Rightarrow> u16 \<Rightarrow> (nat option \<times> 'a fs_st_scheme) res" where
  "create s path type major minor =
     bind_res (nameiparent s path (replicate DIRSIZ 0)) (\<lambda>(dpo, name, s).
       case dpo of
         None \<Rightarrow> Ret (None, s)
       | Some dp \<Rightarrow>
           bind_res (ilock s (Some dp)) (\<lambda>s.
             bind_res (dirlookup s dp name) (\<lambda>(r, s).
               case r of
                 Some (ip, _) \<Rightarrow>
                   bind_res (iunlockput s dp) (\<lambda>s.
                     bind_res (ilock s (Some ip)) (\<lambda>s.
                       if type = T_FILE \<and> i_type (icache s ! ip) = T_FILE then Ret (Some ip, s)
                       else bind_res (iunlockput s ip) (\<lambda>s. Ret (None, s))))
               | None \<Rightarrow>
                   bind_res (ialloc s (i_dev (icache s ! dp)) type) (\<lambda>(ip, s).
                     bind_res (ilock s (Some ip)) (\<lambda>s.
                       bind_res (iupdate (set_inode ip (\<lambda>x. x\<lparr>i_major := major, i_minor := minor, i_nlink := 1\<rparr>) s) ip) (\<lambda>s.
                         bind_res (if type = T_DIR then make_dots s dp ip else Ret s) (\<lambda>s.
                           bind_res (dirlink s dp name (i_inum (icache s ! ip))) (\<lambda>(r, s).
                             if r <s 0 then Panic ''create: dirlink''
                             else bind_res (iunlockput s dp) (\<lambda>s. Ret (Some ip, s))))))))))"

text \<open>The inode to open, locked.\<close>

definition open_inode :: "'a fs_st_scheme \<Rightarrow> u8 list \<Rightarrow> u32 \<Rightarrow> (nat option \<times> 'a fs_st_scheme) res" where
  "open_inode s path omode =
     (if omode AND O_CREATE \<noteq> 0 then create s path T_FILE 0 0
      else bind_res (namei s path) (\<lambda>(ipo, s).
        case ipo of
          None \<Rightarrow> Ret (None, s)
        | Some ip \<Rightarrow>
            bind_res (ilock s (Some ip)) (\<lambda>s.
              if i_type (icache s ! ip) = T_DIR \<and> omode \<noteq> O_RDONLY
              then bind_res (iunlockput s ip) (\<lambda>s. Ret (None, s))
              else Ret (Some ip, s))))"

definition open_file :: "'a file_st_scheme \<Rightarrow> (nat option \<times> nat option \<times> 'a file_st_scheme) res" where
  "open_file s =
     (case filealloc s of
        (None, s) \<Rightarrow> Ret (None, None, s)
      | (Some f, s) \<Rightarrow>
          bind_res (fdalloc s f) (\<lambda>(fd, s).
            case fd of
              None \<Rightarrow> bind_res (fileclose s f) (\<lambda>s. Ret (Some f, None, s))
            | Some fd \<Rightarrow> Ret (Some f, Some fd, s)))"

definition open_path :: "'a file_st_scheme \<Rightarrow> u8 list \<Rightarrow> u32 \<Rightarrow> 'a file_st_scheme sysres res" where
  "open_path s path omode =
     bind_res (begin_op s) (\<lambda>s.
       bind_res (open_inode s path omode) (\<lambda>(ipo, s).
         case ipo of
           None \<Rightarrow> end_fail s
         | Some ip \<Rightarrow>
             bind_res (open_file s) (\<lambda>(fo, fdo, s).
               case (fo, fdo) of
                 (Some f, Some fd) \<Rightarrow>
                   bind_res (iunlock s (Some ip)) (\<lambda>s.
                     bind_res (end_op s) (\<lambda>s.
                       Ret (Returned (of_nat fd) (set_file f (\<lambda>x. x\<lparr>f_type := FD_INODE, f_ip := ip, f_off := 0,
                         f_readable := (if omode AND O_WRONLY = 0 then 1 else 0),
                         f_writable := (if omode AND O_WRONLY \<noteq> 0 \<or> omode AND O_RDWR \<noteq> 0 then 1 else 0)\<rparr>) s))))
               | _ \<Rightarrow> bind_res (iunlockput s ip) end_fail)))"

definition sys_open :: "'a file_st_scheme \<Rightarrow> 'a file_st_scheme sysres res" where
  "sys_open s =
     bind_res (argstr s 0) (\<lambda>rp.
       case rp of
         None \<Rightarrow> fail s
       | Some path \<Rightarrow>
           bind_res (argint s 1) (\<lambda>ro. case ro of None \<Rightarrow> fail s | Some omode \<Rightarrow> open_path s path omode))"

definition put_created :: "(nat option \<times> 'a fs_st_scheme) res \<Rightarrow> 'a fs_st_scheme sysres res" where
  "put_created r =
     bind_res r (\<lambda>(ipo, s).
       case ipo of
         None \<Rightarrow> end_fail s
       | Some ip \<Rightarrow> bind_res (iunlockput s ip) (\<lambda>s. bind_res (end_op s) (\<lambda>s. Ret (Returned 0 s))))"

definition sys_mkdir :: "'a fs_st_scheme \<Rightarrow> 'a fs_st_scheme sysres res" where
  "sys_mkdir s =
     bind_res (begin_op s) (\<lambda>s.
       bind_res (argstr s 0) (\<lambda>rp.
         case rp of None \<Rightarrow> end_fail s | Some path \<Rightarrow> put_created (create s path T_DIR 0 0)))"

definition sys_mknod :: "'a fs_st_scheme \<Rightarrow> 'a fs_st_scheme sysres res" where
  "sys_mknod s =
     bind_res (begin_op s) (\<lambda>s.
       bind_res (argstr s 0) (\<lambda>rp.
         case rp of
           None \<Rightarrow> end_fail s
         | Some path \<Rightarrow>
             bind_res (argint s 1) (\<lambda>ra.
               case ra of
                 None \<Rightarrow> end_fail s
               | Some major \<Rightarrow>
                   bind_res (argint s 2) (\<lambda>ri.
                     case ri of
                       None \<Rightarrow> end_fail s
                     | Some minor \<Rightarrow> put_created (create s path T_DEV (ucast major) (ucast minor))))))"

definition chdir_path :: "'a fs_st_scheme \<Rightarrow> u8 list \<Rightarrow> 'a fs_st_scheme sysres res" where
  "chdir_path s path =
     bind_res (namei s path) (\<lambda>(ipo, s).
       case ipo of
         None \<Rightarrow> end_fail s
       | Some ip \<Rightarrow>
           bind_res (ilock s (Some ip)) (\<lambda>s.
             if i_type (icache s ! ip) \<noteq> T_DIR then bind_res (iunlockput s ip) end_fail
             else bind_res (iunlock s (Some ip)) (\<lambda>s.
               bind_res (curproc s) (\<lambda>p.
                 case cwd (ptable s ! p) of
                   None \<Rightarrow> Fault
                 | Some d \<Rightarrow>
                     bind_res (iput s d) (\<lambda>s.
                       bind_res (end_op s) (\<lambda>s.
                         Ret (Returned 0 (upd_proc p (\<lambda>q. q\<lparr>cwd := Some ip\<rparr>) s))))))))"

definition sys_chdir :: "'a fs_st_scheme \<Rightarrow> 'a fs_st_scheme sysres res" where
  "sys_chdir s =
     bind_res (begin_op s) (\<lambda>s.
       bind_res (argstr s 0) (\<lambda>rp. case rp of None \<Rightarrow> end_fail s | Some path \<Rightarrow> chdir_path s path))"

definition close_both :: "'a file_st_scheme \<Rightarrow> nat \<Rightarrow> nat \<Rightarrow> 'a file_st_scheme sysres res" where
  "close_both s rf wfile = bind_res (fileclose s rf) (\<lambda>s. bind_res (fileclose s wfile) fail)"

definition sys_pipe :: "'a file_st_scheme \<Rightarrow> 'a file_st_scheme sysres res" where
  "sys_pipe s =
     bind_res (argptr s 0 8) (\<lambda>rp.
       case rp of
         None \<Rightarrow> fail s
       | Some fd \<Rightarrow>
           bind_res (pipealloc s) (\<lambda>(r, s).
             case r of
               None \<Rightarrow> fail s
             | Some (rf, wfile) \<Rightarrow>
                 bind_res (fdalloc s rf) (\<lambda>(fd0, s).
                   case fd0 of
                     None \<Rightarrow> close_both s rf wfile
                   | Some fd0 \<Rightarrow>
                       bind_res (fdalloc s wfile) (\<lambda>(fd1, s).
                         case fd1 of
                           None \<Rightarrow> bind_res (clear_fd fd0 s) (\<lambda>s. close_both s rf wfile)
                         | Some fd1 \<Rightarrow>
                             bind_res (user_stores s fd (word_bytes (of_nat fd0))) (\<lambda>s.
                               bind_res (user_stores s (fd + 4) (word_bytes (of_nat fd1))) (\<lambda>s.
                                 Ret (Returned 0 s)))))))"

section \<open>Memory mappings\<close>

text \<open>
  These calls do not look at the result of \<^verbatim>\<open>argint\<close> and \<^verbatim>\<open>argptr\<close>: a local whose argument could not
  be fetched keeps whatever it held, \<open>junk n\<close> for argument \<open>n\<close>. Their messages to the console are
  left out.
\<close>

definition argint_or :: "(nat \<Rightarrow> u32) \<Rightarrow> 'a proc_st_scheme \<Rightarrow> nat \<Rightarrow> u32 res" where
  "argint_or junk s n = bind_res (argint s n) (\<lambda>r. Ret (case r of None \<Rightarrow> junk n | Some v \<Rightarrow> v))"

definition argptr_or :: "(nat \<Rightarrow> u32) \<Rightarrow> 'a proc_st_scheme \<Rightarrow> nat \<Rightarrow> u32 \<Rightarrow> u32 res" where
  "argptr_or junk s n nbytes = bind_res (argptr s n nbytes) (\<lambda>r. Ret (case r of None \<Rightarrow> junk n | Some v \<Rightarrow> v))"

definition put_proc :: "nat \<Rightarrow> 'a proc_st_scheme \<Rightarrow> (u32 \<times> proc) res \<Rightarrow> 'a proc_st_scheme sysres res" where
  "put_proc p s r = bind_res r (\<lambda>(v, q). Ret (Returned v (upd_proc p (\<lambda>_. q) s)))"

definition sys_wmap :: "(nat \<Rightarrow> u32) \<Rightarrow> 'a proc_st_scheme \<Rightarrow> 'a proc_st_scheme sysres res" where
  "sys_wmap junk s =
     bind_res (argint_or junk s 2) (\<lambda>flags.
       bind_res (argint_or junk s 0) (\<lambda>addr.
         bind_res (argint_or junk s 1) (\<lambda>len.
           if len <s 1 then fail s
           else bind_res (argint_or junk s 3) (\<lambda>fd.
             bind_res (curproc s) (\<lambda>p. put_proc p s (wmap_body (ptable s ! p) addr len flags fd))))))"

definition wunmap_write :: "'a file_st_scheme \<Rightarrow> nat \<Rightarrow> mem_block \<Rightarrow> 'a file_st_scheme res" where
  "wunmap_write s p b =
     (if mb_flags b AND MAP_ANONYMOUS = 0 \<and> mb_flags b AND MAP_PRIVATE = 0
      then if mb_fd b \<ge> of_nat NOFILE then Fault
        else case ofile (ptable s ! p) ! unat (mb_fd b) of
          None \<Rightarrow> Fault
        | Some f \<Rightarrow>
            bind_res (user_filewrite (set_file f (\<lambda>x. x\<lparr>f_off := 0\<rparr>) s) f (mb_start b) (mb_length b)) (\<lambda>(_, s). Ret s)
      else Ret s)"

definition sys_wunmap :: "(nat \<Rightarrow> u32) \<Rightarrow> 'a file_st_scheme \<Rightarrow> 'a file_st_scheme sysres res" where
  "sys_wunmap junk s =
     bind_res (argint_or junk s 0) (\<lambda>addr.
       if addr mod PGSIZE \<noteq> 0 then fail s
       else bind_res (curproc s) (\<lambda>p.
         let q = ptable s ! p in
         bind_res (find_upto (\<lambda>b. mb_start b = addr) (arr q) (num_mmaps q)) (\<lambda>r.
           case r of
             None \<Rightarrow> fail s
           | Some location \<Rightarrow>
               bind_res (wunmap_write s p (arr q ! location)) (\<lambda>s.
                 let q = ptable s ! p; left = leftmostLoadedAddr (winfo q) ! location;
                     bound = left + PGSIZE * n_loaded_pages (winfo q) ! location
                 in bind_res (wunmap_loop s (pgdir q) left bound) (\<lambda>s.
                   let (r, q) = remove_mapping (ptable s ! p) (mb_start (arr (ptable s ! p) ! location));
                       s = upd_proc p (\<lambda>_. q) s
                   in Ret (Returned (if r = 0 then FAILED else 0) s))))))"

definition sys_wremap :: "(nat \<Rightarrow> u32) \<Rightarrow> 'a proc_st_scheme \<Rightarrow> 'a proc_st_scheme sysres res" where
  "sys_wremap junk s =
     bind_res (argint_or junk s 0) (\<lambda>oldaddr.
       bind_res (argint_or junk s 1) (\<lambda>oldsize.
         bind_res (argint_or junk s 2) (\<lambda>newsize.
           bind_res (argint_or junk s 3) (\<lambda>flag.
             bind_res (curproc s) (\<lambda>p. put_proc p s (wremap_body (ptable s ! p) oldaddr oldsize newsize flag))))))"

text \<open>
  \<^verbatim>\<open>getpgdirinfo\<close>: the entries \<open>j\<close> of one page table, then the directory entries \<open>i\<close>. The structure
  in user memory has the count at offset 0, the virtual addresses at 4 and the physical ones at 132.
\<close>


definition user_entry :: "u32 \<Rightarrow> bool" where
  "user_entry e \<longleftrightarrow> e AND PTE_P \<noteq> 0 \<and> e AND PTE_U \<noteq> 0"

definition put_upage :: "'a vm_st_scheme \<Rightarrow> u32 \<Rightarrow> u32 \<Rightarrow> u32 \<Rightarrow> u32 \<Rightarrow> 'a vm_st_scheme res" where
  "put_upage s pdinfo count va pa =
     bind_res (if count <s of_nat MAX_UPAGE_INFO
       then bind_res (user_stores s (pdinfo + 4 + 4 * count) (word_bytes va)) (\<lambda>s.
         user_stores s (pdinfo + 132 + 4 * count) (word_bytes pa))
       else Ret s) (\<lambda>s. user_stores s pdinfo (word_bytes (count + 1)))"

fun upages_table :: "'a vm_st_scheme \<Rightarrow> u32 \<Rightarrow> u32 \<Rightarrow> u32 \<Rightarrow> u32 \<Rightarrow> nat \<Rightarrow> u32 \<Rightarrow> (u32 \<times> 'a vm_st_scheme) res" where
  "upages_table s pdinfo i pgTable j 0 count = Ret (count, s)"
| "upages_table s pdinfo i pgTable j (Suc n) count =
     (let e = load32 (mem s) (pgTable + 4 * j) in
      if user_entry e
      then bind_res (put_upage s pdinfo count (PGADDR i j 0) (P2V (PTE_ADDR e))) (\<lambda>s.
        upages_table s pdinfo i pgTable (j + 1) n (count + 1))
      else upages_table s pdinfo i pgTable (j + 1) n count)"

fun upages_dir :: "'a vm_st_scheme \<Rightarrow> u32 \<Rightarrow> u32 \<Rightarrow> u32 \<Rightarrow> nat \<Rightarrow> u32 \<Rightarrow> (u32 \<times> 'a vm_st_scheme) res" where
  "upages_dir s pdinfo pgDir i 0 count = Ret (count, s)"
| "upages_dir s pdinfo pgDir i (Suc n) count =
     (let e = load32 (mem s) (pgDir + 4 * i) in
      if user_entry e
      then bind_res (upages_table s pdinfo i (P2V (PTE_ADDR e)) 0 1024 count) (\<lambda>(count, s).
        upages_dir s pdinfo pgDir (i + 1) n count)
      else upages_dir s pdinfo pgDir (i + 1) n count)"

definition sys_getpgdirinfo :: "(nat \<Rightarrow> u32) \<Rightarrow> 'a proc_st_scheme \<Rightarrow> 'a proc_st_scheme sysres res" where
  "sys_getpgdirinfo junk s =
     bind_res (argptr_or junk s 0 4) (\<lambda>pdinfo.
       if pdinfo = 0 then fail s
       else bind_res (curproc s) (\<lambda>p.
         bind_res (upages_dir s pdinfo (pgdir (ptable s ! p)) 0 1024 0) (\<lambda>(_, s). Ret (Returned 0 s))))"

fun put_winfo :: "'a vm_st_scheme \<Rightarrow> u32 \<Rightarrow> wmapinfo \<Rightarrow> nat \<Rightarrow> nat \<Rightarrow> 'a vm_st_scheme res" where
  "put_winfo s a w i 0 = Ret s"
| "put_winfo s a w i (Suc n) =
     (if i \<ge> MAX_WMMAP_INFO then Fault
      else bind_res (user_stores s (a + 4 + 4 * of_nat i) (word_bytes (wi_addr w ! i))) (\<lambda>s.
        bind_res (user_stores s (a + 68 + 4 * of_nat i) (word_bytes (wi_length w ! i))) (\<lambda>s.
          bind_res (user_stores s (a + 132 + 4 * of_nat i) (word_bytes (n_loaded_pages w ! i))) (\<lambda>s.
            put_winfo s a w (Suc i) n))))"

definition sys_getwmapinfo :: "(nat \<Rightarrow> u32) \<Rightarrow> 'a proc_st_scheme \<Rightarrow> 'a proc_st_scheme sysres res" where
  "sys_getwmapinfo junk s =
     bind_res (argptr_or junk s 0 4) (\<lambda>wminfo.
       if wminfo = 0 then fail s
       else bind_res (curproc s) (\<lambda>p.
         let w = winfo (ptable s ! p) in
         bind_res (user_stores s wminfo (word_bytes (total_mmaps w))) (\<lambda>s.
           bind_res (put_winfo s wminfo w 0 (num_mmaps (ptable s ! p))) (\<lambda>s. Ret (Returned 0 s)))))"

end
