(* ===== verification/Exec.thy ===== *)
theory Exec
  imports Sysfile Copyout
begin

text \<open>
  Program loading (exec.c, loaduvm of vm.c, sys_exec of sysfile.c). The argument strings lie in the
  user memory of the caller and the array \<^verbatim>\<open>ustack\<close> on the kernel stack, so \<open>exec\<close> uses \<^verbatim>\<open>copyout\<close>
  on a list of bytes; \<open>copyout_bytes_copyout\<close> below says that this is \<^verbatim>\<open>copyout\<close> with the bytes taken
  from memory.
\<close>

section \<open>Loading a segment\<close>

fun store_bytes :: "memory \<Rightarrow> u32 \<Rightarrow> u8 list \<Rightarrow> memory" where
  "store_bytes m a [] = m"
| "store_bytes m a (b # bs) = store_bytes (m(a := b)) (a + 1) bs"

text \<open>A counter that wraps around starts the segment over, and the loop never ends.\<close>

function loaduvm_loop ::
  "'a file_st_scheme \<Rightarrow> u32 \<Rightarrow> u32 \<Rightarrow> nat \<Rightarrow> u32 \<Rightarrow> u32 \<Rightarrow> u32 \<Rightarrow> (u32 \<times> 'a file_st_scheme) res" where
  "loaduvm_loop s pgd addr ip off len i =
     (if i < len
      then let (pte, s) = walkpgdir s pgd (addr + i) False in
        if pte = 0 then Panic ''loaduvm: address should exist''
        else let pa = PTE_ADDR (load32 (mem s) pte); n = (if len - i < PGSIZE then len - i else PGSIZE) in
          bind_res (readi consoleinit s ip (off + i) n) (\<lambda>(r, xs, s).
            let s = s\<lparr>mem := store_bytes (mem s) (P2V pa) xs\<rparr> in
            if r \<noteq> n then Ret (- 1, s)
            else if i + PGSIZE < i then Diverge
            else loaduvm_loop s pgd addr ip off len (i + PGSIZE))
      else Ret (0, s))"
  by pat_completeness auto
termination
proof (relation "measure (\<lambda>(s, pgd, addr, ip, off, len, i). 4294967296 - unat i)", goal_cases)
  case 1
  then show ?case by simp
next
  case (2 s pgd addr ip off len i)
  then have "\<not> i + PGSIZE < i" by simp
  then have "i \<le> i + PGSIZE" by simp
  then have "unat (i + PGSIZE) = unat i + 4096" by (simp add: unat_plus_simple)
  then show ?case using unat_lt32 [of "i + PGSIZE"] by simp
qed

declare loaduvm_loop.simps [simp del]

definition loaduvm ::
  "'a file_st_scheme \<Rightarrow> u32 \<Rightarrow> u32 \<Rightarrow> nat \<Rightarrow> u32 \<Rightarrow> u32 \<Rightarrow> (u32 \<times> 'a file_st_scheme) res" where
  "loaduvm s pgd addr ip off len =
     (if addr mod PGSIZE \<noteq> 0 then Panic ''loaduvm: addr must be page aligned''
      else loaduvm_loop s pgd addr ip off len 0)"

section \<open>Copying out a list of bytes\<close>

function copyout_bytes :: "'a kmem_st_scheme \<Rightarrow> u32 \<Rightarrow> u32 \<Rightarrow> u8 list \<Rightarrow> (u32 \<times> 'a kmem_st_scheme) res" where
  "copyout_bytes s pgd va bs =
     (if bs \<noteq> []
      then let va0 = PGROUNDDOWN va in
        bind_res (uva2ka s pgd va0) (\<lambda>pa0.
          if pa0 = 0 then Ret (- 1, s)
          else let n = min (unat (PGSIZE - (va - va0))) (length bs);
                   s1 = s\<lparr>mem := store_bytes (mem s) (pa0 + (va - va0)) (take n bs)\<rparr>
               in copyout_bytes s1 pgd (va0 + PGSIZE) (drop n bs))
      else Ret (0, s))"
  by pat_completeness auto
termination
proof (relation "measure (\<lambda>(s, pgd, va, bs). length bs)", goal_cases)
  case (2 s pgd va bs va0 pa0 n s1)
  have "0 < unat (PGSIZE - (va - va0))"
    using chunk_unat [of va "- 1"] 2(2) by (simp add: chunk_def Let_def split: if_splits)
  then have "0 < n" using 2(1,5) by simp
  then show ?case using 2(1) by (cases bs) auto
qed simp

declare copyout_bytes.simps [simp del]

section \<open>The program image\<close>

abbreviation (input) ELF_MAGIC :: u32 where "ELF_MAGIC \<equiv> 0x464C457F"
abbreviation (input) ELF_PROG_LOAD :: u32 where "ELF_PROG_LOAD \<equiv> 1"

record elfhdr =
  e_magic :: u32
  e_entry :: u32
  e_phoff :: u32
  e_phnum :: u16

definition get_elfhdr :: "u8 list \<Rightarrow> elfhdr" where
  "get_elfhdr bs = \<lparr>e_magic = get32 bs 0, e_entry = get32 bs 24, e_phoff = get32 bs 28, e_phnum = get16 bs 44\<rparr>"

record proghdr =
  ph_type :: u32
  ph_off :: u32
  ph_vaddr :: u32
  ph_filesz :: u32
  ph_memsz :: u32

definition get_proghdr :: "u8 list \<Rightarrow> proghdr" where
  "get_proghdr bs = \<lparr>ph_type = get32 bs 0, ph_off = get32 bs 4, ph_vaddr = get32 bs 8, ph_filesz = get32 bs 16,
     ph_memsz = get32 bs 20\<rparr>"

text \<open>The loop over the program headers; \<open>None\<close> is the jump to \<^verbatim>\<open>bad\<close>, else the size reached.\<close>

fun load_segments ::
  "'a file_st_scheme \<Rightarrow> nat \<Rightarrow> u32 \<Rightarrow> u32 \<Rightarrow> u32 \<Rightarrow> nat \<Rightarrow> (u32 option \<times> 'a file_st_scheme) res" where
  "load_segments s ip pgd usz off 0 = Ret (Some usz, s)"
| "load_segments s ip pgd usz off (Suc n) =
     bind_res (readi consoleinit s ip off 32) (\<lambda>(r, bs, s).
       if r \<noteq> 32 then Ret (None, s)
       else let ph = get_proghdr bs in
         if ph_type ph \<noteq> ELF_PROG_LOAD then load_segments s ip pgd usz (off + 32) n
         else if ph_memsz ph < ph_filesz ph then Ret (None, s)
         else if ph_vaddr ph + ph_memsz ph < ph_vaddr ph then Ret (None, s)
         else bind_res (allocuvm s pgd usz (ph_vaddr ph + ph_memsz ph)) (\<lambda>(usz, s).
           if usz = 0 then Ret (None, s)
           else if ph_vaddr ph mod PGSIZE \<noteq> 0 then Ret (None, s)
           else bind_res (loaduvm s pgd (ph_vaddr ph) ip (ph_off ph) (ph_filesz ph)) (\<lambda>(r, s).
             if r <s 0 then Ret (None, s) else load_segments s ip pgd usz (off + 32) n)))"

text \<open>The loop that pushes the argument strings: the stack pointer and the addresses of the strings.\<close>

fun push_args ::
  "'a kmem_st_scheme \<Rightarrow> u32 \<Rightarrow> u32 \<Rightarrow> u8 list list \<Rightarrow> u32 list \<Rightarrow> ((u32 \<times> u32 list) option \<times> 'a kmem_st_scheme) res" where
  "push_args s pgd sp [] ust = Ret (Some (sp, ust), s)"
| "push_args s pgd sp (a # as) ust =
     (if length ust \<ge> MAXARG then Ret (None, s)
      else let sp = (sp - (of_nat (length a) + 1)) AND NOT 3 in
        bind_res (copyout_bytes s pgd sp (a @ [0])) (\<lambda>(r, s).
          if r <s 0 then Ret (None, s) else push_args s pgd sp as (ust @ [sp])))"

definition last_elem :: "u8 list \<Rightarrow> u8 list" where
  "last_elem path = rev (takeWhile (\<lambda>c. c \<noteq> slash) (rev path))"

definition exec_bad :: "'a file_st_scheme \<Rightarrow> u32 \<Rightarrow> nat option \<Rightarrow> (u32 \<times> 'a file_st_scheme) res" where
  "exec_bad s pgd ipo =
     bind_res (if pgd \<noteq> 0 then freevm s pgd else Ret s) (\<lambda>s.
       bind_res (case ipo of None \<Rightarrow> Ret s | Some ip \<Rightarrow> bind_res (iunlockput s ip) (\<lambda>s. end_op s)) (\<lambda>s. Ret (- 1, s)))"

text \<open>From the allocation of the user stack on.\<close>

definition exec_commit ::
  "'a file_st_scheme \<Rightarrow> u8 list \<Rightarrow> u8 list list \<Rightarrow> u32 \<Rightarrow> u32 \<Rightarrow> u32 \<Rightarrow> (u32 \<times> 'a file_st_scheme) res" where
  "exec_commit s path argv pgd usz entry =
     (let usz = PGROUNDUP usz in
      bind_res (allocuvm s pgd usz (usz + 2 * PGSIZE)) (\<lambda>(usz, s).
        if usz = 0 then exec_bad s pgd None
        else bind_res (clearpteu s pgd (usz - 2 * PGSIZE)) (\<lambda>s.
          bind_res (push_args s pgd usz argv []) (\<lambda>(r, s).
            case r of
              None \<Rightarrow> exec_bad s pgd None
            | Some (sp, ust) \<Rightarrow>
                let argc = of_nat (length ust);
                    ustack = [0xFFFFFFFF, argc, sp - (argc + 1) * 4] @ ust @ [0];
                    sp = sp - (3 + argc + 1) * 4
                in bind_res (copyout_bytes s pgd sp (concat (map word_bytes ustack))) (\<lambda>(r, s).
                  if r <s 0 then exec_bad s pgd None
                  else bind_res (curproc s) (\<lambda>p.
                    let oldpgdir = pgdir (ptable s ! p);
                        s = upd_proc p (\<lambda>q. q\<lparr>pname := safestrcpy_bytes (pname q) (last_elem path), pgdir := pgd, sz := usz,
                          tf := (tf q)\<lparr>tf_eip := entry, tf_esp := sp\<rparr>\<rparr>) s
                    in bind_res (switchuvm s (Some p)) (\<lambda>s.
                      bind_res (freevm s oldpgdir) (\<lambda>s. Ret (0, s)))))))))"

definition exec :: "'a file_st_scheme \<Rightarrow> u8 list \<Rightarrow> u8 list list \<Rightarrow> (u32 \<times> 'a file_st_scheme) res" where
  "exec s path argv =
     bind_res (begin_op s) (\<lambda>s.
       bind_res (namei s path) (\<lambda>(ipo, s).
         case ipo of
           None \<Rightarrow> bind_res (end_op s) (\<lambda>s. Ret (- 1, s))
         | Some ip \<Rightarrow>
             bind_res (ilock s (Some ip)) (\<lambda>s.
               bind_res (readi consoleinit s ip 0 52) (\<lambda>(r, bs, s).
                 let elf = get_elfhdr bs in
                 if r \<noteq> 52 then exec_bad s 0 (Some ip)
                 else if e_magic elf \<noteq> ELF_MAGIC then exec_bad s 0 (Some ip)
                 else bind_res (setupkvm s) (\<lambda>(pgd, s).
                   if pgd = 0 then exec_bad s 0 (Some ip)
                   else bind_res (load_segments s ip pgd 0 (e_phoff elf) (unat (e_phnum elf))) (\<lambda>(uo, s).
                     case uo of
                       None \<Rightarrow> exec_bad s pgd (Some ip)
                     | Some usz \<Rightarrow>
                         bind_res (iunlockput s ip) (\<lambda>s.
                           bind_res (end_op s) (\<lambda>s. exec_commit s path argv pgd usz (e_entry elf)))))))))"

section \<open>The system call\<close>

text \<open>The argument vector; \<open>None\<close> when it is too long or cannot be read.\<close>

fun fetch_argv :: "'a proc_st_scheme \<Rightarrow> u32 \<Rightarrow> nat \<Rightarrow> u8 list list option res" where
  "fetch_argv s uargv 0 = Ret None"
| "fetch_argv s uargv (Suc n) =
     bind_res (fetchint s uargv) (\<lambda>r.
       case r of
         None \<Rightarrow> Ret None
       | Some uarg \<Rightarrow>
           if uarg = 0 then Ret (Some [])
           else bind_res (fetchstr s uarg) (\<lambda>r.
             case r of
               None \<Rightarrow> Ret None
             | Some a \<Rightarrow> bind_res (fetch_argv s (uargv + 4) n) (\<lambda>r. Ret (map_option (\<lambda>as. a # as) r))))"

definition sys_exec :: "'a file_st_scheme \<Rightarrow> 'a file_st_scheme sysres res" where
  "sys_exec s =
     bind_res (argstr s 0) (\<lambda>rp.
       case rp of
         None \<Rightarrow> fail s
       | Some path \<Rightarrow>
           bind_res (argint s 1) (\<lambda>ra.
             case ra of
               None \<Rightarrow> fail s
             | Some uargv \<Rightarrow>
                 bind_res (fetch_argv s uargv MAXARG) (\<lambda>r.
                   case r of None \<Rightarrow> fail s | Some argv \<Rightarrow> ret_pair (exec s path argv))))"

end
