(* ===== verification/Kbd.thy ===== *)
theory Kbd
  imports Console
begin

text \<open>
  The keyboard (kbd.c, kbd.h) and the serial line's input (uartgetc of uart.c). A port read is an
  argument: \<open>st\<close> the status port, \<open>data\<close> the data port. \<open>kbdgetc\<close> takes and returns its static
  variable \<^verbatim>\<open>shift\<close>; a negative result, "nothing there", is \<open>None\<close>.
\<close>

section \<open>Key tables\<close>

text \<open>A 256-entry table: the leading entries, then the designated ones, the rest zero.\<close>

definition keymap :: "u8 list \<Rightarrow> (u32 \<times> u8) list \<Rightarrow> u32 \<Rightarrow> u8" where
  "keymap base designated d =
     (case map_of designated d of
        Some c \<Rightarrow> c
      | None \<Rightarrow> if unat d < length base then base ! unat d else 0)"

definition shiftcode :: "u32 \<Rightarrow> u8" where
  "shiftcode = keymap
    []
    [(0x1D, 0x02), (0x2A, 0x01), (0x36, 0x01), (0x38, 0x04), (0x9D, 0x02), (0xB8, 0x04)]"

definition togglecode :: "u32 \<Rightarrow> u8" where
  "togglecode = keymap
    []
    [(0x3A, 0x08), (0x45, 0x10), (0x46, 0x20)]"

definition normalmap :: "u32 \<Rightarrow> u8" where
  "normalmap = keymap
    [0x00, 0x1B, 0x31, 0x32, 0x33, 0x34, 0x35, 0x36, 0x37, 0x38, 0x39, 0x30, 0x2D, 0x3D, 0x08, 0x09,
     0x71, 0x77, 0x65, 0x72, 0x74, 0x79, 0x75, 0x69, 0x6F, 0x70, 0x5B, 0x5D, 0x0A, 0x00, 0x61, 0x73,
     0x64, 0x66, 0x67, 0x68, 0x6A, 0x6B, 0x6C, 0x3B, 0x27, 0x60, 0x00, 0x5C, 0x7A, 0x78, 0x63, 0x76,
     0x62, 0x6E, 0x6D, 0x2C, 0x2E, 0x2F, 0x00, 0x2A, 0x00, 0x20, 0x00, 0x00, 0x00, 0x00, 0x00, 0x00,
     0x00, 0x00, 0x00, 0x00, 0x00, 0x00, 0x00, 0x37, 0x38, 0x39, 0x2D, 0x34, 0x35, 0x36, 0x2B, 0x31,
     0x32, 0x33, 0x30, 0x2E, 0x00, 0x00, 0x00, 0x00]
    [(0x9C, 0x0A), (0xB5, 0x2F), (0xC8, 0xE2), (0xD0, 0xE3), (0xC9, 0xE6), (0xD1, 0xE7),
     (0xCB, 0xE4), (0xCD, 0xE5), (0x97, 0xE0), (0xCF, 0xE1), (0xD2, 0xE8), (0xD3, 0xE9)]"

definition shiftmap :: "u32 \<Rightarrow> u8" where
  "shiftmap = keymap
    [0x00, 0x1B, 0x21, 0x40, 0x23, 0x24, 0x25, 0x5E, 0x26, 0x2A, 0x28, 0x29, 0x5F, 0x2B, 0x08, 0x09,
     0x51, 0x57, 0x45, 0x52, 0x54, 0x59, 0x55, 0x49, 0x4F, 0x50, 0x7B, 0x7D, 0x0A, 0x00, 0x41, 0x53,
     0x44, 0x46, 0x47, 0x48, 0x4A, 0x4B, 0x4C, 0x3A, 0x22, 0x7E, 0x00, 0x7C, 0x5A, 0x58, 0x43, 0x56,
     0x42, 0x4E, 0x4D, 0x3C, 0x3E, 0x3F, 0x00, 0x2A, 0x00, 0x20, 0x00, 0x00, 0x00, 0x00, 0x00, 0x00,
     0x00, 0x00, 0x00, 0x00, 0x00, 0x00, 0x00, 0x37, 0x38, 0x39, 0x2D, 0x34, 0x35, 0x36, 0x2B, 0x31,
     0x32, 0x33, 0x30, 0x2E, 0x00, 0x00, 0x00, 0x00]
    [(0x9C, 0x0A), (0xB5, 0x2F), (0xC8, 0xE2), (0xD0, 0xE3), (0xC9, 0xE6), (0xD1, 0xE7),
     (0xCB, 0xE4), (0xCD, 0xE5), (0x97, 0xE0), (0xCF, 0xE1), (0xD2, 0xE8), (0xD3, 0xE9)]"

definition ctlmap :: "u32 \<Rightarrow> u8" where
  "ctlmap = keymap
    [0x00, 0x00, 0x00, 0x00, 0x00, 0x00, 0x00, 0x00, 0x00, 0x00, 0x00, 0x00, 0x00, 0x00, 0x00, 0x00,
     0x11, 0x17, 0x05, 0x12, 0x14, 0x19, 0x15, 0x09, 0x0F, 0x10, 0x00, 0x00, 0x0D, 0x00, 0x01, 0x13,
     0x04, 0x06, 0x07, 0x08, 0x0A, 0x0B, 0x0C, 0x00, 0x00, 0x00, 0x00, 0x1C, 0x1A, 0x18, 0x03, 0x16,
     0x02, 0x0E, 0x0D, 0x00, 0x00, 0xEF, 0x00, 0x00]
    [(0x9C, 0x0D), (0xB5, 0xEF), (0xC8, 0xE2), (0xD0, 0xE3), (0xC9, 0xE6), (0xD1, 0xE7),
     (0xCB, 0xE4), (0xCD, 0xE5), (0x97, 0xE0), (0xCF, 0xE1), (0xD2, 0xE8), (0xD3, 0xE9)]"

section \<open>Scan codes\<close>

abbreviation (input) E0ESC :: u32 where "E0ESC \<equiv> 0x40"
abbreviation (input) CAPSLOCK :: u32 where "CAPSLOCK \<equiv> 8"

definition charcode :: "u32 \<Rightarrow> u32 \<Rightarrow> u8" where
  "charcode k = (if k = 0 then normalmap else if k = 1 then shiftmap else ctlmap)"

definition kbdgetc :: "u32 \<Rightarrow> u8 \<Rightarrow> u8 \<Rightarrow> u32 option \<times> u32" where
  "kbdgetc shift st data =
     (if st AND 1 = 0 then (None, shift)
      else let d = ucast data :: u32 in
        if d = 0xE0 then (Some 0, shift OR E0ESC)
        else if d AND 0x80 \<noteq> 0
        then let d = (if shift AND E0ESC \<noteq> 0 then d else d AND 0x7F)
          in (Some 0, shift AND NOT (ucast (shiftcode d) OR E0ESC))
        else let d' = (if shift AND E0ESC \<noteq> 0 then d OR 0x80 else d);
                 shift = (if shift AND E0ESC \<noteq> 0 then shift AND NOT E0ESC else shift);
                 shift = shift OR ucast (shiftcode d');
                 shift = shift XOR ucast (togglecode d');
                 c = ucast (charcode (shift AND 3) d') :: u32
             in (Some (if shift AND CAPSLOCK \<noteq> 0
                   then if 0x61 \<le> c \<and> c \<le> 0x7A then c - 0x20
                     else if 0x41 \<le> c \<and> c \<le> 0x5A then c + 0x20 else c
                   else c), shift))"

text \<open>The calls of one interrupt: pairs of port values until the status says that there is no data.\<close>

fun kbd_chars :: "u32 \<Rightarrow> (u8 \<times> u8) list \<Rightarrow> u32 list \<times> u32" where
  "kbd_chars shift [] = ([], shift)"
| "kbd_chars shift ((st, data) # ps) =
     (case kbdgetc shift st data of
        (None, shift) \<Rightarrow> ([], shift)
      | (Some c, shift) \<Rightarrow> (let (cs, shift) = kbd_chars shift ps in (c # cs, shift)))"

definition kbdintr :: "'a cons_st_scheme \<Rightarrow> u32 \<Rightarrow> (u8 \<times> u8) list \<Rightarrow> (bool \<times> u32 \<times> 'a cons_st_scheme) res" where
  "kbdintr s shift ps =
     (let (cs, shift) = kbd_chars shift ps in
      bind_res (consoleintr s cs False) (\<lambda>(dump, s). Ret (dump, shift, s)))"

text \<open>\<open>uart\<close> says whether there is a serial port.\<close>

definition uartgetc :: "bool \<Rightarrow> u8 \<Rightarrow> u8 \<Rightarrow> u32 option" where
  "uartgetc uart st data = (if \<not> uart then None else if st AND 1 = 0 then None else Some (ucast data))"

fun uart_chars :: "bool \<Rightarrow> (u8 \<times> u8) list \<Rightarrow> u32 list" where
  "uart_chars uart [] = []"
| "uart_chars uart ((st, data) # ps) =
     (case uartgetc uart st data of None \<Rightarrow> [] | Some c \<Rightarrow> c # uart_chars uart ps)"

definition uartintr :: "'a cons_st_scheme \<Rightarrow> bool \<Rightarrow> (u8 \<times> u8) list \<Rightarrow> (bool \<times> 'a cons_st_scheme) res" where
  "uartintr s uart ps = consoleintr s (uart_chars uart ps) False"

end
