(* ===== verification/Trap.thy ===== *)
theory Trap
  imports Exec Kbd
begin

text \<open>
  The entry points of the kernel (trap.c, syscall of syscall.c): system calls, interrupts, and the
  page faults that load a mapping lazily. An interrupt brings the hardware's values: \<^verbatim>\<open>cr2\<close> and what
  the ports of the keyboard or the serial line deliver. Messages to the console are left out, and so
  is the list of processes that control-P prints.
\<close>

record trap_st = kern_st +
  kbd_shift :: u32
  uart_on :: bool

record irq =
  irq_cr2 :: u32
  irq_ports :: "(u8 \<times> u8) list"

abbreviation (input) T_PGFLT :: u32 where "T_PGFLT \<equiv> 14"
abbreviation (input) T_SYSCALL :: u32 where "T_SYSCALL \<equiv> 64"
abbreviation (input) IRQ_TIMER :: u32 where "IRQ_TIMER \<equiv> 0"
abbreviation (input) IRQ_KBD :: u32 where "IRQ_KBD \<equiv> 1"
abbreviation (input) IRQ_COM1 :: u32 where "IRQ_COM1 \<equiv> 4"
abbreviation (input) IRQ_IDE :: u32 where "IRQ_IDE \<equiv> 14"
abbreviation (input) IRQ_SPURIOUS :: u32 where "IRQ_SPURIOUS \<equiv> 31"
abbreviation (input) DPL_USER :: u32 where "DPL_USER \<equiv> 3"

section \<open>System calls\<close>

text \<open>The table by number; \<open>junk\<close> stands for the locals that the mapping calls leave uninitialised.\<close>

definition syscalls :: "(nat \<Rightarrow> u32) \<Rightarrow> ('a kern_st_scheme \<Rightarrow> 'a kern_st_scheme sysres res) option list" where
  "syscalls junk =
     [None, Some sys_fork, Some sys_exit, Some sys_wait, Some sys_pipe, Some sys_read, Some sys_kill, Some sys_exec,
      Some sys_fstat, Some sys_chdir, Some sys_dup, Some sys_getpid, Some sys_sbrk, Some sys_sleep, Some sys_uptime,
      Some sys_open, Some sys_write, Some sys_mknod, Some sys_unlink, Some sys_link, Some sys_mkdir, Some sys_close,
      Some (sys_wmap junk), Some (sys_wunmap junk), Some (sys_wremap junk), Some (sys_getpgdirinfo junk),
      Some (sys_getwmapinfo junk)]"

definition set_eax :: "nat \<Rightarrow> u32 \<Rightarrow> 'a proc_st_scheme \<Rightarrow> 'a proc_st_scheme" where
  "set_eax p v s = upd_proc p (\<lambda>q. q\<lparr>tf := (tf q)\<lparr>tf_eax := v\<rparr>\<rparr>) s"

definition syscall :: "(nat \<Rightarrow> u32) \<Rightarrow> 'a kern_st_scheme \<Rightarrow> 'a kern_st_scheme sysres res" where
  "syscall junk s =
     bind_res (curproc s) (\<lambda>p.
       let num = tf_eax (tf (ptable s ! p)); table = syscalls junk in
       case (if 0 <s num \<and> num < of_nat (length table) then table ! unat num else None) of
         Some call \<Rightarrow>
           bind_res (call s) (\<lambda>r.
             case r of Returned v s \<Rightarrow> Ret (Returned v (set_eax p v s)) | Switched s \<Rightarrow> Ret (Switched s))
       | None \<Rightarrow> Ret (Returned (- 1) (set_eax p (- 1) s)))"

section \<open>Page faults\<close>

fun find_mapping :: "mem_block list \<Rightarrow> u32 \<Rightarrow> nat option" where
  "find_mapping [] va = None"
| "find_mapping (b # bs) va =
     (if mb_valid b \<noteq> 0 \<and> mb_start b \<le> va \<and> va \<le> mb_end b then Some 0 else map_option Suc (find_mapping bs va))"

definition load_file_page :: "'a file_st_scheme \<Rightarrow> nat \<Rightarrow> mem_block \<Rightarrow> u32 \<Rightarrow> 'a file_st_scheme res" where
  "load_file_page s p b va =
     (if mb_flags b AND MAP_ANONYMOUS = 0
      then if mb_fd b \<ge> of_nat NOFILE then Fault
        else case ofile (ptable s ! p) ! unat (mb_fd b) of
          None \<Rightarrow> Fault
        | Some f \<Rightarrow> bind_res (user_fileread s f va PGSIZE) (\<lambda>(_, s). Ret s)
      else Ret s)"

definition count_loaded :: "nat \<Rightarrow> u32 \<Rightarrow> proc \<Rightarrow> proc" where
  "count_loaded location va q =
     (let w = winfo q;
          w = (if leftmostLoadedAddr w ! location > va
               then w\<lparr>leftmostLoadedAddr := (leftmostLoadedAddr w)[location := va]\<rparr> else w)
      in q\<lparr>winfo := w\<lparr>n_loaded_pages := (n_loaded_pages w)[location := n_loaded_pages w ! location + 1]\<rparr>\<rparr>)"

definition page_fault :: "'a file_st_scheme \<Rightarrow> u32 \<Rightarrow> 'a file_st_scheme res" where
  "page_fault s faultyAddr =
     bind_res (curproc s) (\<lambda>p.
       case find_mapping (take MAX_WMMAP_INFO (arr (ptable s ! p))) faultyAddr of
         None \<Rightarrow> Ret s
       | Some location \<Rightarrow>
           let b = arr (ptable s ! p) ! location; (m, s) = kalloc s in
           if m = 0 then Panic ''kalloc''
           else bind_res (mappages (s\<lparr>mem := memset (mem s) m 0 PGSIZE\<rparr>) (pgdir (ptable s ! p)) faultyAddr PGSIZE
               (V2P m) (PTE_W OR PTE_U)) (\<lambda>(r, s).
             bind_res (if r \<noteq> 0 then kfree s m else Ret s) (\<lambda>s.
               bind_res (load_file_page s p b faultyAddr) (\<lambda>s.
                 Ret (upd_proc p (count_loaded location faultyAddr) s)))))"

section \<open>\<^verbatim>\<open>trap\<close>\<close>

text \<open>
  A trap returns to the interrupted code, leaves its process switched out (ended, or asleep inside a
  system call), or yields the CPU; then \<open>trap_resume\<close> goes on when the process runs again.
\<close>

datatype 's trapres = TrapRet 's | TrapOut 's | TrapYield bool 's

definition trap_exit :: "'a kern_st_scheme \<Rightarrow> 'a kern_st_scheme trapres res" where
  "trap_exit s = bind_res (exit s) (\<lambda>s. Ret (TrapOut s))"

definition user_killed :: "trapframe \<Rightarrow> 'a kern_st_scheme \<Rightarrow> bool" where
  "user_killed t s \<longleftrightarrow> curkilled s \<and> tf_cs t AND 3 = DPL_USER"

definition trap_last :: "trapframe \<Rightarrow> 'a kern_st_scheme \<Rightarrow> 'a kern_st_scheme trapres res" where
  "trap_last t s = (if user_killed t s then trap_exit s else Ret (TrapRet s))"

definition trap_resume :: "trapframe \<Rightarrow> bool \<Rightarrow> 'a kern_st_scheme \<Rightarrow> 'a kern_st_scheme trapres res" where
  "trap_resume t ena s = bind_res (yield_back ena s) (trap_last t)"

definition cur_running :: "'a proc_st_scheme \<Rightarrow> bool" where
  "cur_running s = (case cpu_proc s (this_cpu s) of None \<Rightarrow> False | Some p \<Rightarrow> pstate (ptable s ! p) = RUNNING)"

definition trap_tail :: "trapframe \<Rightarrow> 'a kern_st_scheme \<Rightarrow> 'a kern_st_scheme trapres res" where
  "trap_tail t s =
     (if user_killed t s then trap_exit s
      else if cur_running s \<and> tf_trapno t = T_IRQ0 + IRQ_TIMER
      then bind_res (yield_out s) (\<lambda>(ena, s). Ret (TrapYield ena s))
      else trap_last t s)"

definition trap_syscall :: "(nat \<Rightarrow> u32) \<Rightarrow> trapframe \<Rightarrow> 'a kern_st_scheme \<Rightarrow> 'a kern_st_scheme trapres res" where
  "trap_syscall junk t s =
     bind_res (curproc s) (\<lambda>p.
       if killed (ptable s ! p) \<noteq> 0 then trap_exit s
       else bind_res (syscall junk (upd_proc p (\<lambda>q. q\<lparr>tf := t\<rparr>) s)) (\<lambda>r.
         case r of
           Returned v s \<Rightarrow> if curkilled s then trap_exit s else Ret (TrapRet s)
         | Switched s \<Rightarrow> Ret (TrapOut s)))"

definition timer_tick :: "'a kern_st_scheme \<Rightarrow> 'a kern_st_scheme res" where
  "timer_tick s =
     bind_res (cpuid s) (\<lambda>c. if c = 0 then wakeup (s\<lparr>ticks := ticks s + 1\<rparr>) TicksChan else Ret s)"

definition trap_default :: "trapframe \<Rightarrow> 'a kern_st_scheme \<Rightarrow> 'a kern_st_scheme res" where
  "trap_default t s =
     (case cpu_proc s (this_cpu s) of
        None \<Rightarrow> Panic ''trap''
      | Some p \<Rightarrow>
          if tf_cs t AND 3 = 0 then Panic ''trap'' else Ret (upd_proc p (\<lambda>q. q\<lparr>killed := 1\<rparr>) s))"

definition trap_dispatch :: "irq \<Rightarrow> trapframe \<Rightarrow> 'a trap_st_scheme \<Rightarrow> 'a trap_st_scheme res" where
  "trap_dispatch h t s =
     (if tf_trapno t = T_IRQ0 + IRQ_TIMER then timer_tick s
      else if tf_trapno t = T_IRQ0 + IRQ_IDE then Ret s
      else if tf_trapno t = T_IRQ0 + IRQ_IDE + 1 then Ret s
      else if tf_trapno t = T_IRQ0 + IRQ_KBD
      then bind_res (kbdintr s (kbd_shift s) (irq_ports h)) (\<lambda>(_, shift, s). Ret (s\<lparr>kbd_shift := shift\<rparr>))
      else if tf_trapno t = T_IRQ0 + IRQ_COM1
      then bind_res (uartintr s (uart_on s) (irq_ports h)) (\<lambda>(_, s). Ret s)
      else if tf_trapno t = T_IRQ0 + 7 \<or> tf_trapno t = T_IRQ0 + IRQ_SPURIOUS then Ret s
      else if tf_trapno t = T_PGFLT then page_fault s (irq_cr2 h)
      else trap_default t s)"

definition trap ::
  "(nat \<Rightarrow> u32) \<Rightarrow> irq \<Rightarrow> trapframe \<Rightarrow> 'a trap_st_scheme \<Rightarrow> 'a trap_st_scheme trapres res" where
  "trap junk h t s =
     (if tf_trapno t = T_SYSCALL then trap_syscall junk t s
      else bind_res (trap_dispatch h t s) (trap_tail t))"

end
