(* ===== verification/Pagefault.thy ===== *)
theory Pagefault
  imports Trap Uvm
begin

text \<open>
  The page fault handler of trap.c against the abstract page map: what an access to a mapping that is
  not loaded yet does to the address space of the process.
\<close>

lemma more_proc:
  fixes s t :: "'a proc_st_scheme"
  assumes "kmem_st.more t = kmem_st.more s"
  shows "ptable t = ptable s" "cpu_proc t = cpu_proc s" "this_cpu t = this_cpu s"
  using assms by (cases s; cases t; simp)+

section \<open>Taking a page\<close>

text \<open>The part of the handler between the search for the mapping and the bookkeeping, for an anonymous mapping.\<close>

lemma page_fault_eq:
  assumes "cpu_proc s (this_cpu s) = Some p" "find_mapping (take 16 (arr (ptable s ! p))) va = Some loc"
    and "mb_flags (arr (ptable s ! p) ! loc) AND MAP_ANONYMOUS \<noteq> 0" "free_pages s (m # ps)"
    and "mappages (s\<lparr>freelist := load32 (mem s) m, mem := memset (mem s) m 0 PGSIZE\<rparr>) (pgdir (ptable s ! p)) va PGSIZE (V2P m) (PTE_W OR PTE_U)
      = Ret (0, s2)"
  shows "page_fault s va = Ret (upd_proc p (count_loaded loc va) s2)"
proof -
  have "m \<noteq> 0" using free_pages_page [OF assms(4), of m] by simp
  then show ?thesis
    using assms(1-3,5) kalloc_cons(1) [OF assms(4)]
    by (simp add: page_fault_def curproc_def load_file_page_def)
qed

definition loaded :: "nat \<Rightarrow> u32 \<Rightarrow> wmapinfo \<Rightarrow> wmapinfo \<Rightarrow> bool" where
  "loaded loc va w w' \<longleftrightarrow> n_loaded_pages w' = (n_loaded_pages w)[loc := n_loaded_pages w ! loc + 1]
     \<and> total_mmaps w' = total_mmaps w \<and> wi_addr w' = wi_addr w \<and> wi_length w' = wi_length w
     \<and> leftmostLoadedAddr w' = (leftmostLoadedAddr w)[loc := min (leftmostLoadedAddr w ! loc) va]"

lemma count_loaded_winfo: "loaded loc va (winfo q) (winfo (count_loaded loc va q))"
  by (auto simp: loaded_def count_loaded_def Let_def min_def not_less not_le intro: list_update_id [symmetric])

section \<open>A demonstration state\<close>

text \<open>Three free pages, an empty page directory, and a process with one anonymous mapping.\<close>

definition fault_mem :: memory where
  "fault_mem = store32 (store32 (\<lambda>_. 0) 0x80400000 0x80401000) 0x80401000 0x80402000"

definition fault_proc :: proc where
  "fault_proc = zero_proc\<lparr>pgdir := 0x80300000,
     arr := \<lparr>mb_start = 0x60000000, mb_end = 0x60003FFF, mb_flags = 14, mb_length = 0x4000, mb_fd = 0, mb_ref = 1, mb_valid = 1\<rparr>
       # tl (arr zero_proc)\<rparr>"

definition fault_demo :: "'a proc_st_scheme \<Rightarrow> 'a proc_st_scheme" where
  "fault_demo s = s\<lparr>mem := fault_mem, kend := 0x80200000, use_lock := False, freelist := 0x80400000,
     ptable := [fault_proc], cpu_proc := (\<lambda>_. Some 0)\<rparr>"

lemma fault_demo_dir: "unat i < 1024 \<Longrightarrow> load32 (mem (fault_demo s)) (0x80300000 + 4 * i) = 0"
proof -
  assume i: "unat i < 1024"
  let ?m = "store32 (\<lambda>_. 0) 0x80400000 0x80401000 :: memory"
  have "load32 fault_mem (0x80300000 + 4 * i) = load32 ?m (0x80300000 + 4 * i)"
    using i load32_store32_slot [of "0x80401000" "0x80300000" 0 i ?m "0x80402000"] by (simp add: fault_mem_def)
  also have "\<dots> = load32 (\<lambda>_. 0) (0x80300000 + 4 * i)"
    using i load32_store32_slot [of "0x80400000" "0x80300000" 0 i "\<lambda>_. 0" "0x80401000"] by simp
  finally show ?thesis by (simp add: fault_demo_def)
qed

lemma fault_demo_map: "pgmap (mem (fault_demo s)) 0x80300000 va = None"
  using fault_demo_dir [of _ s] by (intro empty_dir) blast

lemma fault_demo_free: "free_pages (fault_demo s) [0x80400000, 0x80401000, 0x80402000]"
  by (simp add: free_pages_def fault_demo_def fault_mem_def kpage_def V2P_def mem_simps)

lemma fault_demo_ok: "uvm_ok (fault_demo s) 0x80300000 [0x80400000, 0x80401000, 0x80402000]"
proof -
  have k: "kend (fault_demo s) = 0x80200000" by (simp add: fault_demo_def)
  have "pgdir_ok (fault_demo s) 0x80300000 [0x80400000, 0x80401000, 0x80402000]"
    using fault_demo_dir [of _ s] fault_demo_free [of s] by (intro pgdir_ok_empty) (simp_all add: kpage_def V2P_def k)
  then show ?thesis by (simp add: uvm_ok_def uframe_def uframes_inj_def fault_demo_map k)
qed

lemma fault_demo_proc:
  "cpu_proc (fault_demo s) (this_cpu (fault_demo s)) = Some 0" "ptable (fault_demo s) = [fault_proc]"
  "pgdir fault_proc = 0x80300000" "mb_flags (arr fault_proc ! 0) = 14"
  "0x60000000 \<le> va \<Longrightarrow> va \<le> 0x60003FFF \<Longrightarrow> find_mapping (take 16 (arr fault_proc)) va = Some 0"
  by (simp_all add: fault_demo_def fault_proc_def)

lemma find_no_mapping: "find_mapping (replicate n no_block) va = None"
  by (induction n) (simp_all add: no_block_def)

section \<open>Properties\<close>

text \<open>
  C10: a page fault at a page-aligned address inside an anonymous mapping maps exactly that page to a free page filled with zeroes, keeps the
  address space well formed, and counts one more loaded page of the mapping.
\<close>

theorem page_fault_loads_page:
  assumes cur: "cpu_proc s (this_cpu s) = Some p" "p < length (ptable s)"
    and map: "find_mapping (take 16 (arr (ptable s ! p))) va = Some loc" "mb_flags (arr (ptable s ! p) ! loc) AND MAP_ANONYMOUS \<noteq> 0"
    and vm: "uvm_ok s (pgdir (ptable s ! p)) (m # ps)" "ps \<noteq> []"
    and va: "pg_aligned va" "va < KERNBASE" "pgmap (mem s) (pgdir (ptable s ! p)) va = None"
  shows "\<exists>s' ps'. page_fault s va = Ret s' \<and> uvm_ok s' (pgdir (ptable s ! p)) ps'
    \<and> pgmap (mem s') (pgdir (ptable s ! p))
      = upd_page (pgmap (mem s) (pgdir (ptable s ! p))) va (Some (V2P m OR PTE_P OR PTE_W OR PTE_U))
    \<and> (\<forall>x. PGROUNDDOWN x = m \<longrightarrow> mem s' x = 0)
    \<and> (\<forall>i. i \<noteq> p \<longrightarrow> ptable s' ! i = ptable s ! i) \<and> loaded loc va (winfo (ptable s ! p)) (winfo (ptable s' ! p))"
proof -
  have fp: "free_pages s (m # ps)" using vm(1) uvm_ok_dir pgdir_ok_free by blast
  let ?s1 = "s\<lparr>freelist := load32 (mem s) m, mem := memset (mem s) m 0 PGSIZE\<rparr>"
  show ?thesis
  proof (cases rule: add_page [OF vm(1) va])
    case (1 s2 ps2)
    have ad: "uvm_ok s2 (pgdir (ptable s ! p)) ps2" "\<forall>x. PGROUNDDOWN x = m \<longrightarrow> mem s2 x = 0" "kmem_st.more s2 = kmem_st.more s"
      "pgmap (mem s2) (pgdir (ptable s ! p)) = upd_page (pgmap (mem s) (pgdir (ptable s ! p))) va (Some (V2P m OR PTE_P OR PTE_W OR PTE_U))"
      using 1(2) unfolding added_def by auto
    let ?t = "upd_proc p (count_loaded loc va) s2"
    have "page_fault s va = Ret ?t" by (rule page_fault_eq [OF cur(1) map fp 1(1)])
    moreover have "uvm_ok ?t (pgdir (ptable s ! p)) ps2"
      using ad(1) by (simp add: upd_proc_def uvm_ok_def pgdir_ok_def free_pages_def)
    moreover have "ptable ?t = (ptable s)[p := count_loaded loc va (ptable s ! p)]" "mem ?t = mem s2"
      using more_proc(1) [OF ad(3)] by (simp_all add: upd_proc_def)
    ultimately show ?thesis
      using ad(2,4) cur(2) count_loaded_winfo [of loc va "ptable s ! p"] by (intro exI [of _ ?t] exI [of _ ps2]) simp
  next
    case 2
    then show ?thesis using vm(2) by simp
  qed
qed

theorem page_fault_loads_page_witness:
  "\<exists>s s' :: file_st. page_fault s 0x60001000 = Ret s' \<and> pgmap (mem s) 0x80300000 0x60001000 = None
     \<and> pgmap (mem s') 0x80300000 0x60001000 = Some 0x400007"
proof -
  obtain s0 :: file_st where True by blast
  let ?s = "fault_demo s0"
  have "\<exists>s' ps'. page_fault ?s 0x60001000 = Ret s' \<and> uvm_ok s' (pgdir (ptable ?s ! 0)) ps'
    \<and> pgmap (mem s') (pgdir (ptable ?s ! 0))
      = upd_page (pgmap (mem ?s) (pgdir (ptable ?s ! 0))) 0x60001000 (Some (V2P 0x80400000 OR PTE_P OR PTE_W OR PTE_U))
    \<and> (\<forall>x. PGROUNDDOWN x = 0x80400000 \<longrightarrow> mem s' x = 0)
    \<and> (\<forall>i. i \<noteq> 0 \<longrightarrow> ptable s' ! i = ptable ?s ! i) \<and> loaded 0 0x60001000 (winfo (ptable ?s ! 0)) (winfo (ptable s' ! 0))"
    by (rule page_fault_loads_page [where ps = "[0x80401000, 0x80402000]" and loc = 0])
      (simp_all add: fault_demo_proc fault_demo_ok fault_demo_map)
  then obtain s' where s': "page_fault ?s 0x60001000 = Ret s'"
    "pgmap (mem s') 0x80300000 = upd_page (pgmap (mem ?s) 0x80300000) 0x60001000 (Some (V2P 0x80400000 OR PTE_P OR PTE_W OR PTE_U))"
    unfolding fault_demo_proc nth_Cons_0 by blast
  show ?thesis using s' by (intro exI [of _ ?s] exI [of _ s']) (simp add: fault_demo_map upd_page_def V2P_def)
qed

text \<open>
  C40: a page fault at an address that is not page-aligned, the usual case, maps two pages although only one was allocated: the
  page of the address, and the page after it to the physical page that follows the allocated one, whoever owns that.
\<close>

theorem page_fault_unaligned_maps_two:
  assumes cur: "cpu_proc s (this_cpu s) = Some p" "p < length (ptable s)"
    and map: "find_mapping (take 16 (arr (ptable s ! p))) va = Some loc" "mb_flags (arr (ptable s ! p) ! loc) AND MAP_ANONYMOUS \<noteq> 0"
    and vm: "uvm_ok s (pgdir (ptable s ! p)) (m # ps)" "2 \<le> length ps"
    and va: "\<not> pg_aligned va" "va < KERNBASE"
      "\<forall>vb. unat (vb - PGROUNDDOWN va) < 8192 \<longrightarrow> pgmap (mem s) (pgdir (ptable s ! p)) vb = None"
  shows "\<exists>s'. page_fault s va = Ret s'
    \<and> pgmap (mem s') (pgdir (ptable s ! p)) (PGROUNDDOWN va) = Some (V2P m OR (PTE_W OR PTE_U) OR PTE_P)
    \<and> pgmap (mem s') (pgdir (ptable s ! p)) (PGROUNDDOWN va + PGSIZE) = Some ((V2P m + PGSIZE) OR (PTE_W OR PTE_U) OR PTE_P)"
proof -
  let ?pd = "pgdir (ptable s ! p)"
  let ?s1 = "s\<lparr>freelist := load32 (mem s) m, mem := memset (mem s) m 0 PGSIZE\<rparr>"
  have fp: "free_pages s (m # ps)" using vm(1) uvm_ok_dir pgdir_ok_free by blast
  note z = zeroed_page [OF vm(1)]
  have u: "unat va mod 4096 \<noteq> 0" "unat va < 2147483648" using va(1,2) by (simp_all add: word_less_nat_alt)
  have sp: "span_pages va PGSIZE = 2"
  proof -
    have "unat va + 4095 = (unat va mod 4096 - 1) + Suc (unat va div 4096) * 4096"
      using u(1) div_mult_mod_eq [of "unat va" 4096] by (simp add: algebra_simps)
    then have "(unat va + 4095) div 4096 = Suc (unat va div 4096) + (unat va mod 4096 - 1) div 4096"
      by (metis div_mult_self1 zero_neq_numeral)
    moreover have "(unat va mod 4096 - 1) div 4096 = 0" using mod_less_divisor [of 4096 "unat va"] by simp
    ultimately have "(unat va + 4095) div 4096 = Suc (unat va div 4096)" by simp
    then show ?thesis by (simp add: span_pages_def)
  qed
  have none: "\<forall>vb. unat (vb - PGROUNDDOWN va) < span_pages va PGSIZE * 4096 \<longrightarrow> pgmap (mem ?s1) ?pd vb = None"
    using va(3) z by (simp add: sp)
  have room: "unat va + unat PGSIZE \<le> 4294967296" using u(2) by simp
  have dir: "pgdir_ok ?s1 ?pd ps" using z uvm_ok_dir by blast
  obtain r s2 ps2 k where m2: "mappages ?s1 ?pd va PGSIZE (V2P m) (PTE_W OR PTE_U) = Ret (r, s2)"
      "pgmap (mem s2) ?pd = map_range (pgmap (mem ?s1) ?pd) (PGROUNDDOWN va) k (V2P m) (PTE_W OR PTE_U)"
      "r = 0 \<and> k = 2 \<or> r = - 1 \<and> k < 2 \<and> ps2 = [] \<and> length ps \<le> k"
    using mappages_range [OF dir _ room none, of "V2P m" "PTE_W OR PTE_U"] unfolding sp by auto
  have r: "r = 0" "k = 2" using m2(3) vm(2) by auto
  have "page_fault s va = Ret (upd_proc p (count_loaded loc va) s2)"
    using page_fault_eq [OF cur(1) map fp] m2(1) r(1) by simp
  moreover have "PGROUNDDOWN (PGROUNDDOWN va + PGSIZE) = PGROUNDDOWN va + PGSIZE"
    using pg_aligned_next(2) [of "PGROUNDDOWN va" 0] span_last(2) [OF _ room] by (simp add: PGROUNDDOWN_id sp)
  ultimately show ?thesis
    using m2(2) r(2) by (simp add: upd_proc_def map_range_def del: pgmap_PGROUNDDOWN)
qed

theorem page_fault_unaligned_maps_two_witness:
  "\<exists>s s' :: file_st. page_fault s 0x60001004 = Ret s' \<and> pgmap (mem s') 0x80300000 0x60001000 = Some 0x400007
     \<and> pgmap (mem s') 0x80300000 0x60002000 = Some 0x401007"
proof -
  obtain s0 :: file_st where True by blast
  let ?s = "fault_demo s0"
  have "\<exists>s'. page_fault ?s 0x60001004 = Ret s'
    \<and> pgmap (mem s') (pgdir (ptable ?s ! 0)) (PGROUNDDOWN 0x60001004) = Some (V2P 0x80400000 OR (PTE_W OR PTE_U) OR PTE_P)
    \<and> pgmap (mem s') (pgdir (ptable ?s ! 0)) (PGROUNDDOWN 0x60001004 + PGSIZE)
      = Some ((V2P 0x80400000 + PGSIZE) OR (PTE_W OR PTE_U) OR PTE_P)"
    by (rule page_fault_unaligned_maps_two [where ps = "[0x80401000, 0x80402000]" and loc = 0])
      (simp_all add: fault_demo_proc fault_demo_ok fault_demo_map)
  then obtain s' where s': "page_fault ?s 0x60001004 = Ret s'"
    "pgmap (mem s') 0x80300000 (PGROUNDDOWN 0x60001004) = Some 0x400007"
    "pgmap (mem s') 0x80300000 (PGROUNDDOWN 0x60001004 + PGSIZE) = Some 0x401007"
    unfolding fault_demo_proc nth_Cons_0 by (auto simp: V2P_def)
  have "PGROUNDDOWN 0x60001004 = 0x60001000" by (simp add: PGROUNDDOWN_def)
  then show ?thesis using s' by (intro exI [of _ ?s] exI [of _ s']) simp
qed

text \<open>
  An access outside every mapping is reported as a segmentation fault but changes nothing: the process is not killed, and the
  trap returns to the instruction that faulted.
\<close>

lemma segfault_not_killed:
  assumes "tf_trapno t = T_PGFLT" "cpu_proc s (this_cpu s) = Some p" "killed (ptable s ! p) = 0"
    and "find_mapping (take 16 (arr (ptable s ! p))) (irq_cr2 h) = None"
  shows "trap junk h t s = Ret (TrapRet s)"
  using assms
  by (simp add: trap_def trap_dispatch_def page_fault_def curproc_def trap_tail_def trap_last_def user_killed_def curkilled_def)

lemma segfault_not_killed_witness:
  "\<exists>(s :: trap_st) h t. tf_trapno t = T_PGFLT \<and> irq_cr2 h = 0 \<and> trap (\<lambda>_. 0) h t s = Ret (TrapRet s)"
proof -
  obtain s0 :: trap_st where True by blast
  let ?s = "fault_demo s0" and ?t = "zero_tf\<lparr>tf_trapno := T_PGFLT\<rparr>" and ?h = "\<lparr>irq_cr2 = 0, irq_ports = []\<rparr>"
  have "find_mapping (take 16 (arr fault_proc)) 0 = None"
    using find_no_mapping [of 15] by (simp add: fault_proc_def zero_proc_def)
  moreover have "killed fault_proc = 0" by (simp add: fault_proc_def zero_proc_def)
  ultimately have "trap (\<lambda>_. 0) ?h ?t ?s = Ret (TrapRet ?s)"
    by (intro segfault_not_killed [where p = 0]) (simp_all add: fault_demo_proc)
  then show ?thesis by (intro exI [of _ ?s] exI [of _ ?h] exI [of _ ?t]) simp
qed

end
