(* ===== verification/Progress.thy ===== *)
theory Progress
  imports Sched
begin

text \<open>
  Progress of the scheduling protocol of proc.c: a process that is runnable is scheduled after finitely many steps,
  whatever the CPUs do, if some CPU goes through the scheduler's outer loop again and again.
\<close>

section \<open>A runnable process stays runnable until it is scheduled\<close>

definition ready :: "nat \<Rightarrow> sys \<Rightarrow> bool" where
  "ready q t \<longleftrightarrow> q < length (ptable (kst t)) \<and> pstate (ptable (kst t) ! q) = RUNNABLE"

lemma ready_upd:
  "ready q t \<Longrightarrow> ptable (kst t') = (ptable (kst t))[p := r] \<Longrightarrow> p \<noteq> q \<or> pstate r = RUNNABLE \<Longrightarrow> ready q t'"
  by (cases "p = q") (auto simp: ready_def)

lemma ready_same: "ready q t \<Longrightarrow> ptable (kst t') = ptable (kst t) \<Longrightarrow> ready q t'"
  by (simp add: ready_def)

lemma at_proc_not_ready: "sys_ok t \<Longrightarrow> at_proc (mode t i) p \<Longrightarrow> ready q t \<Longrightarrow> p \<noteq> q"
  using running_okD(1) [of "ptable (kst t)" "mode t" i p] by (auto simp: sys_ok_def ready_def)

lemma run_not_ready: "sys_ok t \<Longrightarrow> mode t i = Run p \<Longrightarrow> ready q t \<Longrightarrow> p \<noteq> q"
  by (rule at_proc_not_ready [of t i]) (simp_all add: at_proc_def)

lemma ready_wait_sys:
  assumes "sys_ok t" "at_proc (mode t i) p" "i < length (apicids (kst t))" "wait_start i p t s" "wait_round s p = Ret r" "ready q t"
  shows "ready q (wait_sys i p r t)"
proof -
  note d = wait_startD [OF assms(1-4)]
  have q: "q < length (ptable s)" "pstate (ptable s ! q) = RUNNABLE" "p \<noteq> q"
    using assms(4,6) d(8) [of q] at_proc_not_ready [OF assms(1,2,6)] by (auto simp: ready_def wait_start_def)
  show ?thesis
  proof (cases "find_zombie (ptable s) p 0")
    case (Some z)
    obtain s2 where s2: "reap_free s z = Ret s2" and r: "r = Reaped (pid (ptable s ! z)) (given (upd_proc z reaped s2))"
      using assms(5) Some wait_round_eq [OF d(1-6)] by auto
    have "z \<noteq> q" using find_zombie_Some [OF Some] q(2) by auto
    then show ?thesis using q by (simp add: ready_def wait_sys_def r reap_free_frame(2) [OF s2])
  next
    case None
    then show ?thesis using assms(5) q wait_round_eq [OF d(1-6)] by (auto simp: ready_def wait_sys_def split: if_splits)
  qed
qed

lemma find_runnable_le:
  assumes "n \<le> q" "q < length ps" "pstate (ps ! q) = RUNNABLE"
  shows "\<exists>p. find_runnable (drop n ps) n = Some p \<and> p \<le> q"
proof -
  have "q - n < length xs \<Longrightarrow> pstate (xs ! (q - n)) = RUNNABLE \<Longrightarrow> n \<le> q \<Longrightarrow> \<exists>p. find_runnable xs n = Some p \<and> p \<le> q" for xs n
  proof (induction xs arbitrary: n)
    case (Cons x xs)
    then show ?case using Cons.IH [of "Suc n"] by (cases "q = n") (auto simp: nth_Cons' Suc_diff_Suc)
  qed simp
  from this [of n "drop n ps"] show ?thesis using assms by simp
qed

lemma step_ready:
  assumes "sys_step t t'" "sys_ok t" "ready q t"
  shows "ready q t' \<or> (\<exists>j. mode t' j = Enter q)"
  using assms
proof (induction rule: sys_step.induct)
  case (start i t s)
  then have "ptable s = ptable (kst t)" using lock_ptable(1) by (fastforce simp: scheduler_start_def)
  then show ?case using start ready_same by simp
next
  case (pick i t n p s)
  have f: "find_runnable (drop n (ptable (kst t))) n = Some p"
    using pick(3) by (auto simp: scheduler_next_def Let_def split: option.splits)
  have "ptable s = (ptable (kst t))[p := (ptable (kst t) ! p)\<lparr>pstate := RUNNING\<rparr>]"
    using pick(3) scheduler_next_pick(3) [OF pick(4,2) f] by auto
  then show ?case using ready_upd [OF pick(5), of _ p "(ptable (kst t) ! p)\<lparr>pstate := RUNNING\<rparr>"] by (cases "p = q") auto
next
  case (none i t n s)
  then have "ptable s = ptable (kst t)"
    using lock_ptable(2) by (fastforce simp: scheduler_next_def Let_def split: option.splits)
  then show ?case using none ready_same by simp
next
  case (forkret i t p s)
  then show ?case using lock_ptable(2) ready_same by fastforce
next
  case (yielded i t p ena s)
  then have "ptable s = ptable (kst t)" using lock_ptable(2) by (fastforce simp: yield_back_def sched_back_def set_cpu_def)
  then show ?case using yielded ready_same by simp
next
  case (slept i t p ena lk lk1 s1 lk2 s)
  then have "ptable s = (ptable (kst t))[p := (ptable (kst t) ! p)\<lparr>chan := NoChan\<rparr>]"
    using lock_ptable(4) [OF slept(6)] by (auto simp: sleep_back_def sched_back_def set_cpu_def Let_def dest!: lock_ptable)
  then show ?case using slept(8) by (cases "p = q") (auto simp: ready_def)
next
  case (yield i t p ena s)
  note o = sys_ok_on [OF yield(4,1,2)]
  have "lock_owner (on i t) = None" using yield(3) pt_acquire_Ret [OF o(3,6)] by (auto simp: yield_out_def)
  then have "ptable s = (ptable (kst t))[p := (ptable (kst t) ! p)\<lparr>pstate := RUNNABLE\<rparr>]"
    using yield(3) yield_out_eq [OF o(1-3) _ o(4,5)] by auto
  then show ?case using ready_upd [OF yield(5), of _ p "(ptable (kst t) ! p)\<lparr>pstate := RUNNABLE\<rparr>"] by simp
next
  case (sleep i t p lk lk1 s1 ch ena l s)
  show ?case using sleep_out_step(2) [OF sleep(6,1-5)] run_not_ready [OF sleep(6,2,7)] sleep(7) by (simp add: ready_def)
next
  case (exiting i t p s)
  obtain s2 where k: "kept (taken (on i t)) s2" and s: "s = upd_proc p (\<lambda>q. q\<lparr>pstate := ZOMBIE\<rparr>) s2"
    using exit_out_step(2) [OF exiting(5,1,2,4)] by blast
  show ?case
    using run_not_ready [OF exiting(5,2,6)] exiting(6) keptD(6) [OF k] keptD(7) [OF k, of q] by (auto simp: ready_def s kept_proc_def)
next
  case (waking i t ch s)
  then have "ptable s = map (wake_proc ch) (ptable (kst t))" by (auto simp: wakeup_def wakeup1_def dest!: lock_ptable)
  then show ?case using waking(5) by (auto simp: ready_def wake_proc_def)
next
  case (killing i t p k r s)
  show ?case
  proof (cases "find_pid (ptable (kst t)) k 0")
    case None
    then show ?thesis using killing(3,5) by (auto simp: kill_def ready_def dest!: lock_ptable)
  next
    case (Some j)
    then have "j < length (ptable (kst t))" using find_pid_Some by fastforce
    then show ?thesis using killing(3,5) Some
      by (auto simp: kill_def Let_def ready_def nth_list_update dest!: lock_ptable split: if_splits)
  qed
next
  case (creating i t p r s1 s2 s3 s)
  note o = sys_ok_on [OF creating(7,1,2)]
  obtain x where f: "find_unused (ptable (kst t)) 0 = Some r" and x: "ptable s1 = (ptable (kst t))[r := x]"
    using allocproc_frame [OF o(3,6) creating(3)] by auto
  have "r \<noteq> q" using find_unused_Some [OF f] creating(8) by (auto simp: ready_def)
  moreover from this obtain A where "ptable s2 ! q = (ptable s1 ! q)\<lparr>arr := A\<rparr>" "length (ptable s2) = length (ptable s1)"
    using creating(4,8) x by (auto simp: fork_fills_def ready_def)
  moreover have "ptable s = (ptable s2)[r := (ptable s2 ! r)\<lparr>pstate := RUNNABLE\<rparr>]"
    using lock_ptable(2) [OF creating(6)] lock_ptable(1) [OF creating(5)] by simp
  ultimately show ?case using creating(8) x by (simp add: ready_def)
next
  case (waiting i t p r)
  then obtain s where "wait_start i p t s" "wait_round s p = Ret r" using step_wait by blast
  then show ?case using ready_wait_sys [of t i p s r q] waiting by (simp add: at_proc_def)
next
  case (waited i t p ena l s r)
  then show ?case using ready_wait_sys [of t i p s r q] wait_start_again [of t i p ena l s] by (simp add: at_proc_def)
qed

text \<open>
  A CPU that scans the table from a position up to \<open>q\<close>, or runs a process before \<open>q\<close>, comes to \<open>q\<close> before it
  leaves the table.
\<close>

definition ahead :: "nat \<Rightarrow> cpu_mode \<Rightarrow> bool" where
  "ahead q m \<longleftrightarrow> (case m of Idle \<Rightarrow> False | Scan n \<Rightarrow> n \<le> q | Enter p \<Rightarrow> p < q | Run p \<Rightarrow> p < q)"

lemma step_ahead:
  assumes "sys_step t t'" "sys_ok t" "ready q t" "ahead q (mode t i)"
  shows "ahead q (mode t' i) \<or> (\<exists>j. mode t' j = Enter q)"
  using assms
proof (induction rule: sys_step.induct)
  case (pick k t n p s)
  show ?case
  proof (cases "k = i")
    case True
    obtain p' where "find_runnable (drop n (ptable (kst t))) n = Some p'" "p' \<le> q"
      using find_runnable_le [of n q "ptable (kst t)"] pick(2,5,6) True by (auto simp: ready_def ahead_def)
    then have "p \<le> q" using pick(3) by (auto simp: scheduler_next_def Let_def)
    then show ?thesis using True by (auto simp: ahead_def)
  qed (use pick in simp)
next
  case (none k t n s)
  show ?case
  proof (cases "k = i")
    case True
    then obtain p' where "find_runnable (drop n (ptable (kst t))) n = Some p'"
      using find_runnable_le [of n q "ptable (kst t)"] none(2,5,6) by (auto simp: ready_def ahead_def)
    then show ?thesis using none(3) by (auto simp: scheduler_next_def Let_def)
  qed (use none in simp)
qed (auto simp: ahead_def wait_sys_def split: wait_result.splits)

section \<open>Runs\<close>

definition sys_run :: "(nat \<Rightarrow> sys) \<Rightarrow> bool" where
  "sys_run \<sigma> \<longleftrightarrow> (\<forall>k. sys_step (\<sigma> k) (\<sigma> (Suc k)))"

text \<open>CPU \<open>i\<close> is at the top of the outer loop of \<^verbatim>\<open>scheduler()\<close> again and again, and each time leaves it again.\<close>

definition loops_forever :: "nat \<Rightarrow> (nat \<Rightarrow> sys) \<Rightarrow> bool" where
  "loops_forever i \<sigma> \<longleftrightarrow> (\<forall>k. \<exists>l\<ge>k. mode (\<sigma> l) i = Idle) \<and> (\<forall>k. \<exists>l\<ge>k. mode (\<sigma> l) i \<noteq> Idle)"

lemma run_ok: "sys_run \<sigma> \<Longrightarrow> booted (\<sigma> 0) \<Longrightarrow> sys_ok (\<sigma> k)"
  by (induction k) (auto simp: sys_run_def intro: sys_step_ok booted_ok)

lemma leaves_idle: "sys_step t t' \<Longrightarrow> mode t i = Idle \<Longrightarrow> mode t' i = Idle \<or> mode t' i = Scan 0"
  by (induction rule: sys_step.induct) (auto simp: wait_sys_def split: wait_result.splits)

lemma first_after:
  assumes "mode (\<sigma> a) i = Idle" "mode (\<sigma> b) i \<noteq> Idle" "a \<le> (b :: nat)" "sys_run \<sigma>"
  shows "\<exists>c\<ge>a. mode (\<sigma> c) i = Scan 0"
  using assms(3,1,2)
proof (induction b rule: dec_induct)
  case (step b)
  have s: "sys_step (\<sigma> b) (\<sigma> (Suc b))" using assms(4) by (simp add: sys_run_def)
  show ?case
  proof (cases "mode (\<sigma> b) i = Idle")
    case True
    then have "mode (\<sigma> (Suc b)) i = Scan 0" using leaves_idle [OF s] step by blast
    then show ?thesis using step(1) by (intro exI [of _ "Suc b"]) simp
  qed (use step in blast)
qed simp

definition stays :: "nat \<Rightarrow> (nat \<Rightarrow> sys) \<Rightarrow> nat \<Rightarrow> nat \<Rightarrow> bool" where
  "stays q \<sigma> k l \<longleftrightarrow> ready q (\<sigma> l) \<or> (\<exists>m. k \<le> m \<and> m \<le> l \<and> (\<exists>j. mode (\<sigma> m) j = Enter q))"

lemma stays_ready:
  assumes "sys_run \<sigma>" "booted (\<sigma> 0)" "ready q (\<sigma> k)" "k \<le> l"
  shows "stays q \<sigma> k l"
  using assms(4)
proof (induction l rule: dec_induct)
  case base
  then show ?case using assms(3) by (simp add: stays_def)
next
  case (step l)
  have "sys_step (\<sigma> l) (\<sigma> (Suc l))" using assms(1) by (simp add: sys_run_def)
  from step_ready [OF this run_ok [OF assms(1,2)], of q] step(1,3) show ?case
    unfolding stays_def by (meson le_SucI le_Suc_eq order_refl order_trans)
qed

lemma ahead_stays:
  assumes "sys_run \<sigma>" "booted (\<sigma> 0)" "\<And>m j. c \<le> m \<Longrightarrow> mode (\<sigma> m) j \<noteq> Enter q" "\<And>m. c \<le> m \<Longrightarrow> ready q (\<sigma> m)"
    and "ahead q (mode (\<sigma> c) i)" "c \<le> l"
  shows "ahead q (mode (\<sigma> l) i)"
  using assms(6)
proof (induction l rule: dec_induct)
  case (step l)
  have "sys_step (\<sigma> l) (\<sigma> (Suc l))" using assms(1) by (simp add: sys_run_def)
  from step_ahead [OF this run_ok [OF assms(1,2)] assms(4) [OF step(1)] step(3)] show ?case
    using assms(3) step(1) by (meson le_SucI)
qed (use assms(5) in simp)

section \<open>A run of one CPU\<close>

text \<open>CPU 0 alone runs the processes of the demonstration system in turn; each gives up the CPU at once.\<close>

definition alone :: "sys \<Rightarrow> bool" where
  "alone t \<longleftrightarrow> sys_ok t \<and> (\<forall>i. i \<noteq> 0 \<longrightarrow> mode t i = Idle) \<and> (\<forall>p ena. kont_of t p \<noteq> KSleep ena \<and> kont_of t p \<noteq> KWait ena) \<and> 0 < length (apicids (kst t))"

definition turns :: "cpu_mode \<Rightarrow> cpu_mode \<Rightarrow> bool" where
  "turns m m' \<longleftrightarrow> (case m of Idle \<Rightarrow> m' = Scan 0 | Scan n \<Rightarrow> m' = Idle \<or> (\<exists>p\<ge>n. p < NPROC \<and> m' = Enter p)
     | Enter p \<Rightarrow> m' = Run p | Run p \<Rightarrow> m' = Scan (Suc p))"

lemma alone_free: "alone t \<Longrightarrow> \<not> holds_lock (mode t 0) \<Longrightarrow> lock_owner (kst t) = None"
proof (rule ccontr)
  assume a: "alone t" "\<not> holds_lock (mode t 0)" and "lock_owner (kst t) \<noteq> None"
  then obtain i where "lock_owner (kst t) = Some i" by blast
  then have "holds_lock (mode t i)" using sys_ok_lock(2) [of t i] a(1) by (simp add: alone_def)
  then show False using a by (cases "i = 0") (auto simp: alone_def holds_lock_def)
qed

lemma alone_step:
  assumes "alone t" "sys_step t (t\<lparr>kst := s, mode := (mode t)(0 := m), kont_of := k\<rparr>)" "apicids s = apicids (kst t)" "\<And>p ena. k p \<noteq> KSleep ena \<and> k p \<noteq> KWait ena"
    "turns (mode t 0) m"
  shows "\<exists>t'. alone t' \<and> sys_step t t' \<and> turns (mode t 0) (mode t' 0)"
proof -
  have "alone (t\<lparr>kst := s, mode := (mode t)(0 := m), kont_of := k\<rparr>)"
    using assms(1,3,4) sys_step_ok [OF assms(2)] by (simp add: alone_def)
  then show ?thesis using assms(2,5) by (intro exI [of _ "t\<lparr>kst := s, mode := (mode t)(0 := m), kont_of := k\<rparr>"]) simp
qed

lemma alone_turns:
  assumes a: "alone t"
  shows "\<exists>t'. alone t' \<and> sys_step t t' \<and> turns (mode t 0) (mode t' 0)"
proof -
  have ok: "sys_ok t" and l: "0 < length (apicids (kst t))" and ks: "\<And>p ena. kont_of t p \<noteq> KSleep ena \<and> kont_of t p \<noteq> KWait ena" using a by (simp_all add: alone_def)
  have lp: "length (ptable (kst t)) = NPROC" using ok by (simp add: sys_ok_def stacks_ok_def)
  show ?thesis
  proof (cases "mode t 0")
    case Idle
    then obtain s where s: "scheduler_start (on 0 t) = Ret s"
      using scheduler_start_eq [OF ok Idle] alone_free [OF a] by (auto simp: holds_lock_def)
    then have "apicids s = apicids (kst t)" by (auto simp: scheduler_start_def pt_acquire_def set_cpu_def)
    then show ?thesis using sys_step.start [OF l Idle s] Idle ks by (intro alone_step [OF a, where s = s and m = "Scan 0" and k = "kont_of t"]) (simp_all add: turns_def)
  next
    case (Scan n)
    obtain s where s: "scheduler_next n (on 0 t) = Ret (find_runnable (drop n (ptable (kst t))) n, s)"
      using scheduler_next_total [OF ok Scan] by blast
    show ?thesis
    proof (cases "find_runnable (drop n (ptable (kst t))) n")
      case None
      then have "apicids s = apicids (kst t)" using s by (auto simp: scheduler_next_def pt_release_def set_cpu_def)
      then show ?thesis using sys_step.none [OF l Scan, of s] s None Scan ks
        by (intro alone_step [OF a, where s = s and m = Idle and k = "kont_of t"]) (simp_all add: turns_def)
    next
      case (Some p)
      have p: "n \<le> p" "p < NPROC" using find_runnable_Some [OF Some] lp by auto
      have "apicids s = apicids (kst t)" using scheduler_next_pick(3) [OF ok Scan Some] s Some by auto
      then show ?thesis using sys_step.pick [OF l Scan, of p s] s Some Scan ks p
        by (intro alone_step [OF a, where s = s and m = "Enter p" and k = "kont_of t"]) (simp_all add: turns_def)
    qed
  next
    case (Enter p)
    then have h: "holds_lock (mode t 0)" by (simp add: holds_lock_def)
    show ?thesis
    proof (cases "kont_of t p")
      case KForkret
      have s: "pt_release (on 0 t) = Ret (given (on 0 t))" using pt_release_eq [of "on 0 t"] scan_depth [OF ok h] by simp
      show ?thesis using sys_step.forkret [OF l Enter KForkret s] Enter ks
        by (intro alone_step [OF a, where s = "given (on 0 t)" and m = "Run p" and k = "kont_of t"]) (simp_all add: turns_def)
    next
      case (KYield ena)
      let ?s = "sched_back ena (on 0 t)"
      have "pt_inv ?s" "lock_owner ?s = Some (this_cpu ?s)"
        using scan_depth [OF ok h] by (auto simp: sched_back_def set_cpu_def spin_inv_def spin_owner_def cli_depth_def)
      then have s: "yield_back ena (on 0 t) = Ret (given ?s)" using pt_release_eq [of ?s] by (simp add: yield_back_def)
      have "apicids (given ?s) = apicids (kst t)" by (simp add: sched_back_def set_cpu_def)
      then show ?thesis using sys_step.yielded [OF l Enter KYield s] Enter ks
        by (intro alone_step [OF a, where s = "given ?s" and m = "Run p" and k = "kont_of t"]) (simp_all add: turns_def)
    qed (use ks in blast)+
  next
    case (Run p)
    note o = sys_ok_on [OF ok l Run]
    have "lock_owner (on 0 t) = None" using alone_free [OF a] Run by (simp add: holds_lock_def)
    note y = yield_out_eq [OF o(1-3) this o(4,5)]
    show ?thesis by (rule alone_step [OF a sys_step.yield [OF l Run y]]) (simp_all add: ks Run turns_def)
  qed
qed

definition rank :: "cpu_mode \<Rightarrow> nat" where
  "rank m = (case m of Idle \<Rightarrow> 0 | Scan n \<Rightarrow> 3 * (NPROC - n) + 1 | Enter p \<Rightarrow> 3 * (NPROC - p) | Run p \<Rightarrow> 3 * (NPROC - p) - 1)"

lemma turns_rank: "alone t \<Longrightarrow> turns (mode t 0) m' \<Longrightarrow> mode t 0 \<noteq> Idle \<Longrightarrow> rank m' < rank (mode t 0)"
  using running_okD(1) [of "ptable (kst t)" "mode t" 0]
  by (cases "mode t 0") (auto simp: turns_def rank_def alone_def sys_ok_def stacks_ok_def at_proc_def)

lemma back_to_idle:
  assumes "\<And>k. alone (\<sigma> k)" "\<And>k. turns (mode (\<sigma> k) 0) (mode (\<sigma> (Suc k)) 0)"
  shows "\<exists>l\<ge>k. mode (\<sigma> l) 0 = Idle"
proof (induction "rank (mode (\<sigma> k) 0)" arbitrary: k rule: less_induct)
  case less
  show ?case
  proof (cases "mode (\<sigma> k) 0 = Idle")
    case False
    then obtain l where "Suc k \<le> l" "mode (\<sigma> l) 0 = Idle" using less turns_rank [OF assms(1,2)] by blast
    then show ?thesis by (intro exI [of _ l]) simp
  qed blast
qed

lemma demo_run: "\<exists>\<sigma>. \<sigma> 0 = sched_demo \<and> sys_run \<sigma> \<and> loops_forever 0 \<sigma>"
proof -
  have a: "alone sched_demo" using booted_ok [OF booted_demo] by (simp add: alone_def) (simp add: sched_demo_def sched_demo_st_def)
  obtain \<sigma> where s: "\<sigma> 0 = sched_demo" "\<And>k. alone (\<sigma> k)" "\<And>k. sys_step (\<sigma> k) (\<sigma> (Suc k))" "\<And>k. turns (mode (\<sigma> k) 0) (mode (\<sigma> (Suc k)) 0)"
    using dependent_nat_choice [of "\<lambda>k t. alone t \<and> (k = 0 \<longrightarrow> t = sched_demo)" "\<lambda>k t t'. sys_step t t' \<and> turns (mode t 0) (mode t' 0)"]
      a alone_turns by (metis nat.discI)
  have "\<exists>l\<ge>k. mode (\<sigma> l) 0 \<noteq> Idle" for k
  proof (cases "mode (\<sigma> k) 0 = Idle")
    case True
    then have "mode (\<sigma> (Suc k)) 0 = Scan 0" using s(4) [of k] by (simp add: turns_def)
    then show ?thesis by (intro exI [of _ "Suc k"]) simp
  qed blast
  then have "loops_forever 0 \<sigma>" using back_to_idle [of \<sigma>] s(2,4) by (simp add: loops_forever_def)
  then show ?thesis using s(1,3) by (auto simp: sys_run_def)
qed

section \<open>Property\<close>

text \<open>
  C16: no process starves: in every run of the CPUs in which some CPU comes back to the top of the scheduler's loop forever, a
  process that is runnable at some moment is later switched to by some CPU.
\<close>

theorem runnable_is_scheduled:
  assumes "booted (\<sigma> 0)" "sys_run \<sigma>" "loops_forever i \<sigma>" "ready q (\<sigma> k)"
  shows "\<exists>m\<ge>k. \<exists>j. mode (\<sigma> m) j = Enter q"
proof (rule ccontr)
  assume "\<not> ?thesis"
  then have no: "\<And>m j. k \<le> m \<Longrightarrow> mode (\<sigma> m) j \<noteq> Enter q" by blast
  have r: "ready q (\<sigma> m)" if "k \<le> m" for m
    using stays_ready [OF assms(2,1,4) that] no unfolding stays_def by blast
  obtain a b where ab: "k \<le> a" "mode (\<sigma> a) i = Idle" "a \<le> b" "mode (\<sigma> b) i \<noteq> Idle"
    using assms(3) unfolding loops_forever_def by meson
  obtain c where c: "a \<le> c" "mode (\<sigma> c) i = Scan 0" using first_after [of \<sigma> a i b] ab(2-4) assms(2) by blast
  obtain l where l: "c \<le> l" "mode (\<sigma> l) i = Idle" using assms(3) unfolding loops_forever_def by meson
  have "ahead q (mode (\<sigma> l) i)"
    using ahead_stays [OF assms(2,1), of c q i l] no r c l(1) ab(1) by (auto simp: ahead_def)
  then show False using l(2) by (simp add: ahead_def)
qed

theorem runnable_is_scheduled_witness:
  "\<exists>\<sigma>. \<sigma> 0 = sched_demo \<and> sys_run \<sigma> \<and> loops_forever 0 \<sigma> \<and> ready 1 (\<sigma> 0) \<and> (\<exists>m j. mode (\<sigma> m) j = Enter 1)"
proof -
  obtain \<sigma> where s: "\<sigma> 0 = sched_demo" "sys_run \<sigma>" "loops_forever 0 \<sigma>" using demo_run by blast
  have r: "ready 1 (\<sigma> 0)" by (simp add: s(1) ready_def sched_demo_def sched_demo_st_def sched_demo_proc_def)
  have "booted (\<sigma> 0)" using s(1) booted_demo by simp
  from runnable_is_scheduled [OF this s(2,3) r] show ?thesis using s r by blast
qed

end
