(* ===== verification/Inodes.thy ===== *)
theory Inodes
  imports Fs Logwrite
begin

text \<open>
  The content of files (fs.c) as the calls of the file system see it: which bytes \<^verbatim>\<open>readi\<close> returns and
  what \<^verbatim>\<open>writei\<close> changes. A file is described by the view of the disk through the buffer cache and
  the block addresses in its inode.
\<close>

section \<open>The bytes of a file\<close>

text \<open>The address of block \<open>k\<close> of a file, 0 when it has none.\<close>

definition blk :: "(u32 \<Rightarrow> u8 list) \<Rightarrow> u32 list \<Rightarrow> nat \<Rightarrow> u32" where
  "blk v as k = (if k < 12 then as ! k else if as ! 12 = 0 then 0 else get32 (v (as ! 12)) (4 * (k - 12)))"

definition file_byte :: "(u32 \<Rightarrow> u8 list) \<Rightarrow> u32 list \<Rightarrow> nat \<Rightarrow> u8" where
  "file_byte v as i = v (blk v as (i div 512)) ! (i mod 512)"

definition file_data :: "(u32 \<Rightarrow> u8 list) \<Rightarrow> u32 list \<Rightarrow> nat \<Rightarrow> nat \<Rightarrow> u8 list" where
  "file_data v as i n = map (file_byte v as) [i..<i + n]"

lemma file_data_add: "file_data v as i (m + n) = file_data v as i m @ file_data v as (i + m) n"
  using upt_add_eq_append [of i "i + m" n] by (simp add: file_data_def add.assoc)

lemma same_block: "i mod 512 + j < 512 \<Longrightarrow> (i + j) div 512 = i div (512 :: nat) \<and> (i + j) mod 512 = i mod 512 + j"
proof -
  assume "i mod 512 + j < 512"
  then have "(512 * (i div 512) + (i mod 512 + j)) div 512 = i div 512 \<and> (512 * (i div 512) + (i mod 512 + j)) mod 512 = i mod 512 + j"
    by (simp only: div_mult_self4 mod_mult_self4) simp
  moreover have "512 * (i div 512) + (i mod 512 + j) = i + j" using mult_div_mod_eq [of 512 i] by linarith
  ultimately show ?thesis by simp
qed

lemma file_data_block:
  assumes "length (v (blk v as (i div 512))) = 512" "i mod 512 + m \<le> 512"
  shows "take m (drop (i mod 512) (v (blk v as (i div 512)))) = file_data v as i m"
proof (rule nth_equalityI)
  fix j assume "j < length (take m (drop (i mod 512) (v (blk v as (i div 512)))))"
  then have j: "j < m" "i mod 512 + j < 512" using assms by simp_all
  then have "(i + j) div 512 = i div 512" "(i + j) mod 512 = i mod 512 + j" by (simp_all add: same_block)
  then show "take m (drop (i mod 512) (v (blk v as (i div 512)))) ! j = file_data v as i m ! j"
    using j assms by (simp add: file_data_def file_byte_def)
qed (use assms in \<open>simp add: file_data_def\<close>)

section \<open>Reading a block\<close>

text \<open>What the calls here do not change, and what reading leaves as it is.\<close>

definition env :: "'a fs_st_scheme \<Rightarrow> superblock \<times> u32 \<times> u32 \<times> u32" where
  "env s = (sb s, disksize s, log_outstanding s, log_size s)"

lemma envD: "env t = env s \<Longrightarrow> sb t = sb s \<and> disksize t = disksize s \<and> log_outstanding t = log_outstanding s \<and> log_size t = log_size s"
  by (simp add: env_def)

definition same :: "nat set \<Rightarrow> 'a fs_st_scheme \<Rightarrow> 'a fs_st_scheme \<Rightarrow> bool" where
  "same L s t \<longleftrightarrow> binv t L \<and> view t = view s \<and> dirty_blocks t = dirty_blocks s \<and> env t = env s \<and> icache t = icache s
     \<and> lh_n t = lh_n s \<and> lh_block t = lh_block s \<and> (\<forall>i \<in> L. core (bcache t ! i) = core (bcache s ! i))"

lemma same_refl: "binv s L \<Longrightarrow> same L s s"
  by (simp add: same_def)

lemma same_trans: "same L s t \<Longrightarrow> same L t u \<Longrightarrow> same L s u"
  by (simp add: same_def)

definition can_read :: "nat set \<Rightarrow> 'a fs_st_scheme \<Rightarrow> u32 \<Rightarrow> bool" where
  "can_read L s bn \<longleftrightarrow> bn < disksize s \<and> (\<forall>i \<in> L. \<not> hit bn (bcache s ! i))
     \<and> (bn \<in> dirty_blocks s \<or> card L + card (dirty_blocks s) < 30)"

lemma bread_brelse:
  fixes s :: "'a fs_st_scheme"
  assumes "binv s L" "can_read L s bn"
  shows "\<exists>b t u. bread s 1 bn = Ret (b, t) \<and> did_read s L bn b t \<and> icache t = icache s \<and> env t = env s
    \<and> lh_n t = lh_n s \<and> lh_block t = lh_block s \<and> brelse t b = Ret u \<and> same L s u"
proof -
  obtain b t where r: "bread s 1 bn = Ret (b, t)" "did_read s L bn b t"
    using bread_spec [OF assms(1), of bn] assms(2) unfolding can_read_def by blast
  then obtain c where d: "b < 30" "b \<notin> L" "t = s\<lparr>bcache := c\<rparr>" "binv t (insert b L)" "hit bn (bcache t ! b)" "b_data (bcache t ! b) = view s bn"
    "bn \<in> dirty_blocks s \<or> b_data (bcache t ! b) = memdisk s bn" "\<And>i. i \<noteq> b \<Longrightarrow> bcache t ! i = bcache s ! i"
    "view t = view s" "dirty_blocks t = dirty_blocks s"
    unfolding did_read_def by blast
  have "dirty (bcache t ! b) \<longleftrightarrow> bn \<in> dirty_blocks s" using dirty_at [OF d(4,1,5)] d(10) by simp
  then have "dirty (bcache t ! b) \<or> b_dev (bcache t ! b) = 1 \<and> b_data (bcache t ! b) = memdisk t (b_blockno (bcache t ! b))"
    using d(3,5,7) by (auto simp: hit_def)
  from brelse_spec [OF d(4) _ this] obtain p c' where
    u: "brelse t b = Ret (t\<lparr>ptable := p, bcache := c'\<rparr>)" "binv (t\<lparr>ptable := p, bcache := c'\<rparr>) (insert b L - {b})"
      "view (t\<lparr>ptable := p, bcache := c'\<rparr>) = view t" "dirty_blocks (t\<lparr>ptable := p, bcache := c'\<rparr>) = dirty_blocks t"
      "\<And>i. core (c' ! i) = core (bcache t ! i)" by (auto simp: Let_def)
  have "insert b L - {b} = L" using d(2) by simp
  moreover have "core (c' ! i) = core (bcache s ! i)" if "i \<in> L" for i
  proof -
    have "i \<noteq> b" using that d(2) by blast
    then show ?thesis using u(5) [of i] d(8) [of i] by simp
  qed
  ultimately have "same L s (t\<lparr>ptable := p, bcache := c'\<rparr>)"
    using u(2-4) d(3,9,10) unfolding same_def by (simp add: env_def)
  moreover have "icache t = icache s" "env t = env s" "lh_n t = lh_n s" "lh_block t = lh_block s" using d(3) by (simp_all add: env_def)
  ultimately show ?thesis using r u(1) by blast
qed

section \<open>Reading a file\<close>

text \<open>Block \<open>k\<close> of the file is there and on the disk.\<close>

definition mapped :: "'a fs_st_scheme \<Rightarrow> u32 list \<Rightarrow> nat \<Rightarrow> bool" where
  "mapped s as k \<longleftrightarrow> k < 140 \<and> blk (view s) as k \<noteq> 0 \<and> blk (view s) as k < disksize s \<and> (12 \<le> k \<longrightarrow> as ! 12 \<noteq> 0 \<and> as ! 12 < disksize s)"

lemma bmap_mapped:
  fixes s :: "'a fs_st_scheme"
  assumes "binv s {}" "i_dev (icache s ! ip) = 1" "mapped s (i_addrs (icache s ! ip)) (unat bn)" "card (dirty_blocks s) < 30"
  shows "\<exists>t. bmap s ip bn = Ret (blk (view s) (i_addrs (icache s ! ip)) (unat bn), t) \<and> same {} s t"
proof (cases "bn < 12")
  case True
  then show ?thesis using assms same_refl [OF assms(1)] by (simp add: bmap_def blk_def mapped_def word_less_nat_alt)
next
  case False
  let ?as = "i_addrs (icache s ! ip)"
  have k: "12 \<le> unat bn" "unat bn < 140" using False assms(3) by (simp_all add: word_less_nat_alt mapped_def)
  then have u: "unat (bn - 12) = unat bn - 12" by (subst unat_sub) (simp_all add: word_le_nat_alt)
  then have "bn - 12 < 128" using k by (simp add: word_less_nat_alt)
  have "can_read {} s (?as ! 12)" using assms(3,4) k by (simp add: can_read_def mapped_def)
  from bread_brelse [OF assms(1) this] obtain b t v where
    r: "bread s 1 (?as ! 12) = Ret (b, t)" "did_read s {} (?as ! 12) b t" "brelse t b = Ret v" "same {} s v" by blast
  moreover have "get32 (b_data (bcache t ! b)) (4 * unat (bn - 12)) = blk (view s) ?as (unat bn)" "blk (view s) ?as (unat bn) \<noteq> 0"
    using r(2) k u assms(3) by (auto simp: blk_def did_read_def mapped_def split: if_splits)
  ultimately show ?thesis using False assms(2,3) k \<open>bn - 12 < 128\<close> by (simp add: bmap_def mapped_def Let_def)
qed

lemma unat_io_chunk: "unat (io_chunk off r) = min (unat r) (512 - unat off mod 512)"
proof -
  have "off mod 512 \<le> (512 :: u32)" by (simp add: word_le_nat_alt unat_mod)
  then have "unat (512 - off mod 512) = 512 - unat off mod 512" by (simp add: unat_sub unat_mod)
  then show ?thesis by (simp add: io_chunk_def min_def word_le_nat_alt)
qed

lemma readi_loop_spec:
  fixes s :: "'a fs_st_scheme"
  assumes "binv s {}" "i_dev (icache s ! ip) = 1" "card (dirty_blocks s) < 30" "unat off + unat r < 2 ^ 32"
    and "\<And>k. k * 512 < unat off + unat r \<Longrightarrow> mapped s (i_addrs (icache s ! ip)) k"
  shows "\<exists>t. readi_loop s ip off r acc = Ret (acc @ file_data (view s) (i_addrs (icache s ! ip)) (unat off) (unat r), t) \<and> same {} s t"
  using assms
proof (induction "unat r" arbitrary: s off r acc rule: less_induct)
  case less
  note 1 = less.prems
  let ?as = "i_addrs (icache s ! ip)"
  show ?case
  proof (cases "0 < r")
    case False
    then have "unat r = 0" by (simp add: word_neq_0_conv [symmetric])
    then show ?thesis using False same_refl [OF 1(1)] by (simp add: readi_loop.simps file_data_def)
  next
    case True
    define m where "m = io_chunk off r"
    have m: "unat m = min (unat r) (512 - unat off mod 512)" "unat (r - m) = unat r - unat m"
      using unat_io_chunk [of off r] unat_sub [OF io_chunk_le, of r off] by (simp_all add: m_def)
    have "unat m \<le> unat r" using m(1) by simp
    then have om: "unat (off + m) = unat off + unat m" using 1(4) unat_add_lem [of off m] by simp
    have r: "0 < unat r" using True by (simp add: word_less_nat_alt)
    have k: "unat (off div 512) = unat off div 512" "unat (off mod 512) = unat off mod 512" by (simp_all add: unat_div unat_mod)
    have "unat off div 512 * 512 < unat off + unat r" using r by simp
    then have mp: "mapped s ?as (unat (off div 512))" using 1(5) k by simp
    let ?a = "blk (view s) ?as (unat off div 512)"
    obtain t where t: "bmap s ip (off div 512) = Ret (?a, t)" "same {} s t"
      using bmap_mapped [OF 1(1,2) mp 1(3)] unfolding k by blast
    have te: "disksize t = disksize s" "icache t = icache s" "view t = view s" "dirty_blocks t = dirty_blocks s" "binv t {}"
      using t(2) by (simp_all add: same_def env_def)
    have "can_read {} t ?a" using mp 1(3) te k by (simp add: can_read_def mapped_def)
    from bread_brelse [OF te(5) this] obtain b u w where
      b: "bread t 1 ?a = Ret (b, u)" "did_read t {} ?a b u" "brelse u b = Ret w" "same {} t w" by blast
    have sw: "same {} s w" using same_trans [OF t(2) b(4)] .
    have we: "icache w = icache s" "view w = view s" "dirty_blocks w = dirty_blocks s" "binv w {}" "disksize w = disksize s"
      using sw by (simp_all add: same_def env_def)
    have xs: "take (unat m) (drop (unat (off mod 512)) (b_data (bcache u ! b))) = file_data (view s) ?as (unat off) (unat m)"
      using file_data_block [of "view s" ?as "unat off" "unat m"] b(2) te m(1) k length_view [OF 1(1)]
      by (simp add: did_read_def)
    let ?acc = "acc @ file_data (view s) ?as (unat off) (unat m)"
    have lt: "unat (r - m) < unat r" using m r by simp
    have "mapped w (i_addrs (icache w ! ip)) j" if "j * 512 < unat (off + m) + unat (r - m)" for j
      using 1(5) [of j] that m om we by (simp add: mapped_def)
    moreover have "unat (off + m) + unat (r - m) < 2 ^ 32" using 1(4) om m by simp
    ultimately obtain z where "readi_loop w ip (off + m) (r - m) ?acc =
        Ret (?acc @ file_data (view w) (i_addrs (icache w ! ip)) (unat (off + m)) (unat (r - m)), z)" "same {} w z"
      using less.hyps [OF lt we(4), of "off + m" ?acc] 1(2,3) we(1,3) by fastforce
    then have z: "readi_loop w ip (off + m) (r - m) ?acc =
        Ret (?acc @ file_data (view s) ?as (unat off + unat m) (unat r - unat m), z)" "same {} w z" unfolding om m(2) we .
    have "unat m \<le> unat r" using m(1) by simp
    then have "file_data (view s) ?as (unat off) (unat r) = file_data (view s) ?as (unat off) (unat m) @ file_data (view s) ?as (unat off + unat m) (unat r - unat m)"
      by (simp flip: file_data_add)
    then show ?thesis using True t(1) b(1,3) xs z same_trans [OF sw z(2)] te 1(2) k
      by (subst readi_loop.simps) (simp add: m_def [symmetric] Let_def)
  qed
qed

definition file_ok :: "'a fs_st_scheme \<Rightarrow> inode \<Rightarrow> bool" where
  "file_ok s i \<longleftrightarrow> i_dev i = 1 \<and> i_type i \<noteq> T_DEV \<and> (\<forall>k < (unat (i_size i) + 511) div 512. mapped s (i_addrs i) k)"

definition content :: "(u32 \<Rightarrow> u8 list) \<Rightarrow> inode \<Rightarrow> u8 list" where
  "content v i = file_data v (i_addrs i) 0 (unat (i_size i))"

lemma take_drop_content:
  assumes "a + m \<le> unat (i_size i)"
  shows "take m (drop a (content v i)) = file_data v (i_addrs i) a m"
  using assms by (simp add: content_def file_data_def drop_map take_map)

text \<open>
  C3: \<^verbatim>\<open>readi()\<close> on a file returns exactly the bytes of the file from the given offset, as many as asked for or as there are, through
  direct and indirect blocks and across block boundaries, as the buffer cache has them; it changes no block, no inode and not the log.
\<close>

theorem readi_reads_file:
  assumes "binv s {}" "card (dirty_blocks s) < 30" "file_ok s (icache s ! ip)" "off \<le> i_size (icache s ! ip)" "unat off + unat n < 2 ^ 32"
  defines "m \<equiv> min (unat n) (unat (i_size (icache s ! ip)) - unat off)"
  shows "\<exists>t. readi devs s ip off n = Ret (of_nat m, take m (drop (unat off) (content (view s) (icache s ! ip))), t) \<and> same {} s t"
proof -
  let ?i = "icache s ! ip"
  define l where "l = (if off + n > i_size ?i then i_size ?i - off else n)"
  have o: "unat (off + n) = unat off + unat n" using assms(5) unat_add_lem [of off n] by simp
  have l: "unat l = m" using assms(4) o by (auto simp: l_def m_def word_less_nat_alt word_le_nat_alt unat_sub not_less)
  have lm: "l = of_nat m" by (simp flip: l)
  have sz: "unat off + m \<le> unat (i_size ?i)" using assms(4) by (simp add: m_def word_le_nat_alt)
  have "mapped s (i_addrs ?i) k" if "k * 512 < unat off + unat l" for k
    using assms(3) that sz l by (simp add: file_ok_def)
  moreover have "unat off + unat l < 2 ^ 32" using l sz unat_lt32 [of "i_size ?i"] by simp
  ultimately obtain t where t: "readi_loop s ip off l [] = Ret (file_data (view s) (i_addrs ?i) (unat off) m, t)" "same {} s t"
    using readi_loop_spec [OF assms(1) _ assms(2), of ip off l "[]"] assms(3) unfolding l file_ok_def by fastforce
  have "\<not> off + n < off" "\<not> i_size ?i < off" using o assms(4) by (simp_all add: word_less_nat_alt word_le_nat_alt)
  then have "readi devs s ip off n = Ret (l, file_data (view s) (i_addrs ?i) (unat off) m, t)"
    using assms(3,4) t(1) by (simp add: readi_def file_ok_def l_def [symmetric] Let_def)
  then show ?thesis using t(2) lm take_drop_content [OF sz] by simp
qed

theorem readi_reads_file_witness:
  "\<exists>(s :: fs_st) t. readi no_devices s 0 1 10 = Ret (2, [98, 99], t)"
proof -
  obtain s0 :: fs_st where True by blast
  obtain i0 :: inode where True by blast
  let ?i = "i0\<lparr>i_dev := 1, i_type := T_FILE, i_size := 3, i_addrs := (replicate 13 0)[0 := 64]\<rparr>"
  let ?d = "\<lambda>bn :: u32. if bn = 64 then [97, 98, 99] @ replicate 509 0 else replicate 512 (0 :: u8)"
  let ?z = "s0\<lparr>bcache := replicate 31 zero_buf, memdisk := ?d, cpu_proc := \<lambda>_. None, disksize := 1000, icache := [?i]\<rparr>"
  let ?s = "binit ?z"
  have v: "binv ?s {}" "dirty_blocks ?s = {}" "view ?s = ?d" using binit_inv [of ?z] by (simp_all add: cur_ok_def)
  have i: "icache ?s = [?i]" "disksize ?s = 1000" by (simp_all add: binit_def)
  have "mapped ?s (i_addrs ?i) k" if "k < (3 + 511) div 512" for k using that v(3) i by (simp add: mapped_def blk_def)
  then have "file_ok ?s (icache ?s ! 0)" using i by (simp add: file_ok_def)
  from readi_reads_file [OF v(1) _ this, of 1 10 no_devices] obtain t where
    "readi no_devices ?s 0 1 10 = Ret (of_nat 2, take 2 (drop 1 (content ?d ?i)), t)" using v i by auto
  moreover have "content ?d ?i = [97, 98, 99]" by (simp add: content_def file_data_def file_byte_def blk_def upt_rec)
  ultimately show ?thesis by (intro exI [of _ ?s] exI [of _ t]) simp
qed

end
