(* ===== verification/Logadmit.thy ===== *)
theory Logadmit
  imports Log
begin

text \<open>
  The admission control of the log (\<^verbatim>\<open>begin_op\<close> of log.c). Every system call that changes the disk reserves space for
  MAXOPBLOCKS blocks. The steps of any number of calls, in any interleaving, keep the number of logged blocks within LOGSIZE.
\<close>

section \<open>The buffer cache leaves the log alone\<close>

definition logf :: "'a log_st_scheme \<Rightarrow> u32 \<times> u32 list \<times> u32 \<times> u32 \<times> u32" where
  "logf s = (lh_n s, lh_block s, log_size s, log_outstanding s, log_committing s)"

lemma logf_steps [simp]: "logf (set_buf b f s) = logf s" "logf (wakeup1 ch s) = logf s" "logf (s\<lparr>bcache := c\<rparr>) = logf s"
  "logf (s\<lparr>memdisk := d\<rparr>) = logf s" "logf (s\<lparr>diskwrites := w\<rparr>) = logf s"
  by (simp_all add: logf_def set_buf_def wakeup1_def)

lemma iderw_logf: "iderw s b = Ret t \<Longrightarrow> logf t = logf s"
  by (auto simp: iderw_def Let_def split: if_splits)

lemma bwrite_logf: "bwrite s b = Ret t \<Longrightarrow> logf t = logf s"
  by (auto simp: bwrite_def dest!: iderw_logf split: if_splits)

lemma brelse_logf: "brelse s b = Ret t \<Longrightarrow> logf t = logf s"
  by (auto simp: brelse_def releasesleep_def Let_def split: if_splits)

lemma lock_buf_logf: "lock_buf s b = Ret (c, t) \<Longrightarrow> logf t = logf s"
  by (auto simp: lock_buf_def)

lemma bget_logf: "bget s d n = Ret (b, t) \<Longrightarrow> logf t = logf s"
  unfolding bget_def bind_res_eq_Ret by (elim exE conjE) (fastforce split: option.splits dest: lock_buf_logf)

lemma bread_logf: "bread s d n = Ret (b, t) \<Longrightarrow> logf t = logf s"
  by (auto simp: bread_def dest!: bget_logf iderw_logf split: if_splits)

lemmas cache_logf = bread_logf bwrite_logf brelse_logf

lemma install_loop_logf: "install_loop s i n = Ret t \<Longrightarrow> logf t = logf s"
  by (induction n arbitrary: s i) (fastforce split: if_splits dest: cache_logf)+

lemma write_log_loop_logf: "write_log_loop s i n = Ret t \<Longrightarrow> logf t = logf s"
  by (induction n arbitrary: s i) (fastforce split: if_splits dest: cache_logf)+

lemma write_head_logf: "write_head s = Ret t \<Longrightarrow> logf t = logf s"
  by (fastforce simp: write_head_def dest: cache_logf)

lemma commit_fields:
  assumes "commit s = Ret t" "sint (lh_n s) \<ge> 0"
  shows "lh_n t = 0 \<and> log_outstanding t = log_outstanding s \<and> log_committing t = log_committing s \<and> log_size t = log_size s"
proof (cases "0 <s lh_n s")
  case True
  then obtain s1 s2 s3 where s: "write_log s = Ret s1" "write_head s1 = Ret s2" "install_trans s2 = Ret s3" "write_head (s3\<lparr>lh_n := 0\<rparr>) = Ret t"
    using assms(1) by (auto simp: commit_def)
  have "logf s3 = logf s"
    using write_log_loop_logf [of s 0 _ s1] write_head_logf [OF s(2)] install_loop_logf [of s2 0 _ s3] s by (simp add: write_log_def install_trans_def)
  then show ?thesis using write_head_logf [OF s(4)] by (simp add: logf_def)
next
  case False
  then have "lh_n s = 0" using assms(2) by (auto simp: word_sless_alt signed_word_eqI)
  then show ?thesis using assms(1) False by (simp add: commit_def)
qed

section \<open>System calls on the log\<close>

text \<open>
  The reachable states of the log, with the number of new blocks each system call inside a transaction may still log. A call
  begins, logs a block within its share or a block that is in the log already, and ends; between these steps
  anything but the log may change.
\<close>

definition in_log :: "'a log_st_scheme \<Rightarrow> nat \<Rightarrow> bool" where
  "in_log s b \<longleftrightarrow> b_blockno (bcache s ! b) \<in> set (take (unat (lh_n s)) (lh_block s))"

inductive log_reach :: "'a log_st_scheme \<Rightarrow> nat list \<Rightarrow> bool" where
  idle: "lh_n s = 0 \<Longrightarrow> log_outstanding s = 0 \<Longrightarrow> log_committing s = 0 \<Longrightarrow> log_reach s []"
| begins: "log_reach s bs \<Longrightarrow> begin_op s = Ret t \<Longrightarrow> log_reach t (bs @ [unat MAXOPBLOCKS])"
| writes: "log_reach s bs \<Longrightarrow> i < length bs \<Longrightarrow> 0 < bs ! i \<Longrightarrow> log_write s b = Ret t \<Longrightarrow> log_reach t (bs[i := bs ! i - 1])"
| absorbs: "log_reach s bs \<Longrightarrow> in_log s b \<Longrightarrow> log_write s b = Ret t \<Longrightarrow> log_reach t bs"
| ends: "log_reach s bs \<Longrightarrow> i < length bs \<Longrightarrow> end_op s = Ret t \<Longrightarrow> log_reach t (take i bs @ drop (Suc i) bs)"
| others: "log_reach s bs \<Longrightarrow> logf t = logf s \<Longrightarrow> log_reach t bs"

definition log_bound :: "'a log_st_scheme \<Rightarrow> nat list \<Rightarrow> bool" where
  "log_bound s bs \<longleftrightarrow> log_committing s = 0 \<and> log_outstanding s = of_nat (length bs) \<and> length bs \<le> 3
     \<and> unat (lh_n s) + sum_list bs \<le> LOGSIZE \<and> (\<forall>b \<in> set bs. b \<le> 10) \<and> (bs = [] \<longrightarrow> lh_n s = 0)"

lemma sum_list_le: "\<forall>b \<in> set bs. b \<le> (10 :: nat) \<Longrightarrow> sum_list bs \<le> 10 * length bs"
  by (induction bs) auto

lemma find_logged_le: "find_logged blks bno i n \<le> i + n"
  by (induction blks bno i n rule: find_logged.induct) auto

lemma find_logged_less: "bno \<in> set (take n (drop i blks)) \<Longrightarrow> find_logged blks bno i n < i + n"
proof (induction blks bno i n rule: find_logged.induct)
  case (2 blks bno i n)
  then have "i < length blks" by (cases "i < length blks") auto
  then have "drop i blks = blks ! i # drop (Suc i) blks" by (simp add: Cons_nth_drop_Suc)
  then show ?case using 2 by (cases "blks ! i = bno") auto
qed simp

lemma bound_begins:
  assumes "log_bound s bs" "begin_op s = Ret t"
  shows "log_bound t (bs @ [10])"
proof -
  let ?n = "unat (lh_n s)" and ?k = "length bs"
  have b: "?n + sum_list bs \<le> 30" "?k \<le> 3" "\<forall>b \<in> set bs. b \<le> 10" "log_outstanding s = of_nat ?k" "log_committing s = 0"
    using assms(1) by (simp_all add: log_bound_def)
  have "lh_n s + (log_outstanding s + 1) * 10 = of_nat (?n + (?k + 1) * 10)" using b(4) by simp
  moreover have "sint (of_nat (?n + (?k + 1) * 10) :: u32) = int (?n + (?k + 1) * 10)" using b(1,2) by (intro sint_of_nat) simp
  ultimately have "sint (lh_n s + (log_outstanding s + 1) * 10) = int (?n + (?k + 1) * 10)" by (simp only:)
  moreover have "\<not> (30 :: u32) <s lh_n s + (log_outstanding s + 1) * 10" and t: "t = s\<lparr>log_outstanding := log_outstanding s + 1\<rparr>"
    using assms(2) b(5) by (auto simp: begin_op_def split: if_splits)
  ultimately have "?n + (?k + 1) * 10 \<le> 30" by (simp add: word_sless_alt del: of_nat_unat)
  then show ?thesis using b sum_list_le [OF b(3)] by (simp add: log_bound_def t)
qed

lemma log_write_fields:
  assumes "log_write s b = Ret t"
  shows "log_committing t = log_committing s \<and> log_outstanding t = log_outstanding s \<and> log_size t = log_size s
    \<and> (lh_n t = lh_n s \<or> lh_n t = lh_n s + 1) \<and> (in_log s b \<and> unat (lh_n s) \<le> 30 \<longrightarrow> lh_n t = lh_n s)"
proof -
  let ?f = "find_logged (lh_block s) (b_blockno (bcache s ! b)) 0 (nat (sint (lh_n s)))"
  have "int ?f \<noteq> sint (lh_n s)" if "in_log s b" "unat (lh_n s) \<le> 30"
    using that find_logged_less [of "b_blockno (bcache s ! b)" "unat (lh_n s)" 0 "lh_block s"] small_sint [of "lh_n s"] by (simp add: in_log_def del: of_nat_unat)
  then show ?thesis using assms by (auto simp: log_write_def Let_def set_buf_def split: if_splits)
qed

lemma bound_writes:
  assumes "log_bound s bs" "i < length bs" "0 < bs ! i" "log_write s b = Ret t"
  shows "log_bound t (bs[i := bs ! i - 1])"
proof -
  have b: "unat (lh_n s) + sum_list bs \<le> 30" "\<forall>b \<in> set bs. b \<le> 10" "bs \<noteq> []" using assms(1,2) by (auto simp: log_bound_def)
  have le: "bs ! i \<le> sum_list bs" using assms(2) by (simp add: elem_le_sum_list)
  have "unat (lh_n s + 1) = unat (lh_n s) + 1" using b(1) by (subst unat_add32) simp_all
  then have "unat (lh_n t) \<le> unat (lh_n s) + 1" using log_write_fields [OF assms(4)] by auto
  moreover have "sum_list (bs[i := bs ! i - 1]) = sum_list bs - 1" using assms(2,3) le by (simp add: sum_list_update)
  ultimately have "unat (lh_n t) + sum_list (bs[i := bs ! i - 1]) \<le> 30" using b(1) le assms(3) by linarith
  moreover have "\<forall>c \<in> set (bs[i := bs ! i - 1]). c \<le> 10"
  proof
    fix c assume "c \<in> set (bs[i := bs ! i - 1])"
    then have "c = bs ! i - 1 \<or> c \<in> set bs" using set_update_subset_insert [of bs i "bs ! i - 1"] by blast
    then show "c \<le> 10" using b(2) assms(2) nth_mem [OF assms(2)] by fastforce
  qed
  ultimately show ?thesis using assms(1) b(3) log_write_fields [OF assms(4)] by (simp add: log_bound_def)
qed

lemma end_op_fields:
  assumes "end_op s = Ret t" "unat (lh_n s) \<le> 30"
  shows "log_committing t = 0 \<and> log_outstanding t = log_outstanding s - 1 \<and> log_size t = log_size s
    \<and> lh_n t = (if log_outstanding s = 1 then 0 else lh_n s)"
proof (cases "log_outstanding s = 1")
  case True
  let ?s = "s\<lparr>log_outstanding := log_outstanding s - 1, log_committing := 1\<rparr>"
  obtain u where u: "commit ?s = Ret u" "t = wakeup1 LogChan (u\<lparr>log_committing := 0\<rparr>)"
    using assms(1) True by (auto simp: end_op_def Let_def split: if_splits)
  have "0 \<le> sint (lh_n ?s)" using assms(2) small_sint [of "lh_n s"] by simp
  from commit_fields [OF u(1) this] show ?thesis using True by (simp add: u(2) wakeup1_def)
qed (use assms(1) in \<open>auto simp: end_op_def Let_def wakeup1_def split: if_splits\<close>)

lemma bound_ends:
  assumes "log_bound s bs" "i < length bs" "end_op s = Ret t"
  shows "log_bound t (take i bs @ drop (Suc i) bs)"
proof -
  have b: "unat (lh_n s) + sum_list bs \<le> 30" "length bs \<le> 3" "log_outstanding s = of_nat (length bs)" "\<forall>b \<in> set bs. b \<le> 10"
    using assms(1) by (simp_all add: log_bound_def)
  let ?cs = "take i bs @ drop (Suc i) bs"
  have bs: "bs = take i bs @ bs ! i # drop (Suc i) bs" using assms(2) id_take_nth_drop by blast
  obtain k where k: "length bs = Suc k" using assms(2) by (cases "length bs") auto
  have l: "length ?cs = k" using assms(2) k by simp
  have "sum_list bs = sum_list (take i bs) + (bs ! i + sum_list (drop (Suc i) bs))" by (subst (1) bs) simp
  then have sl: "sum_list ?cs \<le> sum_list bs" by simp
  have ss: "set ?cs \<subseteq> set bs" using set_take_subset [of i bs] set_drop_subset [of "Suc i" bs] by simp
  have one: "log_outstanding s = 1 \<longleftrightarrow> length bs = 1" using b(2,3) by (simp add: word_unat_eq_iff unat_of_nat)
  have "unat (lh_n s) \<le> 30" using b(1) by simp
  note e = end_op_fields [OF assms(3) this]
  have "log_outstanding t = of_nat (length ?cs)" using e b(3) k by (simp only: l) simp
  moreover have "unat (lh_n t) + sum_list ?cs \<le> 30" using e b(1) sl by (auto split: if_splits)
  moreover have "?cs = [] \<longrightarrow> lh_n t = 0" using e one k l by (metis One_nat_def list.size(3))
  moreover have "\<forall>c \<in> set ?cs. c \<le> 10" using ss b(4) by blast
  moreover have "length ?cs \<le> 3" using b(2) k l by linarith
  ultimately show ?thesis using e unfolding log_bound_def by blast
qed

lemma log_reach_bound: "log_reach s bs \<Longrightarrow> log_bound s bs"
proof (induction rule: log_reach.induct)
  case (begins s bs t)
  then show ?case using bound_begins by simp
next
  case (absorbs s bs b t)
  then show ?case using log_write_fields [of s b t] by (auto simp: log_bound_def)
next
  case (others s bs t)
  then show ?case by (simp add: log_bound_def logf_def)
next
  case (idle s)
  then show ?case by (simp add: log_bound_def)
qed (blast intro: bound_writes bound_ends)+

lemma log_write_returns:
  assumes "unat (lh_n s) < 30" "31 \<le> sint (log_size s)" "log_outstanding s = of_nat n" "0 < n" "n \<le> 3"
  shows "\<exists>t. log_write s b = Ret t"
proof -
  have n: "sint (lh_n s) = int (unat (lh_n s))" using assms(1) by (intro small_sint) simp
  have "sint (log_size s - 1) = sint (log_size s) - 1"
  proof -
    have "sint (log_size s) - 1 < 2 ^ 31" "- (2 ^ 31) \<le> sint (log_size s) - 1" using sint_lt [of "log_size s"] assms(2) by simp_all
    then show ?thesis using sint_word_ariths(2) [of "log_size s" 1] signed_take_bit_int_eq_self [of 31 "sint (log_size s) - 1"] by simp
  qed
  then have "\<not> (of_nat 30 :: u32) <=s lh_n s" "\<not> log_size s - 1 <=s lh_n s"
    using assms(1,2) n by (simp_all add: word_sle_eq del: of_nat_unat)
  moreover have "\<not> log_outstanding s <s 1" using assms(3-5) sint_of_nat [of n] by (simp add: word_sless_alt)
  ultimately show ?thesis by (simp add: log_write_def Let_def)
qed

section \<open>More operations than the log can hold\<close>

lemma find_logged_new:
  "bno \<notin> set (take n (drop i blks)) \<Longrightarrow> i + n \<le> length blks \<Longrightarrow> find_logged blks bno i n = i + n"
proof (induction blks bno i n rule: find_logged.induct)
  case (2 blks bno i n)
  then have "drop i blks = blks ! i # drop (Suc i) blks" by (simp add: Cons_nth_drop_Suc)
  then show ?case using 2 by auto
qed simp

text \<open>The log of an image that mkfs made: 30 blocks, one of them the header.\<close>

definition filled :: "'a log_st_scheme \<Rightarrow> nat list \<Rightarrow> nat \<Rightarrow> bool" where
  "filled s bs k \<longleftrightarrow> log_reach s bs \<and> length bs = 3 \<and> sum_list bs = 30 - k \<and> lh_n s = of_nat k \<and> log_size s = 30 \<and> length (lh_block s) = 30"

lemma filled_start: "\<exists>s :: log_st. filled s [10, 10, 10] 0"
proof -
  obtain s0 :: log_st where True by blast
  let ?s = "\<lambda>k. s0\<lparr>log_size := 30, log_outstanding := k, log_committing := 0, lh_n := 0, lh_block := replicate 30 0\<rparr>"
  have b: "begin_op (?s k) = Ret (?s (k + 1))" if "k \<in> {0, 1, 2}" for k using that by (auto simp: begin_op_def word_sless_alt)
  have "log_reach (?s 0) []" by (rule log_reach.idle) simp_all
  from log_reach.begins [OF log_reach.begins [OF log_reach.begins [OF this b] b] b] have "log_reach (?s 3) [10, 10, 10]" by simp
  then show ?thesis by (intro exI [of _ "?s 3"]) (simp add: filled_def)
qed

lemma share_left: "sum_list (bs :: nat list) \<noteq> 0 \<Longrightarrow> \<exists>i < length bs. 0 < bs ! i"
  by (auto simp: in_set_conv_nth)

lemma filled_Suc:
  fixes s :: "'a log_st_scheme"
  assumes "filled s bs k" "k < 29"
  shows "\<exists>t :: 'a log_st_scheme. \<exists>cs. filled t cs (Suc k)"
proof -
  have f: "log_reach s bs" "length bs = 3" "sum_list bs = 30 - k" "lh_n s = of_nat k" "log_size s = 30" "length (lh_block s) = 30"
    using assms(1) by (simp_all add: filled_def)
  obtain i where i: "i < length bs" "0 < bs ! i" using share_left [of bs] f(3) assms(2) by auto
  have "card (set (take k (lh_block s))) < card (UNIV :: u32 set)"
    using card_length [of "take k (lh_block s)"] assms(2) by (simp add: card_word)
  then obtain bno where bno: "bno \<notin> set (take k (lh_block s))" by (metis UNIV_eq_I less_irrefl)
  let ?u = "s\<lparr>bcache := [(bcache s ! 0)\<lparr>b_blockno := bno\<rparr>]\<rparr>"
  have u: "log_reach ?u bs" using log_reach.others [OF f(1)] by (simp add: logf_def)
  have k: "sint (lh_n s) = int k" using sint_of_nat [of k] assms(2) by (simp add: f(4))
  have new: "find_logged (lh_block s) bno 0 k = k" using find_logged_new [of bno k 0 "lh_block s"] bno f(6) assms(2) by simp
  have out: "log_outstanding s = 3" using log_reach_bound [OF f(1)] f(2) by (simp add: log_bound_def)
  have "\<exists>t. log_write ?u 0 = Ret t \<and> lh_n t = of_nat (Suc k) \<and> log_size t = 30 \<and> length (lh_block t) = 30"
    using assms(2) k new out f(4-6) by (simp add: log_write_def Let_def word_sle_eq word_sless_alt set_buf_def)
  then obtain t where t: "log_write ?u 0 = Ret t" "lh_n t = of_nat (Suc k)" "log_size t = 30" "length (lh_block t) = 30" by blast
  have "bs ! i \<le> sum_list bs" using i(1) by (simp add: elem_le_sum_list)
  then have "sum_list (bs[i := bs ! i - 1]) = 30 - Suc k" using i f(3) by (simp add: sum_list_update)
  then show ?thesis using log_reach.writes [OF u i t(1)] t f(2) by (intro exI [of _ t] exI [of _ "bs[i := bs ! i - 1]"]) (simp add: filled_def)
qed

lemma filled_29: "\<exists>s :: log_st. \<exists>bs. filled s bs 29"
proof -
  have "\<exists>s :: log_st. \<exists>bs. filled s bs k" if "k \<le> 29" for k using that
  proof (induction k)
    case 0
    then show ?case using filled_start by blast
  next
    case (Suc k)
    then show ?case using filled_Suc [of _ _ k] by fastforce
  qed
  then show ?thesis by blast
qed

section \<open>Properties\<close>

text \<open>
  C18: however system calls interleave, \<^verbatim>\<open>begin_op()\<close> admits so few that the blocks in the log and those the admitted calls may still
  write are at most LOGSIZE. If the log has room for LOGSIZE blocks beside its header, a call that keeps to its share never meets the
  panic of \<^verbatim>\<open>log_write()\<close>. A call that finds no other call inside is admitted at once.
\<close>

theorem log_admission:
  assumes "log_reach s bs"
  shows "unat (lh_n s) + sum_list bs \<le> LOGSIZE
    \<and> (\<forall>i < length bs. 0 < bs ! i \<longrightarrow> 31 \<le> sint (log_size s) \<longrightarrow> (\<exists>t. log_write s b = Ret t))
    \<and> (bs = [] \<longrightarrow> (\<exists>t. begin_op s = Ret t))"
proof -
  have b: "log_committing s = 0" "log_outstanding s = of_nat (length bs)" "length bs \<le> 3" "unat (lh_n s) + sum_list bs \<le> 30"
    "bs = [] \<Longrightarrow> lh_n s = 0" using log_reach_bound [OF assms] by (simp_all add: log_bound_def)
  have "\<exists>t. log_write s b = Ret t" if "i < length bs" "0 < bs ! i" "31 \<le> sint (log_size s)" for i
  proof -
    have "bs ! i \<le> sum_list bs" using that(1) by (simp add: elem_le_sum_list)
    then show ?thesis using log_write_returns [OF _ that(3) b(2)] b(3,4) that(1,2) by fastforce
  qed
  moreover have "\<exists>t. begin_op s = Ret t" if "bs = []" using b(1,2) b(5) [OF that] that by (simp add: begin_op_def word_sless_alt)
  ultimately show ?thesis using b(4) by blast
qed

theorem log_admission_witness:
  "\<exists>s :: log_st. log_reach s [10] \<and> sint (log_size s) = 31 \<and> (\<exists>t. log_write s 0 = Ret t)"
proof -
  obtain s0 :: log_st where True by blast
  let ?s = "\<lambda>k. s0\<lparr>log_size := 31, log_outstanding := k, log_committing := 0, lh_n := 0\<rparr>"
  have "log_reach (?s 0) []" by (rule log_reach.idle) simp_all
  moreover have "begin_op (?s 0) = Ret (?s 1)" by (simp add: begin_op_def word_sless_alt)
  ultimately have r: "log_reach (?s 1) [10]" using log_reach.begins [of "?s 0" "[]" "?s 1"] by simp
  have z: "sint (log_size (?s 1)) = 31" by simp
  have "\<exists>t. log_write (?s 1) 0 = Ret t" using log_admission [OF r, of 0] z by (metis length_Cons nth_Cons_0 order_refl zero_less_Suc zero_less_numeral)
  then show ?thesis using r z by blast
qed

text \<open>
  C19: the log of an image that \<^verbatim>\<open>mkfs\<close> writes has LOGSIZE blocks including its header, one less than \<^verbatim>\<open>begin_op()\<close> admits. Three system
  calls that are admitted together and keep to their share of ten blocks can make \<^verbatim>\<open>log_write()\<close> panic.
\<close>

theorem log_share_panics:
  "\<exists>s :: log_st. \<exists>bs i. log_reach s bs \<and> log_size s = of_nat LOGSIZE \<and> i < length bs \<and> 0 < bs ! i
     \<and> (\<forall>b. log_write s b = Panic ''too big a transaction'')"
proof -
  obtain s :: log_st and bs where f: "filled s bs 29" using filled_29 by blast
  then have "sum_list bs \<noteq> 0" by (simp add: filled_def)
  then obtain i where i: "i < length bs" "0 < bs ! i" using share_left by blast
  have "log_write s b = Panic ''too big a transaction''" for b using f by (simp add: log_write_def filled_def word_sle_eq)
  then show ?thesis using f i by (intro exI [of _ s] exI [of _ bs] exI [of _ i]) (simp add: filled_def)
qed

end
