(* ===== verification/Balloc.thy ===== *)
theory Balloc
  imports Inodes Logadmit
begin

text \<open>
  Changing the file system (fs.c) inside a transaction: updating a block through the log (\<^verbatim>\<open>log_write\<close>), allocating a block in the
  bitmap (\<^verbatim>\<open>balloc\<close>), and finding or allocating a block of a file (\<^verbatim>\<open>bmap\<close>).
\<close>

section \<open>The log inside a transaction\<close>

text \<open>The header in memory lists exactly the blocks that are dirty in the cache.\<close>

definition in_tx :: "'a fs_st_scheme \<Rightarrow> bool" where
  "in_tx s \<longleftrightarrow> length (lh_block s) = 30 \<and> unat (lh_n s) \<le> 30 \<and> distinct (take (unat (lh_n s)) (lh_block s))
     \<and> set (take (unat (lh_n s)) (lh_block s)) = dirty_blocks s
     \<and> \<not> log_outstanding s <s 1 \<and> 0 < log_size s \<and> unat (log_size s) < 2 ^ 31"

definition log_room :: "'a fs_st_scheme \<Rightarrow> nat" where
  "log_room s = min 30 (unat (log_size s) - 1)"

lemma in_tx_card: "in_tx s \<Longrightarrow> card (dirty_blocks s) = unat (lh_n s)"
  unfolding in_tx_def by (metis distinct_card length_take min.absorb2)

lemma log_room_le: "log_room s \<le> 30"
  by (simp add: log_room_def)

lemma find_logged_found:
  "find_logged blks bno i n < i + n \<Longrightarrow> i + n \<le> length blks \<Longrightarrow> blks ! find_logged blks bno i n = bno"
  by (induction blks bno i n rule: find_logged.induct) auto

lemma find_logged_absent: "bno \<notin> set (take n (drop i blks)) \<Longrightarrow> i + n \<le> length blks \<Longrightarrow> find_logged blks bno i n = i + n"
proof (induction blks bno i n rule: find_logged.induct)
  case (2 blks bno i n)
  then have "drop i blks = blks ! i # drop (Suc i) blks" by (simp add: Cons_nth_drop_Suc)
  then show ?case using 2 by auto
qed simp

text \<open>The new header after \<^verbatim>\<open>log_write\<close>.\<close>

lemma log_write_header:
  fixes bno :: u32
  assumes "length bs = 30" "n < 30" "distinct (take n bs)"
  defines "i \<equiv> find_logged bs bno 0 n"
  shows "i \<le> n" "i = n \<longleftrightarrow> bno \<notin> set (take n bs)"
    "set (take (if i = n then Suc n else n) (bs[i := bno])) = insert bno (set (take n bs))"
    "distinct (take (if i = n then Suc n else n) (bs[i := bno]))"
proof -
  show le: "i \<le> n" using find_logged_le [of bs bno 0 n] by (simp add: i_def)
  show iff: "i = n \<longleftrightarrow> bno \<notin> set (take n bs)"
    using find_logged_less [of bno n 0 bs] find_logged_absent [of bno n 0 bs] assms(1,2) by (auto simp: i_def)
  have "take (Suc n) (bs[n := bno]) = take n bs @ [bno]" using assms(1,2) by (simp add: take_Suc_conv_app_nth)
  moreover have "bs[i := bno] = bs" if "i \<noteq> n"
    using find_logged_found [of bs bno 0 n] that le assms(1,2) by (simp add: i_def list_update_same_conv)
  ultimately show "set (take (if i = n then Suc n else n) (bs[i := bno])) = insert bno (set (take n bs))"
    "distinct (take (if i = n then Suc n else n) (bs[i := bno]))"
    using iff assms(3) by auto
qed

section \<open>Writing a block\<close>

definition wrote_block :: "nat set \<Rightarrow> u32 \<Rightarrow> u8 list \<Rightarrow> 'a fs_st_scheme \<Rightarrow> 'a fs_st_scheme \<Rightarrow> bool" where
  "wrote_block L bn d s t \<longleftrightarrow> binv t L \<and> view t = (view s)(bn := d) \<and> dirty_blocks t = insert bn (dirty_blocks s) \<and> env t = env s
     \<and> icache t = icache s \<and> in_tx t \<and> (\<forall>i \<in> L. core (bcache t ! i) = core (bcache s ! i))"

lemma mark_dirty_spec:
  assumes "binv s L" "b \<in> L" "hit bn (bcache s ! b)" "valid (bcache s ! b)"
  defines "t \<equiv> set_buf b (\<lambda>x. x\<lparr>b_flags := b_flags x OR 4\<rparr>) s"
  shows "binv t L" "view t = view s" "dirty_blocks t = insert bn (dirty_blocks s)" "\<And>i. i \<noteq> b \<Longrightarrow> bcache t ! i = bcache s ! i"
    "hit bn (bcache t ! b)" "dirty (bcache t ! b)"
proof -
  let ?x = "bcache s ! b"
  let ?y = "?x\<lparr>b_data := b_data ?x, b_flags := b_flags ?x OR 4\<rparr>"
  have t: "t = s\<lparr>memdisk := memdisk s, diskwrites := diskwrites s, bcache := (bcache s)[b := ?y]\<rparr>"
    by (simp add: t_def set_buf_def upd_buf_def)
  have y: "valid ?y" "dirty ?y" using assms(4) flag_updates(1,2) [of ?x] by (simp_all add: valid_def dirty_def)
  have l: "length (memdisk s k) = 512" for k using assms(1) by (simp add: binv_def)
  note hb = binv_held [OF assms(1,2)]
  have dl: "length (b_data ?x) = 512" using hb(2) assms(4) by (simp add: buf_ok_def)
  note h = hold_change [OF assms(1-4) refl y(1) dl l refl, of "diskwrites s"]
  have "uniq (bcache s)" using assms(1) by (simp add: binv_def)
  then have "view s bn = b_data ?x" using view_hit hb(1) assms(3,4) by blast
  then have "(view s)(bn := b_data ?x) = view s" by (simp add: fun_upd_idem_iff)
  then show "binv t L" "view t = view s" "dirty_blocks t = insert bn (dirty_blocks s)" using h y(2) unfolding t by simp_all
  have len: "b < length (bcache s)" using binv_len [OF assms(1)] hb(1) by simp
  then show "bcache t ! i = bcache s ! i" if "i \<noteq> b" for i using that by (simp add: t)
  show "hit bn (bcache t ! b)" "dirty (bcache t ! b)" using len y(2) assms(3) by (simp_all add: t hit_def)
qed

lemma log_write_spec:
  fixes s :: "'a fs_st_scheme"
  assumes inv: "binv s L" "in_tx s" and b: "b \<in> L" "hit bn (bcache s ! b)" "valid (bcache s ! b)"
    and room: "card (dirty_blocks s) < log_room s"
  shows "\<exists>t. log_write s b = Ret t \<and> binv t L \<and> view t = view s \<and> dirty_blocks t = insert bn (dirty_blocks s) \<and> env t = env s
    \<and> icache t = icache s \<and> in_tx t \<and> (\<forall>i. i \<noteq> b \<longrightarrow> bcache t ! i = bcache s ! i) \<and> hit bn (bcache t ! b) \<and> dirty (bcache t ! b)"
proof -
  let ?x = "bcache s ! b" and ?n = "unat (lh_n s)"
  define i where "i = find_logged (lh_block s) bn 0 ?n"
  have n: "?n < 30" "?n < unat (log_size s) - 1" using room in_tx_card [OF inv(2)] by (simp_all add: log_room_def)
  have sn: "sint (lh_n s) = int ?n" using n by (intro small_sint) simp
  have p: "0 < unat (log_size s)" "unat (log_size s) < 2 ^ 31" using inv(2) by (simp_all add: in_tx_def word_less_nat_alt)
  then have ls: "unat (log_size s - 1) = unat (log_size s) - 1" using unat_sub32 [of 1 "log_size s"] by (simp add: word_le_nat_alt)
  have sz: "sint (log_size s - 1) = int (unat (log_size s) - 1)" using p small_sint [of "log_size s - 1"] ls by simp
  have np: "\<not> of_nat 30 <=s lh_n s" "\<not> log_size s - 1 <=s lh_n s" "\<not> log_outstanding s <s 1"
    using n sn sz inv(2) by (simp_all add: word_sle_eq in_tx_def del: of_nat_unat)
  have tx: "length (lh_block s) = 30" "distinct (take ?n (lh_block s))" "set (take ?n (lh_block s)) = dirty_blocks s" using inv(2) by (simp_all add: in_tx_def)
  note hd = log_write_header [OF tx(1) n(1) tx(2), of bn, folded i_def]
  define s1 where "s1 = (if i = ?n then s\<lparr>lh_block := (lh_block s)[i := bn], lh_n := lh_n s + 1\<rparr> else s\<lparr>lh_block := (lh_block s)[i := bn]\<rparr>)"
  let ?t = "set_buf b (\<lambda>x. x\<lparr>b_flags := b_flags x OR 4\<rparr>) s1"
  have bno: "b_blockno ?x = bn" using b(2) by (simp add: hit_def)
  have w: "log_write s b = Ret ?t"
    using np bno sn by (simp add: log_write_def Let_def i_def s1_def del: of_nat_unat)
  have n1: "unat (lh_n s + 1) = ?n + 1" using n(1) unat_add32 [of "lh_n s" 1] by simp
  have s1: "bcache s1 = bcache s" "memdisk s1 = memdisk s" "icache s1 = icache s" "env s1 = env s" "lh_block s1 = (lh_block s)[i := bn]"
    "unat (lh_n s1) = (if i = ?n then Suc ?n else ?n)" "curpid s1 = curpid s" "cur_ok s1 = cur_ok s"
    using n1 by (simp_all add: s1_def env_def curpid_def cur_ok_def split: option.split)
  have inv1: "binv s1 L" "view s1 = view s" "dirty_blocks s1 = dirty_blocks s"
    using inv(1) unfolding binv_def view_def [abs_def] dirty_blocks_def s1 by blast+
  note md = mark_dirty_spec [OF inv1(1) b(1), unfolded s1(1), OF b(2,3)]
  have ts: "lh_block ?t = lh_block s1" "lh_n ?t = lh_n s1" "env ?t = env s1" "icache ?t = icache s1" by (simp_all add: set_buf_def env_def)
  have "in_tx ?t" using hd(3,4) inv(2) n(1) md(3) inv1(3) tx envD [OF s1(4)] envD [OF ts(3)] s1(5,6) ts(1,2) by (simp add: in_tx_def)
  then show ?thesis using w md inv1 s1 ts by (intro exI [of _ ?t]) simp
qed

lemma held_write:
  fixes s :: "'a fs_st_scheme"
  assumes inv: "binv s L" "in_tx s" and b: "b \<in> L" "hit bn (bcache s ! b)" "valid (bcache s ! b)"
    and room: "card (dirty_blocks s) < log_room s" and d: "length d = 512"
  shows "\<exists>u v. log_write (set_buf b (\<lambda>x. x\<lparr>b_data := d\<rparr>) s) b = Ret u \<and> brelse u b = Ret v \<and> wrote_block (L - {b}) bn d s v"
proof -
  let ?t = "set_buf b (\<lambda>x. x\<lparr>b_data := d\<rparr>) s"
  note sd = set_data_spec [OF inv(1) b d]
  have len: "b < length (bcache s)" using binv_held(1) [OF inv(1) b(1)] binv_len [OF inv(1)] by simp
  have tb: "hit bn (bcache ?t ! b)" "valid (bcache ?t ! b)" "\<And>i. i \<noteq> b \<Longrightarrow> bcache ?t ! i = bcache s ! i"
    using b(2,3) len unfolding sd(4) by (simp_all add: hit_def valid_def)
  have te: "env ?t = env s" "icache ?t = icache s" "in_tx ?t" "log_room ?t = log_room s"
    using inv(2) sd(3) by (simp_all add: env_def in_tx_def log_room_def set_buf_def)
  obtain u where u: "log_write ?t b = Ret u" "binv u L" "view u = view ?t" "dirty_blocks u = insert bn (dirty_blocks ?t)" "env u = env ?t"
    "icache u = icache ?t" "in_tx u" "\<And>i. i \<noteq> b \<Longrightarrow> bcache u ! i = bcache ?t ! i" "dirty (bcache u ! b)"
    using log_write_spec [OF sd(1) te(3) b(1) tb(1,2)] room sd(3) te(4) by metis
  from brelse_spec [OF u(2) b(1) disjI1 [OF u(9)]] obtain p c where
    v: "brelse u b = Ret (u\<lparr>ptable := p, bcache := c\<rparr>)" "binv (u\<lparr>ptable := p, bcache := c\<rparr>) (L - {b})"
      "view (u\<lparr>ptable := p, bcache := c\<rparr>) = view u" "dirty_blocks (u\<lparr>ptable := p, bcache := c\<rparr>) = dirty_blocks u"
      "\<And>i. core (c ! i) = core (bcache u ! i)" by (auto simp: Let_def)
  let ?v = "u\<lparr>ptable := p, bcache := c\<rparr>"
  have "in_tx ?v" "env ?v = env u" "icache ?v = icache u" using u(7) v(4) by (simp_all add: in_tx_def env_def)
  moreover have "core (bcache ?v ! i) = core (bcache s ! i)" if "i \<in> L - {b}" for i using v(5) [of i] u(8) [of i] tb(3) [of i] that by simp
  ultimately have "wrote_block (L - {b}) bn d s ?v"
    using v(2-4) u(3-6) sd(2,3) te(1,2) unfolding wrote_block_def by simp
  then show ?thesis using u(1) v(1) by blast
qed

lemma update_block:
  fixes s :: "'a fs_st_scheme"
  assumes "binv s L" "in_tx s" "can_read L s bn" "card (dirty_blocks s) < log_room s" "length d = 512"
  shows "\<exists>b t u v. bread s 1 bn = Ret (b, t) \<and> b < length (bcache t) \<and> b_data (bcache t ! b) = view s bn \<and> icache t = icache s \<and> sb t = sb s
    \<and> log_write (set_buf b (\<lambda>x. x\<lparr>b_data := d\<rparr>) t) b = Ret u \<and> brelse u b = Ret v \<and> wrote_block L bn d s v"
proof -
  obtain b t where r: "bread s 1 bn = Ret (b, t)" "did_read s L bn b t" "icache t = icache s" "env t = env s" "lh_n t = lh_n s" "lh_block t = lh_block s"
    using bread_brelse [OF assms(1,3)] by blast
  have t: "b < 30" "b \<notin> L" "binv t (insert b L)" "hit bn (bcache t ! b)" "valid (bcache t ! b)" "b_data (bcache t ! b) = view s bn" "view t = view s"
    "dirty_blocks t = dirty_blocks s" "\<And>i. i \<noteq> b \<Longrightarrow> bcache t ! i = bcache s ! i" using r(2) by (simp_all add: did_read_def)
  have "in_tx t" "log_room t = log_room s" using assms(2) r(4-6) t(8) by (simp_all add: in_tx_def log_room_def env_def)
  then obtain u v where u: "log_write (set_buf b (\<lambda>x. x\<lparr>b_data := d\<rparr>) t) b = Ret u" "brelse u b = Ret v" "wrote_block (insert b L - {b}) bn d t v"
    using held_write [OF t(3) _ insertI1 t(4,5) _ assms(5)] assms(4) t(8) by metis
  have "insert b L - {b} = L" using t(2) by simp
  then have "wrote_block L bn d s v" using u(3) t(7-9) r(3,4) t(2) unfolding wrote_block_def by (metis (no_types, lifting))
  moreover have "b < length (bcache t)" using t(1) binv_len [OF t(3)] by simp
  moreover have "sb t = sb s" using r(4) by (simp add: env_def)
  ultimately show ?thesis using r(1,3) t(6) u(1,2) by blast
qed

lemma set_buf_cong: "b < length (bcache s) \<Longrightarrow> F (bcache s ! b) = G (bcache s ! b) \<Longrightarrow> set_buf b F s = set_buf b G s"
  by (simp add: set_buf_def upd_buf_def)

section \<open>Allocating a block\<close>

definition used :: "u8 list \<Rightarrow> nat \<Rightarrow> bool" where
  "used bm b \<longleftrightarrow> bm ! (b div 8) AND push_bit (b mod 8) 1 \<noteq> 0"

lemma used_bit: "used bm b \<longleftrightarrow> bit (bm ! (b div 8)) (b mod 8)"
  by (simp add: used_def and_exp_eq_0_iff_not_bit push_bit_of_1)

lemma length_set_bit [simp]: "length (set_bit_at b bm) = length bm"
  by (simp add: set_bit_at_def)

lemma used_set:
  assumes "length bm = 512" "b < 4096"
  shows "used (set_bit_at b bm) c \<longleftrightarrow> c = b \<or> used bm c"
proof (cases "c div 8 = b div 8")
  case True
  have "bit (push_bit (b mod 8) 1 :: u8) (c mod 8) \<longleftrightarrow> c mod 8 = b mod 8" by (auto simp: push_bit_of_1 bit_simps)
  moreover have "c mod 8 = b mod 8 \<longleftrightarrow> c = b" using True by (metis div_mult_mod_eq)
  ultimately show ?thesis using True assms by (auto simp: used_bit set_bit_at_def bit_simps)
next
  case False
  then show ?thesis by (auto simp: used_bit set_bit_at_def)
qed

lemma find_free_bit_spec:
  assumes "i + n \<le> 4096" "\<exists>b. i \<le> b \<and> b < i + n \<and> b < unat nb \<and> \<not> used bm b"
  shows "\<exists>b. find_free_bit bm 0 nb i n = Some b \<and> b < unat nb \<and> \<not> used bm b"
  using assms
proof (induction n arbitrary: i)
  case (Suc n)
  have "unat (of_nat i :: u32) = i" using Suc.prems(1) by (simp add: unat_of_nat)
  then have l: "(of_nat i < nb) = (i < unat nb)" by (simp add: word_less_nat_alt)
  from Suc.prems(2) obtain b where b: "i \<le> b" "b < i + Suc n" "b < unat nb" "\<not> used bm b" by blast
  show ?case
  proof (cases "used bm i")
    case True
    then have "Suc i \<le> b" using b(1,4) by (metis Suc_leI le_neq_implies_less)
    then show ?thesis using Suc.IH [of "Suc i"] Suc.prems(1) b l True by (auto simp: used_def)
  next
    case False
    then show ?thesis using b l by (auto simp: used_def)
  qed
qed auto

definition bitmap :: "'a fs_st_scheme \<Rightarrow> u8 list" where
  "bitmap s = view s (sb_bmapstart (sb s))"

definition in_use :: "'a fs_st_scheme \<Rightarrow> u32 \<Rightarrow> bool" where
  "in_use s a \<longleftrightarrow> a < sb_size (sb s) \<and> used (bitmap s) (unat a)"

definition free_blocks :: "'a fs_st_scheme \<Rightarrow> u32 set" where
  "free_blocks s = {a. a < sb_size (sb s) \<and> \<not> used (bitmap s) (unat a)}"

definition disk_ok :: "'a fs_st_scheme \<Rightarrow> bool" where
  "disk_ok s \<longleftrightarrow> unat (sb_size (sb s)) \<le> 4096 \<and> sb_size (sb s) \<le> disksize s \<and> in_use s 0 \<and> in_use s (sb_bmapstart (sb s)) \<and> sb_bmapstart (sb s) \<noteq> 0"

definition allocated :: "nat set \<Rightarrow> u32 \<Rightarrow> 'a fs_st_scheme \<Rightarrow> 'a fs_st_scheme \<Rightarrow> bool" where
  "allocated L a s t \<longleftrightarrow> a \<in> free_blocks s \<and> binv t L
     \<and> view t = (view s)(sb_bmapstart (sb s) := set_bit_at (unat a) (bitmap s), a := replicate 512 0)
     \<and> dirty_blocks t = insert a (insert (sb_bmapstart (sb s)) (dirty_blocks s)) \<and> env t = env s \<and> icache t = icache s \<and> in_tx t
     \<and> (\<forall>i \<in> L. core (bcache t ! i) = core (bcache s ! i))"

lemma core_hit: "core x = core y \<Longrightarrow> hit bn x = hit bn y"
  by (simp add: core_def hit_def)

lemma finite_dirty: "finite (dirty_blocks s)"
  by simp

lemma bzero_spec:
  fixes s :: "'a fs_st_scheme"
  assumes "binv s L" "in_tx s" "can_read L s bn" "card (dirty_blocks s) < log_room s"
  shows "\<exists>t. bzero s 1 bn = Ret t \<and> wrote_block L bn (replicate 512 0) s t"
  using update_block [OF assms, of "replicate 512 0"] by (auto simp: bzero_def)

lemma balloc_spec:
  fixes s :: "'a fs_st_scheme"
  defines "B \<equiv> sb_bmapstart (sb s)"
  assumes inv: "binv s L" "in_tx s" "disk_ok s" and free: "free_blocks s \<noteq> {}"
    and room: "card L + card (insert B (dirty_blocks s)) < log_room s"
    and held: "\<And>i bn. i \<in> L \<Longrightarrow> hit bn (bcache s ! i) \<Longrightarrow> in_use s bn \<and> bn \<noteq> B"
  shows "\<exists>a t. balloc s 1 = Ret (a, t) \<and> allocated L a s t"
proof -
  have sz: "unat (sb_size (sb s)) \<le> 4096" "sb_size (sb s) \<le> disksize s" "in_use s B" "0 < unat (sb_size (sb s))"
    using inv(3) by (auto simp: disk_ok_def B_def in_use_def word_less_nat_alt)
  have BB: "BBLOCK (of_nat 0) (sb s) = B" by (simp add: BBLOCK_def B_def)
  obtain c where c: "c < sb_size (sb s)" "\<not> used (bitmap s) (unat c)" using free by (auto simp: free_blocks_def)
  then have "\<exists>b. 0 \<le> b \<and> b < 0 + 4096 \<and> b < unat (sb_size (sb s)) \<and> \<not> used (bitmap s) b"
    using sz(1) by (intro exI [of _ "unat c"]) (simp add: word_less_nat_alt)
  from find_free_bit_spec [OF _ this] obtain n where n: "find_free_bit (bitmap s) 0 (sb_size (sb s)) 0 4096 = Some n" "n < unat (sb_size (sb s))" "\<not> used (bitmap s) n"
    by auto
  let ?a = "of_nat n :: u32"
  have ua: "unat ?a = n" using n(2) sz(1) by (simp add: unat_of_nat)
  then have a: "?a < sb_size (sb s)" using n(2) by (simp add: word_less_nat_alt)
  then have fa: "?a \<in> free_blocks s" using n(3) ua by (simp add: free_blocks_def)
  have le: "card (dirty_blocks s) \<le> card (insert B (dirty_blocks s))" by (intro card_mono) auto
  have lr: "log_room s \<le> 30" by (rule log_room_le)
  have cr: "can_read L s B" using sz(2,3) room le lr held by (force simp: can_read_def in_use_def)
  have bl: "length (bitmap s) = 512" using length_view [OF inv(1)] by (simp add: bitmap_def)
  obtain b t u v where u: "bread s 1 B = Ret (b, t)" "b < length (bcache t)" "b_data (bcache t ! b) = bitmap s" "icache t = icache s" "sb t = sb s"
      "log_write (set_buf b (\<lambda>x. x\<lparr>b_data := set_bit_at n (bitmap s)\<rparr>) t) b = Ret u" "brelse u b = Ret v" "wrote_block L B (set_bit_at n (bitmap s)) s v"
    using update_block [OF inv(1,2) cr, of "set_bit_at n (bitmap s)"] room le bl by (auto simp: bitmap_def B_def)
  have v: "binv v L" "in_tx v" "env v = env s" "dirty_blocks v = insert B (dirty_blocks s)" "view v = (view s)(B := set_bit_at n (bitmap s))" "icache v = icache s"
    "\<And>i. i \<in> L \<Longrightarrow> core (bcache v ! i) = core (bcache s ! i)" using u(8) by (simp_all add: wrote_block_def)
  have cd: "card (dirty_blocks v) < log_room v" using room v(3,4) by (simp add: log_room_def env_def)
  have "\<not> hit ?a (bcache v ! i)" if i: "i \<in> L" for i
    using held [OF i, of ?a] core_hit [OF v(7) [OF i], of ?a] fa by (auto simp: in_use_def free_blocks_def)
  moreover have "?a < disksize v" using a sz(2) envD [OF v(3)] by simp
  moreover have "card L + card (dirty_blocks v) < 30" using room v(4) lr by simp
  ultimately have "can_read L v ?a" by (simp add: can_read_def)
  from bzero_spec [OF v(1,2) this cd] obtain w where w: "bzero v 1 ?a = Ret w" "wrote_block L ?a (replicate 512 0) v w" by blast
  have st: "set_buf b (\<lambda>x. x\<lparr>b_data := set_bit_at n (b_data x)\<rparr>) t = set_buf b (\<lambda>x. x\<lparr>b_data := set_bit_at n (bitmap s)\<rparr>) t"
    using u(2,3) by (intro set_buf_cong) simp_all
  have "(unat (sb_size (sb s)) + 4095) div 4096 = Suc 0" using sz(1,4) by linarith
  then have "balloc s 1 = balloc_loop s 1 0 (Suc 0)" by (simp add: balloc_def)
  also have "\<dots> = Ret (?a, w)" using u(1,3,5-7) n(1) w(1) st BB by simp
  finally have "balloc s 1 = Ret (?a, w)" .
  moreover have "allocated L ?a s w"
    using w(2) v fa ua unfolding allocated_def wrote_block_def B_def by simp
  ultimately show ?thesis by blast
qed

section \<open>The blocks of a file\<close>

text \<open>The block addresses of a file by position: its blocks, and at 140 the block of indirect addresses.\<close>

definition slot :: "(u32 \<Rightarrow> u8 list) \<Rightarrow> u32 list \<Rightarrow> nat \<Rightarrow> u32" where
  "slot v as k = (if k = 140 then as ! 12 else blk v as k)"

definition wf_slots :: "'a fs_st_scheme \<Rightarrow> (nat \<Rightarrow> u32) \<Rightarrow> bool" where
  "wf_slots s f \<longleftrightarrow> (\<forall>k \<le> 140. f k \<noteq> 0 \<longrightarrow> in_use s (f k) \<and> f k \<noteq> sb_bmapstart (sb s))
     \<and> (\<forall>j \<le> 140. \<forall>k \<le> 140. f j \<noteq> 0 \<longrightarrow> f j = f k \<longrightarrow> j = k)"

lemma wf_slotD: "wf_slots s f \<Longrightarrow> k \<le> 140 \<Longrightarrow> f k \<noteq> 0 \<Longrightarrow> in_use s (f k) \<and> f k \<noteq> sb_bmapstart (sb s)"
  by (simp add: wf_slots_def)

lemma wf_slot_inj: "wf_slots s f \<Longrightarrow> j \<le> 140 \<Longrightarrow> k \<le> 140 \<Longrightarrow> f j \<noteq> 0 \<Longrightarrow> f j = f k \<Longrightarrow> j = k"
  by (simp add: wf_slots_def)

lemma free_ne: "a \<in> free_blocks s \<Longrightarrow> in_use s c \<Longrightarrow> c \<noteq> a"
  by (auto simp: free_blocks_def in_use_def)

lemma allocated_facts:
  assumes "allocated L a s t" "disk_ok s" "binv s L"
  shows "bitmap t = set_bit_at (unat a) (bitmap s)" "in_use t c \<longleftrightarrow> c = a \<or> in_use s c" "free_blocks t = free_blocks s - {a}"
    "disk_ok t" "a \<noteq> 0" "a \<noteq> sb_bmapstart (sb s)" "view t a = replicate 512 0" "in_use s c \<Longrightarrow> c \<noteq> sb_bmapstart (sb s) \<Longrightarrow> view t c = view s c"
proof -
  let ?B = "sb_bmapstart (sb s)"
  have al: "a \<in> free_blocks s" "view t = (view s)(?B := set_bit_at (unat a) (bitmap s), a := replicate 512 0)" "sb t = sb s" "disksize t = disksize s"
    using assms(1) envD [of t s] by (simp_all add: allocated_def)
  have d: "in_use s 0" "in_use s ?B" "unat (sb_size (sb s)) \<le> 4096" using assms(2) by (simp_all add: disk_ok_def)
  show ne: "a \<noteq> 0" "a \<noteq> ?B" using free_ne [OF al(1)] d by blast+
  then show bm: "bitmap t = set_bit_at (unat a) (bitmap s)" using al by (simp add: bitmap_def)
  have a: "a < sb_size (sb s)" "unat a < 4096" using al(1) d(3) by (auto simp: free_blocks_def word_less_nat_alt)
  have "length (bitmap s) = 512" using length_view [OF assms(3)] by (simp add: bitmap_def)
  then have us: "used (bitmap t) (unat c) \<longleftrightarrow> c = a \<or> used (bitmap s) (unat c)" for c
    using used_set [of "bitmap s" "unat a" "unat c"] a(2) bm by (auto simp: word_unat_eq_iff)
  show iu: "in_use t c \<longleftrightarrow> c = a \<or> in_use s c" for c using us a(1) al(3) by (auto simp: in_use_def)
  show "free_blocks t = free_blocks s - {a}" using us al(3) by (auto simp: free_blocks_def)
  show "disk_ok t" using assms(2) iu al(3,4) by (simp add: disk_ok_def)
  show "view t a = replicate 512 0" using al(2) by simp
  show "view t c = view s c" if "in_use s c" "c \<noteq> ?B" using al(2) that free_ne [OF al(1) that(1)] by simp
qed

lemma wf_slots_alloc:
  assumes "allocated L a s t" "disk_ok s" "binv s L" "wf_slots s f" "f k = 0"
  shows "wf_slots t (f(k := a))"
proof -
  note af = allocated_facts [OF assms(1-3)]
  have sb: "sb t = sb s" using assms(1) envD [of t s] by (simp add: allocated_def)
  have fr: "a \<in> free_blocks s" using assms(1) by (simp add: allocated_def)
  have old: "f j \<noteq> a" if "j \<le> 140" for j
  proof (cases "f j = 0")
    case True
    then show ?thesis using af(5) by simp
  next
    case False
    then have "in_use s (f j)" using assms(4) that by (simp add: wf_slots_def)
    then show ?thesis using free_ne [OF fr] by blast
  qed
  have "in_use t ((f(k := a)) j) \<and> (f(k := a)) j \<noteq> sb_bmapstart (sb t)" if "j \<le> 140" "(f(k := a)) j \<noteq> 0" for j
    using assms(4) that af(2,6) sb by (auto simp: wf_slots_def)
  moreover have "i = j" if "i \<le> 140" "j \<le> 140" "(f(k := a)) i \<noteq> 0" "(f(k := a)) i = (f(k := a)) j" for i j
    using assms(4) that old [of i] old [of j] unfolding wf_slots_def by (auto split: if_splits)
  ultimately show ?thesis unfolding wf_slots_def by blast
qed

lemma wf_slots_cong:
  assumes "wf_slots s f" "\<And>k. k \<le> 140 \<Longrightarrow> g k = f k" "sb t = sb s" "bitmap t = bitmap s"
  shows "wf_slots t g"
  using assms unfolding wf_slots_def in_use_def by simp

text \<open>The three ways an address is filled in.\<close>

lemma slot_direct:
  assumes "k < 12" "length as = 13" "v' (as ! 12) = v (as ! 12)"
  shows "slot v' (as[k := a]) j = ((slot v as)(k := a)) j"
  using assms by (simp add: slot_def blk_def)

lemma get32_zeros: "k + 4 \<le> n \<Longrightarrow> get32 (replicate n 0) k = 0"
  by (simp add: get32_def)

lemma slot_indirect:
  assumes "length as = 13" "as ! 12 = 0" "v' a = replicate 512 0" "j \<le> 140" "a \<noteq> 0"
  shows "slot v' (as[12 := a]) j = ((slot v as)(140 := a)) j"
  using assms get32_zeros [of "4 * (j - 12)" 512] by (simp add: slot_def blk_def)

lemma slot_entry:
  assumes "12 \<le> k" "k < 140" "as ! 12 \<noteq> 0" "length (v (as ! 12)) = 512" "v' (as ! 12) = put32 (v (as ! 12)) (4 * (k - 12)) a" "j \<le> 140"
  shows "slot v' as j = ((slot v as)(k := a)) j"
proof (cases "j = k \<or> j < 12 \<or> j = 140")
  case True
  then show ?thesis using assms by (auto simp: slot_def blk_def)
next
  case False
  then have "4 * (j - 12) + 4 \<le> 4 * (k - 12) \<or> 4 * (k - 12) + 4 \<le> 4 * (j - 12)" using assms(1,6) by linarith
  then show ?thesis using False assms get32_put32_other by (auto simp: slot_def blk_def)
qed

section \<open>Finding or allocating a block of a file\<close>

lemma icache_upd [simp]:
  "view (s\<lparr>icache := c\<rparr>) = view s" "dirty_blocks (s\<lparr>icache := c\<rparr>) = dirty_blocks s" "binv (s\<lparr>icache := c\<rparr>) L = binv s L"
  "in_tx (s\<lparr>icache := c\<rparr>) = in_tx s" "env (s\<lparr>icache := c\<rparr>) = env s" "bitmap (s\<lparr>icache := c\<rparr>) = bitmap s"
  "in_use (s\<lparr>icache := c\<rparr>) = in_use s" "free_blocks (s\<lparr>icache := c\<rparr>) = free_blocks s" "disk_ok (s\<lparr>icache := c\<rparr>) = disk_ok s"
  "wf_slots (s\<lparr>icache := c\<rparr>) = wf_slots s"
proof -
  show v: "view (s\<lparr>icache := c\<rparr>) = view s" by (rule ext) (simp add: view_def split: option.split)
  show d: "dirty_blocks (s\<lparr>icache := c\<rparr>) = dirty_blocks s" by (simp add: dirty_blocks_def)
  have "curpid (s\<lparr>icache := c\<rparr>) = curpid s" "cur_ok (s\<lparr>icache := c\<rparr>) = cur_ok s" by (simp_all add: curpid_def cur_ok_def split: option.split)
  then show "binv (s\<lparr>icache := c\<rparr>) L = binv s L" by (simp add: binv_def)
  show "in_tx (s\<lparr>icache := c\<rparr>) = in_tx s" using d by (simp add: in_tx_def)
  show "env (s\<lparr>icache := c\<rparr>) = env s" by (simp add: env_def)
  show b: "bitmap (s\<lparr>icache := c\<rparr>) = bitmap s" using v by (simp add: bitmap_def)
  show i: "in_use (s\<lparr>icache := c\<rparr>) = in_use s" using b by (intro ext) (simp add: in_use_def)
  show "free_blocks (s\<lparr>icache := c\<rparr>) = free_blocks s" using b by (simp add: free_blocks_def)
  show "disk_ok (s\<lparr>icache := c\<rparr>) = disk_ok s" using i by (simp add: disk_ok_def)
  show "wf_slots (s\<lparr>icache := c\<rparr>) = wf_slots s" using i by (intro ext) (simp add: wf_slots_def)
qed

definition addrs :: "'a fs_st_scheme \<Rightarrow> nat \<Rightarrow> u32 list" where
  "addrs s ip = i_addrs (icache s ! ip)"

definition slots :: "'a fs_st_scheme \<Rightarrow> nat \<Rightarrow> nat \<Rightarrow> u32" where
  "slots s ip = slot (view s) (addrs s ip)"

definition file_st :: "'a fs_st_scheme \<Rightarrow> nat \<Rightarrow> bool" where
  "file_st s ip \<longleftrightarrow> binv s {} \<and> in_tx s \<and> disk_ok s \<and> ip < length (icache s) \<and> i_dev (icache s ! ip) = 1
     \<and> length (addrs s ip) = 13 \<and> wf_slots s (slots s ip)"

text \<open>
  What finding or allocating a block does: blocks \<open>D\<close> and the bitmap may become dirty, at most \<open>n\<close> free blocks are taken, and no
  block in use but the bitmap and the indirect block of the file changes.
\<close>

definition grew :: "nat \<Rightarrow> u32 set \<Rightarrow> nat \<Rightarrow> 'a fs_st_scheme \<Rightarrow> 'a fs_st_scheme \<Rightarrow> bool" where
  "grew ip D n s t \<longleftrightarrow> file_st t ip \<and> env t = env s \<and> (\<exists>as. icache t = (icache s)[ip := (icache s ! ip)\<lparr>i_addrs := as\<rparr>])
     \<and> (\<forall>k \<le> 140. slots s ip k \<noteq> 0 \<longrightarrow> slots t ip k = slots s ip k)
     \<and> (\<forall>k \<le> 140. slots s ip k = 0 \<longrightarrow> in_use s (slots t ip k) \<longrightarrow> slots t ip k = 0)
     \<and> (\<forall>c. in_use s c \<longrightarrow> in_use t c)
     \<and> (\<forall>c. in_use s c \<longrightarrow> c \<noteq> sb_bmapstart (sb s) \<longrightarrow> (c = slots t ip 140 \<longrightarrow> c = 0) \<longrightarrow> view t c = view s c)
     \<and> dirty_blocks t \<subseteq> insert (sb_bmapstart (sb s)) (dirty_blocks s) \<union> D \<and> card (free_blocks s) \<le> card (free_blocks t) + n"

lemma grew_slots: "grew ip D n s t \<Longrightarrow> k \<le> 140 \<Longrightarrow> slots s ip k \<noteq> 0 \<Longrightarrow> slots t ip k = slots s ip k"
  by (simp add: grew_def)

lemma grew_fresh: "grew ip D n s t \<Longrightarrow> k \<le> 140 \<Longrightarrow> slots s ip k = 0 \<Longrightarrow> in_use s (slots t ip k) \<Longrightarrow> slots t ip k = 0"
  by (simp add: grew_def)

lemma grew_view: "grew ip D n s t \<Longrightarrow> in_use s c \<Longrightarrow> c \<noteq> sb_bmapstart (sb s) \<Longrightarrow> (c = slots t ip 140 \<longrightarrow> c = 0) \<Longrightarrow> view t c = view s c"
  by (simp add: grew_def)

lemma grew_trans:
  assumes "file_st s ip" "grew ip D1 n1 s t" "grew ip D2 n2 t u"
  shows "grew ip (D1 \<union> D2) (n1 + n2) s u"
proof -
  have e: "env t = env s" "env u = env t" "file_st u ip" "\<And>c. in_use s c \<Longrightarrow> in_use t c" "\<And>c. in_use t c \<Longrightarrow> in_use u c"
    "dirty_blocks t \<subseteq> insert (sb_bmapstart (sb s)) (dirty_blocks s) \<union> D1" "dirty_blocks u \<subseteq> insert (sb_bmapstart (sb t)) (dirty_blocks t) \<union> D2"
    "card (free_blocks s) \<le> card (free_blocks t) + n1" "card (free_blocks t) \<le> card (free_blocks u) + n2"
    using assms(2,3) by (simp_all add: grew_def)
  have sb: "sb t = sb s" using envD [OF e(1)] by simp
  have ip: "ip < length (icache s)" using assms(1) by (simp add: file_st_def)
  obtain a1 a2 where "icache t = (icache s)[ip := (icache s ! ip)\<lparr>i_addrs := a1\<rparr>]" "icache u = (icache t)[ip := (icache t ! ip)\<lparr>i_addrs := a2\<rparr>]"
    using assms(2,3) unfolding grew_def by blast
  then have "icache u = (icache s)[ip := (icache s ! ip)\<lparr>i_addrs := a2\<rparr>]" using ip by simp
  then have ic: "\<exists>as. icache u = (icache s)[ip := (icache s ! ip)\<lparr>i_addrs := as\<rparr>]" by blast
  have sl: "slots u ip k = slots s ip k" if "k \<le> 140" "slots s ip k \<noteq> 0" for k
    using grew_slots [OF assms(2) that] grew_slots [OF assms(3) that(1)] that(2) by simp
  have fr: "slots u ip k = 0" if "k \<le> 140" "slots s ip k = 0" "in_use s (slots u ip k)" for k
    using grew_fresh [OF assms(2) that(1,2)] grew_fresh [OF assms(3) that(1)] grew_slots [OF assms(3) that(1)] e(4) that(3)
    by (cases "slots t ip k = 0") simp_all
  have vi: "view u c = view s c" if c: "in_use s c" "c \<noteq> sb_bmapstart (sb s)" "c = slots u ip 140 \<longrightarrow> c = 0" for c
  proof -
    have "c = slots t ip 140 \<longrightarrow> c = 0" using c(3) grew_slots [OF assms(3) order_refl] by metis
    then show ?thesis using grew_view [OF assms(2) c(1,2)] grew_view [OF assms(3) e(4) [OF c(1)]] c(2,3) sb by simp
  qed
  have di: "dirty_blocks u \<subseteq> insert (sb_bmapstart (sb s)) (dirty_blocks s) \<union> (D1 \<union> D2)" using e(6,7) sb by auto
  show ?thesis unfolding grew_def using e ic sl fr vi di by auto
qed

lemma grew_same:
  assumes "file_st s ip" "same {} s t"
  shows "grew ip {} 0 s t"
proof -
  have t: "binv t {}" "view t = view s" "dirty_blocks t = dirty_blocks s" "env t = env s" "icache t = icache s" "lh_n t = lh_n s" "lh_block t = lh_block s"
    using assms(2) by (simp_all add: same_def)
  note e = envD [OF t(4)]
  have b: "bitmap t = bitmap s" using t(2) e by (simp add: bitmap_def)
  have u: "in_use t = in_use s" "free_blocks t = free_blocks s" using b e by (auto simp: in_use_def free_blocks_def)
  have "slots t ip = slots s ip" using t(2,5) by (simp add: slots_def addrs_def)
  moreover have "file_st t ip" using assms(1) t e u unfolding file_st_def slots_def addrs_def in_tx_def disk_ok_def wf_slots_def by simp
  moreover have "\<exists>as. icache s = (icache s)[ip := (icache s ! ip)\<lparr>i_addrs := as\<rparr>]"
    by (rule exI [of _ "i_addrs (icache s ! ip)"]) simp
  ultimately show ?thesis using t u unfolding grew_def by auto
qed

lemma grew_alloc:
  assumes "file_st s ip" "allocated {} a s t" "slots s ip k = 0" "length as = 13" "\<And>j. j \<le> 140 \<Longrightarrow> slot (view t) as j = ((slots s ip)(k := a)) j"
  defines "u \<equiv> set_inode ip (\<lambda>x. x\<lparr>i_addrs := as\<rparr>) t"
  shows "grew ip {a} 1 s u" "addrs u ip = as"
proof -
  have s: "binv s {}" "disk_ok s" "ip < length (icache s)" "wf_slots s (slots s ip)" "i_dev (icache s ! ip) = 1" using assms(1) by (simp_all add: file_st_def)
  note af = allocated_facts [OF assms(2) s(2,1)]
  have t: "binv t {}" "in_tx t" "env t = env s" "icache t = icache s" "dirty_blocks t = insert a (insert (sb_bmapstart (sb s)) (dirty_blocks s))" "a \<in> free_blocks s"
    using assms(2) by (simp_all add: allocated_def)
  have sb: "sb t = sb s" using envD [OF t(3)] by simp
  have u: "u = t\<lparr>icache := (icache s)[ip := (icache s ! ip)\<lparr>i_addrs := as\<rparr>]\<rparr>" using t(4) by (simp add: u_def set_inode_def)
  show ad: "addrs u ip = as" using s(3) by (simp add: u addrs_def)
  have sl: "slots u ip j = ((slots s ip)(k := a)) j" if "j \<le> 140" for j using assms(5) [OF that] ad by (simp add: slots_def u)
  have "wf_slots u (slots u ip)" using wf_slots_cong [OF wf_slots_alloc [OF assms(2) s(2,1,4) assms(3)] sl, of u] sb by (simp add: u)
  then have "file_st u ip" using t(1,2) af(4) s(3,5) ad assms(4) unfolding file_st_def by (simp add: u)
  moreover have "slots u ip j = slots s ip j" if "j \<le> 140" "slots s ip j \<noteq> 0" for j using sl [OF that(1)] that assms(3) by auto
  moreover have "slots u ip j = 0" if "j \<le> 140" "slots s ip j = 0" "in_use s (slots u ip j)" for j
    using sl [OF that(1)] that(2,3) free_ne [OF t(6)] by (auto split: if_splits)
  moreover have "card (free_blocks s) \<le> card (free_blocks u) + 1" using t(6) af(3) by (simp add: u card_Diff_singleton)
  ultimately show "grew ip {a} 1 s u" using t(3,5) af(2,8) unfolding grew_def by (auto simp: u)
qed

definition budget :: "'a fs_st_scheme \<Rightarrow> nat \<Rightarrow> bool" where
  "budget s k \<longleftrightarrow> card (insert (sb_bmapstart (sb s)) (dirty_blocks s)) + k \<le> log_room s"

lemma budget_dirty: "budget s k \<Longrightarrow> card (dirty_blocks s) + k \<le> log_room s"
  using card_mono [OF _ subset_insertI [of "dirty_blocks s" "sb_bmapstart (sb s)"]] by (simp add: budget_def)

lemma grew_budget:
  assumes "grew ip D n s t" "budget s (card D + k)" "finite D"
  shows "budget t k"
proof -
  have e: "sb t = sb s" "log_room t = log_room s" using assms(1) envD [of t s] by (simp_all add: grew_def log_room_def)
  have "insert (sb_bmapstart (sb s)) (dirty_blocks t) \<subseteq> insert (sb_bmapstart (sb s)) (dirty_blocks s) \<union> D" using assms(1) by (auto simp: grew_def)
  then have "card (insert (sb_bmapstart (sb s)) (dirty_blocks t)) \<le> card (insert (sb_bmapstart (sb s)) (dirty_blocks s) \<union> D)"
    by (intro card_mono) (use assms(3) in simp_all)
  also have "\<dots> \<le> card (insert (sb_bmapstart (sb s)) (dirty_blocks s)) + card D" by (rule card_Un_le)
  finally show ?thesis using assms(2) e by (simp add: budget_def)
qed

lemma bmap_direct:
  fixes s :: "'a fs_st_scheme"
  assumes s: "file_st s ip" and bn: "unat bn < 12" and b: "budget s 1" and f: "free_blocks s \<noteq> {}"
  shows "\<exists>t. bmap s ip bn = Ret (slots t ip (unat bn), t) \<and> slots t ip (unat bn) \<noteq> 0 \<and> grew ip {slots t ip (unat bn)} 1 s t
    \<and> (slots s ip (unat bn) \<noteq> 0 \<longrightarrow> t = s)"
proof -
  let ?k = "unat bn"
  have st: "binv s {}" "in_tx s" "disk_ok s" "ip < length (icache s)" "i_dev (icache s ! ip) = 1" "length (addrs s ip) = 13" "wf_slots s (slots s ip)"
    using s by (simp_all add: file_st_def)
  have lt: "bn < 12" using bn by (simp add: word_less_nat_alt)
  have sk: "slots s ip ?k = addrs s ip ! ?k" using bn by (simp add: slots_def slot_def blk_def)
  show ?thesis
  proof (cases "slots s ip ?k = 0")
    case False
    then have "bmap s ip bn = Ret (slots s ip ?k, s)" using lt sk by (simp add: bmap_def addrs_def)
    moreover have "grew ip {slots s ip ?k} 1 s s" using grew_same [OF s same_refl [OF st(1)]] by (auto simp: grew_def)
    ultimately show ?thesis using False by blast
  next
    case True
    obtain a t where a: "balloc s 1 = Ret (a, t)" "allocated {} a s t"
      using balloc_spec [OF st(1-3) f] b by (auto simp: budget_def)
    note af = allocated_facts [OF a(2) st(3,1)]
    let ?u = "set_inode ip (\<lambda>x. x\<lparr>i_addrs := (addrs s ip)[?k := a]\<rparr>) t"
    have "icache t = icache s" using a(2) by (simp add: allocated_def)
    then have "set_inode ip (\<lambda>x. x\<lparr>i_addrs := (i_addrs x)[?k := a]\<rparr>) t = ?u" by (simp add: set_inode_def addrs_def)
    then have r: "bmap s ip bn = Ret (a, ?u)" using lt sk True a(1) st(5) by (simp add: bmap_def addrs_def)
    have "view t (addrs s ip ! 12) = view s (addrs s ip ! 12)"
    proof (cases "addrs s ip ! 12 = 0")
      case True
      then show ?thesis using af(8) st(3) by (simp add: disk_ok_def)
    next
      case False
      then show ?thesis using af(8) wf_slotD [OF st(7), of 140] by (simp add: slots_def slot_def)
    qed
    then have sl: "slot (view t) ((addrs s ip)[?k := a]) j = ((slots s ip)(?k := a)) j" for j
      using slot_direct [OF bn st(6)] by (simp add: slots_def)
    note g = grew_alloc [OF s a(2) True _ sl] 
    have "slots ?u ip ?k = a" using g(2) sl [of ?k] st(6) by (simp add: slots_def set_inode_def)
    then show ?thesis using r g(1) st(6) af(5) True by auto
  qed
qed

lemma ensure_indirect:
  fixes s :: "'a fs_st_scheme"
  assumes s: "file_st s ip" and b: "budget s 1" and f: "free_blocks s \<noteq> {}"
  shows "\<exists>t. (if i_addrs (icache s ! ip) ! 12 = 0
      then bind_res (balloc s 1) (\<lambda>(addr, s). Ret (addr, set_inode ip (\<lambda>x. x\<lparr>i_addrs := (i_addrs x)[12 := addr]\<rparr>) s))
      else Ret (i_addrs (icache s ! ip) ! 12, s)) = Ret (slots t ip 140, t) \<and> slots t ip 140 \<noteq> 0 \<and> grew ip {slots t ip 140} 1 s t
    \<and> (slots s ip 140 \<noteq> 0 \<longrightarrow> t = s)"
proof -
  have st: "binv s {}" "in_tx s" "disk_ok s" "ip < length (icache s)" "length (addrs s ip) = 13" using s by (simp_all add: file_st_def)
  have sk: "slots s ip 140 = i_addrs (icache s ! ip) ! 12" by (simp add: slots_def slot_def addrs_def)
  show ?thesis
  proof (cases "slots s ip 140 = 0")
    case False
    moreover have "grew ip {slots s ip 140} 1 s s" using grew_same [OF s same_refl [OF st(1)]] by (auto simp: grew_def)
    ultimately show ?thesis using sk by (intro exI [of _ s]) simp
  next
    case True
    obtain a t where a: "balloc s 1 = Ret (a, t)" "allocated {} a s t"
      using balloc_spec [OF st(1-3) f] b by (auto simp: budget_def)
    note af = allocated_facts [OF a(2) st(3,1)]
    let ?u = "set_inode ip (\<lambda>x. x\<lparr>i_addrs := (addrs s ip)[12 := a]\<rparr>) t"
    have "icache t = icache s" using a(2) by (simp add: allocated_def)
    then have r: "set_inode ip (\<lambda>x. x\<lparr>i_addrs := (i_addrs x)[12 := a]\<rparr>) t = ?u" by (simp add: set_inode_def addrs_def)
    have "addrs s ip ! 12 = 0" using True by (simp add: slots_def slot_def)
    then have sl: "slot (view t) ((addrs s ip)[12 := a]) j = ((slots s ip)(140 := a)) j" if "j \<le> 140" for j
      using slot_indirect [of "addrs s ip" "view t" a j "view s"] st(5) af(5,7) that by (simp add: slots_def)
    note g = grew_alloc [OF s a(2) True _ sl]
    have "slots ?u ip 140 = a" using g(2) sl [of 140] st(5) by (simp add: slots_def set_inode_def)
    then show ?thesis using r g(1) st(5) af(5) a(1) True sk by (intro exI [of _ ?u]) simp
  qed
qed

lemma entry_alloc:
  fixes s :: "'a fs_st_scheme"
  assumes s: "file_st s ip" and X: "slots s ip 140 \<noteq> 0" and k: "12 \<le> k" "k < 140" and z: "slots s ip k = 0"
    and b: "budget s 2" and f: "free_blocks s \<noteq> {}" and r: "did_read s {} (slots s ip 140) c t"
    and te: "icache t = icache s" "env t = env s" "lh_n t = lh_n s" "lh_block t = lh_block s"
  shows "\<exists>a u v w. balloc t 1 = Ret (a, u) \<and> log_write (set_buf c (\<lambda>x. x\<lparr>b_data := put32 (b_data x) (4 * (k - 12)) a\<rparr>) u) c = Ret v
    \<and> brelse v c = Ret w \<and> slots w ip k = a \<and> a \<noteq> 0 \<and> grew ip {slots s ip 140, a} 1 s w"
proof -
  let ?X = "slots s ip 140" and ?B = "sb_bmapstart (sb s)"
  have st: "binv s {}" "in_tx s" "disk_ok s" "ip < length (icache s)" "i_dev (icache s ! ip) = 1" "length (addrs s ip) = 13" "wf_slots s (slots s ip)"
    using s by (simp_all add: file_st_def)
  have Xa: "?X = addrs s ip ! 12" by (simp add: slots_def slot_def)
  have Xu: "in_use s ?X" "?X \<noteq> ?B" using wf_slotD [OF st(7) _ X] by simp_all
  have t: "c < 30" "binv t {c}" "hit ?X (bcache t ! c)" "valid (bcache t ! c)" "b_data (bcache t ! c) = view s ?X" "view t = view s" "dirty_blocks t = dirty_blocks s"
    using r by (simp_all add: did_read_def)
  have ee: "sb t = sb s" "disksize t = disksize s" "log_room t = log_room s" using envD [OF te(2)] by (simp_all add: log_room_def)
  have tt: "in_tx t" "bitmap t = bitmap s" using st(2) t(6,7) te envD [OF te(2)] by (simp_all add: in_tx_def bitmap_def)
  have tu: "in_use t = in_use s" "free_blocks t = free_blocks s" using tt(2) ee by (auto simp: in_use_def free_blocks_def)
  have td: "disk_ok t" using st(3) ee tu by (simp add: disk_ok_def)
  have rm: "card {c} + card (insert (sb_bmapstart (sb t)) (dirty_blocks t)) < log_room t" using b ee t(7) by (simp add: budget_def)
  have hl: "in_use t bn \<and> bn \<noteq> sb_bmapstart (sb t)" if "i \<in> {c}" "hit bn (bcache t ! i)" for i bn
    using that t(3) Xu tu ee by (auto simp: hit_def)
  have "\<exists>a u. balloc t 1 = Ret (a, u) \<and> allocated {c} a t u"
    by (rule balloc_spec [OF t(2) tt(1) td _ rm]) (use f tu hl in auto)
  then obtain a u where a: "balloc t 1 = Ret (a, u)" "allocated {c} a t u" by blast
  note af = allocated_facts [OF a(2) td t(2)]
  have u: "binv u {c}" "in_tx u" "env u = env t" "icache u = icache t" "dirty_blocks u = insert a (insert ?B (dirty_blocks s))" "core (bcache u ! c) = core (bcache t ! c)" "a \<in> free_blocks s"
    using a(2) ee t(7) tu by (simp_all add: allocated_def)
  have uc: "hit ?X (bcache u ! c)" "valid (bcache u ! c)" "b_data (bcache u ! c) = view s ?X" using u(6) t(3-5) by (simp_all add: core_def hit_def valid_def)
  let ?d = "put32 (view s ?X) (4 * (k - 12)) a"
  have ue: "sb u = sb s" "log_room u = log_room s" using envD [OF u(3)] ee by (simp_all add: log_room_def)
  have "card (dirty_blocks u) \<le> card (insert ?B (dirty_blocks s)) + 1" unfolding u(5) using card_insert_le_m1 by (simp add: card_insert_if)
  then have "card (dirty_blocks u) < log_room u" using b ue by (simp add: budget_def)
  moreover have dl: "length ?d = 512" using length_view [OF st(1)] by simp
  ultimately obtain v w where v: "log_write (set_buf c (\<lambda>x. x\<lparr>b_data := ?d\<rparr>) u) c = Ret v" "brelse v c = Ret w" "wrote_block ({c} - {c}) ?X ?d u w"
    using held_write [OF u(1,2) _ uc(1,2)] by blast
  have "c < length (bcache u)" using t(1) binv_len [OF u(1)] by simp
  then have sc: "set_buf c (\<lambda>x. x\<lparr>b_data := put32 (b_data x) (4 * (k - 12)) a\<rparr>) u = set_buf c (\<lambda>x. x\<lparr>b_data := ?d\<rparr>) u"
    using uc(3) by (intro set_buf_cong) simp_all
  have w: "binv w {}" "in_tx w" "env w = env u" "icache w = icache s" "view w = (view u)(?X := ?d)" "dirty_blocks w = insert ?X (dirty_blocks u)"
    using v(3) u(4) te(1) by (simp_all add: wrote_block_def)
  have we: "sb w = sb s" using envD [OF w(3)] ue by simp
  have bw: "bitmap w = bitmap u" using w(5) Xu(2) we ue by (simp add: bitmap_def)
  have wu: "in_use w = in_use u" "free_blocks w = free_blocks u" using bw we ue by (auto simp: in_use_def free_blocks_def)
  have vu: "view u cc = view s cc" if "in_use s cc" "cc \<noteq> ?B" for cc using af(8) [of cc] that tu ee t(6) by simp
  have aw: "addrs w ip = addrs s ip" using w(4) by (simp add: addrs_def)
  have sl: "slots w ip j = ((slots s ip)(k := a)) j" if "j \<le> 140" for j
    using slot_entry [OF k, of "addrs s ip" "view s" "view w" a j] X Xa w(5) length_view [OF st(1)] that aw by (simp add: slots_def)
  have "wf_slots t (slots s ip)" using wf_slots_cong [OF st(7), of "slots s ip" t] ee tt(2) by simp
  then have "wf_slots u ((slots s ip)(k := a))" using wf_slots_alloc [OF a(2) td t(2)] z by blast
  then have "wf_slots w (slots w ip)" using wf_slots_cong [of u "(slots s ip)(k := a)" "slots w ip" w] sl we ue bw by simp
  moreover have "disk_ok w" using af(4) wu we ue envD [OF w(3)] by (simp add: disk_ok_def)
  ultimately have "file_st w ip" using w(1,2,4) aw st(4-6) unfolding file_st_def by simp
  moreover have "env w = env s" using w(3) u(3) te(2) by simp
  moreover have "\<exists>as. icache w = (icache s)[ip := (icache s ! ip)\<lparr>i_addrs := as\<rparr>]"
    using w(4) by (intro exI [of _ "i_addrs (icache s ! ip)"]) simp
  moreover have "slots w ip j = slots s ip j" if "j \<le> 140" "slots s ip j \<noteq> 0" for j using sl [OF that(1)] that z by auto
  moreover have "slots w ip j = 0" if "j \<le> 140" "slots s ip j = 0" "in_use s (slots w ip j)" for j
    using sl [OF that(1)] that(2,3) free_ne [OF u(7)] by (auto split: if_splits)
  moreover have "view w cc = view s cc" if "in_use s cc" "cc \<noteq> ?B" "cc = slots w ip 140 \<longrightarrow> cc = 0" for cc
    using that vu w(5) sl [of 140] k X by auto
  moreover have "dirty_blocks w \<subseteq> insert ?B (dirty_blocks s) \<union> {?X, a}" using w(6) u(5) by auto
  moreover have "card (free_blocks s) \<le> card (free_blocks w) + 1" using u(7) wu(2) af(3) tu(2) by (simp add: card_Diff_singleton)
  ultimately have "grew ip {?X, a} 1 s w" using wu(1) af(2) tu(1) unfolding grew_def by auto
  then show ?thesis using a(1) v(1,2) sc sl [of k] k(2) af(5) by auto
qed

lemma grew_mono: "grew ip D n s t \<Longrightarrow> D \<subseteq> D' \<Longrightarrow> n \<le> n' \<Longrightarrow> grew ip D' n' s t"
  unfolding grew_def by auto

lemma budget_mono: "budget s k \<Longrightarrow> j \<le> k \<Longrightarrow> budget s j"
  by (simp add: budget_def)

lemma slot_readable:
  assumes "file_st s ip" "k \<le> 140" "slots s ip k \<noteq> 0" "budget s 1"
  shows "can_read {} s (slots s ip k)"
proof -
  have "wf_slots s (slots s ip)" "disk_ok s" using assms(1) by (simp_all add: file_st_def)
  then have "slots s ip k < disksize s" using wf_slotD [of s "slots s ip" k] assms(2,3) by (auto simp: disk_ok_def in_use_def)
  then show ?thesis using budget_dirty [OF assms(4)] log_room_le [of s] by (simp add: can_read_def)
qed

lemma bmap_spec:
  fixes s :: "'a fs_st_scheme"
  assumes s: "file_st s ip" and bn: "unat bn < 140" and b: "budget s 3" and f: "2 \<le> card (free_blocks s)"
  shows "\<exists>t. bmap s ip bn = Ret (slots t ip (unat bn), t) \<and> slots t ip (unat bn) \<noteq> 0
    \<and> grew ip {slots t ip 140, slots t ip (unat bn)} 2 s t \<and> (slots s ip (unat bn) \<noteq> 0 \<longrightarrow> icache t = icache s)"
proof (cases "unat bn < 12")
  case True
  have "free_blocks s \<noteq> {}" using f by auto
  then show ?thesis using bmap_direct [OF s True budget_mono [OF b]] grew_mono by fastforce
next
  case False
  let ?k = "unat bn"
  have dv: "i_dev (icache s ! ip) = 1" using s by (simp add: file_st_def)
  have fs: "free_blocks s \<noteq> {}" using f by auto
  have u: "unat (bn - 12) = ?k - 12" using False by (subst unat_sub) (simp_all add: word_le_nat_alt)
  then have lt: "\<not> bn < 12" "bn - 12 < 128" using False bn by (simp_all add: word_less_nat_alt)
  obtain t where t: "(if i_addrs (icache s ! ip) ! 12 = 0
      then bind_res (balloc s 1) (\<lambda>(addr, s). Ret (addr, set_inode ip (\<lambda>x. x\<lparr>i_addrs := (i_addrs x)[12 := addr]\<rparr>) s))
      else Ret (i_addrs (icache s ! ip) ! 12, s)) = Ret (slots t ip 140, t)" "slots t ip 140 \<noteq> 0" "grew ip {slots t ip 140} 1 s t"
    "slots s ip 140 \<noteq> 0 \<longrightarrow> t = s"
    using ensure_indirect [OF s budget_mono [OF b] fs] by auto
  have ft: "file_st t ip" using t(3) by (simp add: grew_def)
  have bt: "budget t 2" using grew_budget [OF t(3), of 2] budget_mono [OF b] by simp
  have fr: "free_blocks t \<noteq> {}" using t(3) f by (auto simp: grew_def)
  have inv: "binv t {}" using ft by (simp add: file_st_def)
  obtain c r v where r: "bread t 1 (slots t ip 140) = Ret (c, r)" "did_read t {} (slots t ip 140) c r" "icache r = icache t" "env r = env t"
    "lh_n r = lh_n t" "lh_block r = lh_block t" "brelse r c = Ret v" "same {} t v"
    using bread_brelse [OF inv slot_readable [OF ft _ t(2) budget_mono [OF bt]]] by auto
  have e: "get32 (b_data (bcache r ! c)) (4 * unat (bn - 12)) = slots t ip ?k"
    using r(2) u False bn t(2) by (simp add: did_read_def slots_def slot_def blk_def)
  show ?thesis
  proof (cases "slots t ip ?k = 0")
    case True
    from entry_alloc [OF ft t(2) _ bn True bt fr r(2-6)] False obtain a x y w where
      w: "balloc r 1 = Ret (a, x)" "log_write (set_buf c (\<lambda>x. x\<lparr>b_data := put32 (b_data x) (4 * (?k - 12)) a\<rparr>) x) c = Ret y" "brelse y c = Ret w"
        "slots w ip ?k = a" "a \<noteq> 0" "grew ip {slots t ip 140, a} 1 t w" by auto
    have "bmap s ip bn = Ret (a, w)" using lt t(1) r(1) e True w(1-3) dv u by (simp add: bmap_def Let_def)
    moreover have "slots w ip 140 = slots t ip 140" using w(6) t(2) by (simp add: grew_def)
    moreover have "grew ip {slots t ip 140, a} 2 s w" by (rule grew_mono [OF grew_trans [OF s t(3) w(6)]]) auto
    moreover have "slots s ip ?k = 0" using grew_slots [OF t(3), of ?k] True bn by (cases "slots s ip ?k = 0") simp_all
    ultimately show ?thesis using w(4,5) by auto
  next
    case nz: False
    have g: "grew ip {} 0 t v" using grew_same [OF ft r(8)] .
    have vs: "slots v ip j = slots t ip j" for j using r(8) by (simp add: same_def slots_def addrs_def)
    have "bmap s ip bn = Ret (slots t ip ?k, v)" using lt t(1) r(1,7) e nz dv by (simp add: bmap_def Let_def)
    moreover have "grew ip {slots t ip 140, slots t ip ?k} 2 s v" by (rule grew_mono [OF grew_trans [OF s t(3) g]]) auto
    moreover have "slots s ip ?k \<noteq> 0 \<longrightarrow> slots s ip 140 \<noteq> 0" using False bn by (auto simp: slots_def slot_def blk_def)
    then have "slots s ip ?k \<noteq> 0 \<longrightarrow> icache v = icache s" using t(4) r(8) by (auto simp: same_def)
    ultimately show ?thesis using nz vs by auto
  qed
qed

end
