(* ===== verification/Filewrite.thy ===== *)
theory Filewrite
  imports Balloc
begin

text \<open>
  Writing files (fs.c): \<^verbatim>\<open>writei\<close> changes exactly the bytes of its range, extends the file, allocates the blocks it needs and
  brings the inode on the disk up to date, within the share of the log it is given.
\<close>

section \<open>Writing a file\<close>

text \<open>Block \<open>k\<close> of the file has been changed by \<open>F\<close>; blocks that are not of the file are as before.\<close>

definition stored :: "nat \<Rightarrow> nat \<Rightarrow> (u8 list \<Rightarrow> u8 list) \<Rightarrow> 'a fs_st_scheme \<Rightarrow> 'a fs_st_scheme \<Rightarrow> bool" where
  "stored ip k F s t \<longleftrightarrow> file_st t ip \<and> env t = env s \<and> (\<exists>as. icache t = (icache s)[ip := (icache s ! ip)\<lparr>i_addrs := as\<rparr>])
     \<and> (\<forall>j \<le> 140. slots s ip j \<noteq> 0 \<longrightarrow> slots t ip j = slots s ip j) \<and> slots t ip k \<noteq> 0
     \<and> (\<forall>j \<le> 140. slots s ip j = 0 \<longrightarrow> in_use s (slots t ip j) \<longrightarrow> slots t ip j = 0)
     \<and> (\<forall>c. in_use s c \<longrightarrow> in_use t c)
     \<and> (\<forall>c. in_use s c \<longrightarrow> c \<noteq> sb_bmapstart (sb s) \<longrightarrow> (c = slots t ip 140 \<longrightarrow> c = 0) \<longrightarrow> c \<noteq> slots t ip k \<longrightarrow> view t c = view s c)
     \<and> (\<exists>d. length d = 512 \<and> (slots s ip k \<noteq> 0 \<longrightarrow> d = view s (slots s ip k)) \<and> view t (slots t ip k) = F d)
     \<and> (\<forall>j. budget s (2 + j) \<longrightarrow> budget t j) \<and> card (free_blocks s) \<le> card (free_blocks t) + 2
     \<and> (slots s ip k \<noteq> 0 \<longrightarrow> icache t = icache s)"

lemma write_step:
  fixes s :: "'a fs_st_scheme"
  assumes s: "file_st s ip" and bn: "unat bn < 140" and b: "budget s 3" and f: "2 \<le> card (free_blocks s)"
    and F: "\<And>d. length d = 512 \<Longrightarrow> length (F d) = 512"
  shows "\<exists>t. (\<forall>G :: 'a fs_st_scheme \<Rightarrow> 'b res. bind_res (bmap s ip bn) (\<lambda>(addr, s). bind_res (bread s (i_dev (icache s ! ip)) addr) (\<lambda>(bp, s).
      bind_res (log_write (set_buf bp (\<lambda>x. x\<lparr>b_data := F (b_data x)\<rparr>) s) bp) (\<lambda>s. bind_res (brelse s bp) G))) = G t) \<and> stored ip (unat bn) F s t"
proof -
  let ?k = "unat bn"
  obtain t where t: "bmap s ip bn = Ret (slots t ip ?k, t)" "slots t ip ?k \<noteq> 0" "grew ip {slots t ip 140, slots t ip ?k} 2 s t"
    "slots s ip ?k \<noteq> 0 \<longrightarrow> icache t = icache s"
    using bmap_spec [OF s bn b f] by blast
  let ?a = "slots t ip ?k" and ?B = "sb_bmapstart (sb s)"
  have ft: "file_st t ip" and et: "env t = env s" using t(3) by (simp_all add: grew_def)
  have st: "binv t {}" "in_tx t" "disk_ok t" "ip < length (icache t)" "i_dev (icache t ! ip) = 1" "length (addrs t ip) = 13" "wf_slots t (slots t ip)"
    using ft by (simp_all add: file_st_def)
  have cd: "card {slots t ip 140, ?a} \<le> 2" by (simp add: card_insert_if)
  have bt: "budget t j" if "budget s (2 + j)" for j using grew_budget [OF t(3), of j] budget_mono [OF that] cd by simp
  have b1: "budget t 1" using bt [of 1] b by simp
  let ?d = "view t ?a"
  have dl: "length ?d = 512" using length_view [OF st(1)] .
  have k140: "?k \<le> 140" using bn by simp
  have "card (dirty_blocks t) < log_room t" using budget_dirty [OF b1] by simp
  then obtain c r u v where w: "bread t 1 ?a = Ret (c, r)" "c < length (bcache r)" "b_data (bcache r ! c) = ?d"
    "log_write (set_buf c (\<lambda>x. x\<lparr>b_data := F ?d\<rparr>) r) c = Ret u" "brelse u c = Ret v" "wrote_block {} ?a (F ?d) t v"
    using update_block [OF st(1,2) slot_readable [OF ft k140 t(2) b1] _ F [OF dl]] by auto
  have "set_buf c (\<lambda>x. x\<lparr>b_data := F (b_data x)\<rparr>) r = set_buf c (\<lambda>x. x\<lparr>b_data := F ?d\<rparr>) r"
    using w(2,3) by (intro set_buf_cong) simp_all
  then have run: "bind_res (bmap s ip bn) (\<lambda>(addr, s). bind_res (bread s (i_dev (icache s ! ip)) addr) (\<lambda>(bp, s).
      bind_res (log_write (set_buf bp (\<lambda>x. x\<lparr>b_data := F (b_data x)\<rparr>) s) bp) (\<lambda>s. bind_res (brelse s bp) G))) = G v" for G :: "'a fs_st_scheme \<Rightarrow> 'b res"
    using t(1) w(1,4,5) st(5) by simp
  have v: "binv v {}" "in_tx v" "env v = env t" "icache v = icache t" "view v = (view t)(?a := F ?d)" "dirty_blocks v = insert ?a (dirty_blocks t)"
    using w(6) by (simp_all add: wrote_block_def)
  have sbs: "sb t = sb s" "sb v = sb s" using envD [OF et] envD [OF v(3)] by simp_all
  have au: "in_use t ?a" "?a \<noteq> ?B" using wf_slotD [OF st(7) k140 t(2)] sbs by simp_all
  have aX: "slots t ip 140 \<noteq> ?a"
  proof
    assume "slots t ip 140 = ?a"
    then have "?k = 140" by (rule wf_slot_inj [OF st(7) k140 order_refl t(2) sym])
    then show False using bn by simp
  qed
  have bv: "bitmap v = bitmap t" using v(5) au(2) sbs by (simp add: bitmap_def)
  have vu: "in_use v = in_use t" "free_blocks v = free_blocks t" using bv sbs by (auto simp: in_use_def free_blocks_def)
  have av: "addrs v ip = addrs t ip" using v(4) by (simp add: addrs_def)
  have sl: "slots v ip j = slots t ip j" for j
    using v(5) aX av by (auto simp: slots_def slot_def blk_def)
  have "wf_slots v (slots v ip)" using wf_slots_cong [OF st(7), of "slots v ip" v] sl sbs bv by simp
  moreover have "disk_ok v" using st(3) vu sbs envD [OF v(3)] by (simp add: disk_ok_def)
  ultimately have fv: "file_st v ip" using v(1,2,4) av st(4-6) unfolding file_st_def by simp
  have g: "\<exists>as. icache t = (icache s)[ip := (icache s ! ip)\<lparr>i_addrs := as\<rparr>]" "\<And>j. j \<le> 140 \<Longrightarrow> slots s ip j \<noteq> 0 \<Longrightarrow> slots t ip j = slots s ip j"
    "\<And>c. in_use s c \<Longrightarrow> in_use t c" "\<And>c. in_use s c \<Longrightarrow> c \<noteq> ?B \<Longrightarrow> (c = slots t ip 140 \<longrightarrow> c = 0) \<Longrightarrow> view t c = view s c"
    "dirty_blocks t \<subseteq> insert ?B (dirty_blocks s) \<union> {slots t ip 140, ?a}" "card (free_blocks s) \<le> card (free_blocks t) + 2"
    "\<And>j. j \<le> 140 \<Longrightarrow> slots s ip j = 0 \<Longrightarrow> in_use s (slots t ip j) \<Longrightarrow> slots t ip j = 0"
    using t(3) unfolding grew_def by blast+
  have old: "?d = view s (slots s ip ?k)" if "slots s ip ?k \<noteq> 0"
  proof -
    have eq: "?a = slots s ip ?k" using g(2) [OF k140 that] .
    have "wf_slots s (slots s ip)" using s by (simp add: file_st_def)
    then have "in_use s ?a" using wf_slotD [of s "slots s ip" ?k] k140 that eq by simp
    then show ?thesis using g(4) [of ?a] au(2) aX t(2) eq by auto
  qed
  have bvj: "budget v j" if "budget s (2 + j)" for j
  proof -
    have "insert ?B (dirty_blocks v) \<subseteq> insert ?B (dirty_blocks s) \<union> {slots t ip 140, ?a}" using v(6) g(5) by auto
    then have "card (insert ?B (dirty_blocks v)) \<le> card (insert ?B (dirty_blocks s) \<union> {slots t ip 140, ?a})" by (intro card_mono) simp_all
    also have "\<dots> \<le> card (insert ?B (dirty_blocks s)) + card {slots t ip 140, ?a}" by (rule card_Un_le)
    finally show ?thesis using that cd sbs envD [OF et] envD [OF v(3)] by (simp add: budget_def log_room_def)
  qed
  have "stored ip ?k F s v"
    unfolding stored_def using fv et v(3,4,5) g(1-4,6,7) sl t(2,4) vu dl old bvj by auto
  then show ?thesis using run by blast
qed

definition byte_at :: "'a fs_st_scheme \<Rightarrow> nat \<Rightarrow> nat \<Rightarrow> u8" where
  "byte_at s ip i = view s (slots s ip (i div 512)) ! (i mod 512)"

lemma nth_splice:
  assumes "i < length d" "a + length xs \<le> length d"
  shows "splice d a xs ! i = (if a \<le> i \<and> i < a + length xs then xs ! (i - a) else d ! i)"
  using assms by (auto simp: splice_def nth_append)

lemma stored_bytes:
  assumes st: "stored ip k (\<lambda>d. splice d a xs) s t" and s: "file_st s ip" and k: "k < 140" and a: "a + length xs \<le> 512" and i: "i < 71680"
  shows "k * 512 + a \<le> i \<Longrightarrow> i < k * 512 + a + length xs \<Longrightarrow> byte_at t ip i = xs ! (i - (k * 512 + a))"
    "\<not> (k * 512 + a \<le> i \<and> i < k * 512 + a + length xs) \<Longrightarrow> slots s ip (i div 512) \<noteq> 0 \<Longrightarrow> byte_at t ip i = byte_at s ip i"
proof -
  obtain d where d: "length d = 512" "slots s ip k \<noteq> 0 \<Longrightarrow> d = view s (slots s ip k)" "view t (slots t ip k) = splice d a xs"
    using st unfolding stored_def by blast
  have g: "\<And>j. j \<le> 140 \<Longrightarrow> slots s ip j \<noteq> 0 \<Longrightarrow> slots t ip j = slots s ip j" "slots t ip k \<noteq> 0" "file_st t ip"
    using st unfolding stored_def by blast+
  have k140: "k \<le> 140" "i div 512 \<le> 140" "i div 512 \<noteq> 140" using k i by auto
  show "byte_at t ip i = xs ! (i - (k * 512 + a))" if "k * 512 + a \<le> i" "i < k * 512 + a + length xs"
  proof -
    have "i div 512 = k" using that a by (intro div_nat_eqI) auto
    moreover from this have "i mod 512 = i - k * 512" using minus_mult_div_eq_mod [of i 512] by (simp add: mult.commute)
    ultimately show ?thesis using d(1,3) that a nth_splice [of "i mod 512" d a xs] by (auto simp: byte_at_def)
  qed
  show "byte_at t ip i = byte_at s ip i" if o: "\<not> (k * 512 + a \<le> i \<and> i < k * 512 + a + length xs)" and nz: "slots s ip (i div 512) \<noteq> 0"
  proof (cases "i div 512 = k")
    case True
    then have e: "i = k * 512 + i mod 512" using div_mult_mod_eq [of i 512] by simp
    have "i mod 512 < 512" by simp
    moreover have "\<not> (a \<le> i mod 512 \<and> i mod 512 < a + length xs)" using o e by linarith
    ultimately show ?thesis using True nz d g(1) [OF k140(1)] nth_splice [of "i mod 512" d a xs] a by (auto simp: byte_at_def)
  next
    case False
    let ?c = "slots s ip (i div 512)"
    have eq: "slots t ip (i div 512) = ?c" using g(1) [OF k140(2) nz] .
    have wf: "wf_slots s (slots s ip)" "wf_slots t (slots t ip)" using s g(3) by (simp_all add: file_st_def)
    have "?c \<noteq> slots t ip 140" using wf_slot_inj [OF wf(2) k140(2) order_refl] eq nz k140(3) by metis
    moreover have "?c \<noteq> slots t ip k" using wf_slot_inj [OF wf(2) k140(2,1)] eq nz False by metis
    ultimately have "view t ?c = view s ?c" using st wf_slotD [OF wf(1) k140(2) nz] unfolding stored_def by blast
    then show ?thesis using eq by (simp add: byte_at_def)
  qed
qed

text \<open>The blocks that \<open>n\<close> bytes from offset \<open>i\<close> lie in.\<close>

definition nblks :: "nat \<Rightarrow> nat \<Rightarrow> nat" where
  "nblks i n = (if n = 0 then 0 else (i + n - 1) div 512 - i div 512 + 1)"

lemma nblks_step:
  assumes "0 < n" "m = min n (512 - i mod 512)"
  shows "nblks i n = Suc (nblks (i + m) (n - m))"
proof (cases "n \<le> 512 - i mod 512")
  case True
  have "i mod 512 + (n - 1) < 512" using True assms(1) by linarith
  then have "(i + (n - 1)) div 512 = i div 512" using same_block by blast
  then show ?thesis using True assms by (simp add: nblks_def)
next
  case False
  then have mm: "m = 512 - i mod 512" "0 < n - m" using assms(2) by simp_all
  have "i mod 512 < 512" by simp
  then have "i + m = 512 * (i div 512) + 512" using mm(1) mult_div_mod_eq [of 512 i] by linarith
  then have q: "(i + m) div 512 = Suc (i div 512)" by simp
  note m = mm
  have "(i + m) div 512 \<le> (i + n - 1) div 512" using m(2) by (intro div_le_mono) simp
  then have "(i + n - 1) div 512 - i div 512 = Suc ((i + n - 1) div 512 - (i + m) div 512)" using q by linarith
  then show ?thesis using m(2) assms(1) by (simp add: nblks_def)
qed

definition put_bytes :: "nat \<Rightarrow> nat \<Rightarrow> u8 list \<Rightarrow> 'a fs_st_scheme \<Rightarrow> 'a fs_st_scheme \<Rightarrow> bool" where
  "put_bytes ip i xs s t \<longleftrightarrow> file_st t ip \<and> env t = env s \<and> (\<exists>as. icache t = (icache s)[ip := (icache s ! ip)\<lparr>i_addrs := as\<rparr>])
     \<and> (\<forall>j \<le> 140. slots s ip j \<noteq> 0 \<longrightarrow> slots t ip j = slots s ip j) \<and> (\<forall>c. in_use s c \<longrightarrow> in_use t c)
     \<and> (\<forall>k \<le> 140. slots s ip k = 0 \<longrightarrow> in_use s (slots t ip k) \<longrightarrow> slots t ip k = 0)
     \<and> (\<forall>c. in_use s c \<longrightarrow> c \<noteq> sb_bmapstart (sb s) \<longrightarrow> (\<forall>k \<le> 140. c = slots t ip k \<longrightarrow> c = 0) \<longrightarrow> view t c = view s c)
     \<and> (\<forall>j. i \<le> j \<longrightarrow> j < i + length xs \<longrightarrow> slots t ip (j div 512) \<noteq> 0 \<and> byte_at t ip j = xs ! (j - i))
     \<and> (\<forall>j < 71680. \<not> (i \<le> j \<and> j < i + length xs) \<longrightarrow> slots s ip (j div 512) \<noteq> 0 \<longrightarrow> byte_at t ip j = byte_at s ip j)
     \<and> (\<forall>j. budget s (2 * nblks i (length xs) + j) \<longrightarrow> budget t j)
     \<and> card (free_blocks s) \<le> card (free_blocks t) + 2 * nblks i (length xs)
     \<and> ((\<forall>j. i \<le> j \<longrightarrow> j < i + length xs \<longrightarrow> slots s ip (j div 512) \<noteq> 0) \<longrightarrow> icache t = icache s)"

lemma put_bytes_step:
  assumes st: "stored ip (i div 512) (\<lambda>d. splice d (i mod 512) xs) s t" and s: "file_st s ip"
    and xs: "xs \<noteq> []" "i mod 512 + length xs \<le> 512" "i + length (xs @ ys) \<le> 71680"
    and nb: "nblks i (length (xs @ ys)) = Suc (nblks (i + length xs) (length ys))" and u: "put_bytes ip (i + length xs) ys t u"
  shows "put_bytes ip i (xs @ ys) s u"
proof -
  have x0: "0 < length xs" using xs(1) by simp
  then have "i < 140 * 512" using xs(3) by (simp only: length_append)
  then have k: "i div 512 < 140" by (rule less_mult_imp_div_less)
  have i: "i div 512 * 512 + i mod 512 = i" by simp
  have S: "env t = env s" "\<exists>as. icache t = (icache s)[ip := (icache s ! ip)\<lparr>i_addrs := as\<rparr>]" "\<And>j. j \<le> 140 \<Longrightarrow> slots s ip j \<noteq> 0 \<Longrightarrow> slots t ip j = slots s ip j"
    "slots t ip (i div 512) \<noteq> 0" "\<And>c. in_use s c \<Longrightarrow> in_use t c"
    "\<And>c. in_use s c \<Longrightarrow> c \<noteq> sb_bmapstart (sb s) \<Longrightarrow> (c = slots t ip 140 \<longrightarrow> c = 0) \<Longrightarrow> c \<noteq> slots t ip (i div 512) \<Longrightarrow> view t c = view s c"
    "\<And>j. budget s (2 + j) \<Longrightarrow> budget t j" "card (free_blocks s) \<le> card (free_blocks t) + 2"
    "\<And>j. j \<le> 140 \<Longrightarrow> slots s ip j = 0 \<Longrightarrow> in_use s (slots t ip j) \<Longrightarrow> slots t ip j = 0"
    "slots s ip (i div 512) \<noteq> 0 \<Longrightarrow> icache t = icache s" using st unfolding stored_def by blast+
  have U: "file_st u ip" "env u = env t" "\<exists>as. icache u = (icache t)[ip := (icache t ! ip)\<lparr>i_addrs := as\<rparr>]" "\<And>j. j \<le> 140 \<Longrightarrow> slots t ip j \<noteq> 0 \<Longrightarrow> slots u ip j = slots t ip j"
    "\<And>c. in_use t c \<Longrightarrow> in_use u c"
    "\<And>c. in_use t c \<Longrightarrow> c \<noteq> sb_bmapstart (sb t) \<Longrightarrow> (\<forall>k \<le> 140. c = slots u ip k \<longrightarrow> c = 0) \<Longrightarrow> view u c = view t c"
    "\<And>j. i + length xs \<le> j \<Longrightarrow> j < i + length xs + length ys \<Longrightarrow> slots u ip (j div 512) \<noteq> 0 \<and> byte_at u ip j = ys ! (j - (i + length xs))"
    "\<And>j. j < 71680 \<Longrightarrow> \<not> (i + length xs \<le> j \<and> j < i + length xs + length ys) \<Longrightarrow> slots t ip (j div 512) \<noteq> 0 \<Longrightarrow> byte_at u ip j = byte_at t ip j"
    "\<And>j. budget t (2 * nblks (i + length xs) (length ys) + j) \<Longrightarrow> budget u j"
    "card (free_blocks t) \<le> card (free_blocks u) + 2 * nblks (i + length xs) (length ys)"
    "\<And>j. j \<le> 140 \<Longrightarrow> slots t ip j = 0 \<Longrightarrow> in_use t (slots u ip j) \<Longrightarrow> slots u ip j = 0"
    "\<forall>j. i + length xs \<le> j \<longrightarrow> j < i + length xs + length ys \<longrightarrow> slots t ip (j div 512) \<noteq> 0 \<Longrightarrow> icache u = icache t" using u unfolding put_bytes_def by blast+
  note B = stored_bytes [OF st s k xs(2), unfolded i]
  have sb: "sb t = sb s" using envD [OF S(1)] by simp
  have ip: "ip < length (icache s)" using s by (simp add: file_st_def)
  have "\<exists>as. icache u = (icache s)[ip := (icache s ! ip)\<lparr>i_addrs := as\<rparr>]" using S(2) U(3) ip by fastforce
  moreover have "slots u ip j = slots s ip j" if "j \<le> 140" "slots s ip j \<noteq> 0" for j using S(3) [OF that] U(4) [OF that(1)] that(2) by simp
  moreover have "slots u ip j = 0" if "j \<le> 140" "slots s ip j = 0" "in_use s (slots u ip j)" for j
    using S(5,9) U(4,11) that by metis
  moreover have "view u c = view s c" if c: "in_use s c" "c \<noteq> sb_bmapstart (sb s)" "\<forall>k \<le> 140. c = slots u ip k \<longrightarrow> c = 0" for c
  proof -
    have "c = 0" if "j \<le> 140" "c = slots t ip j" for j using c(3) U(4) [OF that(1)] that by metis
    then have "c = slots t ip 140 \<longrightarrow> c = 0" "c \<noteq> slots t ip (i div 512)" using S(4) k by (auto intro: less_imp_le)
    then show ?thesis using S(5,6) [OF c(1)] U(6) c sb by metis
  qed
  moreover have "slots u ip (j div 512) \<noteq> 0 \<and> byte_at u ip j = (xs @ ys) ! (j - i)" if j: "i \<le> j" "j < i + length (xs @ ys)" for j
  proof (cases "j < i + length xs")
    case True
    then have "i mod 512 + (j - i) < 512" using xs(2) j(1) by linarith
    then have jk: "j div 512 = i div 512" using same_block [of i "j - i"] j(1) by simp
    then have "byte_at u ip j = byte_at t ip j" using U(8) [of j] True S(4) xs(3) j by simp
    moreover have "slots u ip (j div 512) \<noteq> 0" using U(4) [of "j div 512"] jk S(4) k by simp
    moreover have "j - i < length xs" using True j(1) by linarith
    ultimately show ?thesis using B(1) [of j] True j xs(3) by (simp add: nth_append)
  next
    case False
    then have "length xs \<le> j - i" by simp
    moreover have "j - i - length xs = j - (i + length xs)" by simp
    ultimately show ?thesis using U(7) [of j] j False by (simp add: nth_append)
  qed
  moreover have "byte_at u ip j = byte_at s ip j" if j: "j < 71680" "\<not> (i \<le> j \<and> j < i + length (xs @ ys))" "slots s ip (j div 512) \<noteq> 0" for j
  proof -
    have "j div 512 < 140" using j(1) less_mult_imp_div_less [of j 140 512] by simp
    then have "slots t ip (j div 512) \<noteq> 0" using S(3) [of "j div 512"] j(3) by simp
    then have "byte_at u ip j = byte_at t ip j" using U(8) [of j] j by auto
    then show ?thesis using B(2) [of j] j by auto
  qed
  moreover have "budget u j" if "budget s (2 * nblks i (length (xs @ ys)) + j)" for j
    using U(9) S(7) that unfolding nb by (simp add: algebra_simps)
  moreover have "card (free_blocks s) \<le> card (free_blocks u) + 2 * nblks i (length (xs @ ys))" using S(8) U(10) unfolding nb by simp
  moreover have "icache u = icache s" if nz: "\<forall>j. i \<le> j \<longrightarrow> j < i + length (xs @ ys) \<longrightarrow> slots s ip (j div 512) \<noteq> 0"
  proof -
    have "slots t ip (j div 512) \<noteq> 0" if "i + length xs \<le> j" "j < i + length xs + length ys" for j
    proof -
      have "j div 512 < 140" using that xs(3) less_mult_imp_div_less [of j 140 512] by simp
      then show ?thesis using S(3) [of "j div 512"] nz that by simp
    qed
    moreover have "slots s ip (i div 512) \<noteq> 0" using nz x0 by simp
    ultimately show ?thesis using S(10) U(12) by simp
  qed
  ultimately show ?thesis using U(1,2) S(1) S(5) U(5) unfolding put_bytes_def by auto
qed

lemma put_bytes_none: "file_st s ip \<Longrightarrow> put_bytes ip i [] s s"
  using grew_same [of s ip s] same_refl [of s "{}"] by (auto simp: put_bytes_def nblks_def grew_def file_st_def)

lemma writei_loop_spec:
  fixes s :: "'a fs_st_scheme"
  assumes "file_st s ip" "unat off + unat r \<le> 71680" "unat r \<le> length src"
    and "budget s (2 * nblks (unat off) (unat r) + 1)" "2 * nblks (unat off) (unat r) \<le> card (free_blocks s)"
  shows "\<exists>t. writei_loop s ip src off r = Ret (off + r, t) \<and> put_bytes ip (unat off) (take (unat r) src) s t"
  using assms
proof (induction "unat r" arbitrary: s off r src rule: less_induct)
  case less
  note 1 = less.prems
  show ?case
  proof (cases "0 < r")
    case False
    then have "r = 0" by (simp add: word_neq_0_conv [symmetric])
    then show ?thesis using put_bytes_none [OF 1(1)] by (simp add: writei_loop.simps)
  next
    case True
    define m where "m = io_chunk off r"
    let ?o = "unat off" and ?m = "unat m"
    have r: "0 < unat r" using True by (simp add: word_less_nat_alt)
    have m: "?m = min (unat r) (512 - ?o mod 512)" "unat (r - m) = unat r - ?m"
      using unat_io_chunk [of off r] unat_sub [OF io_chunk_le, of r off] by (simp_all add: m_def)
    have mr: "?m \<le> unat r" using m(1) by simp
    then have om: "unat (off + m) = ?o + ?m" using 1(2) unat_add32 [of off m] by simp
    have k: "unat (off div 512) = ?o div 512" "unat (off mod 512) = ?o mod 512" by (simp_all add: unat_div unat_mod)
    let ?xs = "take ?m src"
    have "?o mod 512 < 512" by simp
    then have xs: "?xs \<noteq> []" "?o mod 512 + length ?xs \<le> 512" "length ?xs = ?m" using r m(1) 1(3) by auto
    have nb: "nblks ?o (unat r) = Suc (nblks (?o + ?m) (unat r - ?m))" using nblks_step [OF r m(1)] .
    have "?o < 140 * 512" using 1(2) r by simp
    then have kb: "unat (off div 512) < 140" using k(1) less_mult_imp_div_less [of ?o 140 512] by simp
    have b3: "budget s 3" "2 \<le> card (free_blocks s)" using 1(4,5) budget_mono [of s _ 3] unfolding nb by auto
    obtain t where t: "\<And>G :: 'a fs_st_scheme \<Rightarrow> (u32 \<times> 'a fs_st_scheme) res. bind_res (bmap s ip (off div 512)) (\<lambda>(addr, s). bind_res (bread s (i_dev (icache s ! ip)) addr) (\<lambda>(bp, s).
        bind_res (log_write (set_buf bp (\<lambda>x. x\<lparr>b_data := splice (b_data x) (?o mod 512) ?xs\<rparr>) s) bp) (\<lambda>s. bind_res (brelse s bp) G))) = G t"
      "stored ip (?o div 512) (\<lambda>d. splice d (?o mod 512) ?xs) s t"
      using write_step [OF 1(1) kb b3, of "\<lambda>d. splice d (?o mod 512) ?xs", where 'b = "u32 \<times> 'a fs_st_scheme"] xs(2) unfolding k by auto
    have e: "writei_loop s ip src off r = writei_loop t ip (drop ?m src) (off + m) (r - m)"
      using t(1) [of "\<lambda>s. writei_loop s ip (drop ?m src) (off + m) (r - m)"] True k by (subst writei_loop.simps) (simp add: m_def [symmetric] Let_def)
    have S: "file_st t ip" "\<And>j. budget s (2 + j) \<Longrightarrow> budget t j" "card (free_blocks s) \<le> card (free_blocks t) + 2" using t(2) by (simp_all add: stored_def)
    have "budget t (2 * nblks (unat (off + m)) (unat (r - m)) + 1)" using 1(4) S(2) unfolding nb om m(2) by (simp add: algebra_simps)
    moreover have "2 * nblks (unat (off + m)) (unat (r - m)) \<le> card (free_blocks t)" using 1(5) S(3) unfolding nb om m(2) by simp
    moreover have "0 < ?m" using m(1) r \<open>?o mod 512 < 512\<close> by simp
    then have "unat (r - m) < unat r" "unat (off + m) + unat (r - m) \<le> 71680" "unat (r - m) \<le> length (drop ?m src)"
      using m(2) om r mr 1(2,3) by (simp_all add: diff_le_mono)
    ultimately obtain u where u: "writei_loop t ip (drop ?m src) (off + m) (r - m) = Ret (off + m + (r - m), u)"
        "put_bytes ip (unat (off + m)) (take (unat (r - m)) (drop ?m src)) t u"
      using less.hyps [of "r - m" t "off + m" "drop ?m src"] S(1) by blast
    let ?ys = "take (unat r - ?m) (drop ?m src)"
    have sp: "?xs @ ?ys = take (unat r) src" using mr by (metis le_add_diff_inverse take_add)
    have ly: "length ?ys = unat r - ?m" "length (?xs @ ?ys) = unat r" using 1(3) sp by (auto simp: min_def)
    have "put_bytes ip ?o (?xs @ ?ys) s u"
      by (rule put_bytes_step [OF t(2) 1(1) xs(1,2)]) (use ly u(2) om m(2) xs(3) nb 1(2) in simp_all)
    then show ?thesis using e u(1) sp by auto
  qed
qed

section \<open>The whole operation\<close>

lemma length_put_dinode [simp]: "length (put_dinode bs k d) = length bs"
  by (simp add: put_dinode_def)

definition home :: "'a fs_st_scheme \<Rightarrow> nat \<Rightarrow> u32" where
  "home s ip = IBLOCK (i_inum (icache s ! ip)) (sb s)"

text \<open>
  A file without holes whose blocks and whose inode block are in use and whose inode on the disk, as the cache has it, agrees with
  the one in memory.
\<close>

definition file_good :: "'a fs_st_scheme \<Rightarrow> nat \<Rightarrow> bool" where
  "file_good s ip \<longleftrightarrow> file_st s ip \<and> i_type (icache s ! ip) \<noteq> T_DEV \<and> unat (i_size (icache s ! ip)) \<le> 71680
     \<and> (\<forall>k. k * 512 < unat (i_size (icache s ! ip)) \<longrightarrow> slots s ip k \<noteq> 0)
     \<and> in_use s (home s ip) \<and> home s ip \<noteq> sb_bmapstart (sb s) \<and> home s ip \<noteq> 0 \<and> (\<forall>k \<le> 140. slots s ip k \<noteq> home s ip)
     \<and> get_dinode (view s (home s ip)) (dip_off (i_inum (icache s ! ip))) = inode_image (icache s ! ip)"

lemma content_nth:
  assumes "unat (i_size (icache s ! ip)) \<le> 71680" "j < unat (i_size (icache s ! ip))"
  shows "content (view s) (icache s ! ip) ! j = byte_at s ip j"
proof -
  have "j div 512 < 140" using assms less_mult_imp_div_less [of j 140 512] by simp
  then have "j div 512 \<noteq> 140" by simp
  then show ?thesis using assms by (simp add: content_def file_data_def file_byte_def byte_at_def slots_def slot_def addrs_def)
qed

lemma length_content: "length (content v i) = unat (i_size i)"
  by (simp add: content_def file_data_def)

lemma other_block:
  assumes t: "file_st t ip" and h: "in_use t h" "h \<noteq> sb_bmapstart (sb t)" "h \<noteq> 0" "\<forall>k \<le> 140. slots t ip k \<noteq> h"
    and u: "wrote_block {} h d t u"
  shows "file_st u ip" "slots u ip = slots t ip" "in_use u = in_use t" "j < 71680 \<Longrightarrow> byte_at u ip j = byte_at t ip j"
proof -
  have st: "binv t {}" "in_tx t" "disk_ok t" "ip < length (icache t)" "i_dev (icache t ! ip) = 1" "length (addrs t ip) = 13" "wf_slots t (slots t ip)"
    using t by (simp_all add: file_st_def)
  have w: "binv u {}" "in_tx u" "env u = env t" "icache u = icache t" "view u = (view t)(h := d)" using u by (simp_all add: wrote_block_def)
  note e = envD [OF w(3)]
  have bm: "bitmap u = bitmap t" using w(5) h(2) e by (simp add: bitmap_def)
  then show iu: "in_use u = in_use t" using e by (auto simp: in_use_def)
  have "slots t ip 140 \<noteq> h" using h(4) by simp
  moreover have ad: "addrs u ip = addrs t ip" using w(4) by (simp add: addrs_def)
  ultimately show sl: "slots u ip = slots t ip" using w(5) by (intro ext) (auto simp: slots_def slot_def blk_def)
  have "wf_slots u (slots u ip)" using wf_slots_cong [OF st(7), of "slots u ip" u] sl bm e by simp
  moreover have "disk_ok u" using st(3) iu e by (simp add: disk_ok_def)
  ultimately show "file_st u ip" using w(1,2,4) ad st(4-6) unfolding file_st_def by simp
  show "byte_at u ip j = byte_at t ip j" if "j < 71680"
  proof -
    have "j div 512 < 140" using that less_mult_imp_div_less [of j 140 512] by simp
    then have "slots t ip (j div 512) \<noteq> h" using h(4) by simp
    then show ?thesis using w(5) sl by (simp add: byte_at_def)
  qed
qed

lemma iupdate_spec:
  fixes s :: "'a fs_st_scheme"
  assumes "file_st s ip" "in_use s (home s ip)" "home s ip \<noteq> sb_bmapstart (sb s)" "home s ip \<noteq> 0" "\<forall>k \<le> 140. slots s ip k \<noteq> home s ip" "budget s 1"
  shows "\<exists>t. iupdate s ip = Ret t \<and> file_st t ip \<and> icache t = icache s \<and> env t = env s \<and> slots t ip = slots s ip \<and> in_use t = in_use s
    \<and> (\<forall>c. c \<noteq> home s ip \<longrightarrow> view t c = view s c) \<and> (\<forall>j < 71680. byte_at t ip j = byte_at s ip j)
    \<and> get_dinode (view t (home s ip)) (dip_off (i_inum (icache s ! ip))) = inode_image (icache s ! ip)"
proof -
  let ?h = "home s ip" and ?i = "icache s ! ip"
  let ?d = "put_dinode (view s ?h) (dip_off (i_inum ?i)) (inode_image ?i)"
  have st: "binv s {}" "in_tx s" "disk_ok s" "i_dev ?i = 1" "length (i_addrs ?i) = 13" using assms(1) by (simp_all add: file_st_def addrs_def)
  have vl: "length (view s ?h) = 512" using length_view [OF st(1)] .
  have "can_read {} s ?h" using assms(2) st(3) budget_dirty [OF assms(6)] log_room_le [of s] by (auto simp: can_read_def in_use_def disk_ok_def)
  moreover have "card (dirty_blocks s) < log_room s" using budget_dirty [OF assms(6)] by simp
  ultimately obtain b r u v where w: "bread s 1 ?h = Ret (b, r)" "b < length (bcache r)" "b_data (bcache r ! b) = view s ?h" "icache r = icache s"
    "log_write (set_buf b (\<lambda>x. x\<lparr>b_data := ?d\<rparr>) r) b = Ret u" "brelse u b = Ret v" "wrote_block {} ?h ?d s v"
    using update_block [OF st(1,2), of ?h ?d] vl by auto
  have "set_buf b (\<lambda>x. x\<lparr>b_data := put_dinode (b_data x) (dip_off (i_inum ?i)) (inode_image ?i)\<rparr>) r = set_buf b (\<lambda>x. x\<lparr>b_data := ?d\<rparr>) r"
    using w(2,3) by (intro set_buf_cong) simp_all
  then have "iupdate s ip = Ret v" using w(1,4-6) st(4) by (simp add: iupdate_def home_def)
  moreover have "dip_off (i_inum ?i) + 64 \<le> 512" by (simp add: dip_off_def unat_mod)
  then have "get_dinode ?d (dip_off (i_inum ?i)) = inode_image ?i" using get_put_dinode [of "inode_image ?i"] vl st(5) by (simp add: inode_image_def)
  moreover note other_block [OF assms(1-5) w(7)]
  moreover have "icache v = icache s" "env v = env s" "view v = (view s)(?h := ?d)" using w(7) by (simp_all add: wrote_block_def)
  ultimately show ?thesis by auto
qed

text \<open>\<open>t\<close> differs from \<open>s\<close> on no block in use but the bitmap and those of the file and its inode.\<close>

definition only_file :: "nat \<Rightarrow> 'a fs_st_scheme \<Rightarrow> 'a fs_st_scheme \<Rightarrow> bool" where
  "only_file ip s t \<longleftrightarrow> (\<forall>c. in_use s c \<longrightarrow> in_use t c) \<and> (\<forall>j. j \<noteq> ip \<longrightarrow> icache t ! j = icache s ! j)
     \<and> (\<forall>c. in_use s c \<longrightarrow> c \<noteq> sb_bmapstart (sb s) \<longrightarrow> c \<noteq> home s ip \<longrightarrow> (\<forall>k \<le> 140. c = slots s ip k \<longrightarrow> c = 0) \<longrightarrow> view t c = view s c)"

lemma put_bytes_home:
  assumes g: "file_good s ip" and p: "put_bytes ip i xs s t"
  shows "home t ip = home s ip" "in_use t (home s ip)" "\<forall>k \<le> 140. slots t ip k \<noteq> home s ip" "view t (home s ip) = view s (home s ip)" "only_file ip s t"
    "i_size (icache t ! ip) = i_size (icache s ! ip)" "i_type (icache t ! ip) = i_type (icache s ! ip)" "sb t = sb s" "i_inum (icache t ! ip) = i_inum (icache s ! ip)"
proof -
  let ?h = "home s ip"
  have G: "in_use s ?h" "?h \<noteq> sb_bmapstart (sb s)" "?h \<noteq> 0" "\<forall>k \<le> 140. slots s ip k \<noteq> ?h" "ip < length (icache s)"
    using g by (simp_all add: file_good_def file_st_def)
  obtain as where ic: "icache t = (icache s)[ip := (icache s ! ip)\<lparr>i_addrs := as\<rparr>]" using p unfolding put_bytes_def by blast
  have P: "env t = env s" "\<And>j. j \<le> 140 \<Longrightarrow> slots s ip j \<noteq> 0 \<Longrightarrow> slots t ip j = slots s ip j" "\<And>c. in_use s c \<Longrightarrow> in_use t c"
    "\<And>k. k \<le> 140 \<Longrightarrow> slots s ip k = 0 \<Longrightarrow> in_use s (slots t ip k) \<Longrightarrow> slots t ip k = 0"
    "\<And>c. in_use s c \<Longrightarrow> c \<noteq> sb_bmapstart (sb s) \<Longrightarrow> (\<forall>k \<le> 140. c = slots t ip k \<longrightarrow> c = 0) \<Longrightarrow> view t c = view s c"
    using p unfolding put_bytes_def by blast+
  show sb: "sb t = sb s" using envD [OF P(1)] by simp
  show sz: "i_size (icache t ! ip) = i_size (icache s ! ip)" "i_type (icache t ! ip) = i_type (icache s ! ip)" "i_inum (icache t ! ip) = i_inum (icache s ! ip)"
    using ic G(5) by simp_all
  then show "home t ip = ?h" using sb by (simp add: home_def)
  show "in_use t ?h" using P(3) G(1) by blast
  have fr: "\<forall>k \<le> 140. c = slots t ip k \<longrightarrow> c = 0" if "in_use s c" "\<forall>k \<le> 140. c = slots s ip k \<longrightarrow> c = 0" for c
    using P(2,4) that by metis
  have nh: "\<forall>k \<le> 140. ?h = slots t ip k \<longrightarrow> ?h = 0" using fr [OF G(1)] G(4) by metis
  then show "\<forall>k \<le> 140. slots t ip k \<noteq> ?h" using G(3) by metis
  show "view t ?h = view s ?h" using P(5) [OF G(1,2) nh] .
  show "only_file ip s t" unfolding only_file_def using P(3,5) fr ic by auto
qed

lemma only_file_trans_home:
  assumes "only_file ip s t" "sb t = sb s" "home t ip = home s ip" "in_use u = in_use t" "icache u = (icache t)[ip := i]" "\<forall>c. c \<noteq> home s ip \<longrightarrow> view u c = view t c"
  shows "only_file ip s u"
  using assms unfolding only_file_def by auto

lemma writei_content:
  assumes "unat (i_size (icache s ! ip)) \<le> 71680" "unat (i_size (icache t ! ip)) = max (unat (i_size (icache s ! ip))) (i + length xs)"
    "i + length xs \<le> 71680" "i \<le> unat (i_size (icache s ! ip))"
    "\<And>j. i \<le> j \<Longrightarrow> j < i + length xs \<Longrightarrow> byte_at t ip j = xs ! (j - i)"
    "\<And>j. j < unat (i_size (icache s ! ip)) \<Longrightarrow> \<not> (i \<le> j \<and> j < i + length xs) \<Longrightarrow> byte_at t ip j = byte_at s ip j"
  shows "content (view t) (icache t ! ip) = (let c = content (view s) (icache s ! ip) in take i c @ xs @ drop (i + length xs) c)"
proof (rule nth_equalityI)
  let ?c = "content (view s) (icache s ! ip)"
  have lc: "length ?c = unat (i_size (icache s ! ip))" by (rule length_content)
  show "length (content (view t) (icache t ! ip)) = length (let c = ?c in take i c @ xs @ drop (i + length xs) c)"
    using assms(2,4) lc by (simp add: length_content Let_def max_def)
  fix j assume "j < length (content (view t) (icache t ! ip))"
  then have j: "j < max (length ?c) (i + length xs)" using assms(2) lc by (simp add: length_content)
  have tj: "content (view t) (icache t ! ip) ! j = byte_at t ip j" using content_nth [of t ip j] assms(1-3) j lc by simp
  have sj: "?c ! j = byte_at s ip j" if "j < length ?c" using content_nth [of s ip j] assms(1) that lc by simp
  consider "j < i" | "i \<le> j" "j < i + length xs" | "i + length xs \<le> j" "j < length ?c" using j by linarith
  then show "content (view t) (icache t ! ip) ! j = (let c = ?c in take i c @ xs @ drop (i + length xs) c) ! j"
  proof cases
    case 1
    then show ?thesis using assms(4,6) tj sj lc by (simp add: nth_append Let_def)
  next
    case 2
    then have "j - i < length xs" by linarith
    then show ?thesis using 2 assms(4,5) tj lc by (simp add: nth_append Let_def)
  next
    case 3
    then have "\<not> j - i < length xs" "i + length xs + (j - i - length xs) = j" by linarith+
    then show ?thesis using 3 assms(4,6) tj sj lc by (simp add: nth_append Let_def)
  qed
qed

lemma no_holes:
  assumes "file_good s ip" "j < unat (i_size (icache s ! ip))"
  shows "slots s ip (j div 512) \<noteq> 0"
proof -
  have "j div 512 * 512 < unat (i_size (icache s ! ip))" using assms(2) div_times_less_eq_dividend [of j 512] by linarith
  then show ?thesis using assms(1) by (simp add: file_good_def)
qed

lemma writei_grown:
  fixes s t :: "'a fs_st_scheme"
  assumes g: "file_good s ip" and p: "put_bytes ip i xs s t" and b: "budget t 1" and i: "i \<le> unat (i_size (icache s ! ip))"
    and e: "unat n = i + length xs" "i_size (icache s ! ip) < n" "unat n \<le> 71680"
  shows "\<exists>u. iupdate (set_inode ip (\<lambda>x. x\<lparr>i_size := n\<rparr>) t) ip = Ret u \<and> file_good u ip \<and> only_file ip s u
    \<and> content (view u) (icache u ! ip) = take i (content (view s) (icache s ! ip)) @ xs"
proof -
  note H = put_bytes_home [OF g p]
  let ?t = "set_inode ip (\<lambda>x. x\<lparr>i_size := n\<rparr>) t"
  have G: "home s ip \<noteq> sb_bmapstart (sb s)" "home s ip \<noteq> 0" "unat (i_size (icache s ! ip)) \<le> 71680" "i_type (icache s ! ip) \<noteq> T_DEV"
    using g by (simp_all add: file_good_def)
  have ft: "file_st t ip" using p by (simp add: put_bytes_def)
  then have ip: "ip < length (icache t)" by (simp add: file_st_def)
  have t: "?t = t\<lparr>icache := (icache t)[ip := (icache t ! ip)\<lparr>i_size := n\<rparr>]\<rparr>" by (simp add: set_inode_def)
  have ad: "addrs ?t ip = addrs t ip" using ip by (simp add: t addrs_def)
  then have sl: "slots ?t ip = slots t ip" by (simp add: slots_def t)
  have f1: "file_st ?t ip" using ft ad sl ip unfolding file_st_def by (simp add: t)
  have hm: "home ?t ip = home s ip" using H(8,9) ip by (simp add: t home_def)
  have b1: "budget ?t 1" using b by (simp add: budget_def t log_room_def)
  have iu: "in_use ?t (home ?t ip)" "home ?t ip \<noteq> sb_bmapstart (sb ?t)" "home ?t ip \<noteq> 0" "\<forall>k \<le> 140. slots ?t ip k \<noteq> home ?t ip"
    using H(2,3,8) G hm sl by (simp_all add: t)
  from iupdate_spec [OF f1 iu b1] obtain u where u: "iupdate ?t ip = Ret u" "file_st u ip" "icache u = icache ?t" "env u = env ?t" "slots u ip = slots t ip" "in_use u = in_use ?t"
    "\<forall>c. c \<noteq> home s ip \<longrightarrow> view u c = view t c" "\<forall>j < 71680. byte_at u ip j = byte_at ?t ip j"
    "get_dinode (view u (home s ip)) (dip_off (i_inum (icache ?t ! ip))) = inode_image (icache ?t ! ip)" unfolding hm sl by (auto simp: t)
  have ui: "icache u ! ip = (icache t ! ip)\<lparr>i_size := n\<rparr>" using u(3) ip by (simp add: t)
  have su: "sb u = sb s" using envD [OF u(4)] H(8) by (simp add: t)
  have hu: "home u ip = home s ip" using ui su H(9) by (simp add: home_def)
  have byt: "byte_at ?t ip j = byte_at t ip j" for j using sl by (simp add: byte_at_def t)
  have P: "\<And>j. i \<le> j \<Longrightarrow> j < i + length xs \<Longrightarrow> slots t ip (j div 512) \<noteq> 0 \<and> byte_at t ip j = xs ! (j - i)"
    "\<And>j. j < 71680 \<Longrightarrow> \<not> (i \<le> j \<and> j < i + length xs) \<Longrightarrow> slots s ip (j div 512) \<noteq> 0 \<Longrightarrow> byte_at t ip j = byte_at s ip j"
    "\<And>j. j \<le> 140 \<Longrightarrow> slots s ip j \<noteq> 0 \<Longrightarrow> slots t ip j = slots s ip j"
    using p unfolding put_bytes_def by blast+
  have lt: "unat (i_size (icache s ! ip)) < i + length xs" using e by (simp add: word_less_nat_alt)
  have hole: "slots u ip k \<noteq> 0" if "k * 512 < i + length xs" for k
  proof -
    have k: "k \<le> 140" using that e by simp
    show ?thesis
    proof (cases "k * 512 < unat (i_size (icache s ! ip))")
      case True
      then show ?thesis using no_holes [OF g True] P(3) [OF k] u(5) by simp
    next
      case False
      then show ?thesis using P(1) [of "k * 512"] that i u(5) by simp
    qed
  qed
  have "only_file ip s u"
    by (rule only_file_trans_home [OF H(5,8,1), of u]) (use u(3,6,7) in \<open>simp_all add: t\<close>)
  moreover have "file_good u ip"
    using u(2,5,6,9) ui su hu hole e G H(2,3,7) ip unfolding file_good_def by (simp add: t)
  moreover have "content (view u) (icache u ! ip) = (let c = content (view s) (icache s ! ip) in take i c @ xs @ drop (i + length xs) c)"
  proof (rule writei_content)
    show "byte_at u ip j = byte_at s ip j" if "j < unat (i_size (icache s ! ip))" "\<not> (i \<le> j \<and> j < i + length xs)" for j
      using that G(3) u(8) byt P(2) [of j] no_holes [OF g that(1)] by simp
    show "byte_at u ip j = xs ! (j - i)" if "i \<le> j" "j < i + length xs" for j using that u(8) byt P(1) [OF that] e by simp
  qed (use G(3) ui e lt i in simp_all)
  ultimately show ?thesis using u(1) lt by (auto simp: Let_def length_content)
qed

text \<open>
  C2: \<^verbatim>\<open>writei()\<close> on a file, inside a transaction with room in the log and on a disk with enough free blocks, returns the number of bytes
  written and leaves the file with exactly these bytes at the given offset, extended if they reach past its end, all others as before.
  It allocates direct and indirect blocks as needed, never one in use, keeps the inode on the disk up to date and changes no block in
  use that is not of this file.
\<close>

theorem writei_writes_file:
  fixes s :: "'a fs_st_scheme"
  assumes g: "file_good s ip" and off: "off \<le> i_size (icache s ! ip)" "unat off + unat n \<le> 71680" "unat n \<le> length src"
    and b: "budget s (2 * nblks (unat off) (unat n) + 1)" and f: "2 * nblks (unat off) (unat n) \<le> card (free_blocks s)"
  shows "\<exists>t. writei devs s ip src off n = Ret (n, t) \<and> file_good t ip \<and> only_file ip s t
    \<and> content (view t) (icache t ! ip) = (let c = content (view s) (icache s ! ip) in take (unat off) c @ take (unat n) src @ drop (unat off + unat n) c)"
proof -
  let ?sz = "i_size (icache s ! ip)" and ?xs = "take (unat n) src"
  have G: "file_st s ip" "unat ?sz \<le> 71680" "i_type (icache s ! ip) \<noteq> T_DEV" using g by (simp_all add: file_good_def)
  have lx: "length ?xs = unat n" using off(3) by simp
  obtain t where t: "writei_loop s ip src off n = Ret (off + n, t)" "put_bytes ip (unat off) ?xs s t"
    using writei_loop_spec [OF G(1) off(2,3) b f] by blast
  note H = put_bytes_home [OF g t(2)]
  have on: "unat (off + n) = unat off + unat n" using off(2) unat_add32 [of off n] by simp
  have c: "\<not> off > ?sz" "\<not> off + n < off" "\<not> off + n > of_nat (140 * 512)" using off(1,2) on by (simp_all add: word_less_nat_alt word_le_nat_alt)
  have P: "file_st t ip" "\<And>j. unat off \<le> j \<Longrightarrow> j < unat off + unat n \<Longrightarrow> slots t ip (j div 512) \<noteq> 0 \<and> byte_at t ip j = ?xs ! (j - unat off)"
    "\<And>j. j < 71680 \<Longrightarrow> \<not> (unat off \<le> j \<and> j < unat off + unat n) \<Longrightarrow> slots s ip (j div 512) \<noteq> 0 \<Longrightarrow> byte_at t ip j = byte_at s ip j"
    "\<And>j. j \<le> 140 \<Longrightarrow> slots s ip j \<noteq> 0 \<Longrightarrow> slots t ip j = slots s ip j" "budget t 1"
    "(\<forall>j. unat off \<le> j \<longrightarrow> j < unat off + unat n \<longrightarrow> slots s ip (j div 512) \<noteq> 0) \<Longrightarrow> icache t = icache s"
    using t(2) b unfolding put_bytes_def lx by blast+
  have e: "writei devs s ip src off n = (if 0 < n \<and> off + n > ?sz then bind_res (iupdate (set_inode ip (\<lambda>x. x\<lparr>i_size := off + n\<rparr>) t) ip) (\<lambda>s. Ret (n, s)) else Ret (n, t))"
    using c G(3) t(1) H(6) by (simp add: writei_def Let_def)
  show ?thesis
  proof (cases "0 < n \<and> off + n > ?sz")
    case True
    then obtain u where "iupdate (set_inode ip (\<lambda>x. x\<lparr>i_size := off + n\<rparr>) t) ip = Ret u" "file_good u ip" "only_file ip s u"
        "content (view u) (icache u ! ip) = take (unat off) (content (view s) (icache s ! ip)) @ ?xs"
      using writei_grown [OF g t(2) P(5), of "off + n"] off on lx by (auto simp: word_le_nat_alt)
    then show ?thesis using e True on by (auto simp: Let_def length_content word_less_nat_alt)
  next
    case False
    then have le: "unat off + unat n \<le> unat ?sz" using off(1) on by (auto simp: word_less_nat_alt word_le_nat_alt word_neq_0_conv [symmetric])
    then have nz: "slots s ip (j div 512) \<noteq> 0" if "j < unat off + unat n" for j using no_holes [OF g] that by simp
    then have ic: "icache t = icache s" using P(6) by blast
    have hole: "slots t ip k \<noteq> 0" if "k * 512 < unat ?sz" for k
      using no_holes [OF g that] P(4) [of k] that G(2) by simp
    have "file_good t ip" using g P(1) H(1-4,8) ic hole unfolding file_good_def by simp
    moreover have "content (view t) (icache t ! ip) = (let c = content (view s) (icache s ! ip) in take (unat off) c @ ?xs @ drop (unat off + length ?xs) c)"
    proof (rule writei_content)
      show "byte_at t ip j = byte_at s ip j" if "j < unat ?sz" "\<not> (unat off \<le> j \<and> j < unat off + length ?xs)" for j
        using that G(2) P(3) [of j] no_holes [OF g that(1)] lx by simp
      show "byte_at t ip j = ?xs ! (j - unat off)" if "unat off \<le> j" "j < unat off + length ?xs" for j using that P(2) [of j] lx by simp
    qed (use G(2) ic le lx off in \<open>simp_all add: word_le_nat_alt\<close>)
    ultimately show ?thesis using e False H(5) lx by auto
  qed
qed

lemma good_file_ok: "file_good s ip \<Longrightarrow> file_ok s (icache s ! ip)"
proof -
  assume g: "file_good s ip"
  have st: "disk_ok s" "wf_slots s (slots s ip)" "i_dev (icache s ! ip) = 1" using g by (simp_all add: file_good_def file_st_def)
  have dk: "slots s ip k < disksize s" if "k \<le> 140" "slots s ip k \<noteq> 0" for k
    using wf_slotD [OF st(2) that] st(1) by (auto simp: in_use_def disk_ok_def)
  have "mapped s (i_addrs (icache s ! ip)) k" if "k < (unat (i_size (icache s ! ip)) + 511) div 512" for k
  proof -
    have "Suc k * 512 \<le> unat (i_size (icache s ! ip)) + 511" using that less_eq_div_iff_mult_less_eq [of 512 "Suc k"] by simp
    then have "k * 512 < unat (i_size (icache s ! ip))" by simp
    then have k: "slots s ip k \<noteq> 0" "k < 140" using g by (auto simp: file_good_def)
    have s: "slots s ip k = blk (view s) (i_addrs (icache s ! ip)) k" "slots s ip 140 = i_addrs (icache s ! ip) ! 12"
      using k(2) by (simp_all add: slots_def slot_def addrs_def)
    have "12 \<le> k \<Longrightarrow> slots s ip 140 \<noteq> 0" using k s by (auto simp: blk_def)
    then show ?thesis using k dk [of k] dk [of 140] s by (simp add: mapped_def)
  qed
  then show ?thesis using g st(3) by (simp add: file_ok_def file_good_def)
qed

theorem writei_writes_file_witness:
  "\<exists>(s :: fs_st) t. file_good s 0 \<and> writei no_devices s 0 [97, 98, 99] 0 3 = Ret (3, t) \<and> file_good t 0 \<and> content (view t) (icache t ! 0) = [97, 98, 99]"
proof -
  obtain z0 :: fs_st where True by blast
  obtain i0 :: inode where True by blast
  define i where "i = i0\<lparr>i_dev := 1, i_inum := 1, i_type := T_FILE, i_size := 0, i_addrs := replicate 13 0\<rparr>"
  define d where "d = (\<lambda>bn :: u32. if bn = 58 then replicate 8 255 @ replicate 504 0
    else if bn = 32 then put_dinode (replicate 512 0) 64 (inode_image i) else replicate 512 (0 :: u8))"
  define b where "b = \<lparr>sb_size = 1000, sb_nblocks = 941, sb_ninodes = 200, sb_nlog = 30, sb_logstart = 2, sb_inodestart = 32, sb_bmapstart = 58\<rparr>"
  define z where "z = z0\<lparr>bcache := replicate 31 zero_buf, memdisk := d, cpu_proc := \<lambda>_. None, disksize := 1000,
    lh_n := 0, lh_block := replicate 30 0, log_outstanding := 1, log_size := 30, icache := [i], sb := b\<rparr>"
  let ?s = "binit z"
  have zf: "bcache z = replicate 31 zero_buf" "memdisk z = d" "cur_ok z" by (simp_all add: z_def cur_ok_def)
  have dl: "\<forall>bn. length (d bn) = 512" by (simp add: d_def)
  have v: "binv ?s {}" "dirty_blocks ?s = {}" "view ?s = d" using binit_inv [of z] zf dl by simp_all
  have f: "icache ?s = [i]" "disksize ?s = 1000" "sb ?s = b" "lh_n ?s = 0" "lh_block ?s = replicate 30 0" "log_outstanding ?s = 1" "log_size ?s = 30"
    by (simp_all add: binit_def z_def)
  have bm: "bitmap ?s = replicate 8 255 @ replicate 504 0" using v(3) f(3) by (simp add: bitmap_def d_def b_def)
  have us: "used (bitmap ?s) n" if "n < 64" for n
  proof -
    have "n div 8 < 8" "n mod 8 < 8" using that by auto
    then have "bitmap ?s ! (n div 8) = - 1" "n mod 8 < LENGTH(8)" using bm by (simp_all add: nth_append)
    then show ?thesis by (simp add: used_bit bit_minus_1_iff)
  qed
  have fr: "{64, 65} \<subseteq> free_blocks ?s" using bm f(3) by (simp add: free_blocks_def used_def nth_append b_def)
  have fc: "2 \<le> card (free_blocks ?s)" using card_mono [OF _ fr] by simp
  have iu: "in_use ?s 0" "in_use ?s 32" "in_use ?s 58" using us [of 0] us [of 32] us [of 58] f(3) by (simp_all add: in_use_def b_def)
  have tx: "in_tx ?s" using f v(2) by (simp add: in_tx_def word_sless_alt)
  have dk: "disk_ok ?s" using iu f(2,3) by (simp add: disk_ok_def b_def)
  have sl: "slots ?s 0 k = 0" if "k \<le> 140" for k using f(1) that by (simp add: slots_def slot_def addrs_def blk_def i_def)
  have ho: "home ?s 0 = 32" using f(1,3) by (simp add: home_def IBLOCK_def i_def b_def)
  have ins: "icache ?s ! 0 = i" using f(1) by simp
  have "file_st ?s 0" using v(1) tx dk f(1) sl by (simp add: file_st_def addrs_def i_def wf_slots_def)
  moreover have "get_dinode (d 32) (dip_off (i_inum i)) = inode_image i"
    using get_put_dinode [of "inode_image i" 64 "replicate 512 0"] by (simp add: d_def dip_off_def i_def inode_image_def)
  moreover have "i_type i \<noteq> T_DEV" "i_size i = 0" "i_inum i = 1" by (simp_all add: i_def)
  ultimately have g: "file_good ?s 0" using ho iu sl v(3) ins f(3) by (simp add: file_good_def b_def)
  have bu: "budget ?s (2 * nblks 0 3 + 1)" using v(2) f(7) by (simp add: budget_def log_room_def nblks_def)
  from writei_writes_file [OF g, of 0 3 "[97, 98, 99]" no_devices] bu fc obtain t where
    t: "writei no_devices ?s 0 [97, 98, 99] 0 3 = Ret (3, t)" "file_good t 0"
      "content (view t) (icache t ! 0) = (let c = content (view ?s) (icache ?s ! 0) in take 0 c @ [97, 98, 99] @ drop 3 c)"
    by (auto simp: nblks_def)
  moreover have "content (view ?s) (icache ?s ! 0) = []" using ins by (simp add: content_def file_data_def i_def)
  ultimately show ?thesis using g by (intro exI [of _ ?s] exI [of _ t]) simp
qed

end
