(* ===== verification/Ide.thy ===== *)
theory Ide
  imports Bio
begin

text \<open>
  The driver of the IDE controller (ide.c), which the disk build of the kernel has in place of memide.c. Requests wait in a queue of
  buffers linked through \<^verbatim>\<open>qnext\<close>; the first one is active, and its interrupt starts the next. What the ports return is an argument of the
  operations, what is written to them is recorded in order. \<^verbatim>\<open>idelock\<close> makes the operations atomic;
  \<^verbatim>\<open>iderw\<close> is cut where it goes to sleep.
\<close>

abbreviation (input) FSSIZE :: u32 where "FSSIZE \<equiv> 1000"
abbreviation (input) IDE_BSY :: u8 where "IDE_BSY \<equiv> 0x80"
abbreviation (input) IDE_DRDY :: u8 where "IDE_DRDY \<equiv> 0x40"
abbreviation (input) IDE_DF :: u8 where "IDE_DF \<equiv> 0x20"
abbreviation (input) IDE_ERR :: u8 where "IDE_ERR \<equiv> 0x01"
abbreviation (input) IDE_CMD_READ :: u8 where "IDE_CMD_READ \<equiv> 0x20"
abbreviation (input) IDE_CMD_WRITE :: u8 where "IDE_CMD_WRITE \<equiv> 0x30"

datatype ide_io = OutB u16 u8 | OutSl "u8 list"

record ide_st = bio_st +
  idequeue :: "nat option"
  havedisk1 :: bool
  ide_out :: "ide_io list"

section \<open>Operations\<close>

text \<open>The status register is read until the controller is ready; \<open>sts\<close> are the values it will return.\<close>

fun idewait :: "bool \<Rightarrow> u8 list \<Rightarrow> (u32 \<times> u8 list) res" where
  "idewait checkerr [] = Diverge"
| "idewait checkerr (r # sts) =
     (if r AND (IDE_BSY OR IDE_DRDY) \<noteq> IDE_DRDY then idewait checkerr sts
      else if checkerr \<and> r AND (IDE_DF OR IDE_ERR) \<noteq> 0 then Ret (- 1, sts)
      else Ret (0, sts))"

definition io :: "ide_io list \<Rightarrow> 'a ide_st_scheme \<Rightarrow> 'a ide_st_scheme" where
  "io xs s = s\<lparr>ide_out := ide_out s @ xs\<rparr>"

fun probe_disk1 :: "nat \<Rightarrow> u8 list \<Rightarrow> bool \<times> u8 list" where
  "probe_disk1 0 sts = (False, sts)"
| "probe_disk1 (Suc n) [] = (False, [])"
| "probe_disk1 (Suc n) (r # sts) = (if r \<noteq> 0 then (True, sts) else probe_disk1 n sts)"

definition ideinit_pio :: "'a ide_st_scheme \<Rightarrow> u8 list \<Rightarrow> ('a ide_st_scheme \<times> u8 list) res" where
  "ideinit_pio s sts =
     bind_res (idewait False sts) (\<lambda>(_, sts).
       let s = io [OutB 0x1F6 (0xE0 OR push_bit 4 1)] s;
           (found, sts) = probe_disk1 1000 sts;
           s = (if found then s\<lparr>havedisk1 := True\<rparr> else s)
       in Ret (io [OutB 0x1F6 (0xE0 OR push_bit 4 0)] s, sts))"

definition idestart :: "'a ide_st_scheme \<Rightarrow> nat \<Rightarrow> u8 list \<Rightarrow> ('a ide_st_scheme \<times> u8 list) res" where
  "idestart s b sts =
     (let x = bcache s ! b in
      if FSSIZE \<le> b_blockno x then Panic ''incorrect blockno''
      else let sector = b_blockno x * 1 in
        bind_res (idewait False sts) (\<lambda>(_, sts).
          let s = io [OutB 0x3F6 0, OutB 0x1F2 1, OutB 0x1F3 (ucast (sector AND 0xFF)),
                OutB 0x1F4 (ucast (drop_bit 8 sector AND 0xFF)), OutB 0x1F5 (ucast (drop_bit 16 sector AND 0xFF)),
                OutB 0x1F6 (ucast (0xE0 OR push_bit 4 (b_dev x AND 1) OR (drop_bit 24 sector AND 0xF)))] s
          in Ret (if b_flags x AND B_DIRTY \<noteq> 0
                  then io [OutB 0x1F7 IDE_CMD_WRITE, OutSl (b_data x)] s
                  else io [OutB 0x1F7 IDE_CMD_READ] s, sts)))"

text \<open>\<open>data\<close> is what \<^verbatim>\<open>insl\<close> reads from the data port.\<close>

definition ideintr :: "'a ide_st_scheme \<Rightarrow> u8 list \<Rightarrow> u8 list \<Rightarrow> ('a ide_st_scheme \<times> u8 list) res" where
  "ideintr s sts data =
     (case idequeue s of
        None \<Rightarrow> Ret (s, sts)
      | Some b \<Rightarrow>
          let s = s\<lparr>idequeue := b_qnext (bcache s ! b)\<rparr> in
          bind_res (if b_flags (bcache s ! b) AND B_DIRTY = 0
            then bind_res (idewait True sts) (\<lambda>(r, sts).
              Ret (if 0 <=s r then set_buf b (\<lambda>x. x\<lparr>b_data := data\<rparr>) s else s, sts))
            else Ret (s, sts)) (\<lambda>(s, sts).
            let s = set_buf b (\<lambda>x. x\<lparr>b_flags := b_flags x OR B_VALID\<rparr>) s;
                s = set_buf b (\<lambda>x. x\<lparr>b_flags := b_flags x AND NOT B_DIRTY\<rparr>) s;
                s = wakeup1 (BufChan b) s
            in case idequeue s of None \<Rightarrow> Ret (s, sts) | Some n \<Rightarrow> idestart s n sts))"






section \<open>The queue\<close>







section \<open>The controller\<close>
















section \<open>Requests and interrupts\<close>








lemma set_clear_bits:
  fixes f v d :: "'a::len word"
  assumes "v AND d = 0"
  shows "(f OR v) AND NOT d = (f AND NOT d) OR v" "f AND d = 0 \<Longrightarrow> (f OR v) AND NOT d = f OR v"
    "((f OR v) AND NOT d) AND (v OR d) = v"
proof -
  have n: "\<not> (bit x k \<and> bit d k)" if "x AND d = 0" for x k using that by (metis bit_and_iff bit_0_eq bot_apply bot_bool_def)
  show "(f OR v) AND NOT d = (f AND NOT d) OR v" using n [OF assms] by (auto intro!: bit_word_eqI simp: bit_simps)
  show "((f OR v) AND NOT d) AND (v OR d) = v" using n [OF assms] by (auto intro!: bit_word_eqI simp: bit_simps)
  show "(f OR v) AND NOT d = f OR v" if "f AND d = 0" using n [OF assms] n [OF that] by (auto intro!: bit_word_eqI simp: bit_simps)
qed

lemma flag_bits:
  fixes f :: u32
  shows "(f OR B_VALID) AND NOT B_DIRTY = (f AND NOT B_DIRTY) OR B_VALID"
    and "f AND B_DIRTY = 0 \<Longrightarrow> (f OR B_VALID) AND NOT B_DIRTY = f OR B_VALID"
    and "((f OR B_VALID) AND NOT B_DIRTY) AND (B_VALID OR B_DIRTY) = B_VALID"
  by (rule set_clear_bits(1), simp) (rule set_clear_bits(2), simp, assumption, rule set_clear_bits(3), simp)







section \<open>Properties\<close>



text \<open>
  A read that the controller reports as failed completes like one that succeeded: the buffer is marked valid although it
  keeps its old bytes.
\<close>

lemma read_error_marks_valid:
  assumes "idequeue s = Some b" "b < length (bcache s)" "b_flags (bcache s ! b) AND B_DIRTY = 0" "b_qnext (bcache s ! b) = None"
  shows "\<exists>t. ideintr s [IDE_DRDY OR IDE_ERR] data = Ret (t, []) \<and> b_flags (bcache t ! b) = b_flags (bcache s ! b) OR B_VALID
    \<and> b_data (bcache t ! b) = b_data (bcache s ! b)"
  using assms flag_bits(2) [OF assms(3)] by (simp add: ideintr_def Let_def set_buf_def upd_buf_def wakeup1_def word_sle_eq)

end
