(* ===== verification/Umalloc.thy ===== *)
theory Umalloc
  imports Mem
begin

text \<open>
  The memory allocator of user programs (umalloc.c, after Kernighan and Ritchie). Free blocks form a ring in the order of their addresses; each
  begins with a header of eight bytes, the address of the next one and its size in headers. The ring goes through the
  static header \<^verbatim>\<open>base\<close>, which is a block of size 0. Memory is the byte memory of the process; \<open>grow\<close> tells whether
  \<^verbatim>\<open>sbrk\<close> succeeds for a break and an increment.
\<close>

record um_st =
  um_mem :: memory
  freep :: u32
  base_addr :: u32
  brk :: u32

definition s_ptr :: "memory \<Rightarrow> u32 \<Rightarrow> u32" where "s_ptr m p = load32 m p"
definition s_size :: "memory \<Rightarrow> u32 \<Rightarrow> u32" where "s_size m p = load32 m (p + 4)"
definition set_ptr :: "u32 \<Rightarrow> u32 \<Rightarrow> memory \<Rightarrow> memory" where "set_ptr p v m = store32 m p v"
definition set_size :: "u32 \<Rightarrow> u32 \<Rightarrow> memory \<Rightarrow> memory" where "set_size p v m = store32 m (p + 4) v"

section \<open>Operations\<close>

partial_function (option) free_loop :: "memory \<Rightarrow> u32 \<Rightarrow> u32 \<Rightarrow> u32 option" where
  "free_loop m bp p =
     (if bp > p \<and> bp < s_ptr m p then Some p
      else if p \<ge> s_ptr m p \<and> (bp > p \<or> bp < s_ptr m p) then Some p
      else free_loop m bp (s_ptr m p))"

text \<open>Joining the block to the upper and to the lower neighbour.\<close>

definition free_upper :: "u32 \<Rightarrow> u32 \<Rightarrow> memory \<Rightarrow> memory" where
  "free_upper bp p m =
     (if bp + 8 * s_size m bp = s_ptr m p
      then let m = set_size bp (s_size m bp + s_size m (s_ptr m p)) m in set_ptr bp (s_ptr m (s_ptr m p)) m
      else set_ptr bp (s_ptr m p) m)"

definition free_lower :: "u32 \<Rightarrow> u32 \<Rightarrow> memory \<Rightarrow> memory" where
  "free_lower bp p m =
     (if p + 8 * s_size m p = bp
      then let m = set_size p (s_size m p + s_size m bp) m in set_ptr p (s_ptr m bp) m
      else set_ptr p bp m)"

definition free :: "um_st \<Rightarrow> u32 \<Rightarrow> um_st option" where
  "free s ap =
     (let bp = ap - 8 in
      case free_loop (um_mem s) bp (freep s) of
        None \<Rightarrow> None
      | Some p \<Rightarrow> Some (s\<lparr>um_mem := free_lower bp p (free_upper bp p (um_mem s)), freep := p\<rparr>))"

definition sbrk :: "(u32 \<Rightarrow> u32 \<Rightarrow> bool) \<Rightarrow> um_st \<Rightarrow> u32 \<Rightarrow> u32 \<times> um_st" where
  "sbrk grow s n = (if grow (brk s) n then (brk s, s\<lparr>brk := brk s + n\<rparr>) else (- 1, s))"

definition morecore :: "(u32 \<Rightarrow> u32 \<Rightarrow> bool) \<Rightarrow> um_st \<Rightarrow> u32 \<Rightarrow> (u32 \<times> um_st) option" where
  "morecore grow s nu =
     (let nu = (if nu < 4096 then 4096 else nu);
          (p, s) = sbrk grow s (nu * 8) in
      if p = - 1 then Some (0, s)
      else case free (s\<lparr>um_mem := set_size p nu (um_mem s)\<rparr>) (p + 8) of
        None \<Rightarrow> None
      | Some s \<Rightarrow> Some (freep s, s))"

text \<open>Taking \<open>nunits\<close> headers out of block \<open>p\<close>, all of it or its upper end.\<close>

definition malloc_take :: "u32 \<Rightarrow> u32 \<Rightarrow> u32 \<Rightarrow> um_st \<Rightarrow> u32 \<times> um_st" where
  "malloc_take nunits prevp p s =
     (let m = um_mem s in
      if s_size m p = nunits
      then (p + 8, s\<lparr>um_mem := set_ptr prevp (s_ptr m p) m, freep := prevp\<rparr>)
      else let m = set_size p (s_size m p - nunits) m;
               q = p + 8 * s_size m p
           in (q + 8, s\<lparr>um_mem := set_size q nunits m, freep := prevp\<rparr>))"

partial_function (option) malloc_loop :: "(u32 \<Rightarrow> u32 \<Rightarrow> bool) \<Rightarrow> u32 \<Rightarrow> u32 \<Rightarrow> u32 \<Rightarrow> um_st \<Rightarrow> (u32 \<times> um_st) option" where
  "malloc_loop grow nunits prevp p s =
     (if s_size (um_mem s) p \<ge> nunits then Some (malloc_take nunits prevp p s)
      else if p = freep s
      then Option.bind (morecore grow s nunits) (\<lambda>r.
        if fst r = 0 then Some (0, snd r)
        else malloc_loop grow nunits (fst r) (s_ptr (um_mem (snd r)) (fst r)) (snd r))
      else malloc_loop grow nunits p (s_ptr (um_mem s) p) s)"

definition malloc :: "(u32 \<Rightarrow> u32 \<Rightarrow> bool) \<Rightarrow> um_st \<Rightarrow> u32 \<Rightarrow> (u32 \<times> um_st) option" where
  "malloc grow s nbytes =
     (let nunits = (nbytes + 8 - 1) div 8 + 1;
          s = (if freep s = 0
            then s\<lparr>um_mem := set_size (base_addr s) 0 (set_ptr (base_addr s) (base_addr s) (um_mem s)), freep := base_addr s\<rparr>
            else s)
      in malloc_loop grow nunits (freep s) (s_ptr (um_mem s) (freep s)) s)"

section \<open>Headers\<close>

definition far :: "u32 \<Rightarrow> u32 \<Rightarrow> bool" where
  "far x y \<longleftrightarrow> 4 dvd unat x \<and> 4 dvd unat y \<and> unat x + 8 \<le> 2 ^ 32 \<and> unat y + 8 \<le> 2 ^ 32 \<and> (unat x + 8 \<le> unat y \<or> unat y + 8 \<le> unat x)"

lemma far_sym: "far x y \<Longrightarrow> far y x"
  by (auto simp: far_def)

lemma unat_add4: "unat x + 8 \<le> 2 ^ 32 \<Longrightarrow> unat (x + 4 :: u32) = unat x + 4"
  by (subst unat_add32) simp_all

lemma header_same:
  assumes "4 dvd unat x" "unat x + 8 \<le> 2 ^ 32"
  shows "s_ptr (set_ptr x v m) x = v" "s_size (set_ptr x v m) x = s_size m x" "s_ptr (set_size x v m) x = s_ptr m x" "s_size (set_size x v m) x = v"
proof -
  have "unat x mod 4 = 0" "unat (x + 4) mod 4 = 0" using assms by (simp_all add: unat_add4 mod_eq_0_iff_dvd)
  then show "s_ptr (set_ptr x v m) x = v" "s_size (set_ptr x v m) x = s_size m x" "s_ptr (set_size x v m) x = s_ptr m x" "s_size (set_size x v m) x = v"
    by (simp_all add: s_ptr_def s_size_def set_ptr_def set_size_def load32_store32_aligned)
qed

lemma header_far:
  assumes "far x y"
  shows "s_ptr (set_ptr x v m) y = s_ptr m y" "s_size (set_ptr x v m) y = s_size m y"
    "s_ptr (set_size x v m) y = s_ptr m y" "s_size (set_size x v m) y = s_size m y"
proof -
  have u: "unat (x + 4) = unat x + 4" "unat (y + 4) = unat y + 4" using assms by (simp_all add: far_def unat_add4)
  have "unat x mod 4 = 0" "unat y mod 4 = 0" "unat (x + 4) mod 4 = 0" "unat (y + 4) mod 4 = 0"
    using assms by (simp_all add: far_def u mod_eq_0_iff_dvd)
  moreover have "x \<noteq> y" "x \<noteq> y + 4" "x + 4 \<noteq> y" "x + 4 \<noteq> y + 4" using assms u by (auto simp: far_def word_unat_eq_iff)
  ultimately show "s_ptr (set_ptr x v m) y = s_ptr m y" "s_size (set_ptr x v m) y = s_size m y"
    "s_ptr (set_size x v m) y = s_ptr m y" "s_size (set_size x v m) y = s_size m y"
    by (simp_all add: s_ptr_def s_size_def set_ptr_def set_size_def load32_store32_aligned)
qed

section \<open>The ring of free blocks\<close>

definition nxt :: "u32 list \<Rightarrow> u32 \<Rightarrow> u32" where
  "nxt ns e = (case ns of [] \<Rightarrow> e | n # _ \<Rightarrow> n)"

definition top_of :: "u32 list \<Rightarrow> nat \<Rightarrow> nat" where
  "top_of ns lim = (case ns of [] \<Rightarrow> lim | n # _ \<Rightarrow> unat n)"

lemma nxt_simps [simp]: "nxt [] e = e" "nxt (n # ns) e = n" "top_of [] lim = lim" "top_of (n # ns) lim = unat n"
  by (simp_all add: nxt_def top_of_def)

definition ext :: "memory \<Rightarrow> u32 \<Rightarrow> nat" where
  "ext m n = max 1 (unat (s_size m n))"

fun path :: "memory \<Rightarrow> u32 list \<Rightarrow> u32 \<Rightarrow> bool" where
  "path m [] e \<longleftrightarrow> True"
| "path m (n # ns) e \<longleftrightarrow> s_ptr m n = nxt ns e \<and> path m ns e"

fun room :: "memory \<Rightarrow> u32 list \<Rightarrow> nat \<Rightarrow> bool" where
  "room m [] lim \<longleftrightarrow> True"
| "room m (n # ns) lim \<longleftrightarrow> unat n + 8 * ext m n \<le> top_of ns lim \<and> room m ns lim"

definition area :: "memory \<Rightarrow> u32 list \<Rightarrow> nat set" where
  "area m ns = (\<Union>n \<in> set ns. {unat n ..< unat n + 8 * unat (s_size m n)})"

lemma path_append: "path m (xs @ y # ys) e \<longleftrightarrow> path m xs y \<and> path m (y # ys) e"
proof (induction xs)
  case (Cons x xs)
  then show ?case by (cases xs) auto
qed simp

lemma room_append: "room m (xs @ y # ys) lim \<longleftrightarrow> room m xs (unat y) \<and> room m (y # ys) lim"
proof (induction xs)
  case (Cons x xs)
  then show ?case by (cases xs) auto
qed simp

lemma path_suffix: "path m (us @ vs) e \<Longrightarrow> path m vs e"
  by (induction us) auto

lemma room_suffix: "room m (us @ vs) lim \<Longrightarrow> room m vs lim"
  by (induction us) auto

lemma path_cong: "(\<And>n. n \<in> set ns \<Longrightarrow> s_ptr m' n = s_ptr m n) \<Longrightarrow> path m' ns e \<longleftrightarrow> path m ns e"
  by (induction ns) auto

lemma room_cong: "(\<And>n. n \<in> set ns \<Longrightarrow> s_size m' n = s_size m n) \<Longrightarrow> room m' ns lim \<longleftrightarrow> room m ns lim"
  by (induction ns) (auto simp: ext_def)


lemma ext_pos: "8 \<le> 8 * ext m n" "8 * unat (s_size m n) \<le> 8 * ext m n"
  by (simp_all add: ext_def)

lemma top_of_le: "room m ns lim \<Longrightarrow> top_of ns lim \<le> lim"
proof (induction ns)
  case (Cons x ns)
  then show ?case using ext_pos(1) [of m x] by simp
qed simp

lemma room_le: "room m ns lim \<Longrightarrow> n \<in> set ns \<Longrightarrow> unat n + 8 * ext m n \<le> lim"
proof (induction ns)
  case (Cons x ns)
  then show ?case using top_of_le [of m ns lim] by auto
qed simp

lemma room_below: "room m (xs @ ys) lim \<Longrightarrow> x \<in> set xs \<Longrightarrow> y \<in> set ys \<Longrightarrow> unat x + 8 * ext m x \<le> unat y"
proof (induction xs)
  case (Cons a xs)
  show ?case
  proof (cases "x = a")
    case True
    obtain us vs where "ys = us @ y # vs" using Cons.prems(3) split_list by fastforce
    then have "room m ((a # xs @ us) @ y # vs) lim" using Cons.prems(1) by simp
    then have "room m (a # xs @ us) (unat y)" by (simp only: room_append)
    then show ?thesis using room_le [of m "a # xs @ us" "unat y" a] True by simp
  qed (use Cons in auto)
qed simp

lemma room_far:
  assumes "room m (xs @ y # ys) lim" "lim < 2 ^ 32" "\<forall>n \<in> set (xs @ y # ys). 4 dvd unat n" "n \<in> set xs \<union> set ys"
  shows "far y n"
proof -
  have "unat n + 8 \<le> unat y \<or> unat y + 8 \<le> unat n"
    using room_below [of m xs "y # ys" lim n y] room_below [of m "xs @ [y]" ys lim y n] assms(1,4) ext_pos(1) [of m n] ext_pos(1) [of m y] by fastforce
  moreover have "unat n + 8 \<le> lim" "unat y + 8 \<le> lim"
    using room_le [OF assms(1), of n] room_le [OF assms(1), of y] assms(4) ext_pos(1) [of m n] ext_pos(1) [of m y] by auto
  ultimately show ?thesis using assms(2-4) by (auto simp: far_def)
qed

definition ring_ok :: "memory \<Rightarrow> u32 \<Rightarrow> u32 list \<Rightarrow> nat \<Rightarrow> bool" where
  "ring_ok m b ns lim \<longleftrightarrow> ns \<noteq> [] \<and> hd ns = b \<and> path m ns b \<and> room m ns lim \<and> lim < 2 ^ 32 \<and> (\<forall>n \<in> set ns. 4 dvd unat n)
     \<and> s_size m b = 0 \<and> (\<forall>n \<in> set (tl ns). s_size m n \<noteq> 0)"

text \<open>A block of \<open>k\<close> headers at \<open>bp\<close> that no block of the ring overlaps.\<close>

definition outside :: "memory \<Rightarrow> u32 list \<Rightarrow> nat \<Rightarrow> u32 \<Rightarrow> nat \<Rightarrow> bool" where
  "outside m ns lim bp k \<longleftrightarrow> 4 dvd unat bp \<and> 0 < k \<and> unat bp + 8 * k \<le> lim \<and> unat (hd ns) < unat bp
     \<and> (\<forall>n \<in> set ns. unat n + 8 * ext m n \<le> unat bp \<or> unat bp + 8 * k \<le> unat n)"

definition between :: "memory \<Rightarrow> u32 list \<Rightarrow> u32 \<Rightarrow> u32 list \<Rightarrow> u32 \<Rightarrow> nat \<Rightarrow> bool" where
  "between m xs p ys bp k \<longleftrightarrow> (\<forall>n \<in> set (xs @ [p]). unat n + 8 * ext m n \<le> unat bp) \<and> (\<forall>n \<in> set ys. unat bp + 8 * k \<le> unat n)"

lemma find_between:
  assumes "room m ns lim" "ns \<noteq> []" "outside m ns lim bp k"
  shows "\<exists>xs p ys. ns = xs @ p # ys \<and> between m xs p ys bp k"
proof -
  let ?P = "\<lambda>n. unat n < unat bp"
  let ?us = "takeWhile ?P ns" and ?ys = "dropWhile ?P ns"
  have "?us \<noteq> []" using assms(2,3) by (cases ns) (auto simp: outside_def)
  then obtain xs p where us: "?us = xs @ [p]" by (metis rev_exhaust)
  have ns: "ns = xs @ p # ?ys" using takeWhile_dropWhile_id [of ?P ns] us by simp
  have lo: "unat n + 8 * ext m n \<le> unat bp" if "n \<in> set ?us" for n
  proof -
    have "unat n < unat bp" "n \<in> set ns" using set_takeWhileD [OF that] by auto
    then show ?thesis using assms(3) by (auto simp: outside_def)
  qed
  have hi: "unat bp + 8 * k \<le> unat n" if "n \<in> set ?ys" for n
  proof -
    have "?ys \<noteq> []" using that by (cases ?ys) auto
    then have "\<not> ?P (hd ?ys)" using hd_dropWhile [of ?P ns] by blast
    moreover obtain y zs where yz: "?ys = y # zs" using \<open>?ys \<noteq> []\<close> by (meson neq_Nil_conv)
    moreover have "unat y \<le> unat n"
    proof (cases "n = y")
      case False
      have "room m ((?us @ [y]) @ zs) lim" using takeWhile_dropWhile_id [of ?P ns] assms(1) yz by simp
      then show ?thesis using room_below [of m "?us @ [y]" zs lim y n] that yz False by force
    qed simp
    ultimately have "unat bp \<le> unat n" by simp
    moreover have "n \<in> set ns" using that by (metis set_dropWhileD)
    ultimately show ?thesis using assms(3) ext_pos(1) [of m n] by (auto simp: outside_def)
  qed
  show ?thesis using ns lo hi us by (intro exI [of _ xs] exI [of _ p] exI [of _ ?ys]) (simp add: between_def)
qed

section \<open>Freeing a block\<close>

lemma loop_over:
  assumes "path m ys b" "room m ys lim" "\<forall>n \<in> set ys. unat bp < unat n" "unat b < unat bp" "ys \<noteq> []"
  shows "free_loop m bp (hd ys) = free_loop m bp b"
  using assms(1-3,5)
proof (induction ys)
  case (Cons y ys)
  have lt: "bp < y" using Cons.prems by (simp add: word_less_nat_alt)
  show ?case
  proof (cases ys)
    case Nil
    have "s_ptr m y = b" "\<not> bp < b" using Cons.prems Nil assms(4) by (simp_all add: word_less_nat_alt)
    then show ?thesis using lt by (subst free_loop.simps) auto
  next
    case (Cons z zs)
    have "s_ptr m y = z" using Cons.prems Cons by simp
    moreover have "y < z" using Cons.prems Cons ext_pos(1) [of m y] by (simp add: word_less_nat_alt)
    ultimately have "free_loop m bp y = free_loop m bp z" using lt by (subst free_loop.simps) auto
    then show ?thesis using Cons.IH Cons.prems Cons by simp
  qed
qed simp

lemma loop_up:
  assumes "path m (zs @ p # ys) b" "room m (zs @ [p]) lim" "unat p < unat bp"
  shows "free_loop m bp (hd (zs @ [p])) = free_loop m bp p"
  using assms(1,2)
proof (induction zs)
  case (Cons z zs)
  let ?n = "hd (zs @ [p])"
  have "s_ptr m z = ?n" using Cons.prems by (cases zs) auto
  moreover have "z < ?n" using Cons.prems ext_pos(1) [of m z] by (cases zs) (auto simp: word_less_nat_alt)
  moreover have "unat ?n \<le> unat p"
  proof (cases zs)
    case (Cons a as)
    then have "room m ((z # a # as) @ [p]) lim" using Cons.prems by simp
    then show ?thesis using room_below [of m "z # a # as" "[p]" lim a p] Cons by simp
  qed simp
  then have "?n < bp" using assms(3) by (simp add: word_less_nat_alt)
  ultimately have "free_loop m bp z = free_loop m bp ?n" by (subst free_loop.simps) auto
  then show ?case using Cons by auto
qed simp

lemma free_loop_finds:
  assumes ring: "ring_ok m b ns lim" and ns: "ns = xs @ p # ys" and bt: "between m xs p ys bp k" and "0 < k" "q \<in> set ns"
  shows "free_loop m bp q = Some p"
proof -
  have pa: "path m (xs @ p # ys) b" and ro: "room m (xs @ p # ys) lim" using ring ns by (simp_all add: ring_ok_def)
  have plt: "unat p < unat bp" using bt ext_pos(1) [of m p] by (auto simp: between_def)
  have b: "b = hd (xs @ [p])" using ring ns by (cases xs) (auto simp: ring_ok_def)
  have rp: "room m (xs @ [p]) lim" using ro top_of_le [of m ys lim] by (simp add: room_append)
  have blt: "unat b < unat bp" using bt b ext_pos(1) [of m b] by (cases xs) (auto simp: between_def)
  have atp: "free_loop m bp p = Some p"
  proof (cases ys)
    case Nil
    have "s_ptr m p = b" using pa Nil by (simp add: path_append)
    moreover have "b \<le> p"
    proof (cases xs)
      case (Cons a as)
      then show ?thesis using b room_below [of m xs "p # ys" lim a p] ro by (simp add: word_le_nat_alt)
    qed (use b in simp)
    ultimately show ?thesis using plt by (subst free_loop.simps) (simp add: word_less_nat_alt)
  next
    case (Cons y zs)
    then have "s_ptr m p = y" "bp < y" using pa bt \<open>0 < k\<close> by (auto simp: path_append between_def word_less_nat_alt)
    then show ?thesis using plt by (subst free_loop.simps) (simp add: word_less_nat_alt)
  qed
  have up: "free_loop m bp n = Some p" if "n \<in> set (xs @ [p])" for n
  proof -
    have "\<exists>us zs. xs @ [p] = us @ zs @ [p] \<and> n = hd (zs @ [p])"
    proof (cases "n = p")
      case True
      then show ?thesis by (intro exI [of _ xs] exI [of _ "[]"]) simp
    next
      case False
      then have "n \<in> set xs" using that by simp
      then obtain us vs where "xs = us @ n # vs" using split_list by fastforce
      then show ?thesis by (intro exI [of _ us] exI [of _ "n # vs"]) simp
    qed
    then obtain us zs where z: "xs @ [p] = us @ zs @ [p]" "n = hd (zs @ [p])" by blast
    have "path m (zs @ p # ys) b" "room m (zs @ [p]) lim"
      using pa rp z(1) path_suffix [of m us "zs @ p # ys" b] room_suffix [of m us "zs @ [p]" lim] by simp_all
    then show ?thesis using loop_up [OF _ _ plt] atp z(2) by simp
  qed
  show ?thesis
  proof (cases "q \<in> set (xs @ [p])")
    case False
    then obtain us vs where v: "ys = us @ q # vs" using assms(5) ns split_list by fastforce
    have "path m (q # vs) b" "room m (q # vs) lim" 
      using pa ro v path_suffix [of m "xs @ p # us" "q # vs" b] room_suffix [of m "xs @ p # us" "q # vs" lim] by simp_all
    moreover have "\<forall>n \<in> set (q # vs). unat bp < unat n"
    proof
      fix n assume "n \<in> set (q # vs)"
      then have "unat bp + 8 * k \<le> unat n" using bt v by (simp add: between_def) blast
      then show "unat bp < unat n" using \<open>0 < k\<close> by linarith
    qed
    ultimately have "free_loop m bp q = free_loop m bp b" using loop_over [of m "q # vs" b lim bp] blt by simp
    then show ?thesis using up [of b] b by (cases xs) auto
  qed (rule up)
qed

text \<open>Bytes outside the header of \<open>x\<close> stay as they are.\<close>

definition touched :: "u32 \<Rightarrow> nat set" where
  "touched x = {unat x ..< unat x + 8}"

lemma header_bytes:
  assumes "unat x + 8 \<le> 2 ^ 32" "unat a \<notin> touched x"
  shows "set_ptr x v m a = m a" "set_size x v m a = m a"
proof -
  have u: "unat (x + 4) = unat x + 4" using assms(1) by (rule unat_add4)
  have d: "4 \<le> unat (a - y)" if "unat a < unat y \<and> unat y + 4 \<le> 2 ^ 32 \<or> unat y + 4 \<le> unat a" for y :: u32
  proof (cases "y \<le> a")
    case True
    then show ?thesis using that by (auto simp: unat_sub32 word_le_nat_alt)
  next
    case False
    then have "unat (a - y) = 2 ^ 32 + unat a - unat y" using unat_sub_if_size [of a y] by (simp add: word_size word_le_nat_alt)
    then show ?thesis using that False by (simp add: word_le_nat_alt)
  qed
  have "4 \<le> unat (a - x)" "4 \<le> unat (a - (x + 4))" using assms u by (auto intro!: d simp: touched_def)
  then show "set_ptr x v m a = m a" "set_size x v m a = m a" by (simp_all add: set_ptr_def set_size_def store32_other)
qed

lemma unat_end:
  assumes "unat x + 8 * unat k < 2 ^ 32"
  shows "unat (x + 8 * k :: u32) = unat x + 8 * unat k"
proof -
  have "unat (8 * k) = 8 * unat k" using assms by (subst unat_mult_lem [THEN iffD1]) simp_all
  then show ?thesis using assms by (subst unat_add32) simp_all
qed

lemma free_upper_ok:
  assumes ring: "ring_ok m b ns lim" and ns: "ns = xs @ p # ys" and bt: "between m xs p ys bp (unat (s_size m bp))"
    and bp: "4 dvd unat bp" "s_size m bp \<noteq> 0" "unat bp + 8 * unat (s_size m bp) \<le> lim"
  defines "m1 \<equiv> free_upper bp p m"
  shows "\<exists>ys1. s_ptr m1 bp = nxt ys1 b \<and> unat bp + 8 * unat (s_size m1 bp) \<le> top_of ys1 lim \<and> s_size m1 bp \<noteq> 0
    \<and> unat (s_size m bp) \<le> unat (s_size m1 bp) \<and> set ys1 \<subseteq> set ys \<and> path m ys1 b \<and> room m ys1 lim
    \<and> {unat bp ..< unat bp + 8 * unat (s_size m bp)} \<union> area m ys = {unat bp ..< unat bp + 8 * unat (s_size m1 bp)} \<union> area m ys1
    \<and> (\<forall>n \<in> set ns. s_ptr m1 n = s_ptr m n \<and> s_size m1 n = s_size m n) \<and> (\<forall>a. unat a \<notin> touched bp \<longrightarrow> m1 a = m a)"
proof -
  let ?k = "s_size m bp"
  have lim: "lim < 2 ^ 32" and pa: "path m (p # ys) b" and ro: "room m (p # ys) lim" and al: "\<forall>n \<in> set ns. 4 dvd unat n"
    using ring by (simp_all add: ring_ok_def ns path_append room_append)
  have k: "0 < unat ?k" using bp(2) by (simp add: unat_gt_0)
  have b8: "unat bp + 8 \<le> 2 ^ 32" using bp(3) k lim by linarith
  have far: "far bp n" if "n \<in> set ns" for n
  proof -
    have "unat n + 8 * ext m n \<le> unat bp \<or> unat bp + 8 * unat ?k \<le> unat n" using bt that ns by (auto simp: between_def)
    moreover have "unat n + 8 * ext m n \<le> lim" using ring that room_le [of m ns lim n] by (simp add: ring_ok_def)
    ultimately show ?thesis using ext_pos(1) [of m n] k b8 lim al bp(1) that by (auto simp: far_def)
  qed
  note hs = header_same [OF bp(1) b8] and hf = header_far [OF far]
  have p: "p \<in> set ns" by (simp add: ns)
  have e: "unat (bp + 8 * ?k) = unat bp + 8 * unat ?k" using bp(3) lim by (intro unat_end) simp
  have sp: "s_ptr m p = nxt ys b" using pa by simp
  show ?thesis
  proof (cases "bp + 8 * ?k = s_ptr m p")
    case False
    then have m1: "m1 = set_ptr bp (nxt ys b) m" by (simp add: m1_def free_upper_def sp)
    have "unat bp + 8 * unat ?k \<le> top_of ys lim" using bt bp(3) by (cases ys) (auto simp: between_def)
    then show ?thesis using bp(2) pa ro hs hf header_bytes [OF b8] by (intro exI [of _ ys]) (simp add: m1)
  next
    case True
    have "ys \<noteq> []"
    proof
      assume "ys = []"
      then have "unat bp < unat b" using True e k sp by auto
      moreover have "unat b + 8 * ext m b \<le> unat bp" using ring bt ns by (cases xs) (auto simp: ring_ok_def between_def)
      ultimately show False using ext_pos(1) [of m b] by linarith
    qed
    then obtain y zs where ys: "ys = y # zs" by (meson neq_Nil_conv)
    have y: "y \<in> set ns" "y \<in> set (tl ns)" "s_ptr m p = y" using ns ys sp by (cases xs; simp)+
    have ey: "unat y = unat bp + 8 * unat ?k" using True e y(3) by simp
    have ry: "unat y + 8 * ext m y \<le> top_of zs lim" "path m zs b" "room m zs lim" "s_ptr m y = nxt zs b" using pa ro ys by simp_all
    have m1: "m1 = set_ptr bp (s_ptr m y) (set_size bp (?k + s_size m y) m)"
      using True y p hf by (simp add: m1_def free_upper_def Let_def)
    have "top_of zs lim \<le> lim" using top_of_le [OF ry(3)] .
    then have sum: "unat (?k + s_size m y) = unat ?k + unat (s_size m y)"
      using ry(1) ey ext_pos(2) [of m y] lim by (intro unat_add32) simp
    have sz: "s_size m1 bp = ?k + s_size m y" "s_ptr m1 bp = nxt zs b" using hs ry(4) by (simp_all add: m1)
    have "{unat bp ..< unat bp + 8 * unat ?k} \<union> area m ys = {unat bp ..< unat bp + 8 * unat (s_size m1 bp)} \<union> area m zs"
      using ey k by (auto simp: area_def ys sz sum)
    moreover have "unat bp + 8 * unat (s_size m1 bp) \<le> top_of zs lim" using ry(1) ey ext_pos(2) [of m y] by (simp add: sz sum)
    moreover have "s_size m1 bp \<noteq> 0" "unat ?k \<le> unat (s_size m1 bp)" using sum k sz by (metis add_is_0 unat_0 less_irrefl, simp)
    moreover have "\<forall>n \<in> set ns. s_ptr m1 n = s_ptr m n \<and> s_size m1 n = s_size m n" using hf by (simp add: m1)
    moreover have "\<forall>a. unat a \<notin> touched bp \<longrightarrow> m1 a = m a" using header_bytes [OF b8] by (simp add: m1)
    ultimately show ?thesis using ry(2,3) sz(2) ys by (intro exI [of _ zs]) auto
  qed
qed

lemma free_lower_ok:
  assumes ring: "ring_ok m b ns lim" and ns: "ns = xs @ p # ys" and lo: "\<forall>n \<in> set (xs @ [p]). unat n + 8 * ext m n \<le> unat bp"
    and bp: "4 dvd unat bp" "s_size m1 bp \<noteq> 0" "s_ptr m1 bp = nxt ys1 b" "unat bp + 8 * unat (s_size m1 bp) \<le> top_of ys1 lim"
    and ys1: "set ys1 \<subseteq> set ys" "path m ys1 b" "room m ys1 lim"
    and same: "\<forall>n \<in> set ns. s_ptr m1 n = s_ptr m n \<and> s_size m1 n = s_size m n"
  defines "m2 \<equiv> free_lower bp p m1"
  shows "\<exists>ns'. ring_ok m2 b ns' lim \<and> p \<in> set ns' \<and> (\<exists>n \<in> set ns'. unat (s_size m1 bp) \<le> unat (s_size m2 n))
    \<and> area m2 ns' = area m (xs @ [p]) \<union> {unat bp ..< unat bp + 8 * unat (s_size m1 bp)} \<union> area m ys1
    \<and> (\<forall>a. unat a \<notin> touched p \<longrightarrow> m2 a = m1 a)"
proof -
  let ?k = "s_size m1 bp"
  have lim: "lim < 2 ^ 32" and al: "\<forall>n \<in> set ns. 4 dvd unat n" and sb: "s_size m b = 0" and nz: "\<forall>n \<in> set (tl ns). s_size m n \<noteq> 0"
    and roo: "room m (xs @ p # ys) lim" and pat: "path m (xs @ p # ys) b" and hdb: "hd (xs @ [p]) = b"
    using ring ns by (auto simp: ring_ok_def hd_append)
  have pa: "path m xs p" using pat by (simp add: path_append)
  have ro: "room m xs (unat p)" using roo by (simp add: room_append)
  have p: "p \<in> set ns" "4 dvd unat p" "unat p + 8 * ext m p \<le> unat bp" using ns al lo by simp_all
  have k: "0 < unat ?k" using bp(2) by (simp add: unat_gt_0)
  have top: "top_of ys1 lim \<le> lim" using top_of_le [OF ys1(3)] .
  have p8: "unat p + 8 \<le> 2 ^ 32" using p(3) ext_pos(1) [of m p] bp(4) top lim by linarith
  have fb: "far p bp" using p ext_pos(1) [of m p] bp(1,4) k top lim by (simp add: far_def)
  have fn: "far p n" if "n \<in> set xs \<union> set ys1" for n using room_far [OF roo lim] al ns ys1(1) that by auto
  note hs = header_same [OF p(2) p8] and hf = header_far [OF fn] and hb = header_far [OF fb]
  have sm: "s_ptr m1 n = s_ptr m n" "s_size m1 n = s_size m n" if "n \<in> set xs \<union> {p} \<union> set ys1" for n using same that ns ys1(1) by auto
  have tlz: "\<forall>n \<in> set ys1. s_size m n \<noteq> 0" using nz ns ys1(1) by (cases xs) auto
  have ep: "unat (p + 8 * s_size m p) = unat p + 8 * unat (s_size m p)"
    using p(3) ext_pos(2) [of m p] bp(4) top lim by (intro unat_end) linarith
  show ?thesis
  proof (cases "p + 8 * s_size m1 p = bp")
    case False
    then have m2: "m2 = set_ptr p bp m1" by (simp add: m2_def free_lower_def)
    let ?ns = "xs @ p # bp # ys1"
    have h: "s_ptr m2 n = s_ptr m n" "s_size m2 n = s_size m n" if "n \<in> set xs \<union> set ys1" for n using hf that sm by (simp_all add: m2)
    have hp: "s_ptr m2 p = bp" "s_size m2 p = s_size m p" "s_ptr m2 bp = nxt ys1 b" "s_size m2 bp = ?k" using hs hb sm bp(3) by (simp_all add: m2)
    have "path m2 ?ns b" using pa ys1(2) hp h path_cong [of xs m2 m p] path_cong [of ys1 m2 m b] by (simp add: path_append)
    moreover have "room m2 ?ns lim"
      using ro ys1(3) p(3) bp(4) k hp h room_cong [of xs m2 m "unat p"] room_cong [of ys1 m2 m lim] by (simp add: room_append ext_def)
    moreover have "s_size m2 b = 0" using hdb sb hp h by (cases xs) auto
    moreover have "\<forall>n \<in> set (tl ?ns). s_size m2 n \<noteq> 0" using tlz nz ns hp h bp(2) by (cases xs) auto
    moreover have "area m2 ?ns = area m (xs @ [p]) \<union> {unat bp ..< unat bp + 8 * unat ?k} \<union> area m ys1"
      using hp h by (auto simp: area_def)
    moreover have "\<forall>a. unat a \<notin> touched p \<longrightarrow> m2 a = m1 a" using header_bytes [OF p8] by (simp add: m2)
    moreover have "hd ?ns = b" "\<forall>n \<in> set ?ns. 4 dvd unat n" using hdb al ns ys1(1) bp(1) by (auto simp: hd_append)
    moreover have "\<exists>n \<in> set ?ns. unat ?k \<le> unat (s_size m2 n)" using hp by auto
    ultimately show ?thesis using lim by (intro exI [of _ ?ns]) (simp add: ring_ok_def)
  next
    case True
    then have e: "unat bp = unat p + 8 * unat (s_size m p)" using ep sm by auto
    then have "s_size m p \<noteq> 0" using p(3) ext_pos(1) [of m p] by auto
    then have x: "xs \<noteq> []" using hdb sb by auto
    have m2: "m2 = set_ptr p (s_ptr m1 bp) (set_size p (s_size m p + ?k) m1)"
      using True sm hb by (simp add: m2_def free_lower_def Let_def)
    let ?ns = "xs @ p # ys1"
    have sum: "unat (s_size m p + ?k) = unat (s_size m p) + unat ?k" using e bp(4) top lim by (intro unat_add32) simp
    have h: "s_ptr m2 n = s_ptr m n" "s_size m2 n = s_size m n" if "n \<in> set xs \<union> set ys1" for n using hf that sm by (simp_all add: m2)
    have hp: "s_ptr m2 p = nxt ys1 b" "s_size m2 p = s_size m p + ?k" using hs bp(3) by (simp_all add: m2)
    have "path m2 ?ns b" using pa ys1(2) hp h path_cong [of xs m2 m p] path_cong [of ys1 m2 m b] by (simp add: path_append)
    moreover have "room m2 ?ns lim"
      using ro ys1(3) e bp(4) k hp h sum room_cong [of xs m2 m "unat p"] room_cong [of ys1 m2 m lim] by (simp add: room_append ext_def)
    moreover have "s_size m2 b = 0" using hdb sb h x by (cases xs) auto
    moreover have "s_size m2 p \<noteq> 0" using hp sum k by (metis add_is_0 unat_0 less_irrefl)
    then have "\<forall>n \<in> set (tl ?ns). s_size m2 n \<noteq> 0" using tlz nz ns h x by (cases xs) auto
    moreover have "area m2 ?ns = area m (xs @ [p]) \<union> {unat bp ..< unat bp + 8 * unat ?k} \<union> area m ys1"
      using hp h sum e by (auto simp: area_def)
    moreover have "\<forall>a. unat a \<notin> touched p \<longrightarrow> m2 a = m1 a" using header_bytes [OF p8] by (simp add: m2)
    moreover have "hd ?ns = b" "\<forall>n \<in> set ?ns. 4 dvd unat n" using hdb al ns ys1(1) by (auto simp: hd_append)
    moreover have "\<exists>n \<in> set ?ns. unat ?k \<le> unat (s_size m2 n)" using hp sum by auto
    ultimately show ?thesis using lim by (intro exI [of _ ?ns]) (simp add: ring_ok_def)
  qed
qed

lemma free_ok:
  assumes ring: "ring_ok (um_mem s) (base_addr s) ns lim" "freep s \<in> set ns" and o: "outside (um_mem s) ns lim bp (unat (s_size (um_mem s) bp))"
  shows "\<exists>s' ns'. free s (bp + 8) = Some s' \<and> ring_ok (um_mem s') (base_addr s) ns' lim \<and> freep s' \<in> set ns' \<and> base_addr s' = base_addr s \<and> brk s' = brk s
    \<and> (\<exists>n \<in> set ns'. unat (s_size (um_mem s) bp) \<le> unat (s_size (um_mem s') n))
    \<and> area (um_mem s') ns' = area (um_mem s) ns \<union> {unat bp ..< unat bp + 8 * unat (s_size (um_mem s) bp)}
    \<and> (\<forall>a. unat a \<notin> touched bp \<union> (\<Union>n \<in> set ns. touched n) \<longrightarrow> um_mem s' a = um_mem s a)"
proof -
  let ?m = "um_mem s" and ?b = "base_addr s"
  have r: "room ?m ns lim" "ns \<noteq> []" using ring(1) by (simp_all add: ring_ok_def)
  obtain xs p ys where ns: "ns = xs @ p # ys" and bt: "between ?m xs p ys bp (unat (s_size ?m bp))" using find_between [OF r o] by blast
  have bp: "4 dvd unat bp" "s_size ?m bp \<noteq> 0" "unat bp + 8 * unat (s_size ?m bp) \<le> lim" "0 < unat (s_size ?m bp)"
    using o by (auto simp: outside_def)
  have f: "free_loop ?m bp (freep s) = Some p" using free_loop_finds [OF ring(1) ns bt bp(4) ring(2)] .
  obtain ys1 where u: "s_ptr (free_upper bp p ?m) bp = nxt ys1 ?b" "unat bp + 8 * unat (s_size (free_upper bp p ?m) bp) \<le> top_of ys1 lim"
    "s_size (free_upper bp p ?m) bp \<noteq> 0" "set ys1 \<subseteq> set ys" "path ?m ys1 ?b" "room ?m ys1 lim"
    "{unat bp ..< unat bp + 8 * unat (s_size ?m bp)} \<union> area ?m ys = {unat bp ..< unat bp + 8 * unat (s_size (free_upper bp p ?m) bp)} \<union> area ?m ys1"
    "\<forall>n \<in> set ns. s_ptr (free_upper bp p ?m) n = s_ptr ?m n \<and> s_size (free_upper bp p ?m) n = s_size ?m n"
    "\<forall>a. unat a \<notin> touched bp \<longrightarrow> free_upper bp p ?m a = ?m a" "unat (s_size ?m bp) \<le> unat (s_size (free_upper bp p ?m) bp)"
    using free_upper_ok [OF ring(1) ns bt bp(1-3)] by blast
  have lo: "\<forall>n \<in> set (xs @ [p]). unat n + 8 * ext ?m n \<le> unat bp" using bt by (simp add: between_def)
  obtain ns' where n: "ring_ok (free_lower bp p (free_upper bp p ?m)) ?b ns' lim" "p \<in> set ns'"
    "\<exists>n \<in> set ns'. unat (s_size (free_upper bp p ?m) bp) \<le> unat (s_size (free_lower bp p (free_upper bp p ?m)) n)"
    "area (free_lower bp p (free_upper bp p ?m)) ns' = area ?m (xs @ [p]) \<union> {unat bp ..< unat bp + 8 * unat (s_size (free_upper bp p ?m) bp)} \<union> area ?m ys1"
    "\<forall>a. unat a \<notin> touched p \<longrightarrow> free_lower bp p (free_upper bp p ?m) a = free_upper bp p ?m a"
    using free_lower_ok [OF ring(1) ns lo bp(1) u(3,1,2,4,5,6,8)] by blast
  let ?s = "s\<lparr>um_mem := free_lower bp p (free_upper bp p ?m), freep := p\<rparr>"
  have "free s (bp + 8) = Some ?s" using f by (simp add: free_def Let_def)
  moreover have "area (um_mem ?s) ns' = area ?m ns \<union> {unat bp ..< unat bp + 8 * unat (s_size ?m bp)}"
  proof -
    have "area ?m ns = area ?m (xs @ [p]) \<union> area ?m ys" by (auto simp: area_def ns)
    then show ?thesis using n(4) u(7) by auto
  qed
  moreover have "\<forall>a. unat a \<notin> touched bp \<union> (\<Union>n \<in> set ns. touched n) \<longrightarrow> um_mem ?s a = ?m a" using n(5) u(9) ns by auto
  moreover have "\<exists>n \<in> set ns'. unat (s_size ?m bp) \<le> unat (s_size (um_mem ?s) n)" using n(3) u(10) by (auto intro: order_trans)
  ultimately show ?thesis using n(1,2) by (intro exI [of _ ?s] exI [of _ ns']) simp
qed

section \<open>Taking a block\<close>





section \<open>Searching the ring\<close>







section \<open>More memory\<close>




text \<open>The states of the allocator. Before the first call of \<^verbatim>\<open>malloc\<close> there is no ring.\<close>

definition heap_ok :: "um_st \<Rightarrow> u32 list \<Rightarrow> bool" where
  "heap_ok s ns \<longleftrightarrow> 4 dvd unat (base_addr s) \<and> base_addr s \<noteq> 0 \<and> 4 dvd unat (brk s) \<and> unat (base_addr s) + 8 \<le> unat (brk s)
     \<and> (if freep s = 0 then ns = [] else ring_ok (um_mem s) (base_addr s) ns (unat (brk s)) \<and> freep s \<in> set ns)"

lemma ring_nonzero:
  assumes "ring_ok m b ns lim" "f \<in> set ns" "b \<noteq> 0"
  shows "f \<noteq> 0"
proof -
  obtain ns' where ns: "ns = b # ns'" using assms(1) by (cases ns) (auto simp: ring_ok_def)
  then have "room m ([b] @ ns') lim" using assms(1) by (simp add: ring_ok_def)
  then have "unat b \<le> unat f" using room_below [of m "[b]" ns' lim b f] assms(2) ns by (cases "f = b") auto
  then show ?thesis using assms(3) by (auto simp: word_unat_eq_iff)
qed




section \<open>Properties\<close>

text \<open>The number of headers that a request for \<open>n\<close> bytes takes.\<close>

lemma nunits:
  assumes "unat n < 2 ^ 30"
  shows "unat ((n + 8 - 1) div 8 + 1 :: u32) = (unat n + 7) div 8 + 1"
proof -
  have "n + 8 - 1 = n + 7" by simp
  moreover have "unat (n + 7) = unat n + 7" using assms by (subst unat_add32) simp_all
  ultimately have "unat ((n + 8 - 1) div 8) = (unat n + 7) div 8" by (simp only: unat_div) simp
  then show ?thesis using assms by (subst unat_add32) (simp_all add: less_mult_imp_div_less)
qed







text \<open>
  C15: \<^verbatim>\<open>free()\<close> returns, and the ring of free blocks then covers exactly the blocks it covered before and the block that was given back, in the order of their
  addresses and without overlap. No byte outside the headers of free blocks changes.
\<close>

theorem free_correct:
  assumes "heap_ok s ns" "freep s \<noteq> 0" "outside (um_mem s) ns (unat (brk s)) bp (unat (s_size (um_mem s) bp))"
  shows "\<exists>s' ns'. free s (bp + 8) = Some s' \<and> heap_ok s' ns'
    \<and> area (um_mem s') ns' = area (um_mem s) ns \<union> {unat bp ..< unat bp + 8 * unat (s_size (um_mem s) bp)}
    \<and> (\<forall>a. unat a \<notin> touched bp \<union> (\<Union>n \<in> set ns. touched n) \<longrightarrow> um_mem s' a = um_mem s a)"
proof -
  have r: "ring_ok (um_mem s) (base_addr s) ns (unat (brk s))" "freep s \<in> set ns" using assms(1,2) by (simp_all add: heap_ok_def)
  obtain s' ns' where f: "free s (bp + 8) = Some s'" "ring_ok (um_mem s') (base_addr s) ns' (unat (brk s))" "freep s' \<in> set ns'"
    "base_addr s' = base_addr s" "brk s' = brk s"
    "area (um_mem s') ns' = area (um_mem s) ns \<union> {unat bp ..< unat bp + 8 * unat (s_size (um_mem s) bp)}"
    "\<forall>a. unat a \<notin> touched bp \<union> (\<Union>n \<in> set ns. touched n) \<longrightarrow> um_mem s' a = um_mem s a"
    using free_ok [OF r assms(3)] by blast
  have "base_addr s \<noteq> 0" using assms(1) by (simp add: heap_ok_def)
  then have "heap_ok s' ns'" using f ring_nonzero [OF f(2,3)] assms(1) by (simp add: heap_ok_def)
  then show ?thesis using f by blast
qed

theorem free_correct_witness:
  "\<exists>s s' ns'. heap_ok s [0x1000] \<and> free s 0x1808 = Some s' \<and> heap_ok s' ns' \<and> area (um_mem s') ns' = {0x1800 ..< 0x1810}"
proof -
  define m :: memory where "m = set_size 0x1800 2 (set_ptr 0x1000 0x1000 (\<lambda>_. 0))"
  let ?s = "\<lparr>um_mem = m, freep = 0x1000, base_addr = 0x1000, brk = 0x2000\<rparr>"
  have far: "far 0x1800 0x1000" by (simp add: far_def)
  have h: "s_ptr m 0x1000 = 0x1000" "s_size m 0x1000 = 0" "s_size m 0x1800 = 2"
    using header_far [OF far] header_same [of "0x1000"] header_same [of "0x1800"] by (simp_all add: m_def s_size_def)
  have ok: "heap_ok ?s [0x1000]" using h by (simp add: heap_ok_def ring_ok_def ext_def)
  have o: "outside (um_mem ?s) [0x1000] (unat (brk ?s)) 0x1800 (unat (s_size (um_mem ?s) 0x1800))" using h by (simp add: outside_def ext_def)
  have "area m [0x1000] = {}" using h by (simp add: area_def)
  then show ?thesis using free_correct [OF ok _ o] ok h by - (rule exI [of _ ?s], auto)
qed

text \<open>
  The number of bytes wraps around in the computation of the number of headers: a request for the largest number is treated like a
  request for none, and one for slightly less asks \<^verbatim>\<open>sbrk()\<close> to shrink the process by eight bytes.
\<close>

lemma malloc_wraps: "malloc grow s 0xFFFFFFFF = malloc grow s 0"
  by (simp add: malloc_def)

lemma malloc_shrinks: "((0xFFFFFFF0 + 8 - 1) div 8 + 1) * 8 = (- 8 :: u32)"
  by simp

end
