(* ===== verification/Spec2Isabelle.thy ===== *)
theory Spec2Isabelle
  imports Copyout Sleepsync Wmap Allocproc Recovery Grep Shtext Mp Pagefault Progress Filewrite Ide Umalloc
begin

text \<open>
  A verification of xv6 (\<^verbatim>\<open>src/xv6-public\<close>), a small Unix for x86 multiprocessors, extended by
  the system calls \<open>wmap\<close>, \<open>wunmap\<close>, \<open>wremap\<close>, \<open>getpgdirinfo\<close> and \<open>getwmapinfo\<close> for lazily loaded memory mappings.

  \<^bold>\<open>Modelling.\<close> Every C function is one definition, in the order of the source. An \<open>int\<close> or \<open>uint\<close> is a
  \<open>32 word\<close>, so arithmetic wraps; signed comparisons are \<open><s\<close> and \<open>\<le>s\<close>. A function
  that can fail returns \<open>'a res\<close> (theory Prelude): \<open>Ret\<close>, \<open>Panic\<close> with the message of
  \<^verbatim>\<open>panic()\<close>, \<open>Fault\<close> for an access through a bad pointer or outside an array, \<open>Diverge\<close> for a loop that
  provably never ends, and \<open>Block\<close> where the caller goes to sleep. The kernel state is
  one chain of extensible records, each component adding its globals: \<open>kmem_st\<close> (byte memory and free list),
  \<open>vm_st\<close>, \<open>proc_st\<close> (process table and CPUs), \<open>bio_st\<close> (buffers and disk), \<open>log_st\<close>,
  \<open>fs_st\<close>, \<open>cons_st\<close>, \<open>file_st\<close>, \<open>kern_st\<close>, \<open>trap_st\<close>. An operation is
  polymorphic in the fields it does not know, and its lemmas hold in every later state.

  \<^bold>\<open>Memory.\<close> Mmu has the macros of \<^verbatim>\<open>mmu.h\<close> and \<^verbatim>\<open>memlayout.h\<close>; Mem has byte memory with
  little-endian words and \<^verbatim>\<open>string.c\<close>; Kalloc is \<^verbatim>\<open>kalloc.c\<close>. Vm is \<^verbatim>\<open>vm.c\<close>; Pagetable and
  Uvm prove its correctness against an abstract map from pages to frames, Copyout that of \<open>copyout\<close> and \<open>uva2ka\<close>.
  The page allocator is used through a locale that its free list interprets.

  \<^bold>\<open>Locks and processes.\<close> Spinlock is \<^verbatim>\<open>spinlock.c\<close> with an interleaving of the memory accesses of
  any number of CPUs; Sleeplock is \<^verbatim>\<open>sleeplock.c\<close>; both interpret one locale of locks. Procdata has the records of
  \<^verbatim>\<open>proc.h\<close> and \<^verbatim>\<open>wmap.h\<close>; Proc and Sched are \<^verbatim>\<open>proc.c\<close>. \<^verbatim>\<open>swtch\<close> cuts each
  operation that gives up the CPU into the part before it and the part after it; the relation \<open>sys_step\<close> interleaves these
  parts over all CPUs. Allocproc has the contract of \<open>allocproc\<close>; Fork has \<open>fork\<close>, \<open>exit\<close>,
  \<open>wait\<close> and the first process. Wmap has the table of mappings and the five calls of \<^verbatim>\<open>sysfile.c\<close> on it.

  \<^bold>\<open>Files.\<close> Diskfmt has the on-disk formats of \<^verbatim>\<open>fs.h\<close>; Bio is \<^verbatim>\<open>bio.c\<close> over the memory disk of
  \<^verbatim>\<open>memide.c\<close>; Log is \<^verbatim>\<open>log.c\<close>; Fs and Dir are \<^verbatim>\<open>fs.c\<close>. Bcache proves that the ring of
  buffers implements a map from block numbers to contents (\<open>view\<close>) under the invariant \<open>binv\<close>; Logwrite
  gives the contracts of the loops of the log in terms of the disk writes they make; Recovery proves
  that a commit is atomic under crashes. The ghost field \<open>diskwrites\<close> records the writes in order; no code reads it.
  Pipe is \<^verbatim>\<open>pipe.c\<close>, a locale of queues interpreted on its ring buffer; File is \<^verbatim>\<open>file.c\<close>.

  \<^bold>\<open>System calls and devices.\<close> Syscall is \<^verbatim>\<open>syscall.c\<close> and \<^verbatim>\<open>sysproc.c\<close>, Sysfile
  the file calls of \<^verbatim>\<open>sysfile.c\<close>, Exec is \<^verbatim>\<open>exec.c\<close>, Console is \<^verbatim>\<open>console.c\<close>, Kbd is
  \<^verbatim>\<open>kbd.c\<close> with the tables of \<^verbatim>\<open>kbd.h\<close>, Trap is \<^verbatim>\<open>trap.c\<close> with the page fault
  handler that loads mappings. User memory is read and written through the page table of the process; an uninitialised
  local variable has an arbitrary value, an argument \<open>junk\<close> of the definition.

  \<^bold>\<open>Bounds.\<close> Loops over addresses recurse on the distance to the end of the address space and are total. The search
  through the ring of buffers takes at most 31 steps in a ring of 31 cells; a longer walk is \<open>Diverge\<close>.
  The scan of strings in user memory takes at most \<open>2 ^ 32\<close> steps.

  \<^bold>\<open>Not modelled.\<close> Sections guarded by one spin lock are atomic steps of the model, except in Spinlock and Sched, where the
  interleaving is explicit. Device registers (interrupt controllers, the IDE controller, the timer
  chip), the boot sequence and assembly code have no state in the model. Messages of \<^verbatim>\<open>cprintf\<close> in the code
  for mappings and traps are left out; the console itself is modelled. User programs run above the
  system call interface and are not part of the kernel state.
\<close>

end
